(* ===== verification/Prelude.thy ===== *)
theory Prelude
  imports Main "HOL-Library.Word"
begin

text \<open>
  Shared vocabulary of the development: machine types, outcomes of C code, the allocator and
  the list and map lemmas that several components use.

  \<^item> \<open>u32\<close> is \<^verbatim>\<open>HWSize_t\<close> and \<open>u64\<close> is \<^verbatim>\<open>HTKey_t\<close> / \<^verbatim>\<open>DocID_t\<close>; pointers are
    natural numbers with \<open>NULL = 0\<close>.
  \<^item> A function of the program returns \<open>error + 'a\<close>: \<open>Inr\<close> is a normal return, \<open>Inl\<close> is an
    execution that does not return normally.
  \<^item> \<open>malloc\<close> hands out a fresh address at every call, or \<open>NULL\<close> when the failure oracle \<open>oom\<close>
    says that this call fails. Addresses are never reused, so every access to a freed object
    is a \<open>MemFault\<close> of the model.
  \<^item> The state also holds \<^verbatim>\<open>errno\<close>, because the crawler tests it where no call has set it, and the
    number of unused bytes behind a local variable, because the index writer stores eight bytes
    into one of four.
\<close>

section \<open>Machine types and outcomes\<close>

type_synonym u8 = "8 word"
type_synonym u16 = "16 word"
type_synonym u32 = "32 word"
type_synonym u64 = "64 word"
type_synonym ptr = nat

abbreviation (input) NULL :: ptr where
  "NULL \<equiv> 0"

text \<open>
  How an execution can end abnormally: a failed \<^verbatim>\<open>Verify333\<close> (which prints and calls
  \<^verbatim>\<open>exit\<close>), an access to memory that is not allocated or outside of an object (undefined behaviour
  in C), a loop that used up the fuel of the model, and a C++ exception that nobody catches.
\<close>

datatype error = VerificationFailure | MemFault | OutOfFuel | UncaughtException

type_synonym 'a res = "error + 'a"

definition Verify333 :: "bool \<Rightarrow> 'a res \<Rightarrow> 'a res" where
  "Verify333 b k = (if b then k else Inl VerificationFailure)"

definition andThen :: "'a res \<Rightarrow> ('a \<Rightarrow> 'b res) \<Rightarrow> 'b res" where
  "andThen r k = (case r of Inl e \<Rightarrow> Inl e | Inr x \<Rightarrow> k x)"

text \<open>Reading through a pointer: \<open>load m p k\<close> continues with the object at \<open>p\<close>.\<close>

definition load :: "(ptr \<rightharpoonup> 'a) \<Rightarrow> ptr \<Rightarrow> ('a \<Rightarrow> 'b res) \<Rightarrow> 'b res" where
  "load m p k = (case m p of None \<Rightarrow> Inl MemFault | Some x \<Rightarrow> k x)"

lemma Verify333_simps [simp]:
  "Verify333 True k = k"
  "Verify333 False k = Inl VerificationFailure"
  by (simp_all add: Verify333_def)

lemma Verify333_Inr_iff: "Verify333 b k = Inr x \<longleftrightarrow> b \<and> k = Inr x"
  by (simp add: Verify333_def)

lemma andThen_simps [simp]:
  "andThen (Inl e) k = Inl e"
  "andThen (Inr x) k = k x"
  by (simp_all add: andThen_def)

lemma andThen_Inr_iff: "andThen r k = Inr y \<longleftrightarrow> (\<exists>x. r = Inr x \<and> k x = Inr y)"
  by (simp add: andThen_def split: sum.splits)

lemma load_Some [simp]: "m p = Some x \<Longrightarrow> load m p k = k x"
  by (simp add: load_def)

lemma load_None [simp]: "m p = None \<Longrightarrow> load m p k = Inl MemFault"
  by (simp add: load_def)

section \<open>The allocator\<close>

text \<open>
  \<open>frame_slack\<close>: how many bytes the compiler has left unused behind the local variable that is
  written beyond its end (\<^verbatim>\<open>hw3/fileindexwriter.cc:222\<close>). The language promises none.
\<close>

record mem =
  clock :: nat
  oom :: "nat \<Rightarrow> bool"
  errno :: int
  frame_slack :: nat

text \<open>The values of \<^verbatim>\<open>errno\<close> that the system calls of the program leave (\<^verbatim>\<open>errno.h\<close> of Linux).\<close>

definition ENOENT :: int where "ENOENT = 2"
definition EINTR :: int where "EINTR = 4"
definition EIO :: int where "EIO = 5"
definition EAGAIN :: int where "EAGAIN = 11"
definition ENOMEM :: int where "ENOMEM = 12"

text \<open>The test \<^verbatim>\<open>errno == EINTR || errno == EAGAIN\<close>.\<close>

definition retriable :: "int \<Rightarrow> bool" where
  "retriable e \<longleftrightarrow> e = EINTR \<or> e = EAGAIN"

lemma retriable_simps [simp]:
  "retriable EINTR" "retriable EAGAIN" "\<not> retriable ENOENT" "\<not> retriable EIO" "\<not> retriable ENOMEM"
  "\<not> retriable 0"
  by (simp_all add: retriable_def EINTR_def EAGAIN_def ENOENT_def EIO_def ENOMEM_def)

text \<open>A call of \<open>malloc\<close> that succeeds leaves \<^verbatim>\<open>errno\<close> alone.\<close>

definition malloc :: "'a mem_scheme \<Rightarrow> ptr \<times> 'a mem_scheme" where
  "malloc s =
     (if oom s (clock s) then (NULL, s\<lparr>clock := Suc (clock s), errno := ENOMEM\<rparr>)
      else (Suc (clock s), s\<lparr>clock := Suc (clock s)\<rparr>))"

text \<open>The address space in which no call of \<open>malloc\<close> fails.\<close>

definition reliable :: "'a mem_scheme \<Rightarrow> bool" where
  "reliable s \<longleftrightarrow> (\<forall>n. \<not> oom s n)"

text \<open>The bytes that a pointer stored at the four-byte local variable runs over are unused.\<close>

definition spare_frame :: "'a mem_scheme \<Rightarrow> bool" where
  "spare_frame s \<longleftrightarrow> 4 \<le> frame_slack s"

text \<open>The state in which a program starts when memory never runs out.\<close>

definition mem_at :: "nat \<Rightarrow> (nat \<Rightarrow> bool) \<Rightarrow> mem" where
  "mem_at n f = \<lparr>clock = n, oom = f, errno = 0, frame_slack = 4\<rparr>"

definition fresh_mem :: mem where
  "fresh_mem = mem_at 0 (\<lambda>_. False)"

lemma mem_at_simps [simp]:
  "clock (mem_at n f) = n" "oom (mem_at n f) = f" "errno (mem_at n f) = 0"
  "frame_slack (mem_at n f) = 4" "spare_frame (mem_at n f)"
  "(mem_at n f)\<lparr>clock := k\<rparr> = mem_at k f"
  by (simp_all add: mem_at_def spare_frame_def)

lemma reliable_mem_at [simp]: "reliable (mem_at n (\<lambda>_. False))"
  by (simp add: reliable_def)

lemma reliable_fresh_mem [simp]: "reliable fresh_mem"
  by (simp add: fresh_mem_def)

lemma fresh_mem_simps [simp]:
  "clock fresh_mem = 0" "errno fresh_mem = 0" "spare_frame fresh_mem"
  by (simp_all add: fresh_mem_def)

lemma malloc_ok:
  "\<not> oom s (clock s) \<Longrightarrow> malloc s = (Suc (clock s), s\<lparr>clock := Suc (clock s)\<rparr>)"
  by (simp add: malloc_def)

lemma malloc_fails:
  "oom s (clock s) \<Longrightarrow> malloc s = (NULL, s\<lparr>clock := Suc (clock s), errno := ENOMEM\<rparr>)"
  by (simp add: malloc_def)

lemma malloc_reliable:
  "reliable s \<Longrightarrow> malloc s = (Suc (clock s), s\<lparr>clock := Suc (clock s)\<rparr>)"
  by (simp add: malloc_def reliable_def)

lemma reliable_update [simp]:
  "reliable (s\<lparr>clock := n\<rparr>) = reliable s"
  "reliable (s\<lparr>errno := e\<rparr>) = reliable s"
  by (simp_all add: reliable_def)

lemma spare_frame_update [simp]:
  "spare_frame (s\<lparr>clock := n\<rparr>) = spare_frame s"
  "spare_frame (s\<lparr>errno := e\<rparr>) = spare_frame s"
  by (simp_all add: spare_frame_def)

text \<open>
  \<open>later m m'\<close>: the memory \<open>m'\<close> is reached from \<open>m\<close> by calls of \<open>malloc\<close> and by system calls that
  succeed; \<open>malloc\<close> fails on the same calls, every address handed out before stays handed out, and
  \<^verbatim>\<open>errno\<close> is what it was unless \<open>malloc\<close> can fail.
\<close>

definition later :: "mem \<Rightarrow> mem \<Rightarrow> bool" where
  "later m m' \<longleftrightarrow> oom m' = oom m \<and> clock m \<le> clock m' \<and> frame_slack m' = frame_slack m \<and>
     ((\<forall>n. \<not> oom m n) \<longrightarrow> errno m' = errno m)"

lemma later_refl [simp, intro]: "later m m"
  by (simp add: later_def)

lemma later_trans [trans]: "later m m' \<Longrightarrow> later m' m'' \<Longrightarrow> later m m''"
  by (auto simp: later_def)

lemma later_clock [simp]: "later m (m\<lparr>clock := n\<rparr>) \<longleftrightarrow> clock m \<le> n"
  by (simp add: later_def)

lemma later_reliable: "later m m' \<Longrightarrow> reliable m \<Longrightarrow> reliable m'"
  by (simp add: later_def reliable_def)

lemma later_spare: "later m m' \<Longrightarrow> spare_frame m \<Longrightarrow> spare_frame m'"
  by (simp add: later_def spare_frame_def)

lemma later_errno: "later m m' \<Longrightarrow> reliable m \<Longrightarrow> errno m' = errno m"
  by (simp add: later_def reliable_def)

lemma malloc_later: "malloc m = (p, m') \<Longrightarrow> later m m'"
  by (auto simp: malloc_def later_def split: if_splits)

section \<open>Lists and maps\<close>

lemma distinct_fst_split:
  assumes "distinct (map fst (xs @ (a, x) # ys))"
  shows "a \<notin> fst ` set xs" "a \<notin> fst ` set ys"
  using assms by auto

lemma in_fst_split:
  assumes "a \<in> fst ` set cs"
  obtains xs x ys where "cs = xs @ (a, x) # ys"
  using assms by (metis imageE prod.collapse split_list)

lemma map_of_eq_Some_set:
  "distinct (map fst ps) \<Longrightarrow> map_of ps k = Some v \<longleftrightarrow> (k, v) \<in> set ps"
  by (simp add: map_of_eq_Some_iff)

lemma of_nat_u32_inj:
  "m < 2 ^ 32 \<Longrightarrow> n < 2 ^ 32 \<Longrightarrow> (of_nat m :: u32) = of_nat n \<longleftrightarrow> m = n"
  by (simp add: word_of_nat_eq_iff take_bit_nat_eq_self)

lemma of_nat_u32_eq_0_iff:
  "n < 2 ^ 32 \<Longrightarrow> (of_nat n :: u32) = 0 \<longleftrightarrow> n = 0"
  using of_nat_u32_inj [of n 0] by simp

lemma of_nat_u32_eq_1_iff:
  "n < 2 ^ 32 \<Longrightarrow> (of_nat n :: u32) = 1 \<longleftrightarrow> n = 1"
  using of_nat_u32_inj [of n 1] by simp

lemma unat_of_nat_u32: "n < 2 ^ 32 \<Longrightarrow> unat (of_nat n :: u32) = n"
  by (simp add: unat_of_nat take_bit_nat_eq_self)

end
