(* ===== verification/CellList.thy ===== *)
theory CellList
  imports Prelude "HOL-Library.Multiset"
begin

text \<open>
  The contract of the linked list of \<^verbatim>\<open>hw1/LinkedList.h\<close>, stated on lists of cells. A cell is the
  address of a list node with the payload it carries; the list of the cells in order is what a
  customer of the linked list can observe, and the address is the identity by which an iterator
  holds on to a node while other nodes come and go. Each operation below is what the header
  promises; \<open>LinkedList\<close> proves that the pointer code does exactly this, and the hash table and
  the indices above it are modelled on these operations.

  An iterator is the address of the node it stands on (\<open>NULL\<close> when the code left it without one).
\<close>

section \<open>Cells\<close>

type_synonym 'p cells = "(ptr \<times> 'p) list"

fun first_addr :: "'p cells \<Rightarrow> ptr \<Rightarrow> ptr" where
  "first_addr [] q = q"
| "first_addr ((a, x) # cs) q = a"

fun last_addr :: "ptr \<Rightarrow> 'p cells \<Rightarrow> ptr" where
  "last_addr p [] = p"
| "last_addr p ((a, x) # cs) = last_addr a cs"

abbreviation addrs :: "'p cells \<Rightarrow> ptr set" where
  "addrs cs \<equiv> fst ` set cs"

text \<open>The address after and before a node; \<open>None\<close> when the node is not in the list.\<close>

fun next_addr :: "'p cells \<Rightarrow> ptr \<Rightarrow> ptr option" where
  "next_addr [] a = None"
| "next_addr ((b, x) # cs) a = (if a = b then Some (first_addr cs NULL) else next_addr cs a)"

fun prev_addr :: "ptr \<Rightarrow> 'p cells \<Rightarrow> ptr \<Rightarrow> ptr option" where
  "prev_addr p [] a = None"
| "prev_addr p ((b, x) # cs) a = (if a = b then Some p else prev_addr b cs a)"

text \<open>The cells from a node on.\<close>

fun cells_from :: "'p cells \<Rightarrow> ptr \<Rightarrow> 'p cells" where
  "cells_from [] a = []"
| "cells_from ((b, x) # cs) a = (if a = b then (b, x) # cs else cells_from cs a)"

definition remove_cell :: "ptr \<Rightarrow> 'p cells \<Rightarrow> 'p cells" where
  "remove_cell a cs = filter (\<lambda>c. fst c \<noteq> a) cs"

fun insert_cell_before :: "ptr \<Rightarrow> ptr \<times> 'p \<Rightarrow> 'p cells \<Rightarrow> 'p cells" where
  "insert_cell_before a c [] = []"
| "insert_cell_before a c ((b, x) # cs) =
     (if a = b then c # (b, x) # cs else (b, x) # insert_cell_before a c cs)"

section \<open>The operations\<close>

definition cl_count :: "'p cells \<Rightarrow> u32" where
  "cl_count cs = of_nat (length cs)"

definition cl_push :: "'p \<Rightarrow> 'p cells \<Rightarrow> mem \<Rightarrow> bool \<times> 'p cells \<times> mem" where
  "cl_push p cs m =
     (case malloc m of (ln, m') \<Rightarrow>
        if ln = NULL then (False, cs, m') else (True, (ln, p) # cs, m'))"

definition cl_append :: "'p \<Rightarrow> 'p cells \<Rightarrow> mem \<Rightarrow> bool \<times> 'p cells \<times> mem" where
  "cl_append p cs m =
     (case malloc m of (ln, m') \<Rightarrow>
        if ln = NULL then (False, cs, m') else (True, cs @ [(ln, p)], m'))"

definition cl_pop :: "'p cells \<Rightarrow> ('p \<times> 'p cells) option" where
  "cl_pop cs = (case cs of [] \<Rightarrow> None | (a, x) # cs' \<Rightarrow> Some (x, cs'))"

definition cl_slice :: "'p cells \<Rightarrow> ('p \<times> 'p cells) option" where
  "cl_slice cs = (if cs = [] then None else Some (snd (last cs), butlast cs))"

text \<open>\<open>None\<close> is the \<^verbatim>\<open>NULL\<close> iterator: the list is empty, or there is no memory for it.\<close>

definition cl_make_iterator :: "'p cells \<Rightarrow> nat \<Rightarrow> mem \<Rightarrow> ptr option \<times> mem" where
  "cl_make_iterator cs pos m =
     (if cs = [] then (None, m)
      else case malloc m of (li, m') \<Rightarrow>
        if li = NULL then (None, m')
        else (Some (if pos = 0 then first_addr cs NULL else last_addr NULL cs), m'))"

definition cl_payload :: "'p cells \<Rightarrow> ptr \<Rightarrow> 'p res" where
  "cl_payload cs a = Verify333 (a \<noteq> NULL) (load (map_of cs) a Inr)"

definition cl_next :: "'p cells \<Rightarrow> ptr \<Rightarrow> (bool \<times> ptr) res" where
  "cl_next cs a = Verify333 (a \<noteq> NULL) (load (next_addr cs) a
     (\<lambda>n. if n = NULL then Inr (False, a) else Inr (True, n)))"

definition cl_prev :: "'p cells \<Rightarrow> ptr \<Rightarrow> (bool \<times> ptr) res" where
  "cl_prev cs a = Verify333 (a \<noteq> NULL) (load (prev_addr NULL cs) a
     (\<lambda>n. if n = NULL then Inr (False, a) else Inr (True, n)))"

text \<open>
  Deleting at an iterator: whether the list is still non-empty, the deleted payload, the node the
  iterator moves to and the remaining cells. At the tail the iterator goes back to the head of
  the list, as \<^verbatim>\<open>LLIteratorDelete\<close> does.
\<close>

definition cl_delete :: "'p cells \<Rightarrow> ptr \<Rightarrow> (bool \<times> 'p \<times> ptr \<times> 'p cells) res" where
  "cl_delete cs a = Verify333 (a \<noteq> NULL)
     (if length cs = 1 \<or> first_addr cs NULL = a then
        (case cl_pop cs of None \<Rightarrow> Inl MemFault
         | Some (x, cs') \<Rightarrow> Inr (cs' \<noteq> [], x, first_addr cs' NULL, cs'))
      else if last_addr NULL cs = a then
        (case cl_slice cs of None \<Rightarrow> Inl MemFault
         | Some (x, cs') \<Rightarrow> Inr (cs' \<noteq> [], x, first_addr cs' NULL, cs'))
      else load (map_of cs) a (\<lambda>x. load (next_addr cs) a
        (\<lambda>n. Inr (True, x, n, remove_cell a cs))))"

definition cl_insert_before :: "'p \<Rightarrow> 'p cells \<Rightarrow> ptr \<Rightarrow> mem \<Rightarrow> (bool \<times> 'p cells \<times> mem) res" where
  "cl_insert_before p cs a m = Verify333 (a \<noteq> NULL)
     (if a = first_addr cs NULL then Inr (cl_push p cs m)
      else case malloc m of (ln, m') \<Rightarrow>
        if ln = NULL then Inr (False, cs, m')
        else if a \<in> addrs cs then Inr (True, insert_cell_before a (ln, p) cs, m')
        else Inl MemFault)"

section \<open>Lemmas about cells\<close>

lemma first_addr_append: "first_addr (cs @ ds) q = first_addr cs (first_addr ds q)"
  by (induction cs) auto

lemma last_addr_append [simp]: "last_addr p (cs @ ds) = last_addr (last_addr p cs) ds"
  by (induction p cs rule: last_addr.induct) simp_all

lemma first_addr_in: "cs \<noteq> [] \<Longrightarrow> first_addr cs q \<in> addrs cs"
  by (cases cs) (auto simp: image_iff)

lemma first_addr_eq: "cs \<noteq> [] \<Longrightarrow> first_addr cs q = fst (hd cs)"
  by (cases cs) auto

lemma last_addr_eq: "cs \<noteq> [] \<Longrightarrow> last_addr p cs = fst (last cs)"
  by (induction p cs rule: last_addr.induct) auto

lemma last_addr_in: "cs \<noteq> [] \<Longrightarrow> last_addr p cs \<in> addrs cs"
  by (simp add: last_addr_eq)

lemma first_addr_neq:
  "NULL \<notin> addrs cs \<Longrightarrow> first_addr cs NULL = NULL \<longleftrightarrow> cs = []"
  by (cases cs) (auto simp: image_iff)

lemma next_addr_append:
  "a \<notin> addrs xs \<Longrightarrow> next_addr (xs @ (a, x) # ys) a = Some (first_addr ys NULL)"
  by (induction xs) auto

lemma prev_addr_append:
  "a \<notin> addrs xs \<Longrightarrow> prev_addr p (xs @ (a, x) # ys) a = Some (last_addr p xs)"
  by (induction p xs rule: last_addr.induct) auto

lemma map_of_cells_append:
  "a \<notin> addrs xs \<Longrightarrow> map_of (xs @ (a, x) # ys) a = Some x"
  by (induction xs) auto

lemma cells_from_append:
  "a \<notin> addrs xs \<Longrightarrow> cells_from (xs @ (a, x) # ys) a = (a, x) # ys"
  by (induction xs) auto

lemma remove_cell_append:
  "a \<notin> addrs xs \<Longrightarrow> a \<notin> addrs ys \<Longrightarrow> remove_cell a (xs @ (a, x) # ys) = xs @ ys"
proof -
  assume "a \<notin> addrs xs" "a \<notin> addrs ys"
  then have "filter (\<lambda>c. fst c \<noteq> a) xs = xs" "filter (\<lambda>c. fst c \<noteq> a) ys = ys"
    by (auto intro!: filter_True)
  then show ?thesis by (simp add: remove_cell_def)
qed

lemma insert_cell_before_append:
  "a \<notin> addrs xs \<Longrightarrow> insert_cell_before a c (xs @ (a, x) # ys) = xs @ c # (a, x) # ys"
  by (induction xs) auto

lemmas cells_append =
  next_addr_append prev_addr_append map_of_cells_append cells_from_append
  remove_cell_append insert_cell_before_append

text \<open>Deleting at any position, with the node the iterator moves to.\<close>

lemma cl_delete_split:
  assumes "a \<noteq> NULL" "a \<notin> addrs xs" "a \<notin> addrs ys"
  shows "cl_delete (xs @ (a, x) # ys) a = Inr (xs @ ys \<noteq> [], x,
      (if ys \<noteq> [] then first_addr ys NULL else first_addr xs NULL), xs @ ys)"
proof (cases "xs = []")
  case True
  with assms(1) show ?thesis by (auto simp: cl_delete_def cl_pop_def)
next
  case False
  then have f: "first_addr xs a \<noteq> a"
    using first_addr_in [of xs a] assms(2) by metis
  have "last_addr a ys \<noteq> a" if "ys \<noteq> []"
    using last_addr_in [OF that, of a] assms(3) by metis
  with False f assms show ?thesis
    by (cases "ys = []")
      (simp_all add: cl_delete_def cl_slice_def first_addr_append cells_append del: map_of_append)
qed

lemma cl_count_0 [simp]: "length cs < 2 ^ 32 \<Longrightarrow> cl_count cs = 0 \<longleftrightarrow> cs = []"
  by (simp add: cl_count_def of_nat_u32_eq_0_iff)

lemma cl_count_pos: "length cs < 2 ^ 32 \<Longrightarrow> 0 < cl_count cs \<longleftrightarrow> cs \<noteq> []"
  by (simp add: word_greater_zero_iff)

lemma cl_count_1: "length cs < 2 ^ 32 \<Longrightarrow> cl_count cs = 1 \<longleftrightarrow> length cs = 1"
  by (simp add: cl_count_def of_nat_u32_eq_1_iff)

end
