(* ===== verification/LinkedList.thy ===== *)
theory LinkedList
  imports CellList
begin

text \<open>
  The doubly linked list of \<^verbatim>\<open>hw1/LinkedList.c\<close> at the level of its pointers. The heap holds the
  nodes, the list headers and the iterators, each addressed by a pointer; every function reads and
  writes the heap as the C function does, with its \<^verbatim>\<open>Verify333\<close> checks, its failing calls of
  \<^verbatim>\<open>malloc\<close> and its calls of \<^verbatim>\<open>free\<close>. Out parameters (\<^verbatim>\<open>payload_ptr\<close>) are returned as
  values; a payload freeing function is a function on a world \<open>'w\<close> of the customer. The two
  unbounded loops (\<^verbatim>\<open>FreeLinkedList\<close>, \<^verbatim>\<open>SortLinkedList\<close>) take fuel.
\<close>

section \<open>The structures of LinkedList_priv.h\<close>

record 'p ll_node =
  payload :: 'p
  node_next :: ptr
  node_prev :: ptr

record ll_head =
  num_elements :: u32
  head :: ptr
  tail :: ptr

record ll_iter =
  iter_list :: ptr
  iter_node :: ptr

record 'p ll_heap = mem +
  nodes :: "ptr \<rightharpoonup> 'p ll_node"
  heads :: "ptr \<rightharpoonup> ll_head"
  iters :: "ptr \<rightharpoonup> ll_iter"

abbreviation put_node :: "ptr \<Rightarrow> 'p ll_node \<Rightarrow> 'p ll_heap \<Rightarrow> 'p ll_heap" where
  "put_node p n s \<equiv> s\<lparr>nodes := (nodes s)(p \<mapsto> n)\<rparr>"

abbreviation put_head :: "ptr \<Rightarrow> ll_head \<Rightarrow> 'p ll_heap \<Rightarrow> 'p ll_heap" where
  "put_head l h s \<equiv> s\<lparr>heads := (heads s)(l \<mapsto> h)\<rparr>"

abbreviation put_iter :: "ptr \<Rightarrow> ll_iter \<Rightarrow> 'p ll_heap \<Rightarrow> 'p ll_heap" where
  "put_iter i it s \<equiv> s\<lparr>iters := (iters s)(i \<mapsto> it)\<rparr>"

text \<open>\<^verbatim>\<open>free\<close> of a node: freeing what is not allocated is undefined.\<close>

definition free_node :: "ptr \<Rightarrow> 'p ll_heap \<Rightarrow> 'p ll_heap res" where
  "free_node p s = load (nodes s) p (\<lambda>_. Inr (s\<lparr>nodes := (nodes s)(p := None)\<rparr>))"

section \<open>The functions of LinkedList.c\<close>

definition AllocateLinkedList :: "'p ll_heap \<Rightarrow> ptr \<times> 'p ll_heap" where
  "AllocateLinkedList s =
     (case malloc s of (ll, s) \<Rightarrow>
        if ll = NULL then (NULL, s)
        else (ll, put_head ll \<lparr>num_elements = 0, head = NULL, tail = NULL\<rparr> s))"

fun FreeLinkedList_loop ::
  "nat \<Rightarrow> ptr \<Rightarrow> ('p \<Rightarrow> 'w \<Rightarrow> 'w) \<Rightarrow> 'p ll_heap \<Rightarrow> 'w \<Rightarrow> ('p ll_heap \<times> 'w) res" where
  "FreeLinkedList_loop 0 list payload_free_function s w = Inl OutOfFuel"
| "FreeLinkedList_loop (Suc n) list payload_free_function s w =
     load (heads s) list (\<lambda>h.
       if head h = NULL then Inr (s, w)
       else load (nodes s) (head h) (\<lambda>oldhead.
         andThen (free_node (head h) (put_head list (h\<lparr>head := node_next oldhead\<rparr>) s)) (\<lambda>s.
           FreeLinkedList_loop n list payload_free_function s
             (payload_free_function (payload oldhead) w))))"

definition FreeLinkedList ::
  "nat \<Rightarrow> ptr \<Rightarrow> ('p \<Rightarrow> 'w \<Rightarrow> 'w) \<Rightarrow> 'p ll_heap \<Rightarrow> 'w \<Rightarrow> ('p ll_heap \<times> 'w) res" where
  "FreeLinkedList fuel list payload_free_function s w =
     Verify333 (list \<noteq> NULL)
       (andThen (FreeLinkedList_loop fuel list payload_free_function s w) (\<lambda>(s, w).
          load (heads s) list (\<lambda>_. Inr (s\<lparr>heads := (heads s)(list := None)\<rparr>, w))))"

definition NumElementsInLinkedList :: "ptr \<Rightarrow> 'p ll_heap \<Rightarrow> u32 res" where
  "NumElementsInLinkedList list s =
     Verify333 (list \<noteq> NULL) (load (heads s) list (\<lambda>h. Inr (num_elements h)))"

definition PushLinkedList :: "ptr \<Rightarrow> 'p \<Rightarrow> 'p ll_heap \<Rightarrow> (bool \<times> 'p ll_heap) res" where
  "PushLinkedList list pl s =
     Verify333 (list \<noteq> NULL)
      (case malloc s of (ln, s) \<Rightarrow>
         if ln = NULL then Inr (False, s)
         else load (heads s) list (\<lambda>h.
           if num_elements h = 0 then
             Verify333 (head h = NULL) (Verify333 (tail h = NULL)
               (Inr (True,
                  put_head list \<lparr>num_elements = 1, head = ln, tail = ln\<rparr>
                   (put_node ln \<lparr>payload = pl, node_next = NULL, node_prev = NULL\<rparr> s))))
           else
             let s = put_node ln \<lparr>payload = pl, node_next = head h, node_prev = NULL\<rparr> s
             in load (nodes s) (head h) (\<lambda>hn.
                  Inr (True,
                    put_head list (h\<lparr>num_elements := num_elements h + 1, head := ln\<rparr>)
                     (put_node (head h) (hn\<lparr>node_prev := ln\<rparr>) s)))))"

definition PopLinkedList :: "ptr \<Rightarrow> 'p ll_heap \<Rightarrow> (bool \<times> 'p option \<times> 'p ll_heap) res" where
  "PopLinkedList list s =
     Verify333 (list \<noteq> NULL)
      (load (heads s) list (\<lambda>h.
         if num_elements h < 1 then Inr (False, None, s)
         else load (nodes s) (head h) (\<lambda>ln.
           if num_elements h = 1 then
             Verify333 (head h = tail h)
              (andThen (free_node (head h)
                  (put_head list \<lparr>num_elements = 0, head = NULL, tail = NULL\<rparr> s)) (\<lambda>s.
                 Inr (True, Some (payload ln), s)))
           else
             load (nodes s) (node_next ln) (\<lambda>nn.
               andThen (free_node (head h)
                  (put_node (node_next ln) (nn\<lparr>node_prev := NULL\<rparr>)
                   (put_head list (h\<lparr>num_elements := num_elements h - 1, head := node_next ln\<rparr>) s)))
                 (\<lambda>s. Inr (True, Some (payload ln), s))))))"

definition AppendLinkedList :: "ptr \<Rightarrow> 'p \<Rightarrow> 'p ll_heap \<Rightarrow> (bool \<times> 'p ll_heap) res" where
  "AppendLinkedList list pl s =
     Verify333 (list \<noteq> NULL)
      (case malloc s of (ln, s) \<Rightarrow>
         if ln = NULL then Inr (False, s)
         else load (heads s) list (\<lambda>h.
           if num_elements h = 0 then
             Verify333 (head h = NULL) (Verify333 (tail h = NULL)
               (Inr (True,
                  put_head list \<lparr>num_elements = 1, head = ln, tail = ln\<rparr>
                   (put_node ln \<lparr>payload = pl, node_next = NULL, node_prev = NULL\<rparr> s))))
           else
             let s = put_node ln \<lparr>payload = pl, node_next = NULL, node_prev = tail h\<rparr> s
             in load (nodes s) (tail h) (\<lambda>tn.
                  Inr (True,
                    put_head list (h\<lparr>num_elements := num_elements h + 1, tail := ln\<rparr>)
                     (put_node (tail h) (tn\<lparr>node_next := ln\<rparr>) s)))))"

definition SliceLinkedList :: "ptr \<Rightarrow> 'p ll_heap \<Rightarrow> (bool \<times> 'p option \<times> 'p ll_heap) res" where
  "SliceLinkedList list s =
     Verify333 (list \<noteq> NULL)
      (load (heads s) list (\<lambda>h.
         if num_elements h < 1 then Inr (False, None, s)
         else load (nodes s) (tail h) (\<lambda>ln.
           if num_elements h = 1 then
             Verify333 (head h = tail h)
              (andThen (free_node (tail h)
                  (put_head list \<lparr>num_elements = 0, head = NULL, tail = NULL\<rparr> s)) (\<lambda>s.
                 Inr (True, Some (payload ln), s)))
           else
             load (nodes s) (node_prev ln) (\<lambda>pn.
               andThen (free_node (tail h)
                  (put_node (node_prev ln) (pn\<lparr>node_next := NULL\<rparr>)
                   (put_head list (h\<lparr>num_elements := num_elements h - 1, tail := node_prev ln\<rparr>) s)))
                 (\<lambda>s. Inr (True, Some (payload ln), s))))))"

subsection \<open>Iterators\<close>

definition LLMakeIterator :: "ptr \<Rightarrow> int \<Rightarrow> 'p ll_heap \<Rightarrow> (ptr \<times> 'p ll_heap) res" where
  "LLMakeIterator list pos s =
     Verify333 (list \<noteq> NULL) (Verify333 (pos = 0 \<or> pos = 1)
      (andThen (NumElementsInLinkedList list s) (\<lambda>n.
         if n = 0 then Inr (NULL, s)
         else case malloc s of (li, s) \<Rightarrow>
           if li = NULL then Inr (NULL, s)
           else load (heads s) list (\<lambda>h.
             Inr (li, put_iter li
               \<lparr>iter_list = list, iter_node = (if pos = 0 then head h else tail h)\<rparr> s)))))"

definition LLIteratorFree :: "ptr \<Rightarrow> 'p ll_heap \<Rightarrow> 'p ll_heap res" where
  "LLIteratorFree iter s =
     Verify333 (iter \<noteq> NULL) (load (iters s) iter (\<lambda>_. Inr (s\<lparr>iters := (iters s)(iter := None)\<rparr>)))"

text \<open>The three checks that open every operation on an iterator.\<close>

definition with_iter :: "ptr \<Rightarrow> 'p ll_heap \<Rightarrow> (ll_iter \<Rightarrow> 'a res) \<Rightarrow> 'a res" where
  "with_iter iter s k =
     Verify333 (iter \<noteq> NULL) (load (iters s) iter (\<lambda>it.
       Verify333 (iter_list it \<noteq> NULL) (Verify333 (iter_node it \<noteq> NULL) (k it))))"

definition LLIteratorHasNext :: "ptr \<Rightarrow> 'p ll_heap \<Rightarrow> bool res" where
  "LLIteratorHasNext iter s =
     with_iter iter s (\<lambda>it. load (nodes s) (iter_node it) (\<lambda>n. Inr (node_next n \<noteq> NULL)))"

definition LLIteratorNext :: "ptr \<Rightarrow> 'p ll_heap \<Rightarrow> (bool \<times> 'p ll_heap) res" where
  "LLIteratorNext iter s =
     with_iter iter s (\<lambda>it.
       andThen (LLIteratorHasNext iter s) (\<lambda>b.
         if b then load (nodes s) (iter_node it) (\<lambda>n.
           Inr (True, put_iter iter (it\<lparr>iter_node := node_next n\<rparr>) s))
         else Inr (False, s)))"

definition LLIteratorHasPrev :: "ptr \<Rightarrow> 'p ll_heap \<Rightarrow> bool res" where
  "LLIteratorHasPrev iter s =
     with_iter iter s (\<lambda>it. load (nodes s) (iter_node it) (\<lambda>n. Inr (node_prev n \<noteq> NULL)))"

definition LLIteratorPrev :: "ptr \<Rightarrow> 'p ll_heap \<Rightarrow> (bool \<times> 'p ll_heap) res" where
  "LLIteratorPrev iter s =
     with_iter iter s (\<lambda>it.
       andThen (LLIteratorHasPrev iter s) (\<lambda>b.
         if b then load (nodes s) (iter_node it) (\<lambda>n.
           Inr (True, put_iter iter (it\<lparr>iter_node := node_prev n\<rparr>) s))
         else Inr (False, s)))"

definition LLIteratorGetPayload :: "ptr \<Rightarrow> 'p ll_heap \<Rightarrow> 'p res" where
  "LLIteratorGetPayload iter s =
     with_iter iter s (\<lambda>it. load (nodes s) (iter_node it) (\<lambda>n. Inr (payload n)))"

text \<open>
  The tail of the function, after the three cases: free the payload when the deletion succeeded
  and report whether the list is still non-empty.
\<close>

definition LLIteratorDelete ::
  "ptr \<Rightarrow> ('p \<Rightarrow> 'w \<Rightarrow> 'w) \<Rightarrow> 'p ll_heap \<Rightarrow> 'w \<Rightarrow> (bool \<times> 'p ll_heap \<times> 'w) res" where
  "LLIteratorDelete iter payload_free_function s w =
     with_iter iter s (\<lambda>it.
       load (heads s) (iter_list it) (\<lambda>h.
         andThen
          (if num_elements h = 1 \<or> head h = iter_node it then
             andThen (PopLinkedList (iter_list it) s) (\<lambda>(result, pl, s).
               load (heads s) (iter_list it) (\<lambda>h.
                 Inr (result, pl, put_iter iter (it\<lparr>iter_node := head h\<rparr>) s)))
           else if tail h = iter_node it then
             andThen (SliceLinkedList (iter_list it) s) (\<lambda>(result, pl, s).
               load (heads s) (iter_list it) (\<lambda>h.
                 Inr (result, pl, put_iter iter (it\<lparr>iter_node := head h\<rparr>) s)))
           else
             load (nodes s) (iter_node it) (\<lambda>n.
             load (nodes s) (node_prev n) (\<lambda>pn.
               let s = put_node (node_prev n) (pn\<lparr>node_next := node_next n\<rparr>) s
               in load (nodes s) (node_next n) (\<lambda>nn.
                 let s = put_head (iter_list it) (h\<lparr>num_elements := num_elements h - 1\<rparr>)
                          (put_node (node_next n) (nn\<lparr>node_prev := node_prev n\<rparr>) s)
                 in andThen (free_node (iter_node it) s) (\<lambda>s.
                      Inr (True, Some (payload n),
                           put_iter iter (it\<lparr>iter_node := node_next n\<rparr>) s))))))
          (\<lambda>(result, pl, s).
             let w = (case (result, pl) of (True, Some x) \<Rightarrow> payload_free_function x w | _ \<Rightarrow> w)
             in load (heads s) (iter_list it) (\<lambda>h. Inr (num_elements h \<noteq> 0, s, w)))))"

definition LLIteratorInsertBefore :: "ptr \<Rightarrow> 'p \<Rightarrow> 'p ll_heap \<Rightarrow> (bool \<times> 'p ll_heap) res" where
  "LLIteratorInsertBefore iter pl s =
     with_iter iter s (\<lambda>it.
       load (heads s) (iter_list it) (\<lambda>h.
         if iter_node it = head h then PushLinkedList (iter_list it) pl s
         else case malloc s of (newnode, s) \<Rightarrow>
           if newnode = NULL then Inr (False, s)
           else load (nodes s) (iter_node it) (\<lambda>n.
             let s = put_node newnode
                       \<lparr>payload = pl, node_next = iter_node it, node_prev = node_prev n\<rparr> s
             in load (nodes s) (node_prev n) (\<lambda>pn.
               let s = put_node (node_prev n) (pn\<lparr>node_next := newnode\<rparr>) s
               in load (nodes s) (iter_node it) (\<lambda>n'.
                 Inr (True,
                   put_head (iter_list it) (h\<lparr>num_elements := num_elements h + 1\<rparr>)
                    (put_node (iter_node it) (n'\<lparr>node_prev := newnode\<rparr>) s)))))))"

subsection \<open>Sorting\<close>

text \<open>
  The bubble sort of \<^verbatim>\<open>SortLinkedList\<close>: one pass over the nodes from \<open>curnode\<close> on, which swaps the
  payloads of neighbours in place and remembers whether it swapped; and passes until one swaps
  nothing.
\<close>

definition must_swap :: "bool \<Rightarrow> ('p \<Rightarrow> 'p \<Rightarrow> int) \<Rightarrow> 'p \<Rightarrow> 'p \<Rightarrow> bool" where
  "must_swap ascending comparator_function x y =
     (let compare_result = comparator_function x y;
          compare_result = (if ascending then compare_result * - 1 else compare_result)
      in compare_result < 0)"

fun SortLinkedList_pass ::
  "nat \<Rightarrow> bool \<Rightarrow> ('p \<Rightarrow> 'p \<Rightarrow> int) \<Rightarrow> ptr \<Rightarrow> bool \<Rightarrow> 'p ll_heap \<Rightarrow> (bool \<times> 'p ll_heap) res" where
  "SortLinkedList_pass 0 ascending comparator_function curnode swapped s = Inl OutOfFuel"
| "SortLinkedList_pass (Suc n) ascending comparator_function curnode swapped s =
     load (nodes s) curnode (\<lambda>c.
       if node_next c = NULL then Inr (swapped, s)
       else load (nodes s) (node_next c) (\<lambda>d.
         if must_swap ascending comparator_function (payload c) (payload d) then
           SortLinkedList_pass n ascending comparator_function (node_next c) True
             (put_node (node_next c) (d\<lparr>payload := payload c\<rparr>)
               (put_node curnode (c\<lparr>payload := payload d\<rparr>) s))
         else SortLinkedList_pass n ascending comparator_function (node_next c) swapped s))"

fun SortLinkedList_loop ::
  "nat \<Rightarrow> nat \<Rightarrow> bool \<Rightarrow> ('p \<Rightarrow> 'p \<Rightarrow> int) \<Rightarrow> ptr \<Rightarrow> 'p ll_heap \<Rightarrow> 'p ll_heap res" where
  "SortLinkedList_loop 0 passfuel ascending comparator_function list s = Inl OutOfFuel"
| "SortLinkedList_loop (Suc n) passfuel ascending comparator_function list s =
     load (heads s) list (\<lambda>h.
       andThen (SortLinkedList_pass passfuel ascending comparator_function (head h) False s)
         (\<lambda>(swapped, s).
            if swapped then SortLinkedList_loop n passfuel ascending comparator_function list s
            else Inr s))"

definition SortLinkedList ::
  "nat \<Rightarrow> ptr \<Rightarrow> bool \<Rightarrow> ('p \<Rightarrow> 'p \<Rightarrow> int) \<Rightarrow> 'p ll_heap \<Rightarrow> 'p ll_heap res" where
  "SortLinkedList fuel list ascending comparator_function s =
     Verify333 (list \<noteq> NULL) (load (heads s) list (\<lambda>h.
       if num_elements h < 2 then Inr s
       else SortLinkedList_loop fuel fuel ascending comparator_function list s))"

end
