(* ===== verification/LinkedListRep.thy ===== *)
theory LinkedListRep
  imports LinkedList
begin

text \<open>
  When a heap represents a list of cells, and that the pointer code of \<open>LinkedList\<close> does to the
  heap what the operations of \<open>CellList\<close> do to the cells. Each refinement lemma also gives the
  frame: the nodes of other lists, the other headers and the other iterators are as before.
\<close>

section \<open>Representation\<close>

text \<open>
  \<open>chain ns p cs q\<close>: in the node store \<open>ns\<close> the cells \<open>cs\<close> are linked in both directions, with
  \<open>p\<close> before the first and \<open>q\<close> after the last.
\<close>

fun chain :: "(ptr \<rightharpoonup> 'p ll_node) \<Rightarrow> ptr \<Rightarrow> 'p cells \<Rightarrow> ptr \<Rightarrow> bool" where
  "chain ns p [] q = True"
| "chain ns p ((a, x) # cs) q =
     (a \<noteq> NULL \<and> ns a = Some \<lparr>payload = x, node_next = first_addr cs q, node_prev = p\<rparr>
      \<and> chain ns a cs q)"

definition dll :: "'p ll_heap \<Rightarrow> ptr \<Rightarrow> 'p cells \<Rightarrow> bool" where
  "dll s l cs \<longleftrightarrow>
     l \<noteq> NULL \<and> distinct (map fst cs) \<and> chain (nodes s) NULL cs NULL \<and>
     heads s l = Some \<lparr>num_elements = of_nat (length cs), head = first_addr cs NULL,
                        tail = last_addr NULL cs\<rparr>"

text \<open>Nothing is allocated at \<open>NULL\<close> or at an address that \<open>malloc\<close> has not handed out.\<close>

definition heap_ok :: "'p ll_heap \<Rightarrow> bool" where
  "heap_ok s \<longleftrightarrow>
     nodes s NULL = None \<and> heads s NULL = None \<and> iters s NULL = None \<and>
     (\<forall>p > clock s. nodes s p = None \<and> heads s p = None \<and> iters s p = None)"

definition mem_of :: "'a mem_scheme \<Rightarrow> mem" where
  "mem_of s = \<lparr>clock = clock s, oom = oom s, errno = errno s, frame_slack = frame_slack s\<rparr>"

definition iter_at :: "'p ll_heap \<Rightarrow> ptr \<Rightarrow> ptr \<Rightarrow> ptr \<Rightarrow> bool" where
  "iter_at s it l a \<longleftrightarrow> it \<noteq> NULL \<and> iters s it = Some \<lparr>iter_list = l, iter_node = a\<rparr>"

text \<open>What an operation on the list \<open>l\<close> with the cells \<open>cs\<close> and the iterator \<open>it\<close> leaves alone.\<close>

definition frame :: "ptr \<Rightarrow> 'p cells \<Rightarrow> ptr \<Rightarrow> 'p ll_heap \<Rightarrow> 'p ll_heap \<Rightarrow> bool" where
  "frame l cs it s s' \<longleftrightarrow>
     (\<forall>a. a \<notin> addrs cs \<longrightarrow> nodes s a \<noteq> None \<longrightarrow> nodes s' a = nodes s a) \<and>
     (\<forall>k. k \<noteq> l \<longrightarrow> heads s k \<noteq> None \<longrightarrow> heads s' k = heads s k) \<and>
     (\<forall>i. i \<noteq> it \<longrightarrow> iters s i \<noteq> None \<longrightarrow> iters s' i = iters s i)"

text \<open>The nodes that left the list have been freed.\<close>

definition freed :: "'p cells \<Rightarrow> 'p cells \<Rightarrow> 'p ll_heap \<Rightarrow> bool" where
  "freed cs cs' s' \<longleftrightarrow> (\<forall>a \<in> addrs cs. a \<notin> addrs cs' \<longrightarrow> nodes s' a = None)"

named_theorems ll_ops \<open>the definitions of the list operations\<close>

declare
  PushLinkedList_def [ll_ops] PopLinkedList_def [ll_ops] AppendLinkedList_def [ll_ops]
  SliceLinkedList_def [ll_ops] NumElementsInLinkedList_def [ll_ops] free_node_def [ll_ops]
  LLMakeIterator_def [ll_ops] LLIteratorHasNext_def [ll_ops] LLIteratorNext_def [ll_ops]
  LLIteratorHasPrev_def [ll_ops] LLIteratorPrev_def [ll_ops] LLIteratorGetPayload_def [ll_ops]
  with_iter_def [ll_ops] Let_def [ll_ops]

named_theorems cl_ops \<open>the definitions of the operations on cells\<close>

declare
  cl_push_def [cl_ops] cl_pop_def [cl_ops] cl_append_def [cl_ops] cl_slice_def [cl_ops]
  cl_make_iterator_def [cl_ops] cl_payload_def [cl_ops] cl_next_def [cl_ops]
  cl_prev_def [cl_ops] cl_delete_def [cl_ops] cl_insert_before_def [cl_ops]

lemma chain_append:
  "chain ns p (cs @ ds) q \<longleftrightarrow>
     chain ns p cs (first_addr ds q) \<and> chain ns (last_addr p cs) ds q"
  by (induction ns p cs q rule: chain.induct) (auto simp: first_addr_append)

lemma chain_frame:
  "(\<And>a. a \<in> addrs cs \<Longrightarrow> ns' a = ns a) \<Longrightarrow> chain ns' p cs q = chain ns p cs q"
  by (induction ns p cs q rule: chain.induct) auto

lemma chain_upd [simp]:
  "a \<notin> addrs cs \<Longrightarrow> chain (ns(a := v)) p cs q = chain ns p cs q"
  by (rule chain_frame) auto

lemma chain_upd_under [simp]:
  "a \<notin> addrs cs \<Longrightarrow> chain (ns(a := v, b := w)) p cs q = chain (ns(b := w)) p cs q"
  "a \<notin> addrs cs \<Longrightarrow> chain (ns(a := v, b := w, c := u)) p cs q = chain (ns(b := w, c := u)) p cs q"
  by (rule chain_frame; auto)+

lemma chain_node: "chain ns p cs q \<Longrightarrow> a \<in> addrs cs \<Longrightarrow> a \<noteq> NULL \<and> ns a \<noteq> None"
  by (induction ns p cs q rule: chain.induct) auto

lemma chain_no_NULL: "chain ns p cs q \<Longrightarrow> NULL \<notin> addrs cs"
  using chain_node by blast

lemma dll_addrs:
  assumes "dll s l cs"
  shows "NULL \<notin> addrs cs" and "a \<in> addrs cs \<Longrightarrow> nodes s a \<noteq> None"
  using assms chain_node unfolding dll_def by blast+

lemma heap_ok_fresh:
  assumes "heap_ok s" "dll s l cs"
  shows "Suc (clock s) \<notin> addrs cs" "Suc (clock s) \<noteq> l" "nodes s (Suc (clock s)) = None"
    "iters s (Suc (clock s)) = None" "heads s (Suc (clock s)) = None"
  using assms dll_addrs(2) [OF assms(2), of "Suc (clock s)"]
  by (auto simp: heap_ok_def dll_def)

lemma dll_frame:
  assumes "frame l cs it s s'" "dll s k ds" "k \<noteq> l" "addrs ds \<inter> addrs cs = {}"
  shows "dll s' k ds"
proof -
  have "nodes s' a = nodes s a" if "a \<in> addrs ds" for a
    using assms(1,4) that dll_addrs(2) [OF assms(2) that] unfolding frame_def by blast
  then have "chain (nodes s') NULL ds NULL = chain (nodes s) NULL ds NULL"
    by (rule chain_frame)
  with assms(1-3) show ?thesis by (simp add: dll_def frame_def)
qed

lemma iter_frame: "frame l cs it s s' \<Longrightarrow> iter_at s i k a \<Longrightarrow> i \<noteq> it \<Longrightarrow> iter_at s' i k a"
  by (simp add: frame_def iter_at_def)

section \<open>Refinement of the list operations\<close>

lemma AllocateLinkedList_refines:
  assumes "heap_ok s"
  shows "case malloc (mem_of s) of (p, m') \<Rightarrow>
           \<exists>s'. AllocateLinkedList s = (p, s') \<and> heap_ok s' \<and> mem_of s' = m' \<and>
                frame p [] NULL s s' \<and> (p \<noteq> NULL \<longrightarrow> dll s' p [])"
  using assms
  by (auto simp: AllocateLinkedList_def malloc_def mem_of_def heap_ok_def dll_def frame_def)

lemma NumElements_refines: "dll s l cs \<Longrightarrow> NumElementsInLinkedList l s = Inr (cl_count cs)"
  by (simp add: NumElementsInLinkedList_def dll_def cl_count_def)

lemma Push_refines:
  assumes ok: "heap_ok s" and d: "dll s l cs" and len: "length cs < 2 ^ 32"
  shows "case cl_push p cs (mem_of s) of (b, cs', m') \<Rightarrow>
           \<exists>s'. PushLinkedList l p s = Inr (b, s') \<and> dll s' l cs' \<and> heap_ok s' \<and>
                mem_of s' = m' \<and> frame l cs NULL s s'"
proof (cases "oom s (clock s)")
  case True
  with ok d show ?thesis
    by (auto simp: cl_ops ll_ops malloc_def mem_of_def heap_ok_def dll_def frame_def)
next
  case False
  note fr = heap_ok_fresh [OF ok d]
  show ?thesis
  proof (cases cs)
    case Nil
    with False ok d fr show ?thesis
      by (auto simp: cl_ops ll_ops malloc_def mem_of_def heap_ok_def dll_def frame_def)
  next
    case (Cons c cs')
    obtain a x where c: "c = (a, x)" by (cases c)
    have ne: "of_nat (length cs) \<noteq> (0 :: u32)"
      using len Cons of_nat_u32_eq_0_iff [of "length cs"] by simp
    from False ok d fr ne show ?thesis
      unfolding Cons c
      by (auto simp: cl_ops ll_ops malloc_def mem_of_def heap_ok_def dll_def frame_def)
  qed
qed


text \<open>Splitting off the last cell, for the operations at the tail.\<close>

lemma dll_snoc:
  assumes "dll s l (ds @ [(t, y)])"
  shows "chain (nodes s) NULL ds t" "t \<notin> addrs ds" "t \<noteq> NULL"
    "nodes s t = Some \<lparr>payload = y, node_next = NULL, node_prev = last_addr NULL ds\<rparr>"
    "heads s l = Some \<lparr>num_elements = of_nat (length ds) + 1, head = first_addr ds t, tail = t\<rparr>"
  using assms by (auto simp: dll_def chain_append first_addr_append add.commute)

text \<open>The link of the last cell can be changed without touching the rest of the chain.\<close>

lemma chain_relink_last:
  assumes "chain ns p cs q" "cs \<noteq> []" "distinct (map fst cs)" "ns (last_addr p cs) = Some n"
  shows "chain (ns(last_addr p cs \<mapsto> n\<lparr>node_next := r\<rparr>)) p cs r"
proof -
  obtain ds t y where cs: "cs = ds @ [(t, y)]"
    using assms(2) by (metis rev_exhaust surj_pair)
  from assms show ?thesis
    unfolding cs by (auto simp: chain_append)
qed

lemma chain_relink_first:
  assumes "chain ns p cs q" "cs \<noteq> []" "distinct (map fst cs)" "ns (first_addr cs z) = Some n"
  shows "chain (ns(first_addr cs z \<mapsto> n\<lparr>node_prev := r\<rparr>)) r cs q"
  using assms by (cases cs) auto

lemma Append_refines:
  assumes ok: "heap_ok s" and d: "dll s l cs" and len: "length cs < 2 ^ 32"
  shows "case cl_append p cs (mem_of s) of (b, cs', m') \<Rightarrow>
           \<exists>s'. AppendLinkedList l p s = Inr (b, s') \<and> dll s' l cs' \<and> heap_ok s' \<and>
                mem_of s' = m' \<and> frame l cs NULL s s'"
proof (cases "oom s (clock s)")
  case True
  with ok d show ?thesis
    by (auto simp: cl_ops ll_ops malloc_def mem_of_def heap_ok_def dll_def frame_def)
next
  case False
  note fr = heap_ok_fresh [OF ok d]
  show ?thesis
  proof (cases cs rule: rev_cases)
    case Nil
    with False ok d fr show ?thesis
      by (auto simp: cl_ops ll_ops malloc_def mem_of_def heap_ok_def dll_def frame_def)
  next
    case (snoc ds c)
    obtain t y where c: "c = (t, y)" by (cases c)
    have ne: "1 + of_nat (length ds) \<noteq> (0 :: u32)"
      using len snoc of_nat_u32_eq_0_iff [of "length cs"] by simp
    from False ok d fr ne show ?thesis
      unfolding snoc c
      by (auto simp: cl_ops ll_ops malloc_def mem_of_def heap_ok_def dll_def frame_def
          chain_append first_addr_append add.commute)
  qed
qed

lemma Pop_refines:
  assumes ok: "heap_ok s" and d: "dll s l cs" and len: "length cs < 2 ^ 32"
  shows "case cl_pop cs of
           None \<Rightarrow> PopLinkedList l s = Inr (False, None, s)
         | Some (x, cs') \<Rightarrow>
             \<exists>s'. PopLinkedList l s = Inr (True, Some x, s') \<and> dll s' l cs' \<and> heap_ok s' \<and>
                  mem_of s' = mem_of s \<and> frame l cs NULL s s' \<and> freed cs cs' s'"
proof (cases cs)
  case Nil
  with d show ?thesis by (simp add: cl_ops ll_ops dll_def)
next
  case (Cons c cs')
  obtain a x where c: "c = (a, x)" by (cases c)
  have ne: "1 + of_nat (length cs') \<noteq> (0 :: u32)"
    using len Cons of_nat_u32_eq_0_iff [of "length cs"] by simp
  then have ge: "\<not> 1 + of_nat (length cs') < (1 :: u32)"
    by (simp add: word_less_1)
  show ?thesis
  proof (cases cs')
    case Nil
    with ok d show ?thesis
      unfolding Cons c
      by (auto simp: cl_ops ll_ops mem_of_def heap_ok_def dll_def frame_def freed_def)
  next
    case (Cons c2 cs2)
    obtain b y where c2: "c2 = (b, y)" by (cases c2)
    have n1: "1 + of_nat (length cs') \<noteq> (1 :: u32)"
      using len \<open>cs = c # cs'\<close> Cons of_nat_u32_eq_1_iff [of "length cs"] by simp
    from ok d ne ge n1 show ?thesis
      unfolding \<open>cs = c # cs'\<close> Cons c c2
      by (auto simp: cl_ops ll_ops mem_of_def heap_ok_def dll_def frame_def freed_def)
  qed
qed


lemma Slice_refines:
  assumes ok: "heap_ok s" and d: "dll s l cs" and len: "length cs < 2 ^ 32"
  shows "case cl_slice cs of
           None \<Rightarrow> SliceLinkedList l s = Inr (False, None, s)
         | Some (x, cs') \<Rightarrow>
             \<exists>s'. SliceLinkedList l s = Inr (True, Some x, s') \<and> dll s' l cs' \<and> heap_ok s' \<and>
                  mem_of s' = mem_of s \<and> frame l cs NULL s s' \<and> freed cs cs' s'"
proof (cases cs rule: rev_cases)
  case Nil
  with d show ?thesis by (simp add: cl_ops ll_ops dll_def)
next
  case (snoc ds c)
  obtain t y where c: "c = (t, y)" by (cases c)
  have ne: "1 + of_nat (length ds) \<noteq> (0 :: u32)"
    using len snoc of_nat_u32_eq_0_iff [of "length cs"] by simp
  then have ge: "\<not> 1 + of_nat (length ds) < (1 :: u32)"
    by (simp add: word_less_1)
  show ?thesis
  proof (cases ds rule: rev_cases)
    case Nil
    with ok d show ?thesis
      unfolding snoc c
      by (auto simp: cl_ops ll_ops mem_of_def heap_ok_def dll_def frame_def freed_def)
  next
    case (snoc ds2 c2)
    obtain b z where c2: "c2 = (b, z)" by (cases c2)
    have n1: "1 + of_nat (length ds) \<noteq> (1 :: u32)"
      using len \<open>cs = ds @ [c]\<close> snoc of_nat_u32_eq_1_iff [of "length cs"] by simp
    from ok d ne ge n1 show ?thesis
      unfolding \<open>cs = ds @ [c]\<close> snoc c c2
      by (auto simp: cl_ops ll_ops mem_of_def heap_ok_def dll_def frame_def freed_def
          chain_append first_addr_append butlast_append)
  qed
qed

section \<open>Refinement of the iterator operations\<close>

lemma MakeIterator_refines:
  assumes ok: "heap_ok s" and d: "dll s l cs" and len: "length cs < 2 ^ 32"
    and pos: "pos = 0 \<or> pos = 1"
  shows "case cl_make_iterator cs (nat pos) (mem_of s) of (r, m') \<Rightarrow>
           \<exists>it s'. LLMakeIterator l pos s = Inr (it, s') \<and> dll s' l cs \<and> heap_ok s' \<and>
                mem_of s' = m' \<and> frame l [] NULL s s' \<and>
                (case r of None \<Rightarrow> it = NULL | Some a \<Rightarrow> iter_at s' it l a)"
proof (cases "cs = []")
  case True
  with ok d pos show ?thesis
    by (auto simp: cl_ops ll_ops mem_of_def dll_def frame_def)
next
  case False
  with len have "of_nat (length cs) \<noteq> (0 :: u32)"
    by (simp add: of_nat_u32_eq_0_iff)
  with False ok d pos heap_ok_fresh [OF ok d] show ?thesis
    by (auto simp: cl_ops ll_ops mem_of_def dll_def frame_def malloc_def heap_ok_def iter_at_def)
qed

text \<open>The facts about a list whose iterator stands on a node of it.\<close>

lemma dll_split:
  assumes "dll s l (xs @ (a, x) # ys)"
  shows "a \<noteq> NULL" "l \<noteq> NULL" "a \<notin> addrs xs" "a \<notin> addrs ys" "addrs xs \<inter> addrs ys = {}"
    "distinct (map fst xs)" "distinct (map fst ys)"
    "nodes s a = Some \<lparr>payload = x, node_next = first_addr ys NULL, node_prev = last_addr NULL xs\<rparr>"
    "chain (nodes s) NULL xs a" "chain (nodes s) a ys NULL"
    "first_addr ys NULL = NULL \<longleftrightarrow> ys = []" "last_addr NULL xs = NULL \<longleftrightarrow> xs = []"
    "NULL \<notin> addrs xs" "NULL \<notin> addrs ys"
proof -
  show *: "a \<noteq> NULL" "l \<noteq> NULL" "a \<notin> addrs xs" "a \<notin> addrs ys"
    "distinct (map fst xs)" "distinct (map fst ys)"
    "nodes s a = Some \<lparr>payload = x, node_next = first_addr ys NULL, node_prev = last_addr NULL xs\<rparr>"
    "chain (nodes s) NULL xs a" "chain (nodes s) a ys NULL"
    using assms by (auto simp: dll_def chain_append)
  show "addrs xs \<inter> addrs ys = {}"
    using assms unfolding dll_def by (force simp: image_iff)
  show xy: "NULL \<notin> addrs xs" "NULL \<notin> addrs ys"
    using *(8,9) chain_no_NULL by blast+
  show "first_addr ys NULL = NULL \<longleftrightarrow> ys = []"
    using xy by (simp add: first_addr_neq)
  show "last_addr NULL xs = NULL \<longleftrightarrow> xs = []"
    using xy last_addr_in [of xs NULL] by auto
qed

lemma dll_splitE:
  assumes "dll s l cs" "a \<in> addrs cs"
  obtains xs x ys where "cs = xs @ (a, x) # ys"
  using assms(2) by (rule in_fst_split)

lemma GetPayload_refines:
  assumes "dll s l cs" "iter_at s it l a" "a \<in> addrs cs"
  shows "LLIteratorGetPayload it s = cl_payload cs a"
proof -
  obtain xs x ys where cs: "cs = xs @ (a, x) # ys"
    using assms(1,3) by (rule dll_splitE)
  from dll_split [OF assms(1) [unfolded cs]] assms(2) show ?thesis
    by (simp add: cl_ops ll_ops cs cells_append iter_at_def del: map_of_append)
qed

lemma Next_refines:
  assumes "heap_ok s" "dll s l cs" "iter_at s it l a" "a \<in> addrs cs"
  shows "\<exists>b a' s'. cl_next cs a = Inr (b, a') \<and> LLIteratorNext it s = Inr (b, s') \<and>
           dll s' l cs \<and> iter_at s' it l a' \<and> a' \<in> addrs cs \<and> heap_ok s' \<and>
           mem_of s' = mem_of s \<and> frame l [] it s s'"
proof -
  obtain xs x ys where cs: "cs = xs @ (a, x) # ys"
    using assms(2,4) by (rule dll_splitE)
  note sp = dll_split [OF assms(2) [unfolded cs]]
  have "first_addr ys NULL \<in> addrs cs" if "ys \<noteq> []"
    using first_addr_in [OF that, of NULL] cs by auto
  with sp assms show ?thesis
    by (auto simp: cl_ops ll_ops cs cells_append iter_at_def heap_ok_def dll_def mem_of_def frame_def)
qed

lemma Prev_refines:
  assumes "heap_ok s" "dll s l cs" "iter_at s it l a" "a \<in> addrs cs"
  shows "\<exists>b a' s'. cl_prev cs a = Inr (b, a') \<and> LLIteratorPrev it s = Inr (b, s') \<and>
           dll s' l cs \<and> iter_at s' it l a' \<and> a' \<in> addrs cs \<and> heap_ok s' \<and>
           mem_of s' = mem_of s \<and> frame l [] it s s'"
proof -
  obtain xs x ys where cs: "cs = xs @ (a, x) # ys"
    using assms(2,4) by (rule dll_splitE)
  note sp = dll_split [OF assms(2) [unfolded cs]]
  have "last_addr NULL xs \<in> addrs cs" if "xs \<noteq> []"
    using last_addr_in [OF that, of NULL] cs by auto
  with sp assms show ?thesis
    by (auto simp: cl_ops ll_ops cs cells_append iter_at_def heap_ok_def dll_def mem_of_def frame_def)
qed


lemma IteratorFree_refines:
  assumes "heap_ok s" "dll s l cs" "iter_at s it l a"
  shows "\<exists>s'. LLIteratorFree it s = Inr s' \<and> dll s' l cs \<and> iters s' it = None \<and> heap_ok s' \<and>
           mem_of s' = mem_of s \<and> frame l [] it s s'"
  using assms
  by (auto simp: LLIteratorFree_def iter_at_def heap_ok_def dll_def mem_of_def frame_def)

text \<open>
  Unlinking a node in the middle of a list: the general case of \<^verbatim>\<open>LLIteratorDelete\<close>.
\<close>

lemma chain_unlink:
  assumes d: "dll s l (xs @ (a, x) # ys)" and ne: "xs \<noteq> []" "ys \<noteq> []"
    and pn: "nodes s (last_addr NULL xs) = Some pn" and nn: "nodes s (first_addr ys NULL) = Some nn"
  shows "chain ((nodes s)(last_addr NULL xs \<mapsto> pn\<lparr>node_next := first_addr ys NULL\<rparr>,
                    first_addr ys NULL \<mapsto> nn\<lparr>node_prev := last_addr NULL xs\<rparr>, a := None))
           NULL (xs @ ys) NULL"
proof -
  note sp = dll_split [OF d]
  have la: "last_addr NULL xs \<in> addrs xs" and fa: "first_addr ys NULL \<in> addrs ys"
    using ne by (simp_all add: last_addr_in first_addr_in)
  then have nots: "last_addr NULL xs \<notin> addrs ys" "first_addr ys NULL \<notin> addrs xs"
    using sp(5) by blast+
  have f: "first_addr ys z = first_addr ys NULL" for z
    using ne(2) by (cases ys) auto
  have "chain ((nodes s)(last_addr NULL xs \<mapsto> pn\<lparr>node_next := first_addr ys NULL\<rparr>)) NULL xs
      (first_addr ys NULL)"
    using sp(9) ne(1) sp(6) pn by (rule chain_relink_last)
  moreover have "chain ((nodes s)(first_addr ys NULL \<mapsto> nn\<lparr>node_prev := last_addr NULL xs\<rparr>))
      (last_addr NULL xs) ys NULL"
    using sp(10) ne(2) sp(7) nn by (rule chain_relink_first)
  moreover have "last_addr NULL xs \<noteq> first_addr ys NULL"
    using la nots(2) by metis
  ultimately show ?thesis
    using sp(3,4) nots by (simp add: chain_append)
qed

text \<open>Inserting a node before another one: the general case of \<^verbatim>\<open>LLIteratorInsertBefore\<close>.\<close>

lemma chain_splice:
  assumes d: "dll s l (xs @ (a, x) # ys)" and ne: "xs \<noteq> []"
    and pn: "nodes s (last_addr NULL xs) = Some pn" and na: "nodes s a = Some na"
    and new: "b \<noteq> NULL" "nodes s b = None"
  shows "chain ((nodes s)(b \<mapsto> \<lparr>payload = p, node_next = a, node_prev = last_addr NULL xs\<rparr>,
                  last_addr NULL xs \<mapsto> pn\<lparr>node_next := b\<rparr>, a \<mapsto> na\<lparr>node_prev := b\<rparr>))
           NULL (xs @ (b, p) # (a, x) # ys) NULL"
proof -
  note sp = dll_split [OF d]
  have la: "last_addr NULL xs \<in> addrs xs"
    using ne by (simp add: last_addr_in)
  have b: "b \<notin> addrs xs" "b \<notin> addrs ys" "b \<noteq> a"
    using chain_node [OF sp(9), of b] chain_node [OF sp(10), of b] new(2) na by auto
  have nots: "last_addr NULL xs \<notin> addrs ys" "last_addr NULL xs \<noteq> a" "last_addr NULL xs \<noteq> b"
    using sp(3,5) la b(1) by auto
  have "chain ((nodes s)(last_addr NULL xs \<mapsto> pn\<lparr>node_next := b\<rparr>)) NULL xs b"
    using sp(9) ne sp(6) pn by (rule chain_relink_last)
  with sp(1,3,4,8,10) b nots new na show ?thesis
    by (simp add: chain_append)
qed

lemma InsertBefore_refines:
  assumes ok: "heap_ok s" and d: "dll s l cs" and len: "length cs < 2 ^ 32"
    and it: "iter_at s it l a" and a: "a \<in> addrs cs"
  shows "\<exists>b cs' m' s'. cl_insert_before p cs a (mem_of s) = Inr (b, cs', m') \<and>
           LLIteratorInsertBefore it p s = Inr (b, s') \<and> dll s' l cs' \<and> heap_ok s' \<and>
           mem_of s' = m' \<and> iter_at s' it l a \<and> frame l cs NULL s s'"
proof -
  obtain xs x ys where cs: "cs = xs @ (a, x) # ys"
    using d a by (rule dll_splitE)
  note sp = dll_split [OF d [unfolded cs]]
  have h: "heads s l = Some \<lparr>num_elements = of_nat (length cs), head = first_addr cs NULL,
             tail = last_addr NULL cs\<rparr>"
    using d by (simp add: dll_def)
  show ?thesis
  proof (cases "xs = []")
    case True
    obtain b cs' m' where cl: "cl_push p cs (mem_of s) = (b, cs', m')"
      by (metis prod_cases3)
    with Push_refines [OF ok d len, of p] obtain s' where
      s': "PushLinkedList l p s = Inr (b, s')" "dll s' l cs'" "heap_ok s'" "mem_of s' = m'"
          "frame l cs NULL s s'" by auto
    moreover have "iter_at s' it l a"
      using s'(5) it by (rule iter_frame) (use it in \<open>simp add: iter_at_def\<close>)
    ultimately show ?thesis
      using True cl h it sp(1,2)
      by (auto simp: cl_insert_before_def LLIteratorInsertBefore_def with_iter_def iter_at_def cs)
  next
    case False
    have la: "last_addr NULL xs \<in> addrs xs" and fa: "first_addr xs z \<in> addrs xs" for z
      using False by (simp_all add: last_addr_in first_addr_in)
    then have na: "first_addr cs NULL \<noteq> a" "last_addr NULL xs \<noteq> a"
      using sp(3) fa [of a] la by (metis cs first_addr.simps(2) first_addr_append, metis)
    obtain pn where pn: "nodes s (last_addr NULL xs) = Some pn"
      using chain_node [OF sp(9) la] by auto
    have lc: "last_addr NULL cs = last_addr a ys"
      by (simp add: cs)
    have fr: "Suc (clock s) \<noteq> a" "Suc (clock s) \<notin> addrs xs" "Suc (clock s) \<notin> addrs ys"
      using heap_ok_fresh(1) [OF ok d] by (auto simp: cs)
    have fl: "Suc (clock s) \<noteq> last_addr NULL xs"
      using fr(2) la by metis
    note fresh = heap_ok_fresh(3) [OF ok d]
    note spl = chain_splice [OF d [unfolded cs] False pn sp(8) _ fresh, of p]
    show ?thesis
    proof (cases "oom s (clock s)")
      case True
      with na h it sp(1,2) a ok d show ?thesis
        by (auto simp: cl_insert_before_def LLIteratorInsertBefore_def with_iter_def iter_at_def
            malloc_def mem_of_def frame_def dll_def heap_ok_def)
    next
      case oom: False
      let ?b = "Suc (clock s)"
      let ?s = "s\<lparr>clock := ?b,
         nodes := (nodes s)(?b \<mapsto> \<lparr>payload = p, node_next = a, node_prev = last_addr NULL xs\<rparr>,
                  last_addr NULL xs \<mapsto> pn\<lparr>node_next := ?b\<rparr>,
                  a \<mapsto> \<lparr>payload = x, node_next = first_addr ys NULL, node_prev = ?b\<rparr>),
         heads := (heads s)(l \<mapsto> \<lparr>num_elements = of_nat (length cs) + 1,
                  head = first_addr cs NULL, tail = last_addr NULL cs\<rparr>)\<rparr>"
      have run: "LLIteratorInsertBefore it p s = Inr (True, ?s)"
        using oom na h it sp(1,2,8) pn fr fl
        by (simp add: LLIteratorInsertBefore_def with_iter_def iter_at_def malloc_def Let_def)
      have cl: "cl_insert_before p cs a (mem_of s) =
          Inr (True, xs @ (?b, p) # (a, x) # ys, (mem_of s)\<lparr>clock := ?b\<rparr>)"
        using oom na(1) sp(1,3) a
        by (simp add: cl_insert_before_def malloc_def mem_of_def cs insert_cell_before_append)
      have "dll ?s l (xs @ (?b, p) # (a, x) # ys)"
        using spl sp fr fl False by (auto simp: dll_def cs first_addr_append first_addr_eq add.commute)
      moreover have "heap_ok ?s"
        using ok fresh pn sp(1,8) sp(2) la h sp(13) by (auto simp: heap_ok_def)
      moreover have "frame l cs NULL s ?s"
        using la fresh by (auto simp: frame_def cs)
      ultimately show ?thesis
        using run cl it by (auto simp: iter_at_def mem_of_def)
    qed
  qed
qed


lemma Delete_refines:
  assumes ok: "heap_ok s" and d: "dll s l cs" and len: "length cs < 2 ^ 32"
    and it: "iter_at s it l a" and a: "a \<in> addrs cs"
  shows "\<exists>b x a' cs' s'. cl_delete cs a = Inr (b, x, a', cs') \<and>
           LLIteratorDelete it payload_free_function s w = Inr (b, s', payload_free_function x w) \<and>
           dll s' l cs' \<and> heap_ok s' \<and> mem_of s' = mem_of s \<and> iter_at s' it l a' \<and>
           frame l cs it s s' \<and> freed cs cs' s'"
proof -
  obtain xs x ys where cs: "cs = xs @ (a, x) # ys"
    using d a by (rule dll_splitE)
  note sp = dll_split [OF d [unfolded cs]]
  have h: "heads s l = Some \<lparr>num_elements = of_nat (length cs), head = first_addr cs NULL,
             tail = last_addr NULL cs\<rparr>"
    using d by (simp add: dll_def)
  have itd: "it \<noteq> NULL" "iters s it = Some \<lparr>iter_list = l, iter_node = a\<rparr>"
    using it by (simp_all add: iter_at_def)
  have one: "of_nat (length cs) = (1 :: u32) \<longleftrightarrow> length cs = 1"
    using len by (rule of_nat_u32_eq_1_iff)
  have finish: "\<exists>s''. put_iter it \<lparr>iter_list = l, iter_node = first_addr cs' NULL\<rparr> s' = s'' \<and>
        dll s'' l cs' \<and> heap_ok s'' \<and> mem_of s'' = mem_of s \<and>
        iter_at s'' it l (first_addr cs' NULL) \<and> frame l cs it s s'' \<and> freed cs cs' s''"
    if "dll s' l cs'" "heap_ok s'" "mem_of s' = mem_of s" "frame l cs NULL s s'" "freed cs cs' s'" for s' cs'
    using that itd ok
    by (auto simp: dll_def heap_ok_def mem_of_def iter_at_def frame_def freed_def)
      (metis neq0_conv option.distinct(1))
  show ?thesis
  proof (cases "xs = []")
    case True
    from Pop_refines [OF ok d len] True obtain s' where
      s': "PopLinkedList l s = Inr (True, Some x, s')" "dll s' l ys" "heap_ok s'"
          "mem_of s' = mem_of s" "frame l cs NULL s s'" "freed cs ys s'"
      by (auto simp: cs cl_pop_def)
    have h': "heads s' l = Some \<lparr>num_elements = of_nat (length ys), head = first_addr ys NULL,
             tail = last_addr NULL ys\<rparr>"
      using s'(2) by (simp add: dll_def)
    have "length ys < 2 ^ 32" using len cs by simp
    then have "of_nat (length ys) = (0 :: u32) \<longleftrightarrow> ys = []"
      by (simp add: of_nat_u32_eq_0_iff)
    with finish [OF s'(2-6)] show ?thesis
      using True h h' s'(1) itd sp(1,2)
      by (auto simp: LLIteratorDelete_def with_iter_def Let_def cl_delete_def cs cl_pop_def)
  next
    case xs: False
    then have nf: "first_addr cs NULL \<noteq> a"
      using sp(3) first_addr_in [OF xs, of a] by (metis cs first_addr.simps(2) first_addr_append)
    have n1: "length cs \<noteq> 1" using xs cs by simp
    show ?thesis
    proof (cases "ys = []")
      case True
      from Slice_refines [OF ok d len] True obtain s' where
        s': "SliceLinkedList l s = Inr (True, Some x, s')" "dll s' l xs" "heap_ok s'"
            "mem_of s' = mem_of s" "frame l cs NULL s s'" "freed cs xs s'"
        by (auto simp: cs cl_slice_def)
      have h': "heads s' l = Some \<lparr>num_elements = of_nat (length xs), head = first_addr xs NULL,
               tail = last_addr NULL xs\<rparr>"
        using s'(2) by (simp add: dll_def)
      have "length xs < 2 ^ 32" using len cs by simp
      then have "of_nat (length xs) \<noteq> (0 :: u32)"
        using xs by (simp add: of_nat_u32_eq_0_iff)
      with finish [OF s'(2-6)] show ?thesis
        using True h h' s'(1) itd sp(1,2) nf n1 one xs
        by (auto simp: LLIteratorDelete_def with_iter_def Let_def cl_delete_def cs cl_slice_def)
    next
      case ys: False
      have la: "last_addr NULL xs \<in> addrs xs" and fa: "first_addr ys NULL \<in> addrs ys"
        using xs ys by (simp_all add: last_addr_in first_addr_in)
      have nl: "last_addr NULL cs \<noteq> a" 
        using sp(4) last_addr_in [OF ys, of a] by (simp add: cs) metis
      obtain pn nn where pn: "nodes s (last_addr NULL xs) = Some pn"
        and nn: "nodes s (first_addr ys NULL) = Some nn"
        using chain_node [OF sp(9) la] chain_node [OF sp(10) fa] by auto
      have neq: "last_addr NULL xs \<noteq> first_addr ys NULL" "last_addr NULL xs \<noteq> a"
          "first_addr ys NULL \<noteq> a"
        using sp(3-5) la fa by (metis IntI empty_iff)+
      let ?s = "s\<lparr>nodes := (nodes s)(last_addr NULL xs \<mapsto> pn\<lparr>node_next := first_addr ys NULL\<rparr>,
                  first_addr ys NULL \<mapsto> nn\<lparr>node_prev := last_addr NULL xs\<rparr>, a := None),
           heads := (heads s)(l \<mapsto> \<lparr>num_elements = of_nat (length cs) - 1,
                  head = first_addr cs NULL, tail = last_addr NULL cs\<rparr>),
           iters := (iters s)(it \<mapsto> \<lparr>iter_list = l, iter_node = first_addr ys NULL\<rparr>)\<rparr>"
      have nz: "of_nat (length cs) \<noteq> (1 :: u32)"
        using n1 one by simp
      then have nz': "(of_nat (length cs) - 1 \<noteq> (0 :: u32)) = True"
        by simp
      have run: "LLIteratorDelete it payload_free_function s w
          = Inr (True, ?s, payload_free_function x w)"
        using h itd sp(1,2,8) nf nl nz pn nn neq
        by (simp add: LLIteratorDelete_def with_iter_def Let_def free_node_def)
      have cl: "cl_delete cs a = Inr (True, x, first_addr ys NULL, xs @ ys)"
        using xs n1 nf nl sp(1,3,4) by (simp add: cl_delete_def cs cells_append del: map_of_append)
      have "dll ?s l (xs @ ys)"
        using chain_unlink [OF d [unfolded cs] xs ys pn nn] sp(2,5,6,7) xs ys
        by (auto simp: dll_def cs first_addr_append first_addr_eq last_addr_eq)
      moreover have "heap_ok ?s"
        using ok pn nn itd h sp(2,11,12) xs ys by (auto simp: heap_ok_def)
      moreover have "frame l cs it s ?s"
        using la fa by (auto simp: frame_def cs)
      moreover have "freed cs (xs @ ys) ?s"
        by (auto simp: freed_def cs)
      ultimately show ?thesis
        using run cl itd by (auto simp: iter_at_def mem_of_def)
    qed
  qed
qed


section \<open>Freeing a list\<close>

text \<open>
  While the list is torn down only its head pointer is kept up to date, so the loop invariant is
  about the chain that is left (its first node still points back to a freed node).
\<close>

lemma chain_fst_node:
  "chain ns p ((a, x) # cs) q \<Longrightarrow> distinct (map fst ((a, x) # cs)) \<Longrightarrow>
     chain (ns(a := None)) a cs q"
  by simp

lemma FreeLinkedList_loop_correct:
  assumes "chain (nodes s) p cs NULL" "distinct (map fst cs)" "heads s l = Some h"
    "head h = first_addr cs NULL" "length cs < n"
  shows "\<exists>s'. FreeLinkedList_loop n l payload_free_function s w
               = Inr (s', fold payload_free_function (map snd cs) w) \<and>
           nodes s' = (\<lambda>a. if a \<in> addrs cs then None else nodes s a) \<and>
           heads s' l \<noteq> None \<and> (\<forall>k. k \<noteq> l \<longrightarrow> heads s' k = heads s k) \<and>
           iters s' = iters s \<and> mem_of s' = mem_of s"
  using assms
proof (induction cs arbitrary: n p s h w)
  case Nil
  then show ?case by (cases n) auto
next
  case (Cons c cs)
  obtain a x where c: "c = (a, x)" by (cases c)
  obtain k where n: "n = Suc k" using Cons.prems(5) by (cases n) auto
  let ?h = "h\<lparr>head := first_addr cs NULL\<rparr>"
  let ?s = "s\<lparr>heads := (heads s)(l \<mapsto> ?h), nodes := (nodes s)(a := None)\<rparr>"
  have na: "nodes s a = Some \<lparr>payload = x, node_next = first_addr cs NULL, node_prev = p\<rparr>" "a \<noteq> NULL"
    using Cons.prems(1) c by auto
  have p1: "chain (nodes ?s) a cs NULL" and p2: "distinct (map fst cs)" and p3: "heads ?s l = Some ?h"
    and p4: "head ?h = first_addr cs NULL" and p5: "length cs < k"
    using Cons.prems c n by auto
  from Cons.IH [OF p1 p2 p3 p4 p5, of "payload_free_function x w"] obtain s' where
    s': "FreeLinkedList_loop k l payload_free_function ?s (payload_free_function x w)
           = Inr (s', fold payload_free_function (map snd cs) (payload_free_function x w))"
        "nodes s' = (\<lambda>b. if b \<in> addrs cs then None else nodes ?s b)"
        "heads s' l \<noteq> None" "\<forall>k. k \<noteq> l \<longrightarrow> heads s' k = heads ?s k"
        "iters s' = iters ?s" "mem_of s' = mem_of ?s"
    by blast
  have "FreeLinkedList_loop n l payload_free_function s w =
      FreeLinkedList_loop k l payload_free_function ?s (payload_free_function x w)"
    using Cons.prems(3,4) na c n by (simp add: free_node_def)
  with s' show ?case
    by (auto simp: c mem_of_def fun_eq_iff)
qed

lemma FreeLinkedList_correct:
  assumes ok: "heap_ok s" and d: "dll s l cs" and fuel: "length cs < fuel"
  shows "\<exists>s'. FreeLinkedList fuel l payload_free_function s w
               = Inr (s', fold payload_free_function (map snd cs) w) \<and>
           heap_ok s' \<and> mem_of s' = mem_of s \<and> frame l cs NULL s s' \<and> heads s' l = None \<and>
           (\<forall>a \<in> addrs cs. nodes s' a = None)"
proof -
  from d have "chain (nodes s) NULL cs NULL" "distinct (map fst cs)"
    "heads s l = Some \<lparr>num_elements = of_nat (length cs), head = first_addr cs NULL,
                        tail = last_addr NULL cs\<rparr>" and l: "l \<noteq> NULL"
    by (simp_all add: dll_def)
  from FreeLinkedList_loop_correct [OF this(1-3) _ fuel, of payload_free_function w]
  obtain s' where
    s': "FreeLinkedList_loop fuel l payload_free_function s w
           = Inr (s', fold payload_free_function (map snd cs) w)"
        "nodes s' = (\<lambda>a. if a \<in> addrs cs then None else nodes s a)"
        "heads s' l \<noteq> None" "\<forall>k. k \<noteq> l \<longrightarrow> heads s' k = heads s k"
        "iters s' = iters s" "mem_of s' = mem_of s"
    by auto
  have cl: "clock s' = clock s" "oom s' = oom s" "errno s' = errno s"
    "frame_slack s' = frame_slack s"
    using s'(6) by (simp_all add: mem_of_def)
  have "FreeLinkedList fuel l payload_free_function s w
      = Inr (s'\<lparr>heads := (heads s')(l := None)\<rparr>, fold payload_free_function (map snd cs) w)"
    using s'(1,3) l by (auto simp: FreeLinkedList_def)
  moreover have "heap_ok (s'\<lparr>heads := (heads s')(l := None)\<rparr>)"
    using ok s'(2,4,5) cl by (auto simp: heap_ok_def)
  ultimately show ?thesis
    using s'(2,4,5) cl by (auto simp: frame_def mem_of_def)
qed

end
