(* ===== verification/LinkedListSort.thy ===== *)
theory LinkedListSort
  imports LinkedListRep
begin

text \<open>
  \<^verbatim>\<open>SortLinkedList\<close>: the bubble sort on a list of payloads, that it terminates with a sorted,
  stable permutation for every comparator that keeps the contract of \<^verbatim>\<open>LLPayloadComparatorFnPtr\<close>,
  and that the pointer code performs exactly these passes.
\<close>

section \<open>Bubble sort on payloads\<close>

fun bubble_pass :: "('p \<Rightarrow> 'p \<Rightarrow> bool) \<Rightarrow> 'p list \<Rightarrow> 'p list \<times> bool" where
  "bubble_pass sw [] = ([], False)"
| "bubble_pass sw [x] = ([x], False)"
| "bubble_pass sw (x # y # r) =
     (if sw x y then (y # fst (bubble_pass sw (x # r)), True)
      else (x # fst (bubble_pass sw (y # r)), snd (bubble_pass sw (y # r))))"

fun bubble_loop :: "nat \<Rightarrow> ('p \<Rightarrow> 'p \<Rightarrow> bool) \<Rightarrow> 'p list \<Rightarrow> 'p list res" where
  "bubble_loop 0 sw xs = Inl OutOfFuel"
| "bubble_loop (Suc n) sw xs =
     (case bubble_pass sw xs of (ys, swapped) \<Rightarrow>
        if swapped then bubble_loop n sw ys else Inr ys)"

definition cl_sort :: "nat \<Rightarrow> bool \<Rightarrow> ('p \<Rightarrow> 'p \<Rightarrow> int) \<Rightarrow> 'p cells \<Rightarrow> 'p cells res" where
  "cl_sort fuel ascending cmp cs =
     (if length cs < 2 then Inr cs
      else andThen (bubble_loop fuel (must_swap ascending cmp) (map snd cs))
             (\<lambda>xs. Inr (zip (map fst cs) xs)))"

text \<open>The pairs that are out of order; every pass that swaps removes at least one.\<close>

fun inversions :: "('p \<Rightarrow> 'p \<Rightarrow> bool) \<Rightarrow> 'p list \<Rightarrow> nat" where
  "inversions sw [] = 0"
| "inversions sw (x # xs) = length (filter (sw x) xs) + inversions sw xs"

lemma inversions_bound: "inversions sw xs \<le> length xs * length xs"
proof (induction xs)
  case (Cons x xs)
  from add_mono [OF length_filter_le [of "sw x" xs] Cons.IH] show ?case by simp
qed simp

lemma mset_bubble_pass [simp]: "mset (fst (bubble_pass sw xs)) = mset xs"
  by (induction sw xs rule: bubble_pass.induct) auto

lemma length_bubble_pass [simp]: "length (fst (bubble_pass sw xs)) = length xs"
  using mset_bubble_pass mset_eq_length by blast

lemma length_filter_mset_eq: "mset xs = mset ys \<Longrightarrow> length (filter P xs) = length (filter P ys)"
  by (metis mset_eq_length mset_filter)

lemma inversions_bubble_pass:
  assumes "\<And>x y. sw x y \<Longrightarrow> \<not> sw y x"
  shows "inversions sw (fst (bubble_pass sw xs)) + (if snd (bubble_pass sw xs) then 1 else 0)
           \<le> inversions sw xs"
  using assms
proof (induction sw xs rule: bubble_pass.induct)
  case (3 sw x y r)
  have "length (filter (sw y) (fst (bubble_pass sw (x # r)))) = length (filter (sw y) (x # r))"
    "length (filter (sw x) (fst (bubble_pass sw (y # r)))) = length (filter (sw x) (y # r))"
    by (rule length_filter_mset_eq, simp)+
  with "3.IH" "3.prems" show ?case by (cases "sw x y") auto
qed simp_all


lemma bubble_pass_unchanged:
  "\<not> snd (bubble_pass sw xs) \<Longrightarrow>
     fst (bubble_pass sw xs) = xs \<and> successively (\<lambda>x y. \<not> sw x y) xs"
  by (induction sw xs rule: bubble_pass.induct) (auto split: if_splits)

text \<open>Payloads that are equal for the comparator keep their order.\<close>

lemma filter_bubble_pass:
  "(\<And>x y. P x \<Longrightarrow> P y \<Longrightarrow> \<not> sw x y) \<Longrightarrow> filter P (fst (bubble_pass sw xs)) = filter P xs"
  by (induction sw xs rule: bubble_pass.induct) auto

lemma bubble_loop_correct:
  assumes asym: "\<And>x y. sw x y \<Longrightarrow> \<not> sw y x" and "inversions sw xs < n"
  shows "\<exists>ys. bubble_loop n sw xs = Inr ys \<and> mset ys = mset xs \<and>
           successively (\<lambda>x y. \<not> sw x y) ys \<and>
           (\<forall>P. (\<forall>x y. P x \<longrightarrow> P y \<longrightarrow> \<not> sw x y) \<longrightarrow> filter P ys = filter P xs)"
  using assms(2)
proof (induction n arbitrary: xs)
  case (Suc n)
  obtain ys b where p: "bubble_pass sw xs = (ys, b)" by (cases "bubble_pass sw xs")
  have ys: "mset ys = mset xs" "\<And>P. (\<And>x y. P x \<Longrightarrow> P y \<Longrightarrow> \<not> sw x y) \<Longrightarrow> filter P ys = filter P xs"
    using mset_bubble_pass [of sw xs] filter_bubble_pass [of _ sw xs] p by simp_all
  show ?case
  proof (cases b)
    case True
    then have "inversions sw ys < n"
      using inversions_bubble_pass [of sw xs] asym Suc.prems p by simp
    from Suc.IH [OF this] ys p True show ?thesis by auto
  next
    case False
    with bubble_pass_unchanged [of sw xs] ys p show ?thesis by auto
  qed
qed simp

section \<open>Comparators\<close>

text \<open>
  The contract of \<^verbatim>\<open>LLPayloadComparatorFnPtr\<close>: the sign of the result orders the payloads.
\<close>

locale comparator =
  fixes cmp :: "'p \<Rightarrow> 'p \<Rightarrow> int"
  assumes cmp_sym: "sgn (cmp y x) = - sgn (cmp x y)"
    and cmp_trans: "cmp x y \<le> 0 \<Longrightarrow> cmp y z \<le> 0 \<Longrightarrow> cmp x z \<le> 0"
begin

text \<open>\<open>in_order asc x y\<close>: the payload \<open>x\<close> may stand before \<open>y\<close>.\<close>

definition in_order :: "bool \<Rightarrow> 'p \<Rightarrow> 'p \<Rightarrow> bool" where
  "in_order asc x y = (if asc then cmp x y \<le> 0 else 0 \<le> cmp x y)"

lemma cmp_neg: "cmp y x < 0 \<longleftrightarrow> 0 < cmp x y"
  using cmp_sym [of y x] by (auto simp: sgn_if split: if_splits)

lemma cmp_nonneg: "0 \<le> cmp x y \<longleftrightarrow> cmp y x \<le> 0"
  using cmp_neg [of x y] by auto

lemma must_swap_iff: "must_swap asc cmp x y \<longleftrightarrow> \<not> in_order asc x y"
  by (auto simp: must_swap_def in_order_def Let_def)

lemma must_swap_asym: "must_swap asc cmp x y \<Longrightarrow> \<not> must_swap asc cmp y x"
  using cmp_neg [of x y] cmp_neg [of y x] by (auto simp: must_swap_iff in_order_def split: if_splits)

lemma in_order_trans: "in_order asc x y \<Longrightarrow> in_order asc y z \<Longrightarrow> in_order asc x z"
  using cmp_trans [of x y z] cmp_trans [of z y x]
  by (auto simp: in_order_def cmp_nonneg split: if_splits)

lemma transp_in_order: "transp (in_order asc)"
  by (blast intro: transpI in_order_trans)

lemma cl_sort_correct:
  assumes fuel: "length cs * length cs < fuel"
  shows "\<exists>cs'. cl_sort fuel asc cmp cs = Inr cs' \<and> map fst cs' = map fst cs \<and>
           mset (map snd cs') = mset (map snd cs) \<and> sorted_wrt (in_order asc) (map snd cs') \<and>
           (\<forall>P. (\<forall>x y. P x \<longrightarrow> P y \<longrightarrow> cmp x y = 0) \<longrightarrow>
                 filter P (map snd cs') = filter P (map snd cs))"
proof (cases "length cs < 2")
  case True
  then have "sorted_wrt (in_order asc) (map snd cs)"
    by (cases cs) auto
  with True show ?thesis by (simp add: cl_sort_def)
next
  case False
  let ?sw = "must_swap asc cmp"
  have "inversions ?sw (map snd cs) < fuel"
    using inversions_bound [of ?sw "map snd cs"] fuel by simp
  from bubble_loop_correct [OF must_swap_asym this] obtain ys where
    ys: "bubble_loop fuel ?sw (map snd cs) = Inr ys" "mset ys = mset (map snd cs)"
      "successively (\<lambda>x y. \<not> ?sw x y) ys"
      "\<forall>P. (\<forall>x y. P x \<longrightarrow> P y \<longrightarrow> \<not> ?sw x y) \<longrightarrow> filter P ys = filter P (map snd cs)"
    by blast
  have len: "length ys = length cs"
    using ys(2) mset_eq_length by fastforce
  have "sorted_wrt (in_order asc) ys"
    using ys(3) transp_in_order [of asc] by (simp add: must_swap_iff successively_conv_sorted_wrt)
  moreover have "filter P ys = filter P (map snd cs)"
    if "\<forall>x y. P x \<longrightarrow> P y \<longrightarrow> cmp x y = 0" for P
    using ys(4) that by (simp add: must_swap_iff in_order_def)
  ultimately show ?thesis
    using False ys(1,2) len by (simp add: cl_sort_def del: mset_map)
qed

end

section \<open>The pointer code sorts as the bubble sort does\<close>

lemma SortLinkedList_pass_refines:
  assumes "chain (nodes s) p ((a, x) # cs) NULL" "distinct (map fst ((a, x) # cs))" "length cs < n"
  shows "\<exists>s'. SortLinkedList_pass n asc cmp a b s
           = Inr (b \<or> snd (bubble_pass (must_swap asc cmp) (x # map snd cs)), s') \<and>
         chain (nodes s') p
           (zip (a # map fst cs) (fst (bubble_pass (must_swap asc cmp) (x # map snd cs)))) NULL \<and>
         (\<forall>k. k \<noteq> a \<longrightarrow> k \<notin> addrs cs \<longrightarrow> nodes s' k = nodes s k) \<and>
         heads s' = heads s \<and> iters s' = iters s \<and> mem_of s' = mem_of s"
  using assms
proof (induction cs arbitrary: p a x b s n)
  case Nil
  then show ?case by (cases n) auto
next
  case (Cons c cs)
  obtain d y where c: "c = (d, y)" by (cases c)
  obtain m where n: "n = Suc m" using Cons.prems(3) by (cases n) auto
  have na: "nodes s a = Some \<lparr>payload = x, node_next = d, node_prev = p\<rparr>" "a \<noteq> NULL" "d \<noteq> NULL"
    "nodes s d = Some \<lparr>payload = y, node_next = first_addr cs NULL, node_prev = a\<rparr>"
    and ad: "a \<noteq> d" "a \<notin> addrs cs" "d \<notin> addrs cs"
    using Cons.prems(1,2) c by auto
  show ?case
  proof (cases "must_swap asc cmp x y")
    case True
    let ?s = "s\<lparr>nodes := (nodes s)(a \<mapsto> \<lparr>payload = y, node_next = d, node_prev = p\<rparr>,
        d \<mapsto> \<lparr>payload = x, node_next = first_addr cs NULL, node_prev = a\<rparr>)\<rparr>"
    have p1: "chain (nodes ?s) a ((d, x) # cs) NULL" and p2: "distinct (map fst ((d, x) # cs))"
      and p3: "length cs < m"
      using Cons.prems c n ad by auto
    from Cons.IH [OF p1 p2 p3, of True] obtain s' where
      s': "SortLinkedList_pass m asc cmp d True ?s = Inr (True, s')"
        "chain (nodes s') a
           (zip (d # map fst cs) (fst (bubble_pass (must_swap asc cmp) (x # map snd cs)))) NULL"
        "\<forall>k. k \<noteq> d \<longrightarrow> k \<notin> addrs cs \<longrightarrow> nodes s' k = nodes ?s k"
        "heads s' = heads s" "iters s' = iters s" "mem_of s' = mem_of s"
      by (auto simp: mem_of_def)
    obtain z zs where zs: "fst (bubble_pass (must_swap asc cmp) (x # map snd cs)) = z # zs"
      using length_bubble_pass [of "must_swap asc cmp" "x # map snd cs"]
      by (metis length_Suc_conv length_Cons)
    have "nodes s' a = Some \<lparr>payload = y, node_next = d, node_prev = p\<rparr>"
      using s'(3) ad by simp
    moreover have "SortLinkedList_pass n asc cmp a b s = SortLinkedList_pass m asc cmp d True ?s"
      using na True ad n by (simp add: fun_upd_twist)
    ultimately show ?thesis
      using s' True na c zs ad by auto
  next
    case False
    have p1: "chain (nodes s) a ((d, y) # cs) NULL" and p2: "distinct (map fst ((d, y) # cs))"
      and p3: "length cs < m"
      using Cons.prems c n by auto
    from Cons.IH [OF p1 p2 p3, of b] obtain s' where
      s': "SortLinkedList_pass m asc cmp d b s
             = Inr (b \<or> snd (bubble_pass (must_swap asc cmp) (y # map snd cs)), s')"
        "chain (nodes s') a
           (zip (d # map fst cs) (fst (bubble_pass (must_swap asc cmp) (y # map snd cs)))) NULL"
        "\<forall>k. k \<noteq> d \<longrightarrow> k \<notin> addrs cs \<longrightarrow> nodes s' k = nodes s k"
        "heads s' = heads s" "iters s' = iters s" "mem_of s' = mem_of s"
      by blast
    obtain z zs where zs: "fst (bubble_pass (must_swap asc cmp) (y # map snd cs)) = z # zs"
      using length_bubble_pass [of "must_swap asc cmp" "y # map snd cs"]
      by (metis length_Suc_conv length_Cons)
    have "nodes s' a = Some \<lparr>payload = x, node_next = d, node_prev = p\<rparr>"
      using s'(3) ad na by simp
    with s' False na c zs ad n show ?thesis by auto
  qed
qed


lemma first_addr_zip: "length xs = length cs \<Longrightarrow> first_addr (zip (map fst cs) xs) q = first_addr cs q"
  by (cases cs; cases xs) auto

lemma last_addr_zip: "length xs = length cs \<Longrightarrow> last_addr p (zip (map fst cs) xs) = last_addr p cs"
proof (induction cs arbitrary: xs p)
  case (Cons c cs)
  then show ?case by (cases c; cases xs) auto
qed simp

lemma addrs_zip: "length xs = length cs \<Longrightarrow> addrs (zip (map fst cs) xs) = addrs cs"
  by (metis length_map list.set_map map_fst_zip)

lemma SortLinkedList_loop_refines:
  assumes "heap_ok s" "dll s l cs" "cs \<noteq> []" "length cs < m"
    and "bubble_loop n (must_swap asc cmp) (map snd cs) = Inr ys"
  shows "\<exists>s'. SortLinkedList_loop n m asc cmp l s = Inr s' \<and> dll s' l (zip (map fst cs) ys) \<and>
           heap_ok s' \<and> mem_of s' = mem_of s \<and> frame l cs NULL s s'"
  using assms
proof (induction n arbitrary: s cs)
  case (Suc n)
  obtain a x ds where cs: "cs = (a, x) # ds"
    using Suc.prems(3) by (cases cs) auto
  let ?p = "bubble_pass (must_swap asc cmp) (map snd cs)"
  have h: "heads s l = Some \<lparr>num_elements = of_nat (length cs), head = a, tail = last_addr NULL cs\<rparr>"
    and ch: "chain (nodes s) NULL ((a, x) # ds) NULL" and di: "distinct (map fst ((a, x) # ds))"
    and len: "length ds < m"
    using Suc.prems(2,4) cs by (auto simp: dll_def)
  from SortLinkedList_pass_refines [OF ch di len, of asc cmp False] obtain s' where
    s': "SortLinkedList_pass m asc cmp a False s = Inr (snd ?p, s')"
      "chain (nodes s') NULL (zip (map fst cs) (fst ?p)) NULL"
      "\<forall>k. k \<notin> addrs cs \<longrightarrow> nodes s' k = nodes s k"
      "heads s' = heads s" "iters s' = iters s" "mem_of s' = mem_of s"
    by (auto simp: cs)
  have cl: "clock s' = clock s"
    using s'(6) by (simp add: mem_of_def)
  have lp: "length (fst ?p) = length cs" by simp
  have d': "dll s' l (zip (map fst cs) (fst ?p))"
    using Suc.prems(2) s'(2,4) lp
    by (simp add: dll_def first_addr_zip last_addr_zip)
  have nc: "nodes s' k = None" if "k = NULL \<or> clock s < k" for k
    using s'(3) Suc.prems(1) dll_addrs [OF Suc.prems(2)] that by (metis heap_ok_def)
  have ok': "heap_ok s'"
    using Suc.prems(1) s'(4,5) nc cl by (simp add: heap_ok_def)
  have fr': "frame l cs NULL s s'"
    using s'(3,4,5) by (simp add: frame_def)
  show ?case
  proof (cases "snd ?p")
    case True
    let ?cs = "zip (map fst cs) (fst ?p)"
    have b: "bubble_loop n (must_swap asc cmp) (map snd ?cs) = Inr ys"
      using Suc.prems(5) True lp by (simp add: case_prod_unfold)
    have ne: "?cs \<noteq> []" "length ?cs < m"
      using Suc.prems(3,4) lp by (metis length_0_conv length_map length_zip min.idem, simp)
    from Suc.IH [OF ok' d' ne b] obtain s'' where
      s'': "SortLinkedList_loop n m asc cmp l s' = Inr s''" "dll s'' l (zip (map fst ?cs) ys)"
        "heap_ok s''" "mem_of s'' = mem_of s'" "frame l ?cs NULL s' s''" by blast
    have "frame l cs NULL s s''"
      using fr' s''(5) addrs_zip [OF lp] by (simp add: frame_def)
    with s'' s'(1,6) h True lp show ?thesis by auto
  next
    case False
    with Suc.prems(5) have "ys = fst ?p" by (simp add: case_prod_unfold)
    with s'(1,6) h False d' ok' fr' show ?thesis by auto
  qed
qed simp

lemma Sort_refines:
  assumes ok: "heap_ok s" and d: "dll s l cs" and len: "length cs < 2 ^ 32"
    and fuel: "length cs < fuel" and cl: "cl_sort fuel asc cmp cs = Inr cs'"
  shows "\<exists>s'. SortLinkedList fuel l asc cmp s = Inr s' \<and> dll s' l cs' \<and> heap_ok s' \<and>
           mem_of s' = mem_of s \<and> frame l cs NULL s s'"
proof -
  have h: "l \<noteq> NULL" "heads s l = Some \<lparr>num_elements = of_nat (length cs),
      head = first_addr cs NULL, tail = last_addr NULL cs\<rparr>"
    using d by (simp_all add: dll_def)
  have two: "of_nat (length cs) < (2 :: u32) \<longleftrightarrow> length cs < 2"
    using len by (simp add: word_less_nat_alt unat_of_nat_u32)
  show ?thesis
  proof (cases "length cs < 2")
    case True
    with h two ok d cl show ?thesis
      by (auto simp: SortLinkedList_def cl_sort_def frame_def)
  next
    case False
    then obtain ys where "bubble_loop fuel (must_swap asc cmp) (map snd cs) = Inr ys"
      "cs' = zip (map fst cs) ys"
      using cl by (auto simp: cl_sort_def andThen_Inr_iff)
    moreover have "cs \<noteq> []"
      using False by auto
    ultimately show ?thesis
      using SortLinkedList_loop_refines [OF ok d _ fuel] False h two
      by (simp add: SortLinkedList_def)
  qed
qed

end
