(* ===== verification/LinkedListLaws.thy ===== *)
theory LinkedListLaws
  imports LinkedListSort
begin

text \<open>
  What a customer of the linked list relies on: the interface of a double-ended list as a locale
  with the laws its operations promise, the customer's lemmas proved inside it, its interpretation
  on the pointer code, and the properties of the list component.
\<close>

section \<open>The interface\<close>

text \<open>Running an inserting operation on every element, and a removing operation \<open>n\<close> times.\<close>

primrec insert_each :: "('p \<Rightarrow> 's \<Rightarrow> (bool \<times> 's) res) \<Rightarrow> 'p list \<Rightarrow> 's \<Rightarrow> 's res" where
  "insert_each f [] s = Inr s"
| "insert_each f (x # xs) s = andThen (f x s) (\<lambda>(b, s). insert_each f xs s)"

primrec remove_times ::
  "('s \<Rightarrow> (bool \<times> 'p option \<times> 's) res) \<Rightarrow> nat \<Rightarrow> 's \<Rightarrow> ('p option list \<times> 's) res" where
  "remove_times f 0 s = Inr ([], s)"
| "remove_times f (Suc n) s =
     andThen (f s) (\<lambda>(b, x, s). andThen (remove_times f n s) (\<lambda>(xs, s). Inr (x # xs, s)))"

locale dlist =
  fixes rep :: "'s \<Rightarrow> 'p list \<Rightarrow> bool"
    and push append :: "'p \<Rightarrow> 's \<Rightarrow> (bool \<times> 's) res"
    and pop slice :: "'s \<Rightarrow> (bool \<times> 'p option \<times> 's) res"
    and capacity :: nat
  assumes push_ok: "rep s xs \<Longrightarrow> length xs < capacity \<Longrightarrow> \<exists>s'. push x s = Inr (True, s') \<and> rep s' (x # xs)"
    and append_ok: "rep s xs \<Longrightarrow> length xs < capacity \<Longrightarrow> \<exists>s'. append x s = Inr (True, s') \<and> rep s' (xs @ [x])"
    and pop_ok: "rep s (x # xs) \<Longrightarrow> \<exists>s'. pop s = Inr (True, Some x, s') \<and> rep s' xs"
    and slice_ok: "rep s (xs @ [x]) \<Longrightarrow> \<exists>s'. slice s = Inr (True, Some x, s') \<and> rep s' xs"
    and pop_empty: "rep s [] \<Longrightarrow> pop s = Inr (False, None, s)"
    and slice_empty: "rep s [] \<Longrightarrow> slice s = Inr (False, None, s)"
begin

lemma append_each:
  "rep s ys \<Longrightarrow> length ys + length xs \<le> capacity \<Longrightarrow>
     \<exists>s'. insert_each append xs s = Inr s' \<and> rep s' (ys @ xs)"
proof (induction xs arbitrary: s ys)
  case (Cons x xs)
  then obtain s1 where "append x s = Inr (True, s1)" "rep s1 (ys @ [x])"
    using append_ok [of s ys x] by auto
  with Cons.IH [of s1 "ys @ [x]"] Cons.prems(2) show ?case by auto
qed simp

lemma push_each:
  "rep s ys \<Longrightarrow> length ys + length xs \<le> capacity \<Longrightarrow>
     \<exists>s'. insert_each push xs s = Inr s' \<and> rep s' (rev xs @ ys)"
proof (induction xs arbitrary: s ys)
  case (Cons x xs)
  then obtain s1 where "push x s = Inr (True, s1)" "rep s1 (x # ys)"
    using push_ok [of s ys x] by auto
  with Cons.IH [of s1 "x # ys"] Cons.prems(2) show ?case by auto
qed simp

lemma pop_all: "rep s xs \<Longrightarrow> \<exists>s'. remove_times pop (length xs) s = Inr (map Some xs, s') \<and> rep s' []"
proof (induction xs arbitrary: s)
  case (Cons x xs)
  then obtain s1 where "pop s = Inr (True, Some x, s1)" "rep s1 xs"
    using pop_ok by blast
  with Cons.IH [of s1] show ?case by auto
qed simp

lemma slice_all:
  "rep s xs \<Longrightarrow> \<exists>s'. remove_times slice (length xs) s = Inr (map Some (rev xs), s') \<and> rep s' []"
proof (induction xs arbitrary: s rule: rev_induct)
  case (snoc x xs)
  then obtain s1 where "slice s = Inr (True, Some x, s1)" "rep s1 xs"
    using slice_ok by blast
  with snoc.IH [of s1] show ?case by auto
qed simp

text \<open>Appending and popping is a queue, pushing and popping a stack.\<close>

lemma queue_order:
  assumes "rep s []" "length xs \<le> capacity"
  shows "\<exists>s1 s2. insert_each append xs s = Inr s1 \<and>
           remove_times pop (length xs) s1 = Inr (map Some xs, s2) \<and> pop s2 = Inr (False, None, s2)"
  using append_each [OF assms(1), of xs] assms(2) pop_all pop_empty by fastforce

lemma stack_order:
  assumes "rep s []" "length xs \<le> capacity"
  shows "\<exists>s1 s2. insert_each push xs s = Inr s1 \<and>
           remove_times pop (length xs) s1 = Inr (map Some (rev xs), s2) \<and>
           pop s2 = Inr (False, None, s2)"
proof -
  obtain s1 where s1: "insert_each push xs s = Inr s1" "rep s1 (rev xs)"
    using push_each [OF assms(1), of xs] assms(2) by auto
  from pop_all [OF s1(2)] pop_empty s1(1) show ?thesis by auto
qed

end

section \<open>The pointer code provides it\<close>

definition ll_rep :: "ptr \<Rightarrow> 'p ll_heap \<Rightarrow> 'p list \<Rightarrow> bool" where
  "ll_rep l s xs \<longleftrightarrow>
     heap_ok s \<and> reliable s \<and> length xs < 2 ^ 32 \<and> (\<exists>cs. dll s l cs \<and> map snd cs = xs)"

lemma ll_repI:
  "heap_ok s \<Longrightarrow> reliable s \<Longrightarrow> dll s l cs \<Longrightarrow> map snd cs = xs \<Longrightarrow> length xs < 2 ^ 32 \<Longrightarrow> ll_rep l s xs"
  by (auto simp: ll_rep_def)

lemma ll_repE:
  assumes "ll_rep l s xs"
  obtains cs where "heap_ok s" "reliable s" "dll s l cs" "map snd cs = xs" "length cs < 2 ^ 32"
  using assms unfolding ll_rep_def by (metis length_map)

lemma reliable_mem_of: "reliable (mem_of s) = reliable s"
  by (simp add: reliable_def mem_of_def)

lemma reliable_same_mem: "mem_of s' = m \<Longrightarrow> reliable m \<Longrightarrow> reliable s'"
  by (metis reliable_mem_of)

lemma cl_push_reliable:
  "reliable m \<Longrightarrow> cl_push p cs m = (True, (Suc (clock m), p) # cs, m\<lparr>clock := Suc (clock m)\<rparr>)"
  by (simp add: cl_push_def malloc_reliable)

lemma cl_append_reliable:
  "reliable m \<Longrightarrow> cl_append p cs m = (True, cs @ [(Suc (clock m), p)], m\<lparr>clock := Suc (clock m)\<rparr>)"
  by (simp add: cl_append_def malloc_reliable)

interpretation ll: dlist "ll_rep l" "PushLinkedList l" "AppendLinkedList l" "PopLinkedList l"
    "SliceLinkedList l" "2 ^ 32 - 1" for l :: ptr
proof
  fix s :: "'a ll_heap" and xs :: "'a list" and x :: 'a
  assume r: "ll_rep l s xs" and len: "length xs < 2 ^ 32 - 1"
  from ll_repE [OF r] obtain cs where cs: "heap_ok s" "reliable s" "dll s l cs" "map snd cs = xs" "length cs < 2 ^ 32" .
  have rm: "reliable (mem_of s)" using cs(2) by (simp add: reliable_mem_of)
  obtain s1 where
    "PushLinkedList l x s = Inr (True, s1)" "dll s1 l ((Suc (clock s), x) # cs)" "heap_ok s1"
      "mem_of s1 = (mem_of s)\<lparr>clock := Suc (clock s)\<rparr>"
    using Push_refines [OF cs(1,3,5), of x]
    by (auto simp: cl_push_reliable [OF rm]) (simp add: mem_of_def)
  then show "\<exists>s'. PushLinkedList l x s = Inr (True, s') \<and> ll_rep l s' (x # xs)"
    using reliable_same_mem [of s1] rm len cs(4) by (fastforce intro!: ll_repI)
  obtain s2 where
    "AppendLinkedList l x s = Inr (True, s2)" "dll s2 l (cs @ [(Suc (clock s), x)])" "heap_ok s2"
      "mem_of s2 = (mem_of s)\<lparr>clock := Suc (clock s)\<rparr>"
    using Append_refines [OF cs(1,3,5), of x]
    by (auto simp: cl_append_reliable [OF rm]) (simp add: mem_of_def)
  then show "\<exists>s'. AppendLinkedList l x s = Inr (True, s') \<and> ll_rep l s' (xs @ [x])"
    using reliable_same_mem [of s2] rm len cs(4) by (fastforce intro!: ll_repI)
next
  fix s :: "'a ll_heap" and xs :: "'a list" and x :: 'a
  assume r: "ll_rep l s (x # xs)"
  from ll_repE [OF r] obtain cs where cs: "heap_ok s" "reliable s" "dll s l cs" "map snd cs = x # xs" "length cs < 2 ^ 32" .
  then obtain a cs' where c: "cs = (a, x) # cs'" "map snd cs' = xs" by (cases cs) auto
  from Pop_refines [OF cs(1,3,5)] obtain s1 where
    "PopLinkedList l s = Inr (True, Some x, s1)" "dll s1 l cs'" "heap_ok s1" "mem_of s1 = mem_of s"
    by (auto simp: c cl_pop_def)
  then show "\<exists>s'. PopLinkedList l s = Inr (True, Some x, s') \<and> ll_rep l s' xs"
    using reliable_same_mem [of s1 "mem_of s"] cs(2,5) c by (auto simp: reliable_mem_of intro!: ll_repI)
next
  fix s :: "'a ll_heap" and xs :: "'a list" and x :: 'a
  assume r: "ll_rep l s (xs @ [x])"
  from ll_repE [OF r] obtain cs where cs: "heap_ok s" "reliable s" "dll s l cs" "map snd cs = xs @ [x]" "length cs < 2 ^ 32" .
  then obtain a cs' where c: "cs = cs' @ [(a, x)]" "map snd cs' = xs"
    by (auto simp: map_eq_append_conv)
  from Slice_refines [OF cs(1,3,5)] obtain s1 where
    "SliceLinkedList l s = Inr (True, Some x, s1)" "dll s1 l cs'" "heap_ok s1" "mem_of s1 = mem_of s"
    by (auto simp: c cl_slice_def)
  then show "\<exists>s'. SliceLinkedList l s = Inr (True, Some x, s') \<and> ll_rep l s' xs"
    using reliable_same_mem [of s1 "mem_of s"] cs(2,5) c by (auto simp: reliable_mem_of intro!: ll_repI)
next
  fix s :: "'a ll_heap"
  assume "ll_rep l s []"
  then have "heap_ok s" "dll s l []" by (auto simp: ll_rep_def)
  from Pop_refines [OF this] Slice_refines [OF this]
  show "PopLinkedList l s = Inr (False, None, s)" "SliceLinkedList l s = Inr (False, None, s)"
    by (simp_all add: cl_pop_def cl_slice_def)
qed


section \<open>Properties of the linked list\<close>

text \<open>A list of three payloads with an iterator on the middle node, for the witnesses.\<close>

definition demo_cells :: "nat cells" where
  "demo_cells = [(2, 20), (3, 10), (4, 30)]"

definition demo_heap :: "nat ll_heap" where
  "demo_heap = \<lparr>clock = 5, oom = (\<lambda>_. False), errno = 0, frame_slack = 4,
     nodes = [2 \<mapsto> \<lparr>payload = 20, node_next = 3, node_prev = NULL\<rparr>,
              3 \<mapsto> \<lparr>payload = 10, node_next = 4, node_prev = 2\<rparr>,
              4 \<mapsto> \<lparr>payload = 30, node_next = NULL, node_prev = 3\<rparr>],
     heads = [1 \<mapsto> \<lparr>num_elements = 3, head = 2, tail = 4\<rparr>],
     iters = [5 \<mapsto> \<lparr>iter_list = 1, iter_node = 3\<rparr>]\<rparr>"

lemma demo_heap_ok: "heap_ok demo_heap"
  by (simp add: heap_ok_def demo_heap_def)

lemma demo_dll: "dll demo_heap 1 demo_cells" "dll demo_heap 1 ([(2, 20)] @ (3, 10) # [(4, 30)])"
  by (simp_all add: dll_def demo_heap_def demo_cells_def)

lemma demo_iter: "iter_at demo_heap 5 1 3"
  by (simp add: iter_at_def demo_heap_def)

text \<open>
  C21: Deleting at an iterator unlinks exactly the node it stands on, in every position (only
  node, head, tail, middle): the remaining cells stay linked in order, the payload is freed
  once, the node is freed, every other list is untouched, the result says whether the list is
  still non-empty, and the iterator moves to the successor, or back to the head after the tail.
\<close>

theorem LLIteratorDelete_correct:
  assumes "heap_ok s" "dll s l (xs @ (a, x) # ys)" "length (xs @ (a, x) # ys) < 2 ^ 32"
    and "iter_at s it l a"
  shows "\<exists>s'. LLIteratorDelete it payload_free_function s w
                = Inr (xs @ ys \<noteq> [], s', payload_free_function x w) \<and>
           dll s' l (xs @ ys) \<and> heap_ok s' \<and> nodes s' a = None \<and>
           iter_at s' it l (if ys \<noteq> [] then first_addr ys NULL else first_addr xs NULL) \<and>
           (\<forall>k ds. k \<noteq> l \<longrightarrow> dll s k ds \<longrightarrow> addrs ds \<inter> addrs (xs @ (a, x) # ys) = {} \<longrightarrow> dll s' k ds)"
proof -
  let ?cs = "xs @ (a, x) # ys"
  note sp = dll_split [OF assms(2)]
  have a: "a \<in> addrs ?cs" by simp
  have cl: "cl_delete ?cs a = Inr (xs @ ys \<noteq> [], x,
      (if ys \<noteq> [] then first_addr ys NULL else first_addr xs NULL), xs @ ys)"
    using sp(1,3,4) by (rule cl_delete_split)
  from Delete_refines [OF assms(1-4) a, of payload_free_function w] cl obtain s' where
    s': "LLIteratorDelete it payload_free_function s w
           = Inr (xs @ ys \<noteq> [], s', payload_free_function x w)"
      "dll s' l (xs @ ys)" "heap_ok s'" "frame l ?cs it s s'" "freed ?cs (xs @ ys) s'"
      "iter_at s' it l (if ys \<noteq> [] then first_addr ys NULL else first_addr xs NULL)"
    by auto
  moreover have "nodes s' a = None"
    using s'(5) sp(3,4) by (auto simp: freed_def)
  ultimately show ?thesis
    using dll_frame [OF s'(4)] by blast
qed

theorem LLIteratorDelete_correct_witness:
  "\<exists>s'. LLIteratorDelete 5 (\<lambda>p ps. ps @ [p]) demo_heap [] = Inr (True, s', [10]) \<and>
        dll s' 1 [(2, 20), (4, 30)] \<and> iter_at s' 5 1 4"
  using LLIteratorDelete_correct [OF demo_heap_ok demo_dll(2) _ demo_iter, of "\<lambda>p ps. ps @ [p]" "[]"]
  by auto

text \<open>
  C22: Inserting before an iterator puts one new node directly before the node it stands on and
  leaves the iterator there; when there is no memory it reports failure and the list is as it was.
\<close>

theorem LLIteratorInsertBefore_correct:
  assumes "heap_ok s" "dll s l (xs @ (a, x) # ys)" "length (xs @ (a, x) # ys) < 2 ^ 32"
    and "iter_at s it l a"
  shows "\<exists>b s'. LLIteratorInsertBefore it p s = Inr (b, s') \<and> heap_ok s' \<and> iter_at s' it l a \<and>
           (b \<longleftrightarrow> \<not> oom s (clock s)) \<and>
           dll s' l (if b then xs @ (Suc (clock s), p) # (a, x) # ys else xs @ (a, x) # ys)"
proof -
  let ?cs = "xs @ (a, x) # ys"
  note sp = dll_split [OF assms(2)]
  have a: "a \<in> addrs ?cs" by simp
  have f: "first_addr xs a \<noteq> a" if "xs \<noteq> []"
    using first_addr_in [OF that, of a] sp(3) by metis
  have "\<exists>m'. cl_insert_before p ?cs a (mem_of s)
      = Inr (\<not> oom s (clock s), if oom s (clock s) then ?cs else xs @ (Suc (clock s), p) # (a, x) # ys, m')"
    using f sp(1,3)
    by (cases "xs = []")
      (simp_all add: cl_insert_before_def cl_push_def malloc_def mem_of_def first_addr_append
        insert_cell_before_append)
  with InsertBefore_refines [OF assms a, of p] show ?thesis by auto
qed

theorem LLIteratorInsertBefore_correct_witness:
  "\<exists>s'. LLIteratorInsertBefore 5 99 demo_heap = Inr (True, s') \<and>
        dll s' 1 [(2, 20), (6, 99), (3, 10), (4, 30)]"
  using LLIteratorInsertBefore_correct [OF demo_heap_ok demo_dll(2) _ demo_iter, of 99]
  by (auto simp: demo_heap_def)

text \<open>
  Appending to a fresh list and popping from it is a queue: every payload comes back exactly
  once, in the order of the appends, and the next pop reports the empty list.
\<close>

theorem LinkedList_queue:
  assumes "heap_ok s" "reliable s" "dll s l []" "length xs < 2 ^ 32"
  shows "\<exists>s1 s2. insert_each (AppendLinkedList l) xs s = Inr s1 \<and>
           remove_times (PopLinkedList l) (length xs) s1 = Inr (map Some xs, s2) \<and>
           PopLinkedList l s2 = Inr (False, None, s2)"
proof (rule ll.queue_order)
  show "ll_rep l s []"
    using assms(1-3) by (auto intro: ll_repI)
  show "length xs \<le> 2 ^ 32 - 1"
    using assms(4) by simp
qed

definition demo_empty :: "nat ll_heap" where
  "demo_empty = \<lparr>clock = 1, oom = (\<lambda>_. False), errno = 0, frame_slack = 4, nodes = Map.empty,
     heads = [1 \<mapsto> \<lparr>num_elements = 0, head = NULL, tail = NULL\<rparr>], iters = Map.empty\<rparr>"

theorem LinkedList_queue_witness:
  "\<exists>s1 s2. insert_each (AppendLinkedList 1) [7, 8, 9] demo_empty = Inr s1 \<and>
     remove_times (PopLinkedList 1) (length [7, 8, 9 :: nat]) s1 = Inr (map Some [7, 8, 9], s2)"
proof -
  have "heap_ok demo_empty" "reliable demo_empty" "dll demo_empty 1 []"
    "length [7, 8, 9 :: nat] < 2 ^ 32"
    by (simp_all add: demo_empty_def heap_ok_def reliable_def dll_def)
  from LinkedList_queue [OF this] show ?thesis by blast
qed

text \<open>
  C23: For every comparator that keeps its contract, \<^verbatim>\<open>SortLinkedList\<close> terminates, keeps the
  nodes and leaves their payloads as a permutation that is sorted in the requested direction and
  keeps the order of payloads that compare as equal. \<open>n\<^sup>2 + 1\<close> passes are enough.
\<close>

theorem SortLinkedList_correct:
  assumes "comparator cmp" "heap_ok s" "dll s l cs" "length cs < 2 ^ 32"
    and "length cs * length cs < fuel"
  shows "\<exists>s' cs'. SortLinkedList fuel l ascending cmp s = Inr s' \<and> dll s' l cs' \<and> heap_ok s' \<and>
           map fst cs' = map fst cs \<and> mset (map snd cs') = mset (map snd cs) \<and>
           sorted_wrt (\<lambda>x y. if ascending then cmp x y \<le> 0 else 0 \<le> cmp x y) (map snd cs') \<and>
           (\<forall>P. (\<forall>x y. P x \<longrightarrow> P y \<longrightarrow> cmp x y = 0) \<longrightarrow>
                 filter P (map snd cs') = filter P (map snd cs))"
proof -
  have ord: "comparator.in_order cmp ascending
      = (\<lambda>x y. if ascending then cmp x y \<le> 0 else 0 \<le> cmp x y)"
    by (simp add: fun_eq_iff comparator.in_order_def [OF assms(1)])
  have "length cs < fuel"
    using assms(5) by (metis le_less_trans le_square)
  from comparator.cl_sort_correct [OF assms(1,5), of ascending] obtain cs' where
    cs': "cl_sort fuel ascending cmp cs = Inr cs'" "map fst cs' = map fst cs"
      "mset (map snd cs') = mset (map snd cs)"
      "sorted_wrt (comparator.in_order cmp ascending) (map snd cs')"
      "\<forall>P. (\<forall>x y. P x \<longrightarrow> P y \<longrightarrow> cmp x y = 0) \<longrightarrow>
           filter P (map snd cs') = filter P (map snd cs)"
    by blast
  from Sort_refines [OF assms(2-4) \<open>length cs < fuel\<close> cs'(1)] obtain s' where
    s': "SortLinkedList fuel l ascending cmp s = Inr s'" "dll s' l cs'" "heap_ok s'"
    by blast
  show ?thesis
    by (rule exI [of _ s'], rule exI [of _ cs'], intro conjI s' cs'(2,3,5) cs'(4) [unfolded ord])
qed

theorem SortLinkedList_correct_witness:
  "\<exists>s' cs'. SortLinkedList 10 1 True (\<lambda>x y. int x - int y) demo_heap = Inr s' \<and>
        dll s' 1 cs' \<and> sorted (map snd cs') \<and> mset (map snd cs') = {#20, 10, 30#}"
proof -
  have c: "comparator (\<lambda>x y. int x - int y)"
    by unfold_locales (auto simp: sgn_if)
  have len: "length demo_cells < 2 ^ 32" "length demo_cells * length demo_cells < 10"
    by (simp_all add: demo_cells_def)
  from SortLinkedList_correct [OF c demo_heap_ok demo_dll(1) len, of True] obtain s' cs' where
    r: "SortLinkedList 10 1 True (\<lambda>x y. int x - int y) demo_heap = Inr s'" "dll s' 1 cs'"
      "mset (map snd cs') = mset (map snd demo_cells)"
      "sorted_wrt (\<lambda>x y. if True then int x - int y \<le> 0 else 0 \<le> int x - int y) (map snd cs')"
    by metis
  have "mset (map snd cs') = {#20, 10, 30#}" "sorted (map snd cs')"
    using r(3,4) by (simp_all add: demo_cells_def)
  with r(1,2) show ?thesis by blast
qed

text \<open>
  \<^verbatim>\<open>FreeLinkedList\<close> terminates, hands every payload to the free function exactly once and in
  order, frees every node and the header, and leaves every other list as it was.
\<close>

theorem FreeLinkedList_frees_all:
  assumes "heap_ok s" "dll s l cs" "length cs < fuel"
  shows "\<exists>s'. FreeLinkedList fuel l payload_free_function s w
               = Inr (s', fold payload_free_function (map snd cs) w) \<and>
           heads s' l = None \<and> (\<forall>a \<in> addrs cs. nodes s' a = None) \<and>
           (\<forall>k ds. k \<noteq> l \<longrightarrow> dll s k ds \<longrightarrow> addrs ds \<inter> addrs cs = {} \<longrightarrow> dll s' k ds)"
  using FreeLinkedList_correct [OF assms, of payload_free_function w] dll_frame by metis

theorem FreeLinkedList_frees_all_witness:
  "\<exists>s'. FreeLinkedList 4 1 (\<lambda>p ps. ps @ [p]) demo_heap [] = Inr (s', [20, 10, 30]) \<and>
        heads s' 1 = None \<and> nodes s' 3 = None"
proof -
  have len: "length demo_cells < 4" by (simp add: demo_cells_def)
  from FreeLinkedList_frees_all [OF demo_heap_ok demo_dll(1) len, of "\<lambda>p ps. ps @ [p]" "[]"]
  show ?thesis by (auto simp: demo_cells_def)
qed

end
