(* ===== verification/Fnv.thy ===== *)
theory Fnv
  imports Prelude
begin

text \<open>
  The FNV-1a hash of \<^verbatim>\<open>hw1/HashTable.c\<close>. A byte buffer of length \<^verbatim>\<open>len\<close> is a list of bytes;
  arithmetic is on 64-bit words, so the multiplication wraps as in C.
\<close>

unbundle bit_operations_syntax

definition FNV1_64_INIT :: u64 where
  "FNV1_64_INIT = 0xcbf29ce484222325"

definition FNV_64_PRIME :: u64 where
  "FNV_64_PRIME = 0x100000001b3"

definition fnv_octet :: "u64 \<Rightarrow> u8 \<Rightarrow> u64" where
  "fnv_octet hval octet = (hval XOR ucast octet) * FNV_64_PRIME"

definition FNVHash64 :: "u8 list \<Rightarrow> u64" where
  "FNVHash64 buffer = foldl fnv_octet FNV1_64_INIT buffer"

text \<open>The eight octets of a 64-bit value, lowest first, as \<^verbatim>\<open>FNVHashInt64\<close> fills its buffer.\<close>

primrec le_octets :: "nat \<Rightarrow> u64 \<Rightarrow> u8 list" where
  "le_octets 0 hashme = []"
| "le_octets (Suc n) hashme = ucast (hashme AND 0xFF) # le_octets n (drop_bit 8 hashme)"

definition FNVHashInt64 :: "u64 \<Rightarrow> u64" where
  "FNVHashInt64 hashval = FNVHash64 (le_octets 8 hashval)"

text \<open>The bytes of a C string.\<close>

definition bytes_of :: "string \<Rightarrow> u8 list" where
  "bytes_of s = map of_char s"

definition hash_string :: "string \<Rightarrow> u64" where
  "hash_string s = FNVHash64 (bytes_of s)"

text \<open>The prime is odd, so multiplying by it is invertible modulo \<open>2 ^ 64\<close>.\<close>

definition FNV_INVERSE :: u64 where
  "FNV_INVERSE = 0xce965057aff6957b"

lemma FNV_inverse: "FNV_64_PRIME * FNV_INVERSE = 1"
  by (simp add: FNV_64_PRIME_def FNV_INVERSE_def)

lemma FNV_mult_inj: "x * FNV_64_PRIME = y * FNV_64_PRIME \<longleftrightarrow> x = y"
proof
  assume "x * FNV_64_PRIME = y * FNV_64_PRIME"
  then have "x * FNV_64_PRIME * FNV_INVERSE = y * FNV_64_PRIME * FNV_INVERSE" by simp
  then show "x = y" by (simp add: mult.assoc FNV_inverse)
qed simp

lemma ucast_u8_inj: "(ucast (a :: u8) :: u64) = ucast b \<longleftrightarrow> a = b"
  by transfer (simp add: take_bit_take_bit min_def)

lemma xor_cancel_left: "(h XOR a :: u64) = h XOR b \<longleftrightarrow> a = b"
  by (auto simp: bit_eq_iff bit_xor_iff)

lemma xor_cancel_right: "(g XOR a :: u64) = h XOR a \<longleftrightarrow> g = h"
  by (auto simp: bit_eq_iff bit_xor_iff)

lemma fnv_octet_inj_state: "fnv_octet g b = fnv_octet h b \<longleftrightarrow> g = h"
  by (simp add: fnv_octet_def FNV_mult_inj xor_cancel_right)

lemma fnv_octet_inj_octet: "fnv_octet h a = fnv_octet h b \<longleftrightarrow> a = b"
  by (simp add: fnv_octet_def FNV_mult_inj xor_cancel_left ucast_u8_inj)

lemma foldl_fnv_inj: "foldl fnv_octet g bs = foldl fnv_octet h bs \<longleftrightarrow> g = h"
  by (induction bs arbitrary: g h) (simp_all add: fnv_octet_inj_state)

text \<open>
  Two buffers of the same length that differ in exactly one octet never collide: changing
  one character of a word or of a file name always changes its hash key.
\<close>

theorem FNVHash64_one_octet:
  "FNVHash64 (xs @ a # ys) = FNVHash64 (xs @ b # ys) \<longleftrightarrow> a = b"
  by (simp add: FNVHash64_def foldl_fnv_inj fnv_octet_inj_octet)

end
