(* ===== verification/HashTable.thy ===== *)
theory HashTable
  imports CellList Fnv
begin

text \<open>
  The chained hash table of \<^verbatim>\<open>hw1/HashTable.c\<close>. A table is the record of the C code: the number
  of buckets and of elements at their 32-bit width, the array of bucket chains, and the store of
  the \<^verbatim>\<open>HTKeyValue\<close> boxes that the table has allocated. A bucket chain is a linked list of pointers
  to boxes, used through the operations of \<open>CellList\<close>. The memory \<open>m\<close> decides which calls of
  \<^verbatim>\<open>malloc\<close> fail. An operation returns its result code, its out parameter (as an option), the new
  table and the new memory.

  \<^verbatim>\<open>InsertHashTable\<close> and \<^verbatim>\<open>ResizeHashtable\<close> call each other. Each is written with the other as a
  parameter and the knot is tied with fuel; the number of elements plus one is enough, because
  a nested resize always works on a strictly smaller table.
\<close>

section \<open>The structures\<close>

record 'v HTKeyValue =
  kv_key :: u64
  kv_value :: 'v

definition kv_of :: "u64 \<Rightarrow> 'v \<Rightarrow> 'v HTKeyValue" where
  "kv_of k v = \<lparr>kv_key = k, kv_value = v\<rparr>"

record 'v hash_table =
  num_buckets :: u32
  ht_num_elements :: u32
  buckets :: "ptr cells list"
  kvs :: "ptr \<rightharpoonup> 'v HTKeyValue"

text \<open>
  An iterator. \<open>bucket_it\<close> is the list iterator: \<open>None\<close> for \<^verbatim>\<open>NULL\<close>, otherwise the node on which
  it stands. The iterator of an empty table leaves \<^verbatim>\<open>bucket_num\<close> uninitialised (\<open>0\<close> here, never read).
\<close>

record ht_iter =
  is_valid :: bool
  bucket_num :: nat
  bucket_it :: "ptr option"

definition total :: "'v hash_table \<Rightarrow> nat" where
  "total ht = length (concat (buckets ht))"

definition HashKeyToBucketNum :: "'v hash_table \<Rightarrow> u64 \<Rightarrow> u32" where
  "HashKeyToBucketNum ht key = ucast (key mod ucast (num_buckets ht))"

text \<open>\<^verbatim>\<open>table->buckets[i]\<close>, undefined outside the array.\<close>

definition bucket_at :: "'v hash_table \<Rightarrow> nat \<Rightarrow> (ptr cells \<Rightarrow> 'a res) \<Rightarrow> 'a res" where
  "bucket_at ht i k = (if i < length (buckets ht) then k (buckets ht ! i) else Inl MemFault)"

section \<open>Allocating and freeing\<close>

text \<open>The loop that allocates one list per bucket; it stops at the first failure.\<close>

primrec alloc_buckets :: "nat \<Rightarrow> mem \<Rightarrow> bool \<times> mem" where
  "alloc_buckets 0 m = (True, m)"
| "alloc_buckets (Suc n) m =
     (case malloc m of (ll, m) \<Rightarrow> if ll = NULL then (False, m) else alloc_buckets n m)"

definition AllocateHashTable :: "u32 \<Rightarrow> mem \<Rightarrow> 'v hash_table option \<times> mem" where
  "AllocateHashTable nb m =
     (if nb = 0 then (None, m)
      else case malloc m of (ht, m) \<Rightarrow>
        if ht = NULL then (None, m)
        else case malloc m of (bs, m) \<Rightarrow>
          if bs = NULL then (None, m)
          else case alloc_buckets (unat nb) m of (ok, m) \<Rightarrow>
            if \<not> ok then (None, m)
            else (Some \<lparr>num_buckets = nb, ht_num_elements = 0,
                        buckets = replicate (unat nb) [], kvs = Map.empty\<rparr>, m))"

text \<open>
  Freeing pops every chain until it is empty; each value goes to the free function and each box is
  freed. The result is the store of boxes that is left and the customer's world.
\<close>

function free_chain ::
  "('v \<Rightarrow> 'w \<Rightarrow> 'w) \<Rightarrow> ptr cells \<Rightarrow> (ptr \<rightharpoonup> 'v HTKeyValue) \<Rightarrow> 'w
     \<Rightarrow> ((ptr \<rightharpoonup> 'v HTKeyValue) \<times> 'w) res" where
  "free_chain value_free_function chain boxes w =
     (case cl_pop chain of
        None \<Rightarrow> Inr (boxes, w)
      | Some (nextKV, chain') \<Rightarrow> load boxes nextKV (\<lambda>kv.
          free_chain value_free_function chain' (boxes(nextKV := None))
            (value_free_function (kv_value kv) w)))"
  by pat_completeness auto
termination
  by (relation "measure (\<lambda>(f, chain, boxes, w). length chain)")
    (auto simp: cl_pop_def split: list.splits)

declare free_chain.simps [simp del]

primrec free_chains ::
  "('v \<Rightarrow> 'w \<Rightarrow> 'w) \<Rightarrow> ptr cells list \<Rightarrow> (ptr \<rightharpoonup> 'v HTKeyValue) \<Rightarrow> 'w
     \<Rightarrow> ((ptr \<rightharpoonup> 'v HTKeyValue) \<times> 'w) res" where
  "free_chains value_free_function [] boxes w = Inr (boxes, w)"
| "free_chains value_free_function (bl # bls) boxes w =
     andThen (free_chain value_free_function bl boxes w)
       (\<lambda>(boxes, w). free_chains value_free_function bls boxes w)"

definition FreeHashTable ::
  "('v \<Rightarrow> 'w \<Rightarrow> 'w) \<Rightarrow> 'v hash_table \<Rightarrow> 'w \<Rightarrow> ((ptr \<rightharpoonup> 'v HTKeyValue) \<times> 'w) res" where
  "FreeHashTable value_free_function table w =
     free_chains value_free_function (buckets table) (kvs table) w"

definition HTNullFree :: "'v \<Rightarrow> unit \<Rightarrow> unit" where
  "HTNullFree v w = w"

definition NumElementsInHashTable :: "'v hash_table \<Rightarrow> u32" where
  "NumElementsInHashTable table = ht_num_elements table"

section \<open>Looking up in a chain\<close>

text \<open>The node and the box of the first pair with the key, searching from the node \<open>it\<close> on.\<close>

primrec LookupChain_loop ::
  "nat \<Rightarrow> ptr cells \<Rightarrow> (ptr \<rightharpoonup> 'v HTKeyValue) \<Rightarrow> u64 \<Rightarrow> ptr \<Rightarrow> (ptr \<times> ptr) option res" where
  "LookupChain_loop 0 chain boxes key it = Inl OutOfFuel"
| "LookupChain_loop (Suc n) chain boxes key it =
     andThen (cl_payload chain it) (\<lambda>oldkeyvalue.
       load boxes oldkeyvalue (\<lambda>kv.
         if kv_key kv = key then Inr (Some (it, oldkeyvalue))
         else andThen (cl_next chain it) (\<lambda>(advanced, it).
           if advanced then LookupChain_loop n chain boxes key it else Inr None)))"

text \<open>
  \<^verbatim>\<open>LookupChain\<close> returns 1 with the pointer to the box, or 0; with \<open>remove\<close> it also deletes the
  node from the chain. It returns 0, too, when there is no memory for the iterator.
\<close>

definition LookupChain ::
  "ptr cells \<Rightarrow> (ptr \<rightharpoonup> 'v HTKeyValue) \<Rightarrow> u64 \<Rightarrow> bool \<Rightarrow> mem \<Rightarrow> (int \<times> ptr \<times> ptr cells \<times> mem) res" where
  "LookupChain chain boxes key remove m =
     (case cl_make_iterator chain 0 m of
        (None, m) \<Rightarrow> Inr (0, NULL, chain, m)
      | (Some it, m) \<Rightarrow>
          andThen (LookupChain_loop (length chain) chain boxes key it) (\<lambda>r.
            case r of
              None \<Rightarrow> Inr (0, NULL, chain, m)
            | Some (it, keyvalue) \<Rightarrow>
                if remove then andThen (cl_delete chain it) (\<lambda>(_, _, _, chain'). Inr (1, keyvalue, chain', m))
                else Inr (1, keyvalue, chain, m)))"

definition LookupHashTable ::
  "'v hash_table \<Rightarrow> u64 \<Rightarrow> mem \<Rightarrow> (int \<times> 'v HTKeyValue option \<times> mem) res" where
  "LookupHashTable table key m =
     bucket_at table (unat (HashKeyToBucketNum table key)) (\<lambda>chain.
       andThen (LookupChain chain (kvs table) key False m) (\<lambda>(found, oldkeyvalue, _, m).
         if found \<noteq> 0 then load (kvs table) oldkeyvalue (\<lambda>kv. Inr (1, Some kv, m))
         else Inr (0, None, m)))"

definition RemoveFromHashTable ::
  "'v hash_table \<Rightarrow> u64 \<Rightarrow> mem \<Rightarrow> (int \<times> 'v HTKeyValue option \<times> 'v hash_table \<times> mem) res" where
  "RemoveFromHashTable table key m =
     (let bucket = unat (HashKeyToBucketNum table key) in
      bucket_at table bucket (\<lambda>chain.
        andThen (LookupChain chain (kvs table) key True m) (\<lambda>(found, oldkeyvalue, chain', m).
          if found \<noteq> 0 then
            load (kvs table) oldkeyvalue (\<lambda>kv.
              Inr (1, Some kv,
                   table\<lparr>buckets := (buckets table)[bucket := chain'],
                         kvs := (kvs table)(oldkeyvalue := None),
                         ht_num_elements := ht_num_elements table - 1\<rparr>, m))
          else Inr (0, None, table, m))))"

section \<open>Iterators\<close>

text \<open>The first non-empty bucket from number \<open>i\<close> on.\<close>

definition next_bucket :: "'v hash_table \<Rightarrow> nat \<Rightarrow> nat option" where
  "next_bucket table i = find (\<lambda>j. 0 < length (buckets table ! j)) [i..<length (buckets table)]"

definition HashTableMakeIterator :: "'v hash_table \<Rightarrow> mem \<Rightarrow> (ht_iter option \<times> mem) res" where
  "HashTableMakeIterator table m =
     (case malloc m of (it, m) \<Rightarrow>
        if it = NULL then Inr (None, m)
        else if ht_num_elements table = 0 then
          Inr (Some \<lparr>is_valid = False, bucket_num = 0, bucket_it = None\<rparr>, m)
        else case next_bucket table 0 of
          None \<Rightarrow> Inl VerificationFailure
        | Some i \<Rightarrow>
            (case cl_make_iterator (buckets table ! i) 0 m of
               (None, m) \<Rightarrow> Inr (None, m)
             | (Some a, m) \<Rightarrow> Inr (Some \<lparr>is_valid = True, bucket_num = i, bucket_it = Some a\<rparr>, m)))"

definition HTIteratorNext :: "'v hash_table \<Rightarrow> ht_iter \<Rightarrow> mem \<Rightarrow> (int \<times> ht_iter \<times> mem) res" where
  "HTIteratorNext table iter m =
     (case bucket_it iter of
        None \<Rightarrow> Inl VerificationFailure
      | Some a \<Rightarrow> bucket_at table (bucket_num iter) (\<lambda>chain.
          andThen (cl_next chain a) (\<lambda>(advanced, a').
            if advanced then Inr (1, iter\<lparr>bucket_it := Some a'\<rparr>, m)
            else case next_bucket table (Suc (bucket_num iter)) of
              Some i \<Rightarrow>
                (case cl_make_iterator (buckets table ! i) 0 m of (bi, m) \<Rightarrow>
                   Inr (1, iter\<lparr>bucket_num := i, bucket_it := bi\<rparr>, m))
            | None \<Rightarrow> Inr (0, iter\<lparr>is_valid := False\<rparr>, m))))"

definition HTIteratorPastEnd :: "ht_iter \<Rightarrow> bool" where
  "HTIteratorPastEnd iter = (\<not> is_valid iter)"

definition HTIteratorGet :: "'v hash_table \<Rightarrow> ht_iter \<Rightarrow> 'v HTKeyValue option res" where
  "HTIteratorGet table iter =
     (if HTIteratorPastEnd iter then Inr None
      else case bucket_it iter of
        None \<Rightarrow> Inl VerificationFailure
      | Some a \<Rightarrow> bucket_at table (bucket_num iter) (\<lambda>chain.
          andThen (cl_payload chain a) (\<lambda>oldkeyvalue.
            load (kvs table) oldkeyvalue (\<lambda>kv. Inr (Some kv)))))"

definition HTIteratorDelete ::
  "'v hash_table \<Rightarrow> ht_iter \<Rightarrow> mem
     \<Rightarrow> (int \<times> 'v HTKeyValue option \<times> 'v hash_table \<times> ht_iter \<times> mem) res" where
  "HTIteratorDelete table iter m =
     andThen (HTIteratorGet table iter) (\<lambda>res.
       case res of
         None \<Rightarrow> Inr (0, None, table, iter, m)
       | Some kv \<Rightarrow>
           andThen (HTIteratorNext table iter m) (\<lambda>(res, iter, m).
             let retval = (if res = 0 then 2 else 1) in
             andThen (RemoveFromHashTable table (kv_key kv) m) (\<lambda>(res, keyvalue, table, m).
               Verify333 (res = 1)
                 (case keyvalue of
                    None \<Rightarrow> Inl MemFault
                  | Some keyvalue \<Rightarrow>
                      Verify333 (kv_key kv = kv_key keyvalue)
                        (Verify333 (kv_value kv = kv_value keyvalue)
                          (Inr (retval, Some keyvalue, table, iter, m)))))))"

section \<open>Inserting and resizing\<close>

type_synonym 'v insert_fn =
  "'v hash_table \<Rightarrow> 'v HTKeyValue \<Rightarrow> mem \<Rightarrow> (int \<times> 'v HTKeyValue option \<times> 'v hash_table \<times> mem) res"

type_synonym 'v resize_fn = "'v hash_table \<Rightarrow> mem \<Rightarrow> ('v hash_table \<times> mem) res"

text \<open>The body of \<^verbatim>\<open>InsertHashTable\<close>; the result of \<^verbatim>\<open>PushLinkedList\<close> is ignored, as in the code.\<close>

definition InsertHashTable_body :: "'v resize_fn \<Rightarrow> 'v insert_fn" where
  "InsertHashTable_body resize table newkeyvalue m =
     andThen (resize table m) (\<lambda>(table, m).
       let insertbucket = unat (HashKeyToBucketNum table (kv_key newkeyvalue)) in
       bucket_at table insertbucket (\<lambda>insertchain.
         andThen (LookupChain insertchain (kvs table) (kv_key newkeyvalue) False m)
           (\<lambda>(found, keyvalue, _, m).
             if found \<noteq> 0 then
               load (kvs table) keyvalue (\<lambda>oldkeyvalue.
                 Inr (2, Some oldkeyvalue, table\<lparr>kvs := (kvs table)(keyvalue \<mapsto> newkeyvalue)\<rparr>, m))
             else case malloc m of (keyvalue, m) \<Rightarrow>
               if keyvalue = NULL then Inr (0, None, table, m)
               else case cl_push keyvalue insertchain m of (_, insertchain', m) \<Rightarrow>
                 Inr (1, None,
                      table\<lparr>buckets := (buckets table)[insertbucket := insertchain'],
                            kvs := (kvs table)(keyvalue \<mapsto> newkeyvalue),
                            ht_num_elements := ht_num_elements table + 1\<rparr>, m))))"

text \<open>
  The loop of \<^verbatim>\<open>ResizeHashtable\<close>: insert what the iterator over the old table yields into the new
  table; \<open>False\<close> when an insertion does not return 1.
\<close>

primrec rehash_loop ::
  "nat \<Rightarrow> 'v insert_fn \<Rightarrow> 'v hash_table \<Rightarrow> ht_iter \<Rightarrow> 'v hash_table \<Rightarrow> mem
     \<Rightarrow> (bool \<times> 'v hash_table \<times> mem) res" where
  "rehash_loop 0 insert_fn ht it newht m = Inl OutOfFuel"
| "rehash_loop (Suc n) insert_fn ht it newht m =
     (if HTIteratorPastEnd it then Inr (True, newht, m)
      else andThen (HTIteratorGet ht it) (\<lambda>res.
        case res of
          None \<Rightarrow> Inl VerificationFailure
        | Some item \<Rightarrow>
            andThen (insert_fn newht item m) (\<lambda>(res, _, newht, m).
              if res \<noteq> 1 then Inr (False, newht, m)
              else andThen (HTIteratorNext ht it m) (\<lambda>(_, it, m).
                rehash_loop n insert_fn ht it newht m))))"

definition ResizeHashtable_body :: "'v insert_fn \<Rightarrow> 'v resize_fn" where
  "ResizeHashtable_body insert_fn ht m =
     (if ht_num_elements ht < 3 * num_buckets ht then Inr (ht, m)
      else case AllocateHashTable (num_buckets ht * 9) m of
        (None, m) \<Rightarrow> Inr (ht, m)
      | (Some newht, m) \<Rightarrow>
          andThen (HashTableMakeIterator ht m) (\<lambda>(it, m).
            case it of
              None \<Rightarrow> andThen (FreeHashTable HTNullFree newht ()) (\<lambda>_. Inr (ht, m))
            | Some it \<Rightarrow>
                andThen (rehash_loop (Suc (total ht)) insert_fn ht it newht m) (\<lambda>(ok, newht, m).
                  if \<not> ok then andThen (FreeHashTable HTNullFree newht ()) (\<lambda>_. Inr (ht, m))
                  else andThen (FreeHashTable HTNullFree ht ()) (\<lambda>_. Inr (newht, m)))))"

primrec Resize_fuel :: "nat \<Rightarrow> 'v resize_fn" where
  "Resize_fuel 0 = (\<lambda>ht m. Inl OutOfFuel)"
| "Resize_fuel (Suc n) = ResizeHashtable_body (InsertHashTable_body (Resize_fuel n))"

definition ResizeHashtable :: "'v resize_fn" where
  "ResizeHashtable ht m = Resize_fuel (Suc (total ht)) ht m"

definition InsertHashTable :: "'v insert_fn" where
  "InsertHashTable = InsertHashTable_body ResizeHashtable"

end
