(* ===== verification/HashTableInv.thy ===== *)
theory HashTableInv
  imports HashTable
begin

text \<open>
  The representation invariant of the hash table, the finite map it stands for, and the lemmas
  about searching a chain and about replacing one bucket that the operations share.
\<close>

section \<open>Contents and invariant\<close>

definition items_of :: "(ptr \<rightharpoonup> 'v HTKeyValue) \<Rightarrow> ptr cells \<Rightarrow> 'v HTKeyValue list" where
  "items_of boxes cs = map (\<lambda>c. the (boxes (snd c))) cs"

definition ht_items :: "'v hash_table \<Rightarrow> 'v HTKeyValue list" where
  "ht_items ht = items_of (kvs ht) (concat (buckets ht))"

definition pair_of :: "'v HTKeyValue \<Rightarrow> u64 \<times> 'v" where
  "pair_of kv = (kv_key kv, kv_value kv)"

text \<open>The map a table stands for.\<close>

definition ht_map :: "'v hash_table \<Rightarrow> u64 \<rightharpoonup> 'v" where
  "ht_map ht = map_of (map pair_of (ht_items ht))"

definition bucket_of :: "u32 \<Rightarrow> u64 \<Rightarrow> nat" where
  "bucket_of nb key = unat key mod unat nb"

text \<open>Every pair of the buckets, numbered from \<open>i\<close> on, is in the bucket of its key.\<close>

primrec placed :: "u32 \<Rightarrow> (ptr \<rightharpoonup> 'v HTKeyValue) \<Rightarrow> ptr cells list \<Rightarrow> nat \<Rightarrow> bool" where
  "placed nb boxes [] i = True"
| "placed nb boxes (c # cs) i =
     ((\<forall>kv \<in> set (items_of boxes c). bucket_of nb (kv_key kv) = i) \<and> placed nb boxes cs (Suc i))"

text \<open>
  The invariant: the bucket array has the recorded size; the element count is the number of cells
  (modulo \<open>2 ^ 32\<close>, as the counter wraps); the nodes of a chain are distinct; every box is owned by
  exactly one cell and no box is leaked; every pair sits in the bucket of its key; keys are distinct;
  every address has been handed out.
\<close>

definition ht_inv :: "'v hash_table \<Rightarrow> mem \<Rightarrow> bool" where
  "ht_inv ht m \<longleftrightarrow>
     num_buckets ht \<noteq> 0 \<and> length (buckets ht) = unat (num_buckets ht) \<and>
     ht_num_elements ht = of_nat (total ht) \<and>
     (\<forall>chain \<in> set (buckets ht). distinct (map fst chain) \<and> NULL \<notin> addrs chain \<and>
        (\<forall>a \<in> addrs chain. a \<le> clock m)) \<and>
     distinct (map snd (concat (buckets ht))) \<and>
     dom (kvs ht) = snd ` set (concat (buckets ht)) \<and>
     (\<forall>p \<in> dom (kvs ht). p \<le> clock m) \<and>
     placed (num_buckets ht) (kvs ht) (buckets ht) 0 \<and>
     distinct (map kv_key (ht_items ht))"

lemma fst_pair_of [simp]: "fst \<circ> pair_of = kv_key" "fst (pair_of kv) = kv_key kv"
  by (simp_all add: fun_eq_iff pair_of_def)

lemma items_of_simps [simp]:
  "items_of boxes [] = []"
  "items_of boxes (c # cs) = the (boxes (snd c)) # items_of boxes cs"
  "items_of boxes (cs @ ds) = items_of boxes cs @ items_of boxes ds"
  by (simp_all add: items_of_def)

lemma length_items_of [simp]: "length (items_of boxes cs) = length cs"
  by (simp add: items_of_def)

lemma items_of_frame:
  "(\<And>p. p \<in> snd ` set cs \<Longrightarrow> boxes' p = boxes p) \<Longrightarrow> items_of boxes' cs = items_of boxes cs"
  by (auto simp: items_of_def)

lemma items_of_upd [simp]:
  "p \<notin> snd ` set cs \<Longrightarrow> items_of (boxes(p := v)) cs = items_of boxes cs"
  by (rule items_of_frame) auto

lemma placed_append [simp]:
  "placed nb boxes (cs @ ds) i \<longleftrightarrow> placed nb boxes cs i \<and> placed nb boxes ds (i + length cs)"
  by (induction cs arbitrary: i) auto

lemma placed_upd [simp]:
  "p \<notin> snd ` set (concat cs) \<Longrightarrow> placed nb (boxes(p := v)) cs i = placed nb boxes cs i"
  by (induction cs arbitrary: i) (auto simp: image_iff)

lemma placed_nth:
  "placed nb boxes cs i \<Longrightarrow> j < length cs \<Longrightarrow> kv \<in> set (items_of boxes (cs ! j)) \<Longrightarrow>
     bucket_of nb (kv_key kv) = i + j"
proof (induction cs arbitrary: i j)
  case (Cons c cs)
  then show ?case by (cases j) auto
qed simp

lemma unat_HashKeyToBucketNum:
  assumes "num_buckets ht \<noteq> 0"
  shows "unat (HashKeyToBucketNum ht key) = bucket_of (num_buckets ht) key"
proof -
  let ?n = "num_buckets ht"
  have n: "unat (ucast ?n :: u64) = unat ?n"
    using unsigned_less [of ?n, where 'a = nat] by (simp add: unsigned_ucast_eq take_bit_nat_eq_self)
  have "unat key mod unat ?n < unat ?n"
    using assms by (simp add: unat_gt_0)
  also have "unat ?n < 2 ^ 32"
    using unsigned_less [of ?n, where 'a = nat] by simp
  finally have "unat key mod unat ?n < 2 ^ 32" .
  moreover have "unat (key mod ucast ?n) = unat key mod unat ?n"
    by (simp only: unat_mod n)
  moreover have "unat (ucast (key mod ucast ?n) :: u32) = take_bit 32 (unat (key mod ucast ?n))"
    by (simp add: unsigned_ucast_eq)
  ultimately show ?thesis
    by (simp add: HashKeyToBucketNum_def bucket_of_def take_bit_nat_eq_self)
qed

lemma bucket_of_less: "num_buckets ht \<noteq> 0 \<Longrightarrow> bucket_of (num_buckets ht) key < unat (num_buckets ht)"
  by (simp add: bucket_of_def unat_gt_0)


section \<open>Searching a chain\<close>

definition chain_ok :: "(ptr \<rightharpoonup> 'v HTKeyValue) \<Rightarrow> ptr cells \<Rightarrow> bool" where
  "chain_ok boxes chain \<longleftrightarrow>
     distinct (map fst chain) \<and> NULL \<notin> addrs chain \<and> snd ` set chain \<subseteq> dom boxes"

definition has_key :: "(ptr \<rightharpoonup> 'v HTKeyValue) \<Rightarrow> u64 \<Rightarrow> ptr \<times> ptr \<Rightarrow> bool" where
  "has_key boxes key c \<longleftrightarrow> kv_key (the (boxes (snd c))) = key"

lemma has_key_pair [simp]: "has_key boxes key (a, p) \<longleftrightarrow> kv_key (the (boxes p)) = key"
  by (simp add: has_key_def)

lemma cl_payload_at:
  "a \<noteq> NULL \<Longrightarrow> a \<notin> addrs xs \<Longrightarrow> cl_payload (xs @ (a, p) # ys) a = Inr p"
  by (simp add: cl_payload_def map_of_cells_append del: map_of_append)

lemma cl_next_at:
  "a \<noteq> NULL \<Longrightarrow> a \<notin> addrs xs \<Longrightarrow> NULL \<notin> addrs ys \<Longrightarrow>
     cl_next (xs @ (a, p) # ys) a
       = Inr (if ys = [] then (False, a) else (True, first_addr ys NULL))"
  by (simp add: cl_next_def next_addr_append first_addr_neq)

lemma LookupChain_loop_eq:
  assumes "chain_ok boxes (xs @ ys)" "ys \<noteq> []" "length ys \<le> n"
  shows "LookupChain_loop n (xs @ ys) boxes key (first_addr ys NULL)
           = Inr (find (has_key boxes key) ys)"
  using assms
proof (induction ys arbitrary: xs n)
  case (Cons c ys)
  obtain a p where c: "c = (a, p)" by (cases c)
  obtain k where n: "n = Suc k" using Cons.prems(3) by (cases n) auto
  have ok: "a \<noteq> NULL" "a \<notin> addrs xs" "NULL \<notin> addrs ys" "p \<in> dom boxes"
    using Cons.prems(1) c by (auto simp: chain_ok_def)
  then obtain kv where kv: "boxes p = Some kv" by auto
  show ?case
  proof (cases "kv_key kv = key \<or> ys = []")
    case True
    with ok kv show ?thesis
      by (auto simp: c n cl_payload_at cl_next_at)
  next
    case False
    have "LookupChain_loop k ((xs @ [c]) @ ys) boxes key (first_addr ys NULL)
        = Inr (find (has_key boxes key) ys)"
      by (rule Cons.IH) (use Cons.prems False n in auto)
    with False ok kv show ?thesis
      by (simp add: c n cl_payload_at cl_next_at)
  qed
qed simp

lemma find_has_key_mem:
  "find (has_key boxes key) chain = Some c \<Longrightarrow>
     c \<in> set chain \<and> kv_key (the (boxes (snd c))) = key"
  by (auto simp: find_Some_iff has_key_def)

lemma cl_delete_mem:
  assumes "distinct (map fst chain)" "NULL \<notin> addrs chain" "(a, p) \<in> set chain"
  shows "\<exists>b n. cl_delete chain a = Inr (b, p, n, remove_cell a chain)"
proof -
  obtain xs ys where c: "chain = xs @ (a, p) # ys"
    using assms(3) by (meson split_list)
  with assms have "a \<noteq> NULL" "a \<notin> addrs xs" "a \<notin> addrs ys"
    by auto
  with cl_delete_split [OF this] show ?thesis
    by (simp add: c remove_cell_append)
qed

text \<open>The memory after the iterator of \<^verbatim>\<open>LookupChain\<close> has been allocated.\<close>

definition after_lookup :: "ptr cells \<Rightarrow> mem \<Rightarrow> mem" where
  "after_lookup chain m = (if chain = [] then m else m\<lparr>clock := Suc (clock m)\<rparr>)"

lemma LookupChain_eq:
  assumes "chain_ok boxes chain" "chain = [] \<or> \<not> oom m (clock m)"
  shows "LookupChain chain boxes key remove m =
     Inr (case find (has_key boxes key) chain of
            None \<Rightarrow> (0, NULL, chain, after_lookup chain m)
          | Some (a, p) \<Rightarrow> (1, p, if remove then remove_cell a chain else chain, after_lookup chain m))"
proof (cases "chain = []")
  case True
  then show ?thesis
    by (simp add: LookupChain_def cl_make_iterator_def after_lookup_def)
next
  case False
  with assms have it: "cl_make_iterator chain 0 m = (Some (first_addr chain NULL), after_lookup chain m)"
    by (simp add: cl_make_iterator_def malloc_ok after_lookup_def)
  have loop: "LookupChain_loop (length chain) chain boxes key (first_addr chain NULL)
      = Inr (find (has_key boxes key) chain)"
    using LookupChain_loop_eq [of boxes "[]" chain "length chain" key] assms(1) False by simp
  show ?thesis
  proof (cases "find (has_key boxes key) chain")
    case None
    with it loop show ?thesis by (simp add: LookupChain_def)
  next
    case (Some c)
    obtain a p where c: "c = (a, p)" by (cases c)
    from find_has_key_mem [OF Some] have "(a, p) \<in> set chain" by (simp add: c)
    moreover from assms(1) have "distinct (map fst chain)" "NULL \<notin> addrs chain"
      by (simp_all add: chain_ok_def)
    ultimately obtain b n where "cl_delete chain a = Inr (b, p, n, remove_cell a chain)"
      using cl_delete_mem by meson
    with Some c it loop show ?thesis by (simp add: LookupChain_def)
  qed
qed

text \<open>
  Without memory for the iterator \<^verbatim>\<open>LookupChain\<close> answers as if the key were absent.
\<close>

lemma LookupChain_oom:
  "chain \<noteq> [] \<Longrightarrow> oom m (clock m) \<Longrightarrow>
     LookupChain chain boxes key remove m
       = Inr (0, NULL, chain, m\<lparr>clock := Suc (clock m), errno := ENOMEM\<rparr>)"
  by (simp add: LookupChain_def cl_make_iterator_def malloc_fails)


section \<open>One bucket of a table\<close>

lemma ht_invD:
  assumes "ht_inv ht m"
  shows "num_buckets ht \<noteq> 0" "length (buckets ht) = unat (num_buckets ht)"
    "ht_num_elements ht = of_nat (total ht)"
    "distinct (map snd (concat (buckets ht)))" "dom (kvs ht) = snd ` set (concat (buckets ht))"
    "placed (num_buckets ht) (kvs ht) (buckets ht) 0" "distinct (map kv_key (ht_items ht))"
  using assms by (simp_all add: ht_inv_def)

lemma ht_inv_chain_ok:
  assumes "ht_inv ht m" "chain \<in> set (buckets ht)"
  shows "chain_ok (kvs ht) chain"
  using assms by (auto simp: ht_inv_def chain_ok_def)

lemma ht_inv_later: "ht_inv ht m \<Longrightarrow> later m m' \<Longrightarrow> ht_inv ht m'"
  by (fastforce simp: ht_inv_def later_def)

text \<open>The bucket of a key, with the buckets before and after it.\<close>

lemma bucket_splitE:
  assumes "ht_inv ht m"
  obtains pre chain post where
    "buckets ht = pre @ chain # post" "length pre = bucket_of (num_buckets ht) key"
    "unat (HashKeyToBucketNum ht key) = length pre"
proof -
  let ?b = "bucket_of (num_buckets ht) key"
  have b: "?b < length (buckets ht)"
    using ht_invD(1,2) [OF assms] by (simp add: bucket_of_less)
  show thesis
  proof
    show "buckets ht = take ?b (buckets ht) @ (buckets ht ! ?b) # drop (Suc ?b) (buckets ht)"
      using b by (rule id_take_nth_drop)
    show "length (take ?b (buckets ht)) = ?b"
      using b by simp
    then show "unat (HashKeyToBucketNum ht key) = length (take ?b (buckets ht))"
      using ht_invD(1) [OF assms] by (simp add: unat_HashKeyToBucketNum)
  qed
qed

lemma bucket_at_split [simp]:
  "buckets ht = pre @ chain # post \<Longrightarrow> bucket_at ht (length pre) k = k chain"
  by (simp add: bucket_at_def)

text \<open>A key occurs in the table only in its own bucket.\<close>

lemma items_split:
  "buckets ht = pre @ chain # post \<Longrightarrow>
     ht_items ht = items_of (kvs ht) (concat pre) @ items_of (kvs ht) chain
                     @ items_of (kvs ht) (concat post)"
  by (simp add: ht_items_def)

lemma placed_concat:
  "placed nb boxes cs i \<Longrightarrow> kv \<in> set (items_of boxes (concat cs)) \<Longrightarrow>
     i \<le> bucket_of nb (kv_key kv) \<and> bucket_of nb (kv_key kv) < i + length cs"
  by (induction cs arbitrary: i) fastforce+

lemma key_in_bucket:
  assumes "ht_inv ht m" "buckets ht = pre @ chain # post"
    and "length pre = bucket_of (num_buckets ht) key"
    and "kv \<in> set (ht_items ht)" "kv_key kv = key"
  shows "kv \<in> set (items_of (kvs ht) chain)"
proof -
  have "placed (num_buckets ht) (kvs ht) pre 0"
    "placed (num_buckets ht) (kvs ht) post (Suc (length pre))"
    using ht_invD(6) [OF assms(1)] assms(2) by simp_all
  from placed_concat [OF this(1), of kv] placed_concat [OF this(2), of kv] assms(2-5)
  show ?thesis by (auto simp: items_split)
qed

lemma ht_map_Some_iff:
  assumes "ht_inv ht m"
  shows "ht_map ht k = Some v \<longleftrightarrow> (\<exists>kv \<in> set (ht_items ht). kv_key kv = k \<and> kv_value kv = v)"
  using ht_invD(7) [OF assms]
  by (auto simp: ht_map_def map_of_eq_Some_set pair_of_def comp_def image_iff)

lemma find_in_bucket:
  assumes inv: "ht_inv ht m" and bs: "buckets ht = pre @ chain # post"
    and b: "length pre = bucket_of (num_buckets ht) key"
  shows "case find (has_key (kvs ht) key) chain of
           None \<Rightarrow> ht_map ht key = None
         | Some (a, p) \<Rightarrow> (\<exists>kv. kvs ht p = Some kv \<and> kv_key kv = key \<and>
             ht_map ht key = Some (kv_value kv)) \<and> (a, p) \<in> set chain"
proof (cases "find (has_key (kvs ht) key) chain")
  case None
  then have "kv_key kv \<noteq> key" if "kv \<in> set (items_of (kvs ht) chain)" for kv
    using that by (force simp: items_of_def find_None_iff has_key_def)
  then have "ht_map ht key \<noteq> Some v" for v
    using key_in_bucket [OF inv bs b] by (auto simp: ht_map_Some_iff [OF inv])
  then have "ht_map ht key = None" by (metis option.exhaust)
  with None show ?thesis by simp
next
  case (Some c)
  obtain a p where c: "c = (a, p)" by (cases c)
  from find_has_key_mem [OF Some] have mem: "(a, p) \<in> set chain" "kv_key (the (kvs ht p)) = key"
    by (simp_all add: c)
  have "p \<in> dom (kvs ht)"
    using ht_inv_chain_ok [OF inv, of chain] bs mem(1) by (force simp: chain_ok_def)
  then obtain kv where kv: "kvs ht p = Some kv" by auto
  have "kv \<in> set (ht_items ht)"
    using mem(1) kv by (force simp: items_split [OF bs] items_of_def)
  with mem kv Some c show ?thesis
    by (auto simp: ht_map_Some_iff [OF inv])
qed


section \<open>The three changes of a table\<close>

text \<open>What a change of the list of pairs means for the map.\<close>

lemma map_of_pairs_None: "map_of (map pair_of A) k = None \<longleftrightarrow> k \<notin> kv_key ` set A"
  by (simp add: map_of_eq_None_iff image_image)

lemma map_of_pairs_insert:
  "kv_key kv \<notin> kv_key ` set A \<Longrightarrow>
     map_of (map pair_of (A @ kv # B)) = (map_of (map pair_of (A @ B)))(kv_key kv \<mapsto> kv_value kv)"
  using map_of_pairs_None [of A "kv_key kv"]
  by (auto simp: fun_eq_iff map_add_def pair_of_def split: option.splits)

lemma map_of_pairs_delete:
  "kv_key kv \<notin> kv_key ` set (A @ B) \<Longrightarrow>
     map_of (map pair_of (A @ B)) = (map_of (map pair_of (A @ kv # B)))(kv_key kv := None)"
  using map_of_pairs_None [of A "kv_key kv"] map_of_pairs_None [of B "kv_key kv"]
  by (auto simp: fun_eq_iff map_add_def pair_of_def split: option.splits)

text \<open>Taking a cell out of its chain, with its box.\<close>

lemma remove_effect:
  fixes ht :: "'v hash_table"
  assumes inv: "ht_inv ht m" and bs: "buckets ht = pre @ (xs @ (a, p) # ys) # post"
    and kv: "kvs ht p = Some kv"
  defines "ht' \<equiv> ht\<lparr>buckets := pre @ (xs @ ys) # post, kvs := (kvs ht)(p := None),
                    ht_num_elements := ht_num_elements ht - 1\<rparr>"
  shows "ht_inv ht' m" "ht_map ht' = (ht_map ht)(kv_key kv := None)" "total ht = Suc (total ht')"
    "\<exists>A B. ht_items ht = A @ kv # B \<and> ht_items ht' = A @ B"
proof -
  let ?bx = "kvs ht"
  note I = ht_invD [OF inv]
  have p: "p \<notin> snd ` set (concat pre)" "p \<notin> snd ` set xs" "p \<notin> snd ` set ys"
    "p \<notin> snd ` set (concat post)"
    using I(4) bs by auto
  have it: "ht_items ht = items_of ?bx (concat pre) @ items_of ?bx xs @ kv # items_of ?bx ys
              @ items_of ?bx (concat post)"
    using bs kv by (simp add: ht_items_def)
  have it': "ht_items ht' = items_of ?bx (concat pre) @ items_of ?bx xs @ items_of ?bx ys
              @ items_of ?bx (concat post)"
    using p by (simp add: ht_items_def ht'_def)
  show AB: "\<exists>A B. ht_items ht = A @ kv # B \<and> ht_items ht' = A @ B"
    by (rule exI [of _ "items_of ?bx (concat pre) @ items_of ?bx xs"]) (simp add: it it')
  show tot: "total ht = Suc (total ht')"
    by (simp add: total_def bs ht'_def)
  obtain A B where L: "ht_items ht = A @ kv # B" "ht_items ht' = A @ B"
    using AB by blast
  then have "kv_key kv \<notin> kv_key ` set (A @ B)"
    using I(7) by auto
  then show "ht_map ht' = (ht_map ht)(kv_key kv := None)"
    by (simp only: ht_map_def L map_of_pairs_delete)
  have "dom (kvs ht') = snd ` set (concat (buckets ht'))"
    using I(5) p bs by (auto simp: ht'_def)
  moreover have "placed (num_buckets ht) (kvs ht') (buckets ht') 0"
    using I(6) p bs by (simp add: ht'_def)
  moreover have "distinct (map kv_key (ht_items ht'))"
    using I(7) it it' by simp
  moreover have "\<forall>chain \<in> set (buckets ht'). distinct (map fst chain) \<and> NULL \<notin> addrs chain \<and>
        (\<forall>a \<in> addrs chain. a \<le> clock m)"
    using inv bs by (auto simp: ht_inv_def ht'_def)
  moreover have "distinct (map snd (concat (buckets ht')))"
    using I(4) bs by (auto simp: ht'_def)
  moreover have "ht_num_elements ht' = of_nat (total ht')"
  proof -
    have "ht_num_elements ht' = ht_num_elements ht - 1"
      by (simp add: ht'_def)
    also have "\<dots> = of_nat (total ht')"
      by (simp add: I(3) tot)
    finally show ?thesis .
  qed
  moreover have "\<forall>q \<in> dom (kvs ht'). q \<le> clock m"
    using inv by (auto simp: ht_inv_def ht'_def)
  ultimately show "ht_inv ht' m"
    using I(1,2) bs by (simp add: ht_inv_def ht'_def)
qed

text \<open>Putting a new cell at the head of the chain of its key, with a new box.\<close>

lemma insert_effect:
  fixes ht :: "'v hash_table"
  assumes inv: "ht_inv ht m" and bs: "buckets ht = pre @ chain # post"
    and b: "length pre = bucket_of (num_buckets ht) (kv_key kv)"
    and new: "ht_map ht (kv_key kv) = None"
    and fresh: "clock m < a" "clock m < p" and later: "later m m'" "a \<le> clock m'" "p \<le> clock m'"
  defines "ht' \<equiv> ht\<lparr>buckets := pre @ ((a, p) # chain) # post, kvs := (kvs ht)(p \<mapsto> kv),
                    ht_num_elements := ht_num_elements ht + 1\<rparr>"
  shows "ht_inv ht' m'" "ht_map ht' = (ht_map ht)(kv_key kv \<mapsto> kv_value kv)"
    "total ht' = Suc (total ht)" "\<exists>A B. ht_items ht = A @ B \<and> ht_items ht' = A @ kv # B"
proof -
  let ?bx = "kvs ht"
  note I = ht_invD [OF inv]
  have "p \<notin> dom ?bx"
    using inv fresh(2) unfolding ht_inv_def by (metis linorder_not_less)
  then have p: "p \<notin> snd ` set (concat (buckets ht))" using I(5) by simp
  then have p': "p \<notin> snd ` set (concat pre)" "p \<notin> snd ` set chain" "p \<notin> snd ` set (concat post)"
    using bs by auto
  have ch: "chain \<in> set (buckets ht)" using bs by simp
  have a: "a \<notin> addrs chain" 
    using inv ch fresh(1) unfolding ht_inv_def by (metis linorder_not_less)
  have it: "ht_items ht = items_of ?bx (concat pre) @ items_of ?bx chain @ items_of ?bx (concat post)"
    using bs by (rule items_split)
  have it': "ht_items ht' = items_of ?bx (concat pre) @ kv # items_of ?bx chain
              @ items_of ?bx (concat post)"
    using p' by (simp add: ht_items_def ht'_def)
  show AB: "\<exists>A B. ht_items ht = A @ B \<and> ht_items ht' = A @ kv # B"
    by (rule exI [of _ "items_of ?bx (concat pre)"]) (simp add: it it')
  show tot: "total ht' = Suc (total ht)"
    by (simp add: total_def bs ht'_def)
  have nk: "kv_key kv \<notin> kv_key ` set (ht_items ht)"
  proof
    assume "kv_key kv \<in> kv_key ` set (ht_items ht)"
    then obtain kv' where "kv' \<in> set (ht_items ht)" "kv_key kv' = kv_key kv" by auto
    then have "ht_map ht (kv_key kv) = Some (kv_value kv')"
      by (auto simp: ht_map_Some_iff [OF inv])
    with new show False by simp
  qed
  then have dk: "distinct (map kv_key (ht_items ht'))"
    using I(7) it it' by auto
  show "ht_map ht' = (ht_map ht)(kv_key kv \<mapsto> kv_value kv)"
  proof -
    obtain A B where L: "ht_items ht = A @ B" "ht_items ht' = A @ kv # B"
      using AB by blast
    then have "kv_key kv \<notin> kv_key ` set A"
      using nk by auto
    then show ?thesis unfolding ht_map_def L by (rule map_of_pairs_insert)
  qed
  have cl: "clock m \<le> clock m'" using later(1) by (simp add: later_def)
  have "dom (kvs ht') = snd ` set (concat (buckets ht'))"
    using I(5) bs by (auto simp: ht'_def)
  moreover have "placed (num_buckets ht) (kvs ht') (buckets ht') 0"
    using I(6) p' bs b by (simp add: ht'_def)
  moreover have "\<forall>c \<in> set (buckets ht'). distinct (map fst c) \<and> NULL \<notin> addrs c \<and>
        (\<forall>a \<in> addrs c. a \<le> clock m')"
  proof -
    have old: "distinct (map fst c) \<and> NULL \<notin> addrs c \<and> (\<forall>a \<in> addrs c. a \<le> clock m)"
      if "c \<in> set (buckets ht)" for c
      using inv that by (simp add: ht_inv_def)
    then have "distinct (map fst c) \<and> NULL \<notin> addrs c \<and> (\<forall>a \<in> addrs c. a \<le> clock m')"
      if "c \<in> set (buckets ht)" for c
      using that cl le_trans by blast
    then have "\<forall>c \<in> set (pre @ chain # post). distinct (map fst c) \<and> NULL \<notin> addrs c \<and>
        (\<forall>a \<in> addrs c. a \<le> clock m')"
      using bs by simp
    with a later(2) fresh(1) show ?thesis by (auto simp: ht'_def)
  qed
  moreover have "distinct (map snd (concat (buckets ht')))"
    using I(4) bs p' by (auto simp: ht'_def)
  moreover have "ht_num_elements ht' = of_nat (total ht')"
    using I(3) tot by (simp add: ht'_def)
  moreover have "\<forall>q \<in> dom (kvs ht'). q \<le> clock m'"
  proof -
    have "\<forall>q \<in> dom ?bx. q \<le> clock m"
      using inv by (simp add: ht_inv_def)
    then have "q \<le> clock m'" if "q \<in> dom ?bx" for q
      using that cl le_trans by blast
    with later(3) show ?thesis by (auto simp: ht'_def)
  qed
  ultimately show "ht_inv ht' m'"
    using I(1,2) bs dk by (simp add: ht_inv_def ht'_def)
qed

text \<open>Overwriting the box of a pair with a pair of the same key.\<close>

lemma replace_effect:
  fixes ht :: "'v hash_table"
  assumes inv: "ht_inv ht m" and bs: "buckets ht = pre @ (xs @ (a, p) # ys) # post"
    and old: "kvs ht p = Some old" "kv_key old = kv_key kv"
  defines "ht' \<equiv> ht\<lparr>kvs := (kvs ht)(p \<mapsto> kv)\<rparr>"
  shows "ht_inv ht' m" "ht_map ht' = (ht_map ht)(kv_key kv \<mapsto> kv_value kv)" "total ht' = total ht"
proof -
  let ?bx = "kvs ht"
  note I = ht_invD [OF inv]
  have p: "p \<notin> snd ` set (concat pre)" "p \<notin> snd ` set xs" "p \<notin> snd ` set ys"
    "p \<notin> snd ` set (concat post)"
    using I(4) bs by auto
  have it: "ht_items ht = items_of ?bx (concat pre) @ items_of ?bx xs @ old # items_of ?bx ys
              @ items_of ?bx (concat post)"
    using bs old by (simp add: ht_items_def)
  have it': "ht_items ht' = items_of ?bx (concat pre) @ items_of ?bx xs @ kv # items_of ?bx ys
              @ items_of ?bx (concat post)"
    using p bs by (simp add: ht_items_def ht'_def)
  have AB: "\<exists>A B. ht_items ht = A @ old # B \<and> ht_items ht' = A @ kv # B"
    by (rule exI [of _ "items_of ?bx (concat pre) @ items_of ?bx xs"]) (simp add: it it')
  show tot: "total ht' = total ht"
    by (simp add: total_def ht'_def)
  have dk: "distinct (map kv_key (ht_items ht'))"
    using I(7) it it' old(2) by simp
  show "ht_map ht' = (ht_map ht)(kv_key kv \<mapsto> kv_value kv)"
  proof -
    obtain A B where L: "ht_items ht = A @ old # B" "ht_items ht' = A @ kv # B"
      using AB by blast
    then have "kv_key old \<notin> kv_key ` set A" "kv_key kv \<notin> kv_key ` set A"
      using I(7) old(2) by auto
    then show ?thesis by (simp only: ht_map_def L map_of_pairs_insert old(2) fun_upd_upd)
  qed
  have "dom (kvs ht') = snd ` set (concat (buckets ht'))"
    using I(5) old by (auto simp: ht'_def)
  moreover have "placed (num_buckets ht) (kvs ht') (buckets ht') 0"
    using I(6) p bs old by (simp add: ht'_def)
  moreover have "\<forall>q \<in> dom (kvs ht'). q \<le> clock m"
    using inv old by (auto simp: ht_inv_def ht'_def)
  ultimately show "ht_inv ht' m"
    using inv dk by (simp add: ht_inv_def ht'_def total_def)
qed

end
