(* ===== verification/HashTableOps.thy ===== *)
theory HashTableOps
  imports HashTableInv
begin

text \<open>
  What the operations of the hash table do to the map it stands for, when \<^verbatim>\<open>malloc\<close> succeeds:
  looking up, removing, allocating, iterating, freeing, and inserting with the resize that it
  may trigger.
\<close>

section \<open>Looking up and removing\<close>

lemma kv_of_sel [simp]: "kv_key (kv_of k v) = k" "kv_value (kv_of k v) = v"
  by (simp_all add: kv_of_def)

lemma kv_of_eq [simp]: "kv_of (kv_key kv) (kv_value kv) = kv"
  by (simp add: kv_of_def)

lemma pair_of_kv_of [simp]: "pair_of (kv_of k v) = (k, v)"
  by (simp add: pair_of_def)

lemma later_after_lookup [simp]: "later m (after_lookup chain m)"
  by (simp add: after_lookup_def)

lemma reliable_oom: "reliable m \<Longrightarrow> \<not> oom m n"
  by (simp add: reliable_def)

text \<open>The search in the bucket of a key, in a table whose memory does not fail.\<close>

lemma LookupChain_bucket:
  assumes inv: "ht_inv ht m" and rel: "reliable m" and bs: "buckets ht = pre @ chain # post"
    and b: "length pre = bucket_of (num_buckets ht) key"
  shows "(ht_map ht key = None \<and>
            LookupChain chain (kvs ht) key remove m = Inr (0, NULL, chain, after_lookup chain m)) \<or>
         (\<exists>xs a p ys kv. chain = xs @ (a, p) # ys \<and> kvs ht p = Some kv \<and> kv_key kv = key \<and>
            ht_map ht key = Some (kv_value kv) \<and>
            LookupChain chain (kvs ht) key remove m
              = Inr (1, p, if remove then xs @ ys else chain, after_lookup chain m))"
proof -
  have ok: "chain_ok (kvs ht) chain"
    using ht_inv_chain_ok [OF inv] bs by simp
  note L = LookupChain_eq [OF ok disjI2, OF reliable_oom [OF rel], of key remove]
  note F = find_in_bucket [OF inv bs b]
  show ?thesis
  proof (cases "find (has_key (kvs ht) key) chain")
    case None
    with F L show ?thesis by simp
  next
    case (Some c)
    obtain a p where c: "c = (a, p)" by (cases c)
    with F Some obtain kv where kv: "kvs ht p = Some kv" "kv_key kv = key"
      "ht_map ht key = Some (kv_value kv)" "(a, p) \<in> set chain" by auto
    from kv(4) obtain xs ys where ch: "chain = xs @ (a, p) # ys" by (meson split_list)
    with ok have "remove_cell a chain = xs @ ys"
      by (auto simp: chain_ok_def remove_cell_append)
    with L Some c have "LookupChain chain (kvs ht) key remove m
        = Inr (1, p, if remove then xs @ ys else chain, after_lookup chain m)"
      by simp
    with ch kv(1-3) show ?thesis by blast
  qed
qed

lemma LookupHashTable_map:
  assumes "ht_inv ht m" "reliable m"
  obtains m' where "later m m'"
    "LookupHashTable ht key m = Inr (case ht_map ht key of
       None \<Rightarrow> (0, None, m') | Some v \<Rightarrow> (1, Some (kv_of key v), m'))"
proof -
  obtain pre chain post where bs: "buckets ht = pre @ chain # post"
    and b: "length pre = bucket_of (num_buckets ht) key"
    and h: "unat (HashKeyToBucketNum ht key) = length pre"
    using bucket_splitE [OF assms(1)] by blast
  from LookupChain_bucket [OF assms bs b, of False] bs h
  have "LookupHashTable ht key m = Inr (case ht_map ht key of
      None \<Rightarrow> (0, None, after_lookup chain m) | Some v \<Rightarrow> (1, Some (kv_of key v), after_lookup chain m))"
    by (auto simp: LookupHashTable_def)
  then show thesis using that later_after_lookup by blast
qed

lemma list_update_mid [simp]: "(pre @ x # post)[length pre := y] = pre @ y # post"
  by (simp add: list_update_append)

text \<open>The table without the cell \<open>(a, p)\<close> of the bucket \<open>xs @ (a, p) # ys\<close>.\<close>

definition without :: "'v hash_table \<Rightarrow> ptr cells list \<Rightarrow> ptr cells \<Rightarrow> ptr \<Rightarrow> ptr cells list \<Rightarrow> 'v hash_table" where
  "without ht pre chain p post =
     ht\<lparr>buckets := pre @ chain # post, kvs := (kvs ht)(p := None),
        ht_num_elements := ht_num_elements ht - 1\<rparr>"

lemma RemoveFromHashTable_cases:
  assumes inv: "ht_inv ht m" and rel: "reliable m"
  obtains (absent) m' where "later m m'" "ht_map ht key = None"
      "RemoveFromHashTable ht key m = Inr (0, None, ht, m')"
  | (present) pre xs a p ys post kv m' where "later m m'" "buckets ht = pre @ (xs @ (a, p) # ys) # post"
      "kvs ht p = Some kv" "kv_key kv = key" "ht_map ht key = Some (kv_value kv)"
      "RemoveFromHashTable ht key m = Inr (1, Some kv, without ht pre (xs @ ys) p post, m')"
proof -
  obtain pre chain post where bs: "buckets ht = pre @ chain # post"
    and b: "length pre = bucket_of (num_buckets ht) key"
    and h: "unat (HashKeyToBucketNum ht key) = length pre"
    using bucket_splitE [OF inv] by blast
  let ?m = "after_lookup chain m"
  from LookupChain_bucket [OF inv rel bs b, of True] show thesis
  proof (elim disjE exE conjE)
    assume "ht_map ht key = None"
      "LookupChain chain (kvs ht) key True m = Inr (0, NULL, chain, ?m)"
    with bs h show thesis by (intro absent [of ?m]) (simp_all add: RemoveFromHashTable_def)
  next
    fix xs a p ys kv
    assume "chain = xs @ (a, p) # ys" "kvs ht p = Some kv" "kv_key kv = key"
      "ht_map ht key = Some (kv_value kv)"
      "LookupChain chain (kvs ht) key True m = Inr (1, p, if True then xs @ ys else chain, ?m)"
    with bs h show thesis
      by (intro present [of ?m pre xs a p ys post kv])
        (simp_all add: RemoveFromHashTable_def without_def)
  qed
qed

lemma RemoveFromHashTable_map:
  fixes ht :: "'v hash_table"
  assumes inv: "ht_inv ht m" and rel: "reliable m"
  shows "case ht_map ht key of
      None \<Rightarrow> \<exists>m'. later m m' \<and> RemoveFromHashTable ht key m = Inr (0, None, ht, m')
    | Some v \<Rightarrow> \<exists>ht' m'. later m m' \<and>
        RemoveFromHashTable ht key m = Inr (1, Some (kv_of key v), ht', m') \<and> ht_inv ht' m' \<and>
        ht_map ht' = (ht_map ht)(key := None) \<and> total ht = Suc (total ht')"
  using inv rel
proof (cases rule: RemoveFromHashTable_cases [where key = key])
  case (absent m')
  then show ?thesis by auto
next
  case (present pre xs a p ys post kv m')
  note R = remove_effect [OF inv present(2,3), folded without_def]
  have "ht_inv (without ht pre (xs @ ys) p post) m'" using R(1) present(1) by (rule ht_inv_later)
  with R(2,3) present(1,4,5,6) show ?thesis by auto
qed

section \<open>A new table\<close>

lemma alloc_buckets_reliable:
  "reliable m \<Longrightarrow> alloc_buckets n m = (True, m\<lparr>clock := clock m + n\<rparr>)"
  by (induction n arbitrary: m) (simp_all add: malloc_reliable)

definition empty_table :: "u32 \<Rightarrow> 'v hash_table" where
  "empty_table nb = \<lparr>num_buckets = nb, ht_num_elements = 0,
                     buckets = replicate (unat nb) [], kvs = Map.empty\<rparr>"

lemma AllocateHashTable_reliable:
  "reliable m \<Longrightarrow> nb \<noteq> 0 \<Longrightarrow> AllocateHashTable nb m
     = (Some (empty_table nb), m\<lparr>clock := Suc (Suc (clock m)) + unat nb\<rparr>)"
  by (simp add: AllocateHashTable_def malloc_reliable alloc_buckets_reliable empty_table_def)

lemma AllocateHashTable_ok:
  assumes "reliable m" "nb \<noteq> 0"
  obtains m' where "AllocateHashTable nb m = (Some (empty_table nb), m')" "later m m'" "reliable m'"
proof
  show "AllocateHashTable nb m
      = (Some (empty_table nb), m\<lparr>clock := Suc (Suc (clock m)) + unat nb\<rparr>)"
    using assms by (rule AllocateHashTable_reliable)
qed (use assms(1) in \<open>simp_all add: later_def\<close>)

lemma concat_replicate_Nil [simp]: "concat (replicate n []) = []"
  by (induction n) simp_all

lemma placed_replicate [simp]: "placed nb boxes (replicate n []) i"
  by (induction n arbitrary: i) simp_all

lemma empty_table_simps [simp]:
  "ht_items (empty_table nb) = []"
  "ht_map (empty_table nb) = Map.empty"
  "total (empty_table nb) = 0"
  "num_buckets (empty_table nb) = nb"
  by (simp_all add: empty_table_def ht_items_def ht_map_def total_def)

lemma empty_table_inv [simp]: "nb \<noteq> 0 \<Longrightarrow> ht_inv (empty_table nb) m"
proof -
  assume "nb \<noteq> 0"
  then show ?thesis
    by (simp add: ht_inv_def total_def) (simp add: empty_table_def)
qed

section \<open>Freeing\<close>

lemma free_chain_ok:
  "distinct (map snd chain) \<Longrightarrow> snd ` set chain \<subseteq> dom boxes \<Longrightarrow>
     free_chain f chain boxes w
       = Inr (boxes |` (- snd ` set chain), fold (\<lambda>kv. f (kv_value kv)) (items_of boxes chain) w)"
proof (induction chain arbitrary: boxes w)
  case Nil
  show ?case by (simp add: free_chain.simps cl_pop_def)
next
  case (Cons c chain)
  obtain a p where c: "c = (a, p)" by (cases c)
  with Cons.prems obtain kv where kv: "boxes p = Some kv" by auto
  have p: "p \<notin> snd ` set chain" using Cons.prems(1) c by simp
  have "boxes(p := None) |` (- snd ` set chain) = boxes |` (- snd ` set (c # chain))"
    using p by (auto simp: c restrict_map_def fun_eq_iff)
  moreover have "free_chain f chain (boxes(p := None)) (f (kv_value kv) w)
      = Inr ((boxes(p := None)) |` (- snd ` set chain),
             fold (\<lambda>kv. f (kv_value kv)) (items_of (boxes(p := None)) chain) (f (kv_value kv) w))"
  proof (rule Cons.IH)
    show "distinct (map snd chain)" using Cons.prems(1) by simp
    show "snd ` set chain \<subseteq> dom (boxes(p := None))"
      using Cons.prems(2) p by (simp add: subset_Diff_insert)
  qed
  ultimately show ?case
    using kv p by (simp add: free_chain.simps c cl_pop_def)
qed

lemma free_chains_ok:
  "distinct (map snd (concat bls)) \<Longrightarrow> snd ` set (concat bls) \<subseteq> dom boxes \<Longrightarrow>
     free_chains f bls boxes w
       = Inr (boxes |` (- snd ` set (concat bls)),
              fold (\<lambda>kv. f (kv_value kv)) (items_of boxes (concat bls)) w)"
proof (induction bls arbitrary: boxes w)
  case Nil
  show ?case by (simp add: restrict_map_def)
next
  case (Cons bl bls)
  let ?boxes = "boxes |` (- snd ` set bl)"
  have dis: "snd ` set bl \<inter> snd ` set (concat bls) = {}" using Cons.prems(1) by auto
  have one: "free_chain f bl boxes w
      = Inr (?boxes, fold (\<lambda>kv. f (kv_value kv)) (items_of boxes bl) w)"
    by (rule free_chain_ok) (use Cons.prems in auto)
  have "items_of ?boxes (concat bls) = items_of boxes (concat bls)"
    
  proof (rule items_of_frame)
    fix q assume "q \<in> snd ` set (concat bls)"
    with dis have "q \<notin> snd ` set bl" by blast
    then show "?boxes q = boxes q" by (simp add: restrict_map_def)
  qed
  moreover have "?boxes |` (- snd ` set (concat bls)) = boxes |` (- snd ` set (concat (bl # bls)))"
    by (auto simp: restrict_map_def fun_eq_iff)
  moreover have "snd ` set (concat bls) \<subseteq> dom ?boxes"
    using Cons.prems(2) dis by auto
  moreover have "distinct (map snd (concat bls))" using Cons.prems(1) by simp
  ultimately show ?case
    using one Cons.IH [of ?boxes "fold (\<lambda>kv. f (kv_value kv)) (items_of boxes bl) w"]
    by (simp add: del: set_concat)
qed

lemma FreeHashTable_ok:
  assumes "ht_inv ht m"
  shows "FreeHashTable f ht w = Inr (Map.empty, fold (\<lambda>kv. f (kv_value kv)) (ht_items ht) w)"
proof -
  note I = ht_invD [OF assms]
  have "kvs ht |` (- snd ` set (concat (buckets ht))) = Map.empty"
    using I(5) by (auto simp: restrict_map_def fun_eq_iff simp del: set_concat)
  with free_chains_ok [OF I(4), of "kvs ht" f w] I(5) show ?thesis
    by (simp add: FreeHashTable_def ht_items_def del: set_concat)
qed

end
