(* ===== verification/HashTableIter.thy ===== *)
theory HashTableIter
  imports HashTableOps
begin

text \<open>
  Iterators over a hash table: an iterator stands for the list of the pairs it has not yet passed,
  \<^verbatim>\<open>HTIteratorGet\<close> reads its head and \<^verbatim>\<open>HTIteratorNext\<close> drops it, so that a loop over a table
  visits the pairs of the table in order, each one once. Deleting through the iterator drains it.
\<close>

definition it_items :: "'v hash_table \<Rightarrow> ht_iter \<Rightarrow> 'v HTKeyValue list" where
  "it_items ht it =
     (if HTIteratorPastEnd it then []
      else case bucket_it it of None \<Rightarrow> []
        | Some a \<Rightarrow> items_of (kvs ht) (cells_from (buckets ht ! bucket_num it) a
                      @ concat (drop (Suc (bucket_num it)) (buckets ht))))"

definition it_ok :: "'v hash_table \<Rightarrow> ht_iter \<Rightarrow> bool" where
  "it_ok ht it \<longleftrightarrow> \<not> HTIteratorPastEnd it \<longrightarrow>
     bucket_num it < length (buckets ht) \<and>
     (case bucket_it it of None \<Rightarrow> False | Some a \<Rightarrow> a \<in> addrs (buckets ht ! bucket_num it))"

text \<open>Looking for the next non-empty bucket passes over empty ones only.\<close>

lemma next_bucket_props:
  "case next_bucket ht i of
     None \<Rightarrow> concat (drop i (buckets ht)) = []
   | Some j \<Rightarrow> i \<le> j \<and> j < length (buckets ht) \<and> buckets ht ! j \<noteq> [] \<and>
       concat (drop i (buckets ht)) = concat (drop j (buckets ht))"
proof (induction "length (buckets ht) - i" arbitrary: i)
  case 0
  then show ?case by (simp add: next_bucket_def)
next
  case (Suc n)
  then have i: "i < length (buckets ht)" by simp
  note IH = Suc(1) [of "Suc i"]
  have d: "drop i (buckets ht) = (buckets ht ! i) # drop (Suc i) (buckets ht)"
    using i by (simp add: Cons_nth_drop_Suc)
  have nb: "next_bucket ht i = (if buckets ht ! i \<noteq> [] then Some i else next_bucket ht (Suc i))"
    using i by (simp add: next_bucket_def upt_rec [of i])
  show ?case
  proof (cases "buckets ht ! i = []")
    case True
    with nb d have e: "next_bucket ht i = next_bucket ht (Suc i)"
      "concat (drop i (buckets ht)) = concat (drop (Suc i) (buckets ht))" by simp_all
    from IH Suc(2) show ?thesis
      unfolding e by (cases "next_bucket ht (Suc i)") (simp_all add: Suc_le_eq less_imp_le)
  next
    case False
    with i nb show ?thesis by simp
  qed
qed

lemma next_bucket_None: "next_bucket ht i = None \<Longrightarrow> concat (drop i (buckets ht)) = []"
  using next_bucket_props [of i ht] by simp

lemma next_bucket_Some:
  assumes "next_bucket ht i = Some j"
  shows "j < length (buckets ht)" "buckets ht ! j \<noteq> []"
    "concat (drop i (buckets ht)) = buckets ht ! j @ concat (drop (Suc j) (buckets ht))"
  using next_bucket_props [of i ht] assms by (simp_all add: Cons_nth_drop_Suc [symmetric, of j])

lemma cells_from_first: "cs \<noteq> [] \<Longrightarrow> cells_from cs (first_addr cs q) = cs"
  by (cases cs) auto

lemma cl_make_iterator_head:
  "reliable m \<Longrightarrow> cs \<noteq> [] \<Longrightarrow>
     cl_make_iterator cs 0 m = (Some (first_addr cs NULL), m\<lparr>clock := Suc (clock m)\<rparr>)"
  by (simp add: cl_make_iterator_def malloc_reliable)

text \<open>An iterator at the start of a bucket.\<close>

definition at_bucket :: "'v hash_table \<Rightarrow> nat \<Rightarrow> ht_iter" where
  "at_bucket ht j = \<lparr>is_valid = True, bucket_num = j, bucket_it = Some (first_addr (buckets ht ! j) NULL)\<rparr>"

lemma at_bucket:
  assumes "next_bucket ht i = Some j"
  shows "it_ok ht (at_bucket ht j)"
    "it_items ht (at_bucket ht j) = items_of (kvs ht) (concat (drop i (buckets ht)))"
    "it_items ht (at_bucket ht j) \<noteq> []"
  using next_bucket_Some [OF assms]
  by (simp_all add: it_ok_def at_bucket_def it_items_def HTIteratorPastEnd_def first_addr_in
      cells_from_first)
    (metis items_of_def append_is_Nil_conv list.map_disc_iff)

lemma HashTableMakeIterator_ok:
  assumes rel: "reliable m" and n0: "ht_num_elements ht = 0 \<longleftrightarrow> total ht = 0"
  obtains it m' where "HashTableMakeIterator ht m = Inr (Some it, m')" "later m m'"
    "it_ok ht it" "it_items ht it = ht_items ht"
proof (cases "total ht = 0")
  case True
  let ?it = "\<lparr>is_valid = False, bucket_num = 0, bucket_it = None\<rparr> :: ht_iter"
  show thesis
  proof (rule that)
    show "HashTableMakeIterator ht m = Inr (Some ?it, m\<lparr>clock := Suc (clock m)\<rparr>)"
      using True rel n0 by (simp add: HashTableMakeIterator_def malloc_reliable)
    show "it_items ht ?it = ht_items ht"
      using True by (simp add: it_items_def HTIteratorPastEnd_def ht_items_def total_def
          items_of_def del: concat_eq_Nil_conv)
  qed (simp_all add: it_ok_def HTIteratorPastEnd_def)
next
  case False
  then obtain j where j: "next_bucket ht 0 = Some j"
    using next_bucket_None [of ht 0] by (cases "next_bucket ht 0") (auto simp: total_def)
  show thesis
  proof (rule that)
    show "HashTableMakeIterator ht m
        = Inr (Some (at_bucket ht j), m\<lparr>clock := Suc (Suc (clock m))\<rparr>)"
      using False rel n0 j next_bucket_Some(2) [OF j]
      by (simp add: HashTableMakeIterator_def malloc_reliable cl_make_iterator_head at_bucket_def)
    show "it_items ht (at_bucket ht j) = ht_items ht"
      using at_bucket(2) [OF j] by (simp add: ht_items_def)
  qed (simp_all add: at_bucket [OF j])
qed

text \<open>Where a valid iterator stands.\<close>

lemma it_okE:
  assumes inv: "ht_inv ht m" and ok: "it_ok ht it" and v: "\<not> HTIteratorPastEnd it"
  obtains xs a p ys kv where "bucket_it it = Some a" "bucket_num it < length (buckets ht)"
    "buckets ht ! bucket_num it = xs @ (a, p) # ys" "a \<notin> addrs xs" "a \<noteq> NULL" "NULL \<notin> addrs ys"
    "kvs ht p = Some kv" "a \<notin> addrs ys"
    "it_items ht it = kv # items_of (kvs ht) (ys @ concat (drop (Suc (bucket_num it)) (buckets ht)))"
proof -
  from ok v obtain a where a: "bucket_it it = Some a" "bucket_num it < length (buckets ht)"
    "a \<in> addrs (buckets ht ! bucket_num it)"
    by (auto simp: it_ok_def split: option.splits)
  then obtain xs p ys where s: "buckets ht ! bucket_num it = xs @ (a, p) # ys"
    using in_fst_split by metis
  have "chain_ok (kvs ht) (xs @ (a, p) # ys)"
    using ht_inv_chain_ok [OF inv] a(2) s by (metis nth_mem)
  then have c: "a \<notin> addrs xs" "a \<noteq> NULL" "NULL \<notin> addrs ys" "p \<in> dom (kvs ht)" "a \<notin> addrs ys"
    by (auto simp: chain_ok_def)
  then obtain kv where kv: "kvs ht p = Some kv" by auto
  have "it_items ht it = kv # items_of (kvs ht) (ys @ concat (drop (Suc (bucket_num it)) (buckets ht)))"
    using v a(1) s c(1) kv by (simp add: it_items_def cells_from_append)
  with a(1,2) s c(1-3) kv c(5) show thesis by (rule that)
qed

lemma HTIteratorGet_ok:
  assumes inv: "ht_inv ht m" and ok: "it_ok ht it"
  shows "HTIteratorGet ht it = Inr (case it_items ht it of [] \<Rightarrow> None | kv # _ \<Rightarrow> Some kv)"
proof (cases "HTIteratorPastEnd it")
  case True
  then show ?thesis by (simp add: HTIteratorGet_def it_items_def)
next
  case False
  from inv ok False show ?thesis
    by (rule it_okE) (use False in \<open>simp add: HTIteratorGet_def bucket_at_def cl_payload_at\<close>)
qed

lemma PastEnd_iff:
  assumes "ht_inv ht m" "it_ok ht it"
  shows "HTIteratorPastEnd it \<longleftrightarrow> it_items ht it = []"
proof (cases "HTIteratorPastEnd it")
  case True
  then show ?thesis by (simp add: it_items_def)
next
  case False
  from assms False show ?thesis
    by (rule it_okE) (use False in simp)
qed

lemma HTIteratorNext_ok:
  assumes inv: "ht_inv ht m" and ok: "it_ok ht it" and v: "it_items ht it \<noteq> []"
    and rel: "reliable m'"
  obtains it' m'' where
    "HTIteratorNext ht it m' = Inr (if tl (it_items ht it) = [] then 0 else 1, it', m'')"
    "later m' m''" "it_ok ht it'" "it_items ht it' = tl (it_items ht it)"
proof -
  have nv: "\<not> HTIteratorPastEnd it"
    using v by (auto simp: it_items_def)
  let ?n = "bucket_num it"
  obtain xs a p ys kv where A: "bucket_it it = Some a" "?n < length (buckets ht)"
    "buckets ht ! ?n = xs @ (a, p) # ys" "a \<notin> addrs xs" "a \<noteq> NULL" "NULL \<notin> addrs ys"
    and I: "it_items ht it = kv # items_of (kvs ht) (ys @ concat (drop (Suc ?n) (buckets ht)))"
    and ay: "a \<notin> addrs ys"
    using inv ok nv by (rule it_okE)
  have next0: "cl_next (buckets ht ! ?n) a
      = Inr (if ys = [] then (False, a) else (True, first_addr ys NULL))"
    using A by (simp add: cl_next_at)
  show thesis
  proof (cases "ys = []")
    case False
    let ?it = "it\<lparr>bucket_it := Some (first_addr ys NULL)\<rparr>"
    have f: "first_addr ys NULL \<in> addrs ys" using False by (rule first_addr_in)
    obtain b q zs where ys: "ys = (b, q) # zs" using False by (cases ys) auto
    have "b \<notin> addrs (xs @ [(a, p)])"
    proof -
      have "distinct (map fst (buckets ht ! ?n))"
        using inv A(2) by (simp add: ht_inv_def)
      then show ?thesis using A(3) ys by auto
    qed
    then have cf: "cells_from (buckets ht ! ?n) b = ys"
      using cells_from_append [of b "xs @ [(a, p)]" q zs] A(3) ys by simp
    show thesis
    proof (rule that)
      show "HTIteratorNext ht it m' = Inr (if tl (it_items ht it) = [] then 0 else 1, ?it, m')"
        using A(1,2) next0 False I by (simp add: HTIteratorNext_def bucket_at_def items_of_def)
      show "it_ok ht ?it" using nv A(2,3) f by (auto simp: it_ok_def HTIteratorPastEnd_def)
      show "it_items ht ?it = tl (it_items ht it)"
        using nv I cf ys by (simp add: it_items_def HTIteratorPastEnd_def)
    qed simp
  next
    case True
    note E = True
    show thesis
    proof (cases "next_bucket ht (Suc ?n)")
      case None
      note nil = next_bucket_None [OF None]
      show thesis
      proof (rule that)
        show "HTIteratorNext ht it m'
            = Inr (if tl (it_items ht it) = [] then 0 else 1, it\<lparr>is_valid := False\<rparr>, m')"
          using A(1,2) next0 E None I nil by (simp add: HTIteratorNext_def bucket_at_def)
        show "it_items ht (it\<lparr>is_valid := False\<rparr>) = tl (it_items ht it)"
          using E I nil by (simp add: it_items_def HTIteratorPastEnd_def)
      qed (simp_all add: it_ok_def HTIteratorPastEnd_def)
    next
      case (Some j)
      note S = next_bucket_Some [OF Some]
      let ?it = "it\<lparr>bucket_num := j, bucket_it := Some (first_addr (buckets ht ! j) NULL)\<rparr>"
      have it: "?it = at_bucket ht j" using nv by (simp add: at_bucket_def HTIteratorPastEnd_def)
      show thesis
      proof (rule that)
        show "HTIteratorNext ht it m'
            = Inr (if tl (it_items ht it) = [] then 0 else 1, ?it, m'\<lparr>clock := Suc (clock m')\<rparr>)"
          using A(1,2) next0 E Some I S(2,3) rel
          by (simp add: HTIteratorNext_def bucket_at_def cl_make_iterator_head items_of_def)
        show "it_items ht ?it = tl (it_items ht it)"
          unfolding it using at_bucket(2) [OF Some] E I by simp
        show "it_ok ht ?it" unfolding it by (rule at_bucket(1) [OF Some])
      qed simp
    qed
  qed
qed


section \<open>Deleting through an iterator\<close>

text \<open>Removing a pair that an iterator has passed leaves the iterator valid.\<close>

lemma it_without:
  assumes inv: "ht_inv ht m" and ok: "it_ok ht it"
    and bs: "buckets ht = pre @ (xs @ (a, p) # ys) # post" and kv: "kvs ht p = Some kv"
    and passed: "kv \<notin> set (it_items ht it)"
  shows "it_ok (without ht pre (xs @ ys) p post) it \<and>
         it_items (without ht pre (xs @ ys) p post) it = it_items ht it"
proof (cases "HTIteratorPastEnd it")
  case True
  then show ?thesis by (simp add: it_ok_def it_items_def)
next
  case False
  let ?n = "bucket_num it" and ?ht = "without ht pre (xs @ ys) p post"
  obtain us b q vs kv' where A: "bucket_it it = Some b" "?n < length (buckets ht)"
    "buckets ht ! ?n = us @ (b, q) # vs" "b \<notin> addrs us"
    using inv ok False by (rule it_okE)
  let ?rest = "(b, q) # vs @ concat (drop (Suc ?n) (buckets ht))"
  have items: "it_items ht it = items_of (kvs ht) ?rest"
    using False A by (simp add: it_items_def cells_from_append)
  have np: "p \<notin> snd ` set ?rest"
  proof
    assume "p \<in> snd ` set ?rest"
    then have "the (kvs ht p) \<in> set (items_of (kvs ht) ?rest)"
      unfolding items_of_def by force
    with kv items passed show False by simp
  qed
  have dis: "distinct (map fst (xs @ (a, p) # ys))"
    using inv bs by (simp add: ht_inv_def)
  have nth: "buckets ?ht ! ?n = (if ?n = length pre then xs @ ys else buckets ht ! ?n)"
    by (simp add: without_def bs nth_append nth_Cons')
  have late: "length pre \<le> ?n"
  proof (rule ccontr)
    assume "\<not> length pre \<le> ?n"
    then have "xs @ (a, p) # ys \<in> set (drop (Suc ?n) (buckets ht))"
      by (simp add: bs)
    then have "(a, p) \<in> set ?rest" by fastforce
    with np show False by force
  qed
  then have drops: "drop (Suc ?n) (buckets ?ht) = drop (Suc ?n) (buckets ht)"
    by (simp add: without_def bs Suc_diff_le)
  have cells: "cells_from (buckets ?ht ! ?n) b = (b, q) # vs \<and> b \<in> addrs (buckets ?ht ! ?n)"
  proof (cases "?n = length pre")
    case False
    with nth A(3,4) show ?thesis by (simp add: cells_from_append)
  next
    case True
    then have e: "us @ (b, q) # vs = xs @ (a, p) # ys" using A(3) bs by simp
    have "(a, p) \<notin> set ((b, q) # vs)" using np by force
    with e obtain ws where ys: "ys = ws @ (b, q) # vs" "us = xs @ (a, p) # ws"
      by (auto simp: append_eq_append_conv2 append_eq_Cons_conv Cons_eq_append_conv)
    with nth True A(4) have "buckets ?ht ! ?n = (xs @ ws) @ (b, q) # vs" "b \<notin> addrs (xs @ ws)"
      by simp_all
    then show ?thesis by (simp add: cells_from_append del: append_assoc)
  qed
  have "items_of ((kvs ht)(p := None)) ?rest = items_of (kvs ht) ?rest"
    using np by (rule items_of_upd)
  then have "it_items ?ht it = it_items ht it"
    using False A(1) cells drops items
    by (simp add: it_items_def del: items_of_simps) (simp add: without_def)
  moreover have "it_ok ?ht it"
    using A(1,2) cells by (simp add: it_ok_def bs without_def)
  ultimately show ?thesis by simp
qed

text \<open>
  \<^verbatim>\<open>HTIteratorDelete\<close> removes the current pair, hands it out, and leaves the iterator on the next
  pair; it returns 2 when that was the last one.
\<close>

lemma HTIteratorDelete_step:
  assumes inv: "ht_inv ht m" and rel: "reliable m" and ok: "it_ok ht it"
    and items: "it_items ht it = kv # rest" and dis: "distinct (map kv_key (kv # rest))"
    and mem: "kv \<in> set (ht_items ht)"
  shows "\<exists>ht' it' m'. HTIteratorDelete ht it m
      = Inr (if rest = [] then 2 else 1, Some kv, ht', it', m') \<and>
     later m m' \<and> ht_inv ht' m' \<and> ht_map ht' = (ht_map ht)(kv_key kv := None) \<and>
     total ht = Suc (total ht') \<and> it_ok ht' it' \<and> it_items ht' it' = rest"
proof -
  have get: "HTIteratorGet ht it = Inr (Some kv)"
    using HTIteratorGet_ok [OF inv ok] items by simp
  obtain it1 m1 where n: "HTIteratorNext ht it m
      = Inr (if tl (it_items ht it) = [] then 0 else 1, it1, m1)" "later m m1" "it_ok ht it1"
      "it_items ht it1 = tl (it_items ht it)"
    using HTIteratorNext_ok [OF inv ok _ rel] items by auto
  have inv1: "ht_inv ht m1" using inv n(2) by (rule ht_inv_later)
  have rel1: "reliable m1" using n(2) rel by (rule later_reliable)
  have there: "ht_map ht (kv_key kv) = Some (kv_value kv)"
    using mem by (auto simp: ht_map_Some_iff [OF inv])
  from inv1 rel1 show ?thesis
  proof (cases rule: RemoveFromHashTable_cases [where key = "kv_key kv"])
    case (absent m')
    with there show ?thesis by simp
  next
    case (present pre xs a p ys post kv' m')
    then have "kv' = kv" using there kv_of_eq [of kv] kv_of_eq [of kv'] by simp
    note P = present [unfolded this]
    note R = remove_effect [OF inv1 P(2,3), folded without_def]
    have "kv \<notin> set (it_items ht it1)" using n(4) items dis by auto
    from it_without [OF inv n(3) P(2,3) this]
    have W: "it_ok (without ht pre (xs @ ys) p post) it1"
      "it_items (without ht pre (xs @ ys) p post) it1 = rest"
      using n(4) items by simp_all
    have "ht_inv (without ht pre (xs @ ys) p post) m'" using R(1) P(1) by (rule ht_inv_later)
    moreover have "later m m'" using n(2) P(1) by (rule later_trans)
    moreover have "HTIteratorDelete ht it m = Inr (if rest = [] then 2 else 1, Some kv,
        without ht pre (xs @ ys) p post, it1, m')"
      using get n(1) P(6) items by (simp add: HTIteratorDelete_def)
    ultimately show ?thesis using R(2,3) W by blast
  qed
qed

end
