(* ===== verification/HashTableResize.thy ===== *)
theory HashTableResize
  imports HashTableIter
begin

text \<open>
  \<^verbatim>\<open>InsertHashTable\<close> and \<^verbatim>\<open>ResizeHashtable\<close>: a resize keeps the map, an insertion updates it at the
  key, and the fuel of the mutual recursion is enough for every table.
\<close>

section \<open>One insertion\<close>

text \<open>The guard of \<^verbatim>\<open>ResizeHashtable\<close>: below three elements per bucket nothing happens.\<close>

definition has_room :: "'v hash_table \<Rightarrow> bool" where
  "has_room ht \<longleftrightarrow> ht_num_elements ht < 3 * num_buckets ht"

text \<open>What a resize promises to its caller.\<close>

definition resize_spec :: "'v resize_fn \<Rightarrow> 'v hash_table \<Rightarrow> mem \<Rightarrow> bool" where
  "resize_spec resize ht m \<longleftrightarrow>
     (\<exists>ht' m'. resize ht m = Inr (ht', m') \<and> later m m' \<and> ht_inv ht' m' \<and>
        ht_map ht' = ht_map ht \<and> total ht' = total ht \<and>
        (has_room ht \<longrightarrow> num_buckets ht' = num_buckets ht))"

text \<open>What an insertion promises to its caller.\<close>

definition insert_spec :: "'v insert_fn \<Rightarrow> 'v hash_table \<Rightarrow> 'v HTKeyValue \<Rightarrow> mem \<Rightarrow> bool" where
  "insert_spec insert_fn ht kv m \<longleftrightarrow>
     (\<exists>ht' m'. insert_fn ht kv m = Inr (case ht_map ht (kv_key kv) of
          None \<Rightarrow> (1, None, ht', m') | Some v \<Rightarrow> (2, Some (kv_of (kv_key kv) v), ht', m')) \<and>
        later m m' \<and> ht_inv ht' m' \<and> ht_map ht' = (ht_map ht)(kv_key kv \<mapsto> kv_value kv) \<and>
        total ht' = (case ht_map ht (kv_key kv) of None \<Rightarrow> Suc (total ht) | Some _ \<Rightarrow> total ht) \<and>
        (has_room ht \<longrightarrow> num_buckets ht' = num_buckets ht))"

text \<open>The part of an insertion after the resize.\<close>

lemma InsertHashTable_body_done:
  fixes ht :: "'v hash_table"
  assumes res: "resize ht0 m0 = Inr (ht, m)" and inv: "ht_inv ht m" and rel: "reliable m"
  shows "\<exists>ht' m'. InsertHashTable_body resize ht0 kv m0 = Inr (case ht_map ht (kv_key kv) of
          None \<Rightarrow> (1, None, ht', m') | Some v \<Rightarrow> (2, Some (kv_of (kv_key kv) v), ht', m')) \<and>
        later m m' \<and> ht_inv ht' m' \<and> ht_map ht' = (ht_map ht)(kv_key kv \<mapsto> kv_value kv) \<and>
        total ht' = (case ht_map ht (kv_key kv) of None \<Rightarrow> Suc (total ht) | Some _ \<Rightarrow> total ht) \<and>
        num_buckets ht' = num_buckets ht"
proof -
  obtain pre chain post where bs: "buckets ht = pre @ chain # post"
    and b: "length pre = bucket_of (num_buckets ht) (kv_key kv)"
    and h: "unat (HashKeyToBucketNum ht (kv_key kv)) = length pre"
    using bucket_splitE [OF inv] by blast
  let ?m = "after_lookup chain m"
  have relm: "reliable ?m" using rel by (simp add: after_lookup_def)
  have lat: "later m ?m" by simp
  from LookupChain_bucket [OF inv rel bs b, of False] show ?thesis
  proof (elim disjE exE conjE)
    assume new: "ht_map ht (kv_key kv) = None"
      and L: "LookupChain chain (kvs ht) (kv_key kv) False m = Inr (0, NULL, chain, ?m)"
    let ?c = "clock ?m"
    let ?ht = "ht\<lparr>buckets := pre @ ((Suc (Suc ?c), Suc ?c) # chain) # post,
                 kvs := (kvs ht)(Suc ?c \<mapsto> kv), ht_num_elements := ht_num_elements ht + 1\<rparr>"
    let ?m' = "?m\<lparr>clock := Suc (Suc ?c)\<rparr>"
    have "InsertHashTable_body resize ht0 kv m0 = Inr (1, None, ?ht, ?m')"
      using res L bs h relm
      by (simp add: InsertHashTable_body_def malloc_reliable cl_push_def)
    moreover have l: "later m ?m'" using lat by (simp add: later_def)
    moreover have "clock m < Suc (Suc ?c)" "clock m < Suc ?c"
      using lat by (simp_all add: later_def)
    note E = insert_effect [OF inv bs b new this l]
    ultimately show ?thesis
      using new E by (intro exI [of _ ?ht] exI [of _ ?m']) simp
  next
    fix xs a p ys old
    assume ch: "chain = xs @ (a, p) # ys" and old: "kvs ht p = Some old" "kv_key old = kv_key kv"
      "ht_map ht (kv_key kv) = Some (kv_value old)"
      and L: "LookupChain chain (kvs ht) (kv_key kv) False m
        = Inr (1, p, if False then xs @ ys else chain, ?m)"
    let ?ht = "ht\<lparr>kvs := (kvs ht)(p \<mapsto> kv)\<rparr>"
    have "kv_of (kv_key kv) (kv_value old) = old" by (simp add: old(2) [symmetric])
    with res L bs h old(1) have "InsertHashTable_body resize ht0 kv m0
        = Inr (2, Some (kv_of (kv_key kv) (kv_value old)), ?ht, ?m)"
      by (simp add: InsertHashTable_body_def)
    moreover note E = replace_effect [OF inv bs [unfolded ch] old(1,2)]
    moreover have "ht_inv ?ht ?m" using E(1) lat by (rule ht_inv_later)
    ultimately show ?thesis
      using old(3) E(2,3) lat by (intro exI [of _ ?ht] exI [of _ ?m]) simp
  qed
qed

lemma InsertHashTable_body_spec:
  assumes "resize_spec resize ht m" "reliable m"
  shows "insert_spec (InsertHashTable_body resize) ht kv m"
proof -
  obtain ht1 m1 where r: "resize ht m = Inr (ht1, m1)" "later m m1" "ht_inv ht1 m1"
    "ht_map ht1 = ht_map ht" "total ht1 = total ht" "has_room ht \<longrightarrow> num_buckets ht1 = num_buckets ht"
    using assms(1) unfolding resize_spec_def by blast
  have "reliable m1" using r(2) assms(2) by (rule later_reliable)
  from InsertHashTable_body_done [where resize = resize, OF r(1) r(3) this, of kv, unfolded r(4,5)]
  obtain ht' m' where "InsertHashTable_body resize ht kv m = Inr (case ht_map ht (kv_key kv) of
        None \<Rightarrow> (1, None, ht', m') | Some v \<Rightarrow> (2, Some (kv_of (kv_key kv) v), ht', m'))"
    and l: "later m1 m'" and "ht_inv ht' m'" "ht_map ht' = (ht_map ht)(kv_key kv \<mapsto> kv_value kv)"
    "total ht' = (case ht_map ht (kv_key kv) of None \<Rightarrow> Suc (total ht) | Some _ \<Rightarrow> total ht)"
    and "num_buckets ht' = num_buckets ht1"
    by blast
  moreover have "later m m'" using r(2) l by (rule later_trans)
  ultimately show ?thesis using r(6) unfolding insert_spec_def by (intro exI [of _ ht'] exI [of _ m']) simp
qed


section \<open>Rehashing\<close>

lemma has_room_iff:
  assumes "ht_inv ht m" "total ht < 2 ^ 32" "3 * unat (num_buckets ht) < 2 ^ 32"
  shows "has_room ht \<longleftrightarrow> total ht < 3 * unat (num_buckets ht)"
proof -
  have "unat (3 * num_buckets ht) = 3 * unat (num_buckets ht)"
    using assms(3) by (simp add: unat_mult_lem [THEN iffD1])
  then show ?thesis
    using ht_invD(3) [OF assms(1)] assms(2) by (simp add: has_room_def word_less_nat_alt unat_of_nat_u32)
qed

lemma rehash_loop_ok:
  fixes ht newht :: "'v hash_table"
  assumes inv: "ht_inv ht m0" and ok: "it_ok ht it"
    and ins: "\<And>newht kv m. ht_inv newht m \<Longrightarrow> reliable m \<Longrightarrow> total newht < N \<Longrightarrow>
                insert_spec insert_fn newht kv m"
    and new: "ht_inv newht m" and rel: "reliable m"
    and dis: "distinct (map kv_key (it_items ht it))"
    and disj: "\<And>kv. kv \<in> set (it_items ht it) \<Longrightarrow> ht_map newht (kv_key kv) = None"
    and N: "total newht + length (it_items ht it) \<le> N" and n: "length (it_items ht it) < n"
  shows "\<exists>newht' m'. rehash_loop n insert_fn ht it newht m = Inr (True, newht', m') \<and>
     later m m' \<and> ht_inv newht' m' \<and>
     ht_map newht' = ht_map newht ++ map_of (map pair_of (it_items ht it)) \<and>
     total newht' = total newht + length (it_items ht it) \<and>
     (total newht + length (it_items ht it) \<le> 3 * unat (num_buckets newht) \<longrightarrow>
      3 * unat (num_buckets newht) < 2 ^ 32 \<longrightarrow> num_buckets newht' = num_buckets newht)"
  using ok new rel dis disj N n
proof (induction n arbitrary: it newht m)
  case (Suc n)
  show ?case
  proof (cases "it_items ht it")
    case Nil
    then have "HTIteratorPastEnd it"
      using PastEnd_iff [OF inv Suc.prems(1)] by simp
    with Nil Suc.prems(2) show ?thesis by auto
  next
    case (Cons kv kvs)
    have v: "\<not> HTIteratorPastEnd it"
      using PastEnd_iff [OF inv Suc.prems(1)] Cons by simp
    have g: "HTIteratorGet ht it = Inr (Some kv)"
      using HTIteratorGet_ok [OF inv Suc.prems(1)] Cons by simp
    have fresh: "ht_map newht (kv_key kv) = None"
      using Suc.prems(5) Cons by simp
    have "insert_spec insert_fn newht kv m"
      using ins Suc.prems(2,3,6) Cons by simp
    with fresh obtain h1 m1 where i: "insert_fn newht kv m = Inr (1, None, h1, m1)" "later m m1"
      "ht_inv h1 m1" "ht_map h1 = (ht_map newht)(kv_key kv \<mapsto> kv_value kv)"
      "total h1 = Suc (total newht)" "has_room newht \<longrightarrow> num_buckets h1 = num_buckets newht"
      by (auto simp: insert_spec_def)
    have rel1: "reliable m1" using i(2) Suc.prems(3) by (rule later_reliable)
    obtain it2 m2 where x: "HTIteratorNext ht it m1
        = Inr (if tl (it_items ht it) = [] then 0 else 1, it2, m2)"
      "later m1 m2" "it_ok ht it2" "it_items ht it2 = kvs"
      using HTIteratorNext_ok [OF inv Suc.prems(1) _ rel1] Cons by auto
    have inv2: "ht_inv h1 m2" using i(3) x(2) by (rule ht_inv_later)
    have rel2: "reliable m2" using x(2) rel1 by (rule later_reliable)
    have dis2: "distinct (map kv_key (it_items ht it2))" using Suc.prems(4) Cons x(4) by simp
    have disj2: "ht_map h1 (kv_key k) = None" if "k \<in> set (it_items ht it2)" for k
    proof -
      have "kv_key kv \<notin> kv_key ` set kvs" using Suc.prems(4) Cons by simp
      then have "kv_key k \<noteq> kv_key kv" using that x(4) by (metis image_eqI)
      then show ?thesis using that Suc.prems(5) Cons i(4) x(4) by simp
    qed
    have "\<exists>newht' m'. rehash_loop n insert_fn ht it2 h1 m2 = Inr (True, newht', m') \<and>
       later m2 m' \<and> ht_inv newht' m' \<and>
       ht_map newht' = ht_map h1 ++ map_of (map pair_of (it_items ht it2)) \<and>
       total newht' = total h1 + length (it_items ht it2) \<and>
       (total h1 + length (it_items ht it2) \<le> 3 * unat (num_buckets h1) \<longrightarrow>
        3 * unat (num_buckets h1) < 2 ^ 32 \<longrightarrow> num_buckets newht' = num_buckets h1)"
      by (rule Suc.IH [OF x(3) inv2 rel2 dis2 disj2])
        (use Suc.prems(6,7) Cons x(4) i(5) in simp_all)
    then obtain h3 m3 where r: "rehash_loop n insert_fn ht it2 h1 m2 = Inr (True, h3, m3)"
      "later m2 m3" "ht_inv h3 m3" "ht_map h3 = ht_map h1 ++ map_of (map pair_of kvs)"
      "total h3 = total h1 + length kvs"
      "total h1 + length kvs \<le> 3 * unat (num_buckets h1) \<longrightarrow>
        3 * unat (num_buckets h1) < 2 ^ 32 \<longrightarrow> num_buckets h3 = num_buckets h1"
      unfolding x(4) by blast
    have "kv_key kv \<notin> kv_key ` set kvs" using Suc.prems(4) Cons by simp
    then have "ht_map h3 = ht_map newht ++ map_of (map pair_of (it_items ht it))"
      using r(4) i(4) map_of_pairs_None [of kvs "kv_key kv"]
      by (auto simp: Cons pair_of_def fun_eq_iff map_add_def split: option.splits)
    moreover have "later m m3" using i(2) x(2) r(2) by (meson later_trans)
    moreover have "total h3 = total newht + length (it_items ht it)" using r(5) i(5) Cons by simp
    moreover have "num_buckets h3 = num_buckets newht"
      if "total newht + length (it_items ht it) \<le> 3 * unat (num_buckets newht)"
        "3 * unat (num_buckets newht) < 2 ^ 32"
    proof -
      have "has_room newht"
        using that Cons has_room_iff [OF Suc.prems(2)] by simp
      then show ?thesis using i(5,6) r(6) that Cons by simp
    qed
    moreover have "rehash_loop (Suc n) insert_fn ht it newht m = Inr (True, h3, m3)"
      using v g i(1) x(1) r(1) by simp
    ultimately show ?thesis using r(3) by blast
  qed
qed simp

text \<open>The table that replaces a full one has a bucket.\<close>

lemma times_unit_nz:
  assumes "c * d = (1 :: u32)" "nb \<noteq> 0"
  shows "nb * c \<noteq> 0"
proof
  assume "nb * c = 0"
  then have "nb * (c * d) = 0" by (simp only: mult.assoc [symmetric] mult_zero_left)
  with assms show False by simp
qed

lemma times9_nz: "nb \<noteq> 0 \<Longrightarrow> nb * 9 \<noteq> (0 :: u32)"
  by (rule times_unit_nz [of 9 954437177]) simp_all

lemma times3_nz: "nb \<noteq> 0 \<Longrightarrow> 3 * nb \<noteq> (0 :: u32)"
  using times_unit_nz [of 3 2863311531 nb] by (simp add: mult.commute)

lemma ResizeHashtable_body_spec:
  fixes ht :: "'v hash_table"
  assumes inv: "ht_inv ht m" and rel: "reliable m"
    and ins: "\<And>newht kv m. ht_inv newht m \<Longrightarrow> reliable m \<Longrightarrow> total newht < total ht \<Longrightarrow>
                insert_spec insert_fn newht kv m"
  shows "\<exists>ht' m'. ResizeHashtable_body insert_fn ht m = Inr (ht', m') \<and> later m m' \<and> ht_inv ht' m' \<and>
     ht_map ht' = ht_map ht \<and> total ht' = total ht \<and>
     (has_room ht \<longrightarrow> num_buckets ht' = num_buckets ht) \<and>
     (\<not> has_room ht \<longrightarrow> total ht \<le> 3 * unat (num_buckets ht) \<longrightarrow>
      27 * unat (num_buckets ht) < 2 ^ 32 \<longrightarrow> num_buckets ht' = num_buckets ht * 9)"
proof (cases "has_room ht")
  case True
  with inv show ?thesis by (auto simp: ResizeHashtable_body_def has_room_def)
next
  case False
  note F = False
  have nb: "num_buckets ht \<noteq> 0" using ht_invD(1) [OF inv] .
  have "ht_num_elements ht \<noteq> 0"
  proof
    assume "ht_num_elements ht = 0"
    with F have "\<not> 0 < 3 * num_buckets ht" by (simp only: has_room_def simp_thms)
    with times3_nz [OF nb] show False by (simp only: word_gt_0 simp_thms)
  qed
  moreover have "total ht \<noteq> 0"
  proof
    assume "total ht = 0"
    then have "ht_num_elements ht = 0" using ht_invD(3) [OF inv] by simp
    with \<open>ht_num_elements ht \<noteq> 0\<close> show False ..
  qed
  ultimately have n0: "ht_num_elements ht = 0 \<longleftrightarrow> total ht = 0" by (simp only: simp_thms)
  let ?nb = "num_buckets ht * 9"
  have nb9: "?nb \<noteq> 0" using nb by (rule times9_nz)
  obtain m1 where A: "AllocateHashTable ?nb m = (Some (empty_table ?nb :: 'v hash_table), m1)"
    and l1: "later m m1" and rel1: "reliable m1"
    by (rule AllocateHashTable_ok [OF rel nb9])
  obtain it m2 where I: "HashTableMakeIterator ht m1 = Inr (Some it, m2)" "later m1 m2"
    "it_ok ht it" "it_items ht it = ht_items ht"
    using HashTableMakeIterator_ok [OF rel1 n0] .
  have rel2: "reliable m2" using I(2) rel1 by (rule later_reliable)
  have len: "length (it_items ht it) = total ht"
    by (simp add: I(4) ht_items_def total_def)
  have dis: "distinct (map kv_key (it_items ht it))"
    using ht_invD(7) [OF inv] I(4) by simp
  have "\<exists>newht' m'. rehash_loop (Suc (total ht)) insert_fn ht it (empty_table ?nb) m2
        = Inr (True, newht', m') \<and> later m2 m' \<and> ht_inv newht' m' \<and>
     ht_map newht' = ht_map (empty_table ?nb :: 'v hash_table) ++ map_of (map pair_of (it_items ht it)) \<and>
     total newht' = total (empty_table ?nb :: 'v hash_table) + length (it_items ht it) \<and>
     (total (empty_table ?nb :: 'v hash_table) + length (it_items ht it)
        \<le> 3 * unat (num_buckets (empty_table ?nb :: 'v hash_table)) \<longrightarrow>
      3 * unat (num_buckets (empty_table ?nb :: 'v hash_table)) < 2 ^ 32 \<longrightarrow>
      num_buckets newht' = num_buckets (empty_table ?nb :: 'v hash_table))"
    by (rule rehash_loop_ok [OF inv I(3) ins empty_table_inv [OF nb9] rel2 dis])
      (simp_all add: len, rule order_refl)
  then obtain newht m3 where R: "rehash_loop (Suc (total ht)) insert_fn ht it (empty_table ?nb) m2
        = Inr (True, newht, m3)" "later m2 m3" "ht_inv newht m3"
    "ht_map newht = map_of (map pair_of (it_items ht it))" "total newht = total ht"
    "total ht \<le> 3 * unat ?nb \<longrightarrow> 3 * unat ?nb < 2 ^ 32 \<longrightarrow> num_buckets newht = ?nb"
    unfolding len empty_table_simps by auto
  have "later m m3" using l1 I(2) R(2) by (meson later_trans)
  moreover have "ht_map newht = ht_map ht" using R(4) I(4) by (simp add: ht_map_def)
  moreover have "ResizeHashtable_body insert_fn ht m = Inr (newht, m3)"
    using F by (simp only: ResizeHashtable_body_def has_room_def A I(1) R(1) if_False if_True
        prod.case option.case andThen_simps simp_thms
        FreeHashTable_ok [OF inv, of HTNullFree "()"])
  moreover have "num_buckets newht = ?nb"
    if "total ht \<le> 3 * unat (num_buckets ht)" "27 * unat (num_buckets ht) < 2 ^ 32"
  proof -
    have "unat ?nb = unat (num_buckets ht) * 9"
      using that(2) by (simp add: unat_mult_lem [THEN iffD1])
    with that R(6) show ?thesis by simp
  qed
  ultimately show ?thesis using F R(3,5) by blast
qed

section \<open>The fuel of the recursion\<close>

lemma Resize_fuel_spec:
  fixes ht :: "'v hash_table"
  assumes "ht_inv ht m" "reliable m" "total ht \<le> n"
  shows "resize_spec (Resize_fuel (Suc n)) ht m"
  using assms
proof (induction n arbitrary: ht m)
  case 0
  then have "\<exists>ht' m'. ResizeHashtable_body (InsertHashTable_body (Resize_fuel 0)) ht m
      = Inr (ht', m') \<and> later m m' \<and> ht_inv ht' m' \<and> ht_map ht' = ht_map ht \<and> total ht' = total ht \<and>
      (has_room ht \<longrightarrow> num_buckets ht' = num_buckets ht)"
    using ResizeHashtable_body_spec [OF 0(1,2), of "InsertHashTable_body (Resize_fuel 0)"] 0(3)
    by auto
  then show ?case by (simp add: resize_spec_def)
next
  case (Suc n)
  have "insert_spec (InsertHashTable_body (Resize_fuel (Suc n))) newht kv m'"
    if "ht_inv newht m'" "reliable m'" "total newht < total ht"
    for newht :: "'v hash_table" and kv m'
    by (rule InsertHashTable_body_spec [OF Suc.IH [OF that(1,2)] that(2)])
      (use that(3) Suc.prems(3) in linarith)
  from ResizeHashtable_body_spec [OF Suc.prems(1,2) this]
  show ?case unfolding resize_spec_def Resize_fuel.simps(2) [of "Suc n"] by blast
qed

lemma ResizeHashtable_spec:
  assumes "ht_inv ht m" "reliable m"
  shows "resize_spec ResizeHashtable ht m"
  using Resize_fuel_spec [OF assms le_refl]
  by (simp add: resize_spec_def ResizeHashtable_def)

lemma InsertHashTable_spec:
  assumes "ht_inv ht m" "reliable m"
  shows "insert_spec InsertHashTable ht kv m"
  unfolding InsertHashTable_def
  using ResizeHashtable_spec [OF assms] assms(2) by (rule InsertHashTable_body_spec)

text \<open>How the number of buckets grows.\<close>

lemma ResizeHashtable_growth:
  fixes ht :: "'v hash_table"
  assumes inv: "ht_inv ht m" and rel: "reliable m"
    and load: "total ht \<le> 3 * unat (num_buckets ht)" and small: "27 * unat (num_buckets ht) < 2 ^ 32"
  shows "\<exists>ht' m'. ResizeHashtable ht m = Inr (ht', m') \<and> later m m' \<and> ht_inv ht' m' \<and>
     ht_map ht' = ht_map ht \<and> total ht' = total ht \<and>
     num_buckets ht' = (if total ht < 3 * unat (num_buckets ht) then num_buckets ht
                        else num_buckets ht * 9)"
proof -
  have ins: "insert_spec (InsertHashTable_body (Resize_fuel (total ht))) newht kv m'"
    if t: "ht_inv newht m'" "reliable m'" "total newht < total ht"
    for newht :: "'v hash_table" and kv m'
  proof -
    obtain n where n: "total ht = Suc n" using t(3) by (cases "total ht") auto
    show ?thesis unfolding n
      by (rule InsertHashTable_body_spec [OF Resize_fuel_spec [OF t(1,2)] t(2)])
        (use t(3) n in linarith)
  qed
  have room: "has_room ht \<longleftrightarrow> total ht < 3 * unat (num_buckets ht)"
    by (rule has_room_iff [OF inv]) (use load small in linarith)+
  have body: "ResizeHashtable ht m
      = ResizeHashtable_body (InsertHashTable_body (Resize_fuel (total ht))) ht m"
    by (simp add: ResizeHashtable_def)
  show ?thesis
    using ResizeHashtable_body_spec [OF inv rel ins] load small
    unfolding body room by (cases "total ht < 3 * unat (num_buckets ht)") auto
qed

end
