(* ===== verification/HashTableMap.thy ===== *)
theory HashTableMap
  imports HashTableResize
begin

text \<open>
  The contract of the hash table towards its customers: a finite map from 64-bit keys. The locale
  \<open>finite_map\<close> names the operations a customer calls and what it relies on; it is interpreted on
  the hash table of \<open>HashTable\<close>. The properties of the table as a whole are stated here.
\<close>

section \<open>Calls on a finite map\<close>

datatype 'v map_call = Lookup u64 | Insert u64 'v | Remove u64

text \<open>
  What a customer sees of a call: the result code and the pair that the call hands out. The first
  function performs calls on a table, the second one is the specification.
\<close>

type_synonym 'v map_answer = "int \<times> 'v HTKeyValue option"

primrec run_calls ::
  "('t \<Rightarrow> u64 \<Rightarrow> mem \<Rightarrow> (int \<times> 'v HTKeyValue option \<times> mem) res) \<Rightarrow>
   ('t \<Rightarrow> 'v HTKeyValue \<Rightarrow> mem \<Rightarrow> (int \<times> 'v HTKeyValue option \<times> 't \<times> mem) res) \<Rightarrow>
   ('t \<Rightarrow> u64 \<Rightarrow> mem \<Rightarrow> (int \<times> 'v HTKeyValue option \<times> 't \<times> mem) res) \<Rightarrow>
   'v map_call list \<Rightarrow> 't \<Rightarrow> mem \<Rightarrow> ('v map_answer list \<times> 't \<times> mem) res" where
  "run_calls lookup insert_kv remove [] t m = Inr ([], t, m)"
| "run_calls lookup insert_kv remove (c # cs) t m =
     andThen (case c of
         Lookup k \<Rightarrow> andThen (lookup t k m) (\<lambda>(r, kv, m). Inr (r, kv, t, m))
       | Insert k v \<Rightarrow> insert_kv t (kv_of k v) m
       | Remove k \<Rightarrow> remove t k m)
     (\<lambda>(r, kv, t, m). andThen (run_calls lookup insert_kv remove cs t m)
       (\<lambda>(as, t, m). Inr ((r, kv) # as, t, m)))"

fun spec_call :: "'v map_call \<Rightarrow> (u64 \<rightharpoonup> 'v) \<Rightarrow> 'v map_answer \<times> (u64 \<rightharpoonup> 'v)" where
  "spec_call (Lookup k) M =
     ((case M k of None \<Rightarrow> (0, None) | Some v \<Rightarrow> (1, Some (kv_of k v))), M)"
| "spec_call (Insert k v) M =
     ((case M k of None \<Rightarrow> (1, None) | Some old \<Rightarrow> (2, Some (kv_of k old))), M(k \<mapsto> v))"
| "spec_call (Remove k) M =
     ((case M k of None \<Rightarrow> (0, None) | Some v \<Rightarrow> (1, Some (kv_of k v))), M(k := None))"

primrec spec_calls :: "'v map_call list \<Rightarrow> (u64 \<rightharpoonup> 'v) \<Rightarrow> 'v map_answer list \<times> (u64 \<rightharpoonup> 'v)" where
  "spec_calls [] M = ([], M)"
| "spec_calls (c # cs) M =
     (case spec_call c M of (a, M) \<Rightarrow> case spec_calls cs M of (as, M) \<Rightarrow> (a # as, M))"

section \<open>The interface\<close>

locale finite_map =
  fixes inv :: "'t \<Rightarrow> mem \<Rightarrow> bool"
    and abs_map :: "'t \<Rightarrow> u64 \<rightharpoonup> 'v"
    and lookup :: "'t \<Rightarrow> u64 \<Rightarrow> mem \<Rightarrow> (int \<times> 'v HTKeyValue option \<times> mem) res"
    and insert_kv :: "'t \<Rightarrow> 'v HTKeyValue \<Rightarrow> mem \<Rightarrow> (int \<times> 'v HTKeyValue option \<times> 't \<times> mem) res"
    and remove :: "'t \<Rightarrow> u64 \<Rightarrow> mem \<Rightarrow> (int \<times> 'v HTKeyValue option \<times> 't \<times> mem) res"
  assumes inv_later: "inv t m \<Longrightarrow> later m m' \<Longrightarrow> inv t m'"
    and lookup_law: "inv t m \<Longrightarrow> reliable m \<Longrightarrow> \<exists>m'. later m m' \<and>
      lookup t k m = Inr (case abs_map t k of
        None \<Rightarrow> (0, None, m') | Some v \<Rightarrow> (1, Some (kv_of k v), m'))"
    and insert_law: "inv t m \<Longrightarrow> reliable m \<Longrightarrow> \<exists>t' m'. later m m' \<and> inv t' m' \<and>
      abs_map t' = (abs_map t)(kv_key kv \<mapsto> kv_value kv) \<and>
      insert_kv t kv m = Inr (case abs_map t (kv_key kv) of
        None \<Rightarrow> (1, None, t', m') | Some v \<Rightarrow> (2, Some (kv_of (kv_key kv) v), t', m'))"
    and remove_law: "inv t m \<Longrightarrow> reliable m \<Longrightarrow> \<exists>t' m'. later m m' \<and> inv t' m' \<and>
      abs_map t' = (abs_map t)(k := None) \<and>
      remove t k m = Inr (case abs_map t k of
        None \<Rightarrow> (0, None, t', m') | Some v \<Rightarrow> (1, Some (kv_of k v), t', m'))"
begin

text \<open>The laws as elimination rules, for the customers' proofs.\<close>

lemma lookupE:
  assumes "inv t m" "reliable m"
  obtains m' where "later m m'" "inv t m'" "reliable m'"
    "lookup t k m = Inr (case abs_map t k of
        None \<Rightarrow> (0, None, m') | Some v \<Rightarrow> (1, Some (kv_of k v), m'))"
  using lookup_law [OF assms, of k] assms inv_later later_reliable by blast

lemma insertE:
  assumes "inv t m" "reliable m"
  obtains t' m' where "later m m'" "inv t' m'" "reliable m'"
    "abs_map t' = (abs_map t)(kv_key kv \<mapsto> kv_value kv)"
    "insert_kv t kv m = Inr (case abs_map t (kv_key kv) of
        None \<Rightarrow> (1, None, t', m') | Some v \<Rightarrow> (2, Some (kv_of (kv_key kv) v), t', m'))"
  using insert_law [OF assms, of kv] assms later_reliable by blast

lemma insert_newE:
  assumes "inv t m" "reliable m" "abs_map t k = None"
  obtains t' m' where "later m m'" "inv t' m'" "reliable m'" "abs_map t' = (abs_map t)(k \<mapsto> v)"
    "insert_kv t (kv_of k v) m = Inr (1, None, t', m')"
  using insertE [OF assms(1,2), of "kv_of k v"] assms(3) by simp blast

lemma removeE:
  assumes "inv t m" "reliable m"
  obtains t' m' where "later m m'" "inv t' m'" "reliable m'"
    "abs_map t' = (abs_map t)(k := None)"
    "remove t k m = Inr (case abs_map t k of
        None \<Rightarrow> (0, None, t', m') | Some v \<Rightarrow> (1, Some (kv_of k v), t', m'))"
  using remove_law [OF assms, of k] assms later_reliable by blast

text \<open>Any sequence of calls gives the answers of the map.\<close>

lemma run_calls_spec:
  assumes "inv t m" "reliable m"
  shows "\<exists>t' m'. run_calls lookup insert_kv remove cs t m = Inr (fst (spec_calls cs (abs_map t)), t', m') \<and>
     inv t' m' \<and> later m m' \<and> abs_map t' = snd (spec_calls cs (abs_map t))"
  using assms
proof (induction cs arbitrary: t m)
  case (Cons c cs)
  let ?M = "snd (spec_call c (abs_map t))" and ?a = "fst (spec_call c (abs_map t))"
  have "\<exists>t' m'. (case c of
         Lookup k \<Rightarrow> andThen (lookup t k m) (\<lambda>(r, kv, m). Inr (r, kv, t, m))
       | Insert k v \<Rightarrow> insert_kv t (kv_of k v) m
       | Remove k \<Rightarrow> remove t k m) = Inr (fst ?a, snd ?a, t', m') \<and>
      inv t' m' \<and> reliable m' \<and> later m m' \<and> abs_map t' = ?M"
  proof (cases c)
    case (Lookup k)
    from Cons.prems obtain m' where "later m m'" "inv t m'" "reliable m'"
      "lookup t k m = Inr (case abs_map t k of
         None \<Rightarrow> (0, None, m') | Some v \<Rightarrow> (1, Some (kv_of k v), m'))"
      by (rule lookupE)
    then show ?thesis
      by (intro exI [of _ t] exI [of _ m']) (simp add: Lookup split: option.splits)
  next
    case (Insert k v)
    from Cons.prems obtain t' m' where "later m m'" "inv t' m'" "reliable m'"
      "abs_map t' = (abs_map t)(kv_key (kv_of k v) \<mapsto> kv_value (kv_of k v))"
      "insert_kv t (kv_of k v) m = Inr (case abs_map t (kv_key (kv_of k v)) of
         None \<Rightarrow> (1, None, t', m') | Some w \<Rightarrow> (2, Some (kv_of (kv_key (kv_of k v)) w), t', m'))"
      by (rule insertE)
    then show ?thesis
      by (intro exI [of _ t'] exI [of _ m']) (simp add: Insert split: option.splits)
  next
    case (Remove k)
    from Cons.prems obtain t' m' where "later m m'" "inv t' m'" "reliable m'"
      "abs_map t' = (abs_map t)(k := None)"
      "remove t k m = Inr (case abs_map t k of
         None \<Rightarrow> (0, None, t', m') | Some v \<Rightarrow> (1, Some (kv_of k v), t', m'))"
      by (rule removeE)
    then show ?thesis
      by (intro exI [of _ t'] exI [of _ m']) (simp add: Remove split: option.splits)
  qed
  then obtain t1 m1 where one: "(case c of
         Lookup k \<Rightarrow> andThen (lookup t k m) (\<lambda>(r, kv, m). Inr (r, kv, t, m))
       | Insert k v \<Rightarrow> insert_kv t (kv_of k v) m
       | Remove k \<Rightarrow> remove t k m) = Inr (fst ?a, snd ?a, t1, m1)"
    "inv t1 m1" "reliable m1" "later m m1" "abs_map t1 = ?M"
    by blast
  from Cons.IH [OF one(2,3)] obtain t2 m2 where
    "run_calls lookup insert_kv remove cs t1 m1 = Inr (fst (spec_calls cs ?M), t2, m2)"
    "inv t2 m2" "later m1 m2" "abs_map t2 = snd (spec_calls cs ?M)"
    using one(5) by auto
  then show ?case
    using one later_trans [of m m1 m2]
    by (simp only: run_calls.simps one(1)) (simp add: case_prod_beta)
qed simp

text \<open>A key that was inserted is found with its value, whatever happens to other keys.\<close>

lemma lookup_after_insert:
  assumes "inv t m" "reliable m" "insert_kv t kv m = Inr (r, old, t', m')"
    and "inv t'' m''" "reliable m''" "abs_map t'' (kv_key kv) = abs_map t' (kv_key kv)"
  shows "\<exists>m3. lookup t'' (kv_key kv) m'' = Inr (1, Some kv, m3)"
proof -
  from assms(1,2) obtain t1 m1 where i: "abs_map t1 = (abs_map t)(kv_key kv \<mapsto> kv_value kv)"
    "insert_kv t kv m = Inr (case abs_map t (kv_key kv) of
        None \<Rightarrow> (1, None, t1, m1) | Some v \<Rightarrow> (2, Some (kv_of (kv_key kv) v), t1, m1))"
    by (rule insertE [where kv = kv])
  with assms(3) have "t1 = t'" by (auto split: option.splits)
  with i(1) assms(6) have "abs_map t'' (kv_key kv) = Some (kv_value kv)" by simp
  with lookup_law [OF assms(4,5), of "kv_key kv"] show ?thesis by auto
qed

end

interpretation ht: finite_map ht_inv ht_map LookupHashTable InsertHashTable RemoveFromHashTable
proof unfold_locales
  fix t :: "'v hash_table" and m m' :: mem and k :: u64 and kv :: "'v HTKeyValue"
  show "ht_inv t m \<Longrightarrow> later m m' \<Longrightarrow> ht_inv t m'" by (rule ht_inv_later)
  assume inv: "ht_inv t m" and rel: "reliable m"
  show "\<exists>m'. later m m' \<and> LookupHashTable t k m = Inr (case ht_map t k of
      None \<Rightarrow> (0, None, m') | Some v \<Rightarrow> (1, Some (kv_of k v), m'))"
    using LookupHashTable_map [OF inv rel, of k] by blast
  show "\<exists>t' m'. later m m' \<and> ht_inv t' m' \<and> ht_map t' = (ht_map t)(kv_key kv \<mapsto> kv_value kv) \<and>
      InsertHashTable t kv m = Inr (case ht_map t (kv_key kv) of
        None \<Rightarrow> (1, None, t', m') | Some v \<Rightarrow> (2, Some (kv_of (kv_key kv) v), t', m'))"
    using InsertHashTable_spec [OF inv rel, of kv] unfolding insert_spec_def by blast
  show "\<exists>t' m'. later m m' \<and> ht_inv t' m' \<and> ht_map t' = (ht_map t)(k := None) \<and>
      RemoveFromHashTable t k m = Inr (case ht_map t k of
        None \<Rightarrow> (0, None, t', m') | Some v \<Rightarrow> (1, Some (kv_of k v), t', m'))"
  proof (cases "ht_map t k")
    case None
    with RemoveFromHashTable_map [OF inv rel, of k] obtain m' where
      "later m m'" "RemoveFromHashTable t k m = Inr (0, None, t, m')" by auto
    moreover from this(1) inv have "ht_inv t m'" by (simp add: ht_inv_later)
    moreover have "ht_map t = (ht_map t)(k := None)" using None by auto
    ultimately show ?thesis using None by auto
  next
    case (Some v)
    with RemoveFromHashTable_map [OF inv rel, of k] show ?thesis by auto
  qed
qed

end
