(* ===== verification/HashTableProps.thy ===== *)
theory HashTableProps
  imports HashTableMap
begin

text \<open>
  The properties of the hash table: it is a finite map under every sequence of calls, its load
  factor stays bounded, a traversal visits every pair once, deleting through an iterator drains
  it, freeing hands out every value once, and what is lost when \<^verbatim>\<open>malloc\<close> fails.
\<close>

lemma total_card:
  assumes "ht_inv ht m"
  shows "total ht = card (dom (ht_map ht))"
proof -
  have "dom (ht_map ht) = kv_key ` set (ht_items ht)"
    by (simp add: ht_map_def dom_map_of_conv_image_fst image_image)
  then have "card (dom (ht_map ht)) = card (set (map kv_key (ht_items ht)))" by simp
  also have "\<dots> = length (map kv_key (ht_items ht))"
    using ht_invD(7) [OF assms] by (rule distinct_card)
  finally show ?thesis by (simp add: ht_items_def total_def)
qed

lemma NumElements_card:
  assumes "ht_inv ht m"
  shows "NumElementsInHashTable ht = of_nat (card (dom (ht_map ht)))"
  by (simp add: NumElementsInHashTable_def ht_invD(3) [OF assms] total_card [OF assms])

text \<open>A small table for the witnesses: two buckets, the keys 10, 7 and 4.\<close>

definition demo_table :: "string hash_table" where
  "demo_table =
     \<lparr>num_buckets = 2, ht_num_elements = 3, buckets = [[(7, 6), (3, 2)], [(5, 4)]],
      kvs = [2 \<mapsto> kv_of 10 ''ten'', 4 \<mapsto> kv_of 7 ''seven'', 6 \<mapsto> kv_of 4 ''four'']\<rparr>"

definition demo_mem :: mem where
  "demo_mem = mem_at 7 (\<lambda>_. False)"

lemma demo_reliable: "reliable demo_mem"
  by (simp add: reliable_def demo_mem_def)

lemma demo_inv: "ht_inv demo_table (mem_at 7 f)"
  by (simp add: ht_inv_def demo_table_def demo_mem_def total_def ht_items_def bucket_of_def
      unat_numeral insert_commute)

lemma demo_inv': "ht_inv demo_table demo_mem"
  unfolding demo_mem_def by (rule demo_inv)

lemma demo_total: "total demo_table = 3"
  by (simp add: demo_table_def total_def)

lemma demo_map: "ht_map demo_table = [10 \<mapsto> ''ten'', 7 \<mapsto> ''seven'', 4 \<mapsto> ''four'']"
  by (auto simp: demo_table_def ht_map_def ht_items_def fun_eq_iff)

section \<open>The finite map\<close>

text \<open>
  C15: From its allocation on, whatever lookups, insertions and removals are performed and however
  the table resizes itself on the way, every call returns the code and the pair that a finite map
  gives, the table stands for that map at the end, and the element count is its size, as long as
  memory does not run out.
\<close>

theorem HashTable_is_finite_map:
  assumes "reliable m" "nb \<noteq> 0"
  shows "\<exists>t m0 t' m'. AllocateHashTable nb m = (Some t, m0) \<and>
     run_calls LookupHashTable InsertHashTable RemoveFromHashTable cs t m0
       = Inr (fst (spec_calls cs Map.empty), t', m') \<and>
     ht_inv t' m' \<and> ht_map t' = snd (spec_calls cs Map.empty) \<and>
     NumElementsInHashTable t' = of_nat (card (dom (snd (spec_calls cs Map.empty))))"
proof -
  let ?m = "m\<lparr>clock := Suc (Suc (clock m)) + unat nb\<rparr>"
  have "reliable ?m" using assms(1) by simp
  from ht.run_calls_spec [OF empty_table_inv [OF assms(2)] this, of cs]
  obtain t' m' where "run_calls LookupHashTable InsertHashTable RemoveFromHashTable cs
      (empty_table nb) ?m = Inr (fst (spec_calls cs Map.empty), t', m')"
    "ht_inv t' m'" "ht_map t' = snd (spec_calls cs Map.empty)"
    by auto
  with NumElements_card [of t' m'] AllocateHashTable_reliable [OF assms] show ?thesis
    by (intro exI [of _ "empty_table nb"] exI [of _ ?m] exI [of _ t'] exI [of _ m']) simp
qed

lemma HashTable_is_finite_map_witness:
  "\<exists>t m0 t' m'. AllocateHashTable 1 fresh_mem = (Some t, m0) \<and>
     run_calls LookupHashTable InsertHashTable RemoveFromHashTable
       [Insert 1 ''a'', Insert 2 ''b'', Insert 1 ''c'', Insert 3 ''d'', Insert 4 ''e'',
        Lookup 1, Remove 2, Lookup 2] t m0
       = Inr ([(1, None), (1, None), (2, Some (kv_of 1 ''a'')), (1, None), (1, None),
               (1, Some (kv_of 1 ''c'')), (1, Some (kv_of 2 ''b'')), (0, None)], t', m')"
  using HashTable_is_finite_map [of fresh_mem 1 "[Insert 1 ''a'', Insert 2 ''b'', Insert 1 ''c'',
      Insert 3 ''d'', Insert 4 ''e'', Lookup 1, Remove 2, Lookup 2]"]
  by simp blast

text \<open>How an insertion changes the number of elements and of buckets.\<close>

lemma InsertHashTable_growth:
  assumes "ht_inv ht m" "reliable m"
    and "total ht \<le> 3 * unat (num_buckets ht)" "27 * unat (num_buckets ht) < 2 ^ 32"
  shows "\<exists>r old ht' m'. InsertHashTable ht kv m = Inr (r, old, ht', m') \<and>
     total ht' = (case ht_map ht (kv_key kv) of None \<Rightarrow> Suc (total ht) | Some _ \<Rightarrow> total ht) \<and>
     total ht' \<le> 3 * unat (num_buckets ht') \<and>
     num_buckets ht' = (if total ht < 3 * unat (num_buckets ht) then num_buckets ht
                        else num_buckets ht * 9)"
proof -
  from ResizeHashtable_growth [OF assms] obtain ht1 m1 where
    r: "ResizeHashtable ht m = Inr (ht1, m1)" "later m m1" "ht_inv ht1 m1" "total ht1 = total ht" "ht_map ht1 = ht_map ht"
    and nb: "num_buckets ht1 = (if total ht < 3 * unat (num_buckets ht) then num_buckets ht
                        else num_buckets ht * 9)" by blast
  have rel: "reliable m1" using r(2) assms(2) by (rule later_reliable)
  from InsertHashTable_body_done [where resize = ResizeHashtable, OF r(1,3) rel, of kv]
  obtain ht' m' where i: "InsertHashTable ht kv m = Inr (case ht_map ht1 (kv_key kv) of
        None \<Rightarrow> (1, None, ht', m') | Some v \<Rightarrow> (2, Some (kv_of (kv_key kv) v), ht', m'))"
    "total ht' = (case ht_map ht1 (kv_key kv) of None \<Rightarrow> Suc (total ht1) | Some _ \<Rightarrow> total ht1)"
    "num_buckets ht' = num_buckets ht1"
    unfolding InsertHashTable_def by blast
  have "0 < unat (num_buckets ht)" using ht_invD(1) [OF assms(1)] by (simp add: unat_gt_0)
  moreover have "unat (num_buckets ht * 9) = unat (num_buckets ht) * 9"
    using assms(4) by (simp add: unat_mult_lem [THEN iffD1])
  ultimately have "Suc (total ht) \<le> 3 * unat (num_buckets ht1)"
    using nb assms(3) by simp
  then have "total ht' \<le> 3 * unat (num_buckets ht')"
    using i(2,3) r(4) by (simp split: option.splits)
  then show ?thesis using i nb r(4,5) by (auto split: option.splits)
qed

text \<open>
  The number of buckets of a table that started with \<open>b\<close> buckets and only grew by insertions, as long
  as it holds fewer than \<open>2 ^ 24\<close> elements.
\<close>

definition sized :: "nat \<Rightarrow> 'v hash_table \<Rightarrow> bool" where
  "sized b ht \<longleftrightarrow> (total ht < 2 ^ 24 \<longrightarrow>
     total ht \<le> 3 * unat (num_buckets ht) \<and> unat (num_buckets ht) \<le> b + 3 * total ht)"

lemma sized_empty_table [simp]: "unat nb \<le> b \<Longrightarrow> sized b (empty_table nb)"
  by (simp add: sized_def)

lemma InsertHashTable_sized:
  assumes inv: "ht_inv ht m" and rel: "reliable m" and size: "sized b ht" and b: "b < 2 ^ 24"
    and i: "InsertHashTable ht kv m = Inr (r, old, ht', m')"
  shows "sized b ht'"
proof (cases "total ht' < 2 ^ 24")
  case True
  have "total ht \<le> total ht'"
    using InsertHashTable_spec [OF inv rel, of kv] i unfolding insert_spec_def
    by (auto split: option.splits)
  then have tot: "total ht < 2 ^ 24" using True by simp
  then have s: "total ht \<le> 3 * unat (num_buckets ht)" "unat (num_buckets ht) \<le> b + 3 * total ht"
    using size by (simp_all add: sized_def)
  then have nb: "27 * unat (num_buckets ht) < 2 ^ 32" using tot b by simp
  have "unat (num_buckets ht * 9) = unat (num_buckets ht) * 9"
    using nb by (simp add: unat_mult_lem [THEN iffD1])
  then show ?thesis
    using InsertHashTable_growth [OF inv rel s(1) nb, of kv] i s(2)
    by (auto simp: sized_def split: option.splits if_splits)
qed (simp add: sized_def)

text \<open>
  C24: The load factor never exceeds three elements per bucket: an insertion into a table with at
  most three elements per bucket keeps this bound, multiplying the buckets by nine exactly when
  the table was full (as long as the bucket count is far enough from its 32-bit width and memory
  does not run out).
\<close>

theorem InsertHashTable_load_factor:
  assumes "ht_inv ht m" "reliable m"
    and "total ht \<le> 3 * unat (num_buckets ht)" "27 * unat (num_buckets ht) < 2 ^ 32"
  shows "\<exists>r old ht' m'. InsertHashTable ht kv m = Inr (r, old, ht', m') \<and>
     total ht' \<le> 3 * unat (num_buckets ht') \<and>
     num_buckets ht' = (if total ht < 3 * unat (num_buckets ht) then num_buckets ht
                        else num_buckets ht * 9)"
  using InsertHashTable_growth [OF assms, of kv] by blast

lemma InsertHashTable_load_factor_witness:
  "\<exists>r old ht' m'. InsertHashTable demo_table (kv_of 5 ''five'') demo_mem = Inr (r, old, ht', m') \<and>
     total ht' \<le> 3 * unat (num_buckets ht') \<and> num_buckets ht' = 2"
proof -
  have nb: "num_buckets demo_table = 2" by (simp add: demo_table_def)
  show ?thesis
    using InsertHashTable_load_factor [OF demo_inv' demo_reliable,
        where kv = "kv_of 5 ''five''"]
    by (simp add: demo_total nb unat_numeral)
qed

section \<open>Traversing, draining and freeing\<close>

text \<open>The traversal loop of the customers: read the current pair, advance, until past the end.\<close>

primrec visited :: "nat \<Rightarrow> 'v hash_table \<Rightarrow> ht_iter \<Rightarrow> mem \<Rightarrow> 'v HTKeyValue list res" where
  "visited 0 ht it m = Inl OutOfFuel"
| "visited (Suc n) ht it m =
     (if HTIteratorPastEnd it then Inr []
      else andThen (HTIteratorGet ht it) (\<lambda>res.
        case res of None \<Rightarrow> Inl VerificationFailure
        | Some kv \<Rightarrow> andThen (HTIteratorNext ht it m) (\<lambda>(_, it, m).
            andThen (visited n ht it m) (\<lambda>kvs. Inr (kv # kvs)))))"

lemma visited_items:
  assumes "ht_inv ht m0" "it_ok ht it" "reliable m" "length (it_items ht it) < n"
  shows "visited n ht it m = Inr (it_items ht it)"
  using assms(2-4)
proof (induction n arbitrary: it m)
  case (Suc n)
  show ?case
  proof (cases "it_items ht it")
    case Nil
    then show ?thesis using PastEnd_iff [OF assms(1) Suc.prems(1)] by simp
  next
    case (Cons kv rest)
    have v: "\<not> HTIteratorPastEnd it" "HTIteratorGet ht it = Inr (Some kv)"
      using PastEnd_iff [OF assms(1) Suc.prems(1)] HTIteratorGet_ok [OF assms(1) Suc.prems(1)] Cons
      by simp_all
    obtain it2 m2 where x: "HTIteratorNext ht it m
        = Inr (if tl (it_items ht it) = [] then 0 else 1, it2, m2)"
      "later m m2" "it_ok ht it2" "it_items ht it2 = rest"
      using HTIteratorNext_ok [OF assms(1) Suc.prems(1) _ Suc.prems(2)] Cons by auto
    have "visited n ht it2 m2 = Inr rest"
      using Suc.IH [OF x(3) later_reliable [OF x(2) Suc.prems(2)]] Suc.prems(3) Cons x(4) by simp
    with v x(1) Cons show ?thesis by simp
  qed
qed simp

lemma make_iterator_any:
  assumes "ht_inv ht m" "reliable m" "total ht < 2 ^ 32"
  obtains it m' where "HashTableMakeIterator ht m = Inr (Some it, m')" "later m m'" "ht_inv ht m'"
    "reliable m'" "it_ok ht it" "it_items ht it = ht_items ht"
proof -
  have n0: "ht_num_elements ht = 0 \<longleftrightarrow> total ht = 0"
    using ht_invD(3) [OF assms(1)] assms(3) by (simp add: of_nat_u32_eq_0_iff)
  obtain it m' where i: "HashTableMakeIterator ht m = Inr (Some it, m')" "later m m'"
    "it_ok ht it" "it_items ht it = ht_items ht"
    using HashTableMakeIterator_ok [OF assms(2) n0] .
  with that ht_inv_later [OF assms(1) i(2)] later_reliable [OF i(2) assms(2)] show thesis
    by blast
qed

text \<open>
  A traversal of the table with an iterator ends, visits every pair exactly once and nothing
  else: the pairs seen have distinct keys and are exactly the entries of the map.
\<close>

theorem HashTable_traversal:
  assumes "ht_inv ht m" "reliable m" "total ht < 2 ^ 32"
  shows "\<exists>it m' kvs. HashTableMakeIterator ht m = Inr (Some it, m') \<and>
     visited (Suc (total ht)) ht it m' = Inr kvs \<and>
     distinct (map kv_key kvs) \<and> map_of (map pair_of kvs) = ht_map ht \<and>
     length kvs = card (dom (ht_map ht))"
proof -
  obtain it m' where i: "HashTableMakeIterator ht m = Inr (Some it, m')" "later m m'" "ht_inv ht m'"
    "reliable m'" "it_ok ht it" "it_items ht it = ht_items ht"
    using make_iterator_any [OF assms] .
  have "length (ht_items ht) = total ht" by (simp add: ht_items_def total_def)
  then have "visited (Suc (total ht)) ht it m' = Inr (ht_items ht)"
    using visited_items [OF assms(1) i(5,4), of "Suc (total ht)"] i(6) by simp
  moreover have "length (ht_items ht) = card (dom (ht_map ht))"
    using total_card [OF assms(1)] by (simp add: ht_items_def total_def)
  ultimately show ?thesis
    using i(1) ht_invD(7) [OF assms(1)] by (auto simp: ht_map_def)
qed

lemma HashTable_traversal_witness:
  "\<exists>it m' kvs. HashTableMakeIterator demo_table demo_mem = Inr (Some it, m') \<and>
     visited 4 demo_table it m' = Inr kvs \<and> distinct (map kv_key kvs) \<and>
     map_of (map pair_of kvs) = [10 \<mapsto> ''ten'', 7 \<mapsto> ''seven'', 4 \<mapsto> ''four'']"
proof -
  have "total demo_table < 2 ^ 32" "Suc (total demo_table) = 4" by (simp_all add: demo_total)
  with HashTable_traversal [OF demo_inv' demo_reliable] show ?thesis
    by (metis demo_map)
qed

text \<open>Deleting through the iterator until it is past the end.\<close>

primrec drained :: "nat \<Rightarrow> 'v hash_table \<Rightarrow> ht_iter \<Rightarrow> mem
    \<Rightarrow> ((int \<times> 'v HTKeyValue option) list \<times> 'v hash_table) res" where
  "drained 0 ht it m = Inl OutOfFuel"
| "drained (Suc n) ht it m =
     (if HTIteratorPastEnd it then Inr ([], ht)
      else andThen (HTIteratorDelete ht it m) (\<lambda>(r, kv, ht, it, m).
        andThen (drained n ht it m) (\<lambda>(rs, ht). Inr ((r, kv) # rs, ht))))"

text \<open>The result codes of a drain: 1 for every pair, 2 for the last one.\<close>

fun drain_answers :: "'v HTKeyValue list \<Rightarrow> (int \<times> 'v HTKeyValue option) list" where
  "drain_answers [] = []"
| "drain_answers (kv # rest) = (if rest = [] then 2 else 1, Some kv) # drain_answers rest"

lemma drained_items:
  assumes "ht_inv ht m" "it_ok ht it" "reliable m" "length (it_items ht it) < n"
    and "distinct (map kv_key (it_items ht it))"
    and "ht_map ht = map_of (map pair_of (it_items ht it))"
    and "total ht = length (it_items ht it)"
  shows "\<exists>ht' m'. drained n ht it m = Inr (drain_answers (it_items ht it), ht') \<and>
     ht_inv ht' m' \<and> total ht' = 0 \<and> ht_map ht' = Map.empty"
  using assms
proof (induction n arbitrary: ht it m)
  case (Suc n)
  show ?case
  proof (cases "it_items ht it")
    case Nil
    then show ?thesis using PastEnd_iff [OF Suc.prems(1,2)] Suc.prems(1,6,7) by auto
  next
    case (Cons kv rest)
    have v: "\<not> HTIteratorPastEnd it"
      using PastEnd_iff [OF Suc.prems(1,2)] Cons by simp
    have "ht_map ht (kv_key kv) = Some (kv_value kv)"
      using Suc.prems(6) Cons by (simp add: pair_of_def)
    then have mem: "kv \<in> set (ht_items ht)"
      unfolding ht_map_Some_iff [OF Suc.prems(1)] by (metis kv_of_eq)
    obtain ht1 it1 m1 where d: "HTIteratorDelete ht it m
        = Inr (if rest = [] then 2 else 1, Some kv, ht1, it1, m1)" "later m m1" "ht_inv ht1 m1"
      "ht_map ht1 = (ht_map ht)(kv_key kv := None)" "total ht = Suc (total ht1)"
      "it_ok ht1 it1" "it_items ht1 it1 = rest"
      using HTIteratorDelete_step [OF Suc.prems(1,3,2) Cons Suc.prems(5) [unfolded Cons] mem] by blast
    have "kv_key kv \<notin> kv_key ` set rest" using Suc.prems(5) Cons by simp
    then have "map_of (map pair_of rest) (kv_key kv) = None"
      by (simp only: map_of_pairs_None simp_thms)
    then have M: "ht_map ht1 = map_of (map pair_of rest)"
      using d(4) Suc.prems(6) Cons by (auto simp: fun_eq_iff pair_of_def [of kv])
    have "\<exists>ht' m'. drained n ht1 it1 m1 = Inr (drain_answers (it_items ht1 it1), ht') \<and>
       ht_inv ht' m' \<and> total ht' = 0 \<and> ht_map ht' = Map.empty"
      by (rule Suc.IH [OF d(3,6) later_reliable [OF d(2) Suc.prems(3)]])
        (use Suc.prems(4,5,7) Cons d(5,7) M in auto)
    with v d(1,7) Cons show ?thesis by auto
  qed
qed simp

text \<open>
  Deleting through an iterator drains the table: each deletion hands out the pair the iterator
  stands on and moves on, the pairs come out once each, only the last deletion returns 2, and the
  table is empty at the end.
\<close>

theorem HTIteratorDelete_drains:
  assumes "ht_inv ht m" "reliable m" "total ht < 2 ^ 32"
  shows "\<exists>it m' kvs ht' m''. HashTableMakeIterator ht m = Inr (Some it, m') \<and>
     drained (Suc (total ht)) ht it m' = Inr (drain_answers kvs, ht') \<and>
     distinct (map kv_key kvs) \<and> map_of (map pair_of kvs) = ht_map ht \<and>
     ht_inv ht' m'' \<and> NumElementsInHashTable ht' = 0 \<and> ht_map ht' = Map.empty"
proof -
  obtain it m' where i: "HashTableMakeIterator ht m = Inr (Some it, m')" "later m m'" "ht_inv ht m'"
    "reliable m'" "it_ok ht it" "it_items ht it = ht_items ht"
    using make_iterator_any [OF assms] .
  have len: "length (it_items ht it) = total ht" by (simp add: i(6) ht_items_def total_def)
  have "\<exists>ht' m''. drained (Suc (total ht)) ht it m' = Inr (drain_answers (it_items ht it), ht') \<and>
     ht_inv ht' m'' \<and> total ht' = 0 \<and> ht_map ht' = Map.empty"
    by (rule drained_items [OF i(3,5,4)])
      (use len i(6) ht_invD(7) [OF assms(1)] in \<open>simp_all add: ht_map_def\<close>)
  then obtain ht' m'' where "drained (Suc (total ht)) ht it m' = Inr (drain_answers (ht_items ht), ht')"
    "ht_inv ht' m''" "total ht' = 0" "ht_map ht' = Map.empty" unfolding i(6) by blast
  moreover from this have "NumElementsInHashTable ht' = 0"
    by (simp add: NumElementsInHashTable_def ht_invD(3))
  ultimately show ?thesis
    using i(1) ht_invD(7) [OF assms(1)] ht_map_def [of ht] by metis
qed

lemma HTIteratorDelete_drains_witness:
  "\<exists>it m' kvs ht'. HashTableMakeIterator demo_table demo_mem = Inr (Some it, m') \<and>
     drained 4 demo_table it m' = Inr (drain_answers kvs, ht') \<and> distinct (map kv_key kvs) \<and>
     map_of (map pair_of kvs) = ht_map demo_table \<and> ht_map ht' = Map.empty"
proof -
  have "total demo_table < 2 ^ 32" "Suc (total demo_table) = 4" by (simp_all add: demo_total)
  with HTIteratorDelete_drains [OF demo_inv' demo_reliable] show ?thesis
    by metis
qed

text \<open>
  Freeing a table hands the value of every entry to the free function exactly once, in the
  order of the chains, and leaves none of the table's boxes allocated.
\<close>

theorem FreeHashTable_frees_all:
  assumes "ht_inv ht m"
  shows "\<exists>kvs. FreeHashTable value_free_function ht w
       = Inr (Map.empty, fold (\<lambda>kv. value_free_function (kv_value kv)) kvs w) \<and>
     distinct (map kv_key kvs) \<and> map_of (map pair_of kvs) = ht_map ht"
  using FreeHashTable_ok [OF assms, of value_free_function w] ht_invD(7) [OF assms]
  by (auto simp: ht_map_def)

lemma FreeHashTable_frees_all_witness:
  "\<exists>kvs. FreeHashTable (#) demo_table [] = Inr (Map.empty, fold (\<lambda>kv. (#) (kv_value kv)) kvs []) \<and>
     distinct (map kv_key kvs) \<and> map_of (map pair_of kvs) = ht_map demo_table"
  using FreeHashTable_frees_all [OF demo_inv', of "(#)" "[]"] .

section \<open>When memory runs out\<close>

text \<open>The bucket of a key.\<close>

lemma bucket_of_split:
  assumes "ht_inv ht m" and "chain = buckets ht ! bucket_of (num_buckets ht) key"
  obtains pre post where "buckets ht = pre @ chain # post"
    "length pre = bucket_of (num_buckets ht) key" "unat (HashKeyToBucketNum ht key) = length pre"
proof -
  obtain pre c post where s: "buckets ht = pre @ c # post"
    "length pre = bucket_of (num_buckets ht) key" "unat (HashKeyToBucketNum ht key) = length pre"
    using bucket_splitE [OF assms(1)] by blast
  then have "c = chain" using assms(2) by (simp add: s(2) [symmetric])
  with s show thesis using that by blast
qed

text \<open>
  C26: When there is no memory for the iterator of the search, a lookup of a key that is in the
  table answers 0, the code for an absent key, and not the error code of the interface.
\<close>

theorem LookupHashTable_out_of_memory:
  assumes "ht_inv ht m" "ht_map ht key = Some v" "oom m (clock m)"
  shows "\<exists>m'. LookupHashTable ht key m = Inr (0, None, m')"
proof -
  obtain pre chain post where s: "buckets ht = pre @ chain # post"
    "length pre = bucket_of (num_buckets ht) key" "unat (HashKeyToBucketNum ht key) = length pre"
    using bucket_splitE [OF assms(1)] by blast
  have "chain \<noteq> []"
    using find_in_bucket [OF assms(1) s(1,2)] assms(2) by (cases chain) auto
  then have "LookupChain chain (kvs ht) key False m
      = Inr (0, NULL, chain, m\<lparr>clock := Suc (clock m), errno := ENOMEM\<rparr>)"
    using assms(3) by (rule LookupChain_oom)
  with s(1,3) show ?thesis by (simp add: LookupHashTable_def)
qed

lemma LookupHashTable_out_of_memory_witness:
  "\<exists>m'. LookupHashTable demo_table 7 (mem_at 7 (\<lambda>n. n = 7)) = Inr (0, None, m')"
  using LookupHashTable_out_of_memory [OF demo_inv [of "\<lambda>n. n = 7"], of 7 "''seven''"]
  by (simp add: demo_map)

text \<open>
  C27: When the list node of a new pair cannot be allocated, \<^verbatim>\<open>InsertHashTable\<close> still returns 1 and
  counts the element, but the table stands for the same map as before: the pair is lost, and its
  box stays allocated without any chain that reaches it.
\<close>

theorem InsertHashTable_loses_pair:
  assumes "ht_inv ht m" "has_room ht" "ht_map ht (kv_key kv) = None"
    and "chain = buckets ht ! bucket_of (num_buckets ht) (kv_key kv)"
    and "\<And>n. oom m n \<longleftrightarrow> n = clock m + (if chain = [] then 1 else 2)"
  shows "\<exists>ht' m' p. InsertHashTable ht kv m = Inr (1, None, ht', m') \<and>
     NumElementsInHashTable ht' = NumElementsInHashTable ht + 1 \<and> ht_map ht' = ht_map ht \<and>
     kvs ht' p = Some kv \<and> p \<notin> snd ` set (concat (buckets ht'))"
proof -
  obtain pre post where s: "buckets ht = pre @ chain # post"
    "length pre = bucket_of (num_buckets ht) (kv_key kv)"
    "unat (HashKeyToBucketNum ht (kv_key kv)) = length pre"
    using bucket_of_split [OF assms(1,4)] .
  have ok: "chain_ok (kvs ht) chain" using ht_inv_chain_ok [OF assms(1)] s(1) by simp
  have none: "find (has_key (kvs ht) (kv_key kv)) chain = None"
    using find_in_bucket [OF assms(1) s(1,2)] assms(3) by (auto split: option.splits)
  let ?m = "after_lookup chain m"
  have L: "LookupChain chain (kvs ht) (kv_key kv) False m = Inr (0, NULL, chain, ?m)"
    using LookupChain_eq [OF ok, of m "kv_key kv" False] none assms(5) by simp
  let ?p = "Suc (clock ?m)"
  let ?ht = "ht\<lparr>kvs := (kvs ht)(?p \<mapsto> kv), ht_num_elements := ht_num_elements ht + 1\<rparr>"
  have m1: "malloc ?m = (?p, ?m\<lparr>clock := ?p\<rparr>)"
    using assms(5) by (simp add: malloc_def after_lookup_def)
  have m2: "cl_push ?p chain (?m\<lparr>clock := ?p\<rparr>) = (False, chain, ?m\<lparr>clock := Suc ?p, errno := ENOMEM\<rparr>)"
    using assms(5) by (simp add: cl_push_def malloc_def after_lookup_def)
  have upd: "(buckets ht)[length pre := chain] = buckets ht" using s(1) by simp
  have "ResizeHashtable ht m = Inr (ht, m)"
    using assms(2) by (simp add: ResizeHashtable_def ResizeHashtable_body_def has_room_def)
  with L m1 m2 s(1,3) upd have "InsertHashTable ht kv m = Inr (1, None, ?ht, ?m\<lparr>clock := Suc ?p, errno := ENOMEM\<rparr>)"
    by (simp add: InsertHashTable_def InsertHashTable_body_def)
  moreover have fresh: "?p \<notin> snd ` set (concat (buckets ht))"
  proof
    assume "?p \<in> snd ` set (concat (buckets ht))"
    then have "?p \<le> clock m"
      using assms(1) ht_invD(5) [OF assms(1)] unfolding ht_inv_def by blast
    then show False by (simp add: after_lookup_def split: if_splits)
  qed
  moreover have "ht_map ?ht = ht_map ht"
    by (simp add: ht_map_def ht_items_def items_of_upd [OF fresh])
  ultimately show ?thesis
    by (intro exI [of _ ?ht] exI [of _ "?m\<lparr>clock := Suc ?p, errno := ENOMEM\<rparr>"] exI [of _ ?p])
      (simp add: NumElementsInHashTable_def)
qed

lemma InsertHashTable_loses_pair_witness:
  "\<exists>ht' m' p. InsertHashTable demo_table (kv_of 5 ''five'') (mem_at 7 (\<lambda>n. n = 9))
       = Inr (1, None, ht', m') \<and> ht_map ht' = ht_map demo_table \<and>
     kvs ht' p = Some (kv_of 5 ''five'') \<and> p \<notin> snd ` set (concat (buckets ht'))"
proof -
  have c: "[(5, 4)] = buckets demo_table ! bucket_of (num_buckets demo_table) (kv_key (kv_of 5 ''five''))"
    by (simp add: demo_table_def bucket_of_def unat_numeral)
  have "has_room demo_table" by (simp add: has_room_def demo_table_def)
  moreover have "ht_map demo_table (kv_key (kv_of 5 ''five'')) = None" by (simp add: demo_map)
  ultimately show ?thesis
    using InsertHashTable_loses_pair [OF demo_inv [of "\<lambda>n. n = 9"] _ _ c] by auto
qed

end
