(* ===== verification/HashTableExample.thy ===== *)
theory HashTableExample
  imports HashTableProps Fnv
begin

text \<open>
  The example program of the hash table, \<^verbatim>\<open>hw1/example_program_ht.c\<close>: a customer that fills a table with
  20000 values of its own, looks some of them up, removes one, goes through the table with an iterator
  and frees everything, checking after each step. The values are pointers to integers, which are kept in
  a store \<open>vals\<close>. Freeing the iterator is left out: iterators are values in the model of the table.
\<close>

section \<open>The program\<close>

type_synonym example_values = "ptr \<rightharpoonup> int"

text \<open>\<^verbatim>\<open>free\<close> of a value; freeing what is not allocated is undefined.\<close>

definition ExampleValueFree :: "ptr \<Rightarrow> example_values \<Rightarrow> example_values res" where
  "ExampleValueFree v vals = Verify333 (v \<noteq> NULL) (load vals v (\<lambda>_. Inr (vals(v := None))))"

text \<open>The loop that inserts the numbers of the list.\<close>

primrec insert_values ::
  "nat list \<Rightarrow> ptr hash_table \<Rightarrow> example_values \<Rightarrow> mem \<Rightarrow> (ptr hash_table \<times> example_values \<times> mem) res" where
  "insert_values [] ht vals m = Inr (ht, vals, m)"
| "insert_values (i # is) ht vals m =
     (case malloc m of (evp, m) \<Rightarrow>
        Verify333 (evp \<noteq> NULL)
          (let vals = vals(evp \<mapsto> int i) in
           Verify333 (NumElementsInHashTable ht = of_nat i)
             (andThen (InsertHashTable ht (kv_of (FNVHashInt64 (of_nat i)) evp) m) (\<lambda>(r, old_kv, ht, m).
                Verify333 (r = 1)
                  (Verify333 (NumElementsInHashTable ht = of_nat (i + 1)) (insert_values is ht vals m))))))"

text \<open>The checks of a pair that a lookup or a removal hands out, and a lookup that must find nothing.\<close>

definition check_pair :: "int \<Rightarrow> ptr HTKeyValue option \<Rightarrow> nat \<Rightarrow> example_values \<Rightarrow> (ptr \<Rightarrow> 'a res) \<Rightarrow> 'a res" where
  "check_pair r kv i vals k =
     Verify333 (r = 1)
       (case kv of
          None \<Rightarrow> Inl MemFault
        | Some kv \<Rightarrow>
            Verify333 (kv_key kv = FNVHashInt64 (of_nat i))
              (load vals (kv_value kv) (\<lambda>num. Verify333 (num = int i) (k (kv_value kv)))))"

definition check_lookup ::
  "ptr hash_table \<Rightarrow> nat \<Rightarrow> example_values \<Rightarrow> mem \<Rightarrow> (mem \<Rightarrow> 'a res) \<Rightarrow> 'a res" where
  "check_lookup ht i vals m k =
     andThen (LookupHashTable ht (FNVHashInt64 (of_nat i)) m) (\<lambda>(r, kv, m). check_pair r kv i vals (\<lambda>_. k m))"

definition check_absent :: "ptr hash_table \<Rightarrow> nat \<Rightarrow> mem \<Rightarrow> (mem \<Rightarrow> 'a res) \<Rightarrow> 'a res" where
  "check_absent ht i m k =
     andThen (LookupHashTable ht (FNVHashInt64 (of_nat i)) m) (\<lambda>(r, kv, m). Verify333 (r = 0) (k m))"

text \<open>The loop with the iterator, with fuel; it counts its rounds.\<close>

primrec iterate_values :: "nat \<Rightarrow> ptr hash_table \<Rightarrow> ht_iter \<Rightarrow> u64 \<Rightarrow> mem \<Rightarrow> (u64 \<times> mem) res" where
  "iterate_values 0 ht iter i m = Inl OutOfFuel"
| "iterate_values (Suc n) ht iter i m =
     (if HTIteratorPastEnd iter then Inr (i, m)
      else
        andThen (HTIteratorGet ht iter) (\<lambda>res.
          case res of
            None \<Rightarrow> Inl VerificationFailure
          | Some kv \<Rightarrow>
              Verify333 (kv_key kv \<noteq> FNVHashInt64 100)
                (andThen (HTIteratorNext ht iter m) (\<lambda>(_, iter, m). iterate_values n ht iter (i + 1) m))))"

text \<open>The result is that of \<^verbatim>\<open>main\<close>, and what is left of the boxes of the table and of the values.\<close>

definition example_program_ht :: "mem \<Rightarrow> (int \<times> (ptr \<rightharpoonup> ptr HTKeyValue) \<times> example_values) res" where
  "example_program_ht m =
     (case AllocateHashTable 10000 m of
        (None, m) \<Rightarrow> Inl VerificationFailure
      | (Some ht, m) \<Rightarrow>
          andThen (insert_values [0..<20000] ht Map.empty m) (\<lambda>(ht, vals, m).
          check_lookup ht 100 vals m (\<lambda>m.
          check_lookup ht 18583 vals m (\<lambda>m.
          check_absent ht 20000 m (\<lambda>m.
          andThen (RemoveFromHashTable ht (FNVHashInt64 100) m) (\<lambda>(r, kv, ht, m).
          check_pair r kv 100 vals (\<lambda>v.
          andThen (ExampleValueFree v vals) (\<lambda>vals.
          check_absent ht 100 m (\<lambda>m.
          Verify333 (NumElementsInHashTable ht = 19999)
            (andThen (HashTableMakeIterator ht m) (\<lambda>(iter, m).
              case iter of
                None \<Rightarrow> Inl VerificationFailure
              | Some iter \<Rightarrow>
                  andThen (iterate_values (Suc (total ht)) ht iter 0 m) (\<lambda>(i, m).
                    Verify333 (i = 19999)
                      (andThen (FreeHashTable (\<lambda>v vals. andThen vals (ExampleValueFree v)) ht (Inr vals))
                        (\<lambda>(boxes, vals). andThen vals (\<lambda>vals. Inr (0, boxes, vals))))))))))))))))"

section \<open>The hash of small numbers\<close>

text \<open>
  \<^verbatim>\<open>FNVHashInt64\<close> is injective on the numbers below \<open>2 ^ 16\<close>: the six upper bytes are equal, and after
  the lowest byte the states of different bytes are too far apart for the second byte to make them equal.
\<close>

lemma uint_div_256: "uint (x :: u64) div 256 = uint (drop_bit 8 x)"
  by (simp add: drop_bit_eq_div uint_div)

lemma far_apart:
  fixes x y :: u64
  assumes "drop_bit 8 x = drop_bit 8 y" "drop_bit 8 (x * FNV_64_PRIME) = drop_bit 8 (y * FNV_64_PRIME)"
  shows "x = y"
proof -
  let ?p = "uint FNV_64_PRIME"
  have p: "?p = 0x100000001b3" by (simp add: FNV_64_PRIME_def)
  define d where "d = uint x - uint y"
  define e where "e = uint (x * FNV_64_PRIME) - uint (y * FNV_64_PRIME)"
  have "uint x div 256 = uint y div 256" using assms(1) by (simp only: uint_div_256)
  then have d: "\<bar>d\<bar> < 256" unfolding d_def by presburger
  have "uint (x * FNV_64_PRIME) div 256 = uint (y * FNV_64_PRIME) div 256" using assms(2) by (simp only: uint_div_256)
  then have e: "\<bar>e\<bar> < 256" unfolding e_def by presburger
  have u: "uint (z * FNV_64_PRIME) = (uint z * ?p) mod 2 ^ 64" for z :: u64
    by (simp add: uint_word_ariths)
  have "e mod 2 ^ 64 = (d * ?p) mod 2 ^ 64"
    unfolding e_def d_def u by (simp add: left_diff_distrib mod_diff_eq)
  then have "2 ^ 64 dvd e - d * ?p" by (simp add: mod_eq_dvd_iff)
  moreover have "\<bar>e - d * ?p\<bar> < 2 ^ 64" using d e unfolding p by simp
  ultimately have "e = d * ?p" using dvd_imp_le_int [of "e - d * ?p" "2 ^ 64"] by fastforce
  then have "\<bar>d\<bar> * ?p < 256" using e by (simp add: abs_mult)
  moreover have "1 * ?p \<le> \<bar>d\<bar> * ?p" if "d \<noteq> 0" using that by (intro mult_right_mono) auto
  ultimately have "d = 0" unfolding p by fastforce
  then have "uint x = uint y" by (simp add: d_def)
  then show ?thesis by (simp only: word_uint_eq_iff)
qed

lemma drop_ucast_u8: "drop_bit 8 (ucast (b :: u8) :: u64) = 0"
  by (rule bit_eqI) (auto simp: bit_simps dest: bit_imp_le_length)

lemma zero_octets: "le_octets k 0 = replicate k 0"
  by (induction k) simp_all

lemma small_octets:
  assumes "n < 2 ^ 16"
  shows "le_octets 8 (of_nat n) = of_nat n # of_nat (n div 256) # replicate 6 0"
proof -
  have m: "(0xFF :: u64) = mask 8" by (simp add: mask_eq_exp_minus_1)
  have octet: "ucast ((of_nat k :: u64) AND 0xFF) = (of_nat k :: u8)" for k
    unfolding m by (rule bit_eqI) (auto simp: bit_simps)
  have shift: "drop_bit 8 (of_nat k :: u64) = of_nat (k div 256)" if "k < 2 ^ 16" for k
    using that by (intro word_unat_eq_iff [THEN iffD2]) (simp add: drop_bit_eq_div unat_div unat_of_nat take_bit_nat_eq_self)
  have s1: "drop_bit 8 (of_nat n :: u64) = of_nat (n div 256)" using assms by (rule shift)
  have "n div 256 < 2 ^ 16" "n div 256 div 256 = 0" using assms by simp_all
  then have s2: "drop_bit 8 (of_nat (n div 256) :: u64) = 0" using shift [of "n div 256"] by simp
  have "le_octets (Suc (Suc 6)) (of_nat n) = of_nat n # of_nat (n div 256) # replicate 6 0"
    by (simp only: le_octets.simps octet s1 s2 zero_octets)
  moreover have "Suc (Suc 6) = 8" by simp
  ultimately show ?thesis by (simp only:)
qed

lemma FNVHashInt64_inj:
  assumes "i < 2 ^ 16" "j < 2 ^ 16" "FNVHashInt64 (of_nat i) = FNVHashInt64 (of_nat j)"
  shows "i = j"
proof -
  define h :: "u8 \<Rightarrow> u64" where "h = fnv_octet FNV1_64_INIT"
  let ?a = "\<lambda>n. of_nat n :: u8" and ?b = "\<lambda>n. of_nat (n div 256) :: u8"
  have "fnv_octet (h (?a i)) (?b i) = fnv_octet (h (?a j)) (?b j)"
    using assms(3) unfolding FNVHashInt64_def FNVHash64_def small_octets [OF assms(1)] small_octets [OF assms(2)]
    unfolding foldl_Cons foldl_fnv_inj h_def .
  then have eq: "h (?a i) XOR ucast (?b i) = h (?a j) XOR ucast (?b j)"
    unfolding fnv_octet_def FNV_mult_inj .
  have "drop_bit 8 (h (?a i)) = drop_bit 8 (h (?a j))"
    using arg_cong [OF eq, of "drop_bit 8"] by (simp only: drop_bit_xor drop_ucast_u8 xor.right_neutral)
  then have "FNV1_64_INIT XOR ucast (?a i) = FNV1_64_INIT XOR ucast (?a j)"
    unfolding h_def fnv_octet_def by (rule far_apart [rotated]) (simp_all only: drop_bit_xor drop_ucast_u8)
  then have a: "?a i = ?a j" by (simp only: xor_cancel_left ucast_u8_inj)
  with eq have b: "?b i = ?b j" by (simp only: xor_cancel_left ucast_u8_inj)
  from a have "i mod 256 = j mod 256" by (simp add: word_of_nat_eq_iff take_bit_eq_mod)
  moreover have "i div 256 = j div 256" using b assms(1,2)
    by (simp add: word_of_nat_eq_iff take_bit_nat_eq_self less_mult_imp_div_less)
  ultimately show ?thesis by (metis div_mult_mod_eq)
qed

section \<open>What the table holds\<close>

abbreviation key_of :: "nat \<Rightarrow> u64" where
  "key_of i \<equiv> FNVHashInt64 (of_nat i)"

text \<open>The table maps the keys of the numbers \<open>I\<close> to values with these numbers, and there are no other values.\<close>

definition stores :: "nat set \<Rightarrow> ptr hash_table \<Rightarrow> example_values \<Rightarrow> mem \<Rightarrow> bool" where
  "stores I ht vals m \<longleftrightarrow>
     ht_inv ht m \<and> reliable m \<and> I \<subseteq> {..<2 ^ 16} \<and> dom (ht_map ht) = key_of ` I \<and>
     (\<forall>i \<in> I. \<exists>p. ht_map ht (key_of i) = Some p \<and> vals p = Some (int i)) \<and>
     dom vals = ran (ht_map ht) \<and> (\<forall>p \<in> dom vals. p \<noteq> NULL \<and> p \<le> clock m)"

lemma storesD:
  assumes "stores I ht vals m"
  shows "ht_inv ht m" "reliable m" "I \<subseteq> {..<2 ^ 16}" "dom (ht_map ht) = key_of ` I"
    "dom vals = ran (ht_map ht)" "p \<in> dom vals \<Longrightarrow> p \<noteq> NULL \<and> p \<le> clock m"
    "i \<in> I \<Longrightarrow> \<exists>p. ht_map ht (key_of i) = Some p \<and> vals p = Some (int i)"
  using assms by (auto simp: stores_def)

lemma stores_later: "stores I ht vals m \<Longrightarrow> later m m' \<Longrightarrow> stores I ht vals m'"
  unfolding stores_def by (auto simp: ht_inv_later later_reliable) (force simp: later_def)

lemma key_of_inj: "inj_on key_of {..<2 ^ 16}"
  using FNVHashInt64_inj by (auto simp: inj_on_def)

lemma stores_absent: "stores I ht vals m \<Longrightarrow> i < 2 ^ 16 \<Longrightarrow> i \<notin> I \<Longrightarrow> ht_map ht (key_of i) = None"
proof -
  assume s: "stores I ht vals m" and i: "i < 2 ^ 16" "i \<notin> I"
  have "key_of i \<notin> key_of ` I" using storesD(3) [OF s] i FNVHashInt64_inj by (auto simp: subset_iff)
  then show ?thesis using storesD(4) [OF s] by (metis domIff)
qed

lemma stores_count:
  assumes "stores I ht vals m"
  shows "NumElementsInHashTable ht = of_nat (card I)" "total ht = card I"
proof -
  have "card (dom (ht_map ht)) = card I"
    unfolding storesD(4) [OF assms] by (rule card_image) (rule inj_on_subset [OF key_of_inj storesD(3) [OF assms]])
  then show "NumElementsInHashTable ht = of_nat (card I)" "total ht = card I"
    using NumElements_card [OF storesD(1) [OF assms]] total_card [OF storesD(1) [OF assms]] by simp_all
qed

text \<open>A value belongs to one key only.\<close>

lemma stores_inj:
  assumes "stores I ht vals m" "ht_map ht k = Some p" "ht_map ht k' = Some p"
  shows "k = k'"
proof -
  have "k \<in> key_of ` I" "k' \<in> key_of ` I" using assms(2,3) storesD(4) [OF assms(1)] by blast+
  then obtain i j where i: "i \<in> I" "k = key_of i" and j: "j \<in> I" "k' = key_of j" by blast
  have "vals p = Some (int i)" "vals p = Some (int j)"
    using storesD(7) [OF assms(1) i(1)] storesD(7) [OF assms(1) j(1)] assms(2,3) i(2) j(2) by auto
  then show ?thesis using i(2) j(2) by simp
qed

section \<open>The steps\<close>

lemma insert_value_step:
  assumes "stores I ht vals m" "i < 2 ^ 16" "i \<notin> I"
  obtains ht' m1 m' where "malloc m = (Suc (clock m), m1)"
    "InsertHashTable ht (kv_of (key_of i) (Suc (clock m))) m1 = Inr (1, None, ht', m')"
    "stores (insert i I) ht' (vals(Suc (clock m) \<mapsto> int i)) m'"
proof -
  note s = storesD [OF assms(1)]
  let ?p = "Suc (clock m)"
  let ?m1 = "m\<lparr>clock := ?p\<rparr>"
  have mal: "malloc m = (?p, ?m1)" using s(2) by (rule malloc_reliable)
  have l: "later m ?m1" by simp
  have none: "ht_map ht (key_of i) = None" using assms by (rule stores_absent)
  obtain ht' m' where ins: "later ?m1 m'" "ht_inv ht' m'" "reliable m'" "ht_map ht' = (ht_map ht)(key_of i \<mapsto> ?p)"
      "InsertHashTable ht (kv_of (key_of i) ?p) ?m1 = Inr (1, None, ht', m')"
    using ht.insert_newE [OF ht_inv_later [OF s(1) l] later_reliable [OF l s(2)] none] .
  have fresh: "q \<noteq> ?p" if "q \<in> dom vals" for q using s(6) [OF that] by auto
  have clock: "?p \<le> clock m'" using ins(1) by (simp add: later_def)
  have "stores (insert i I) ht' (vals(?p \<mapsto> int i)) m'"
    unfolding stores_def
  proof (intro conjI ballI ins(2,3))
    show "insert i I \<subseteq> {..<2 ^ 16}" using s(3) assms(2) by simp
    show "dom (ht_map ht') = key_of ` insert i I" using s(4) ins(4) by simp
    show "dom (vals(?p \<mapsto> int i)) = ran (ht_map ht')" using s(5) none by (simp add: ins(4) ran_map_upd)
  next
    fix j assume j: "j \<in> insert i I"
    show "\<exists>p. ht_map ht' (key_of j) = Some p \<and> (vals(?p \<mapsto> int i)) p = Some (int j)"
    proof (cases "j = i")
      case False
      then have "j \<in> I" using j by simp
      from s(7) [OF this] obtain p where p: "ht_map ht (key_of j) = Some p" "vals p = Some (int j)" by blast
      moreover have "key_of j \<noteq> key_of i" using none p(1) by auto
      moreover have "p \<noteq> ?p" using fresh p(2) by blast
      ultimately show ?thesis using ins(4) by simp
    qed (use ins(4) in simp)
  next
    fix q assume "q \<in> dom (vals(?p \<mapsto> int i))"
    then have "q = ?p \<or> q \<in> dom vals" by (auto split: if_splits)
    then have "q = ?p \<or> q \<noteq> NULL \<and> q \<le> clock m" using s(6) [of q] by blast
    then show "q \<noteq> NULL" "q \<le> clock m'" using clock by auto
  qed
  with that mal ins(5) show thesis by blast
qed

lemma insert_values_ok:
  assumes "stores {..<n} ht vals m" "n + k \<le> 2 ^ 16"
  shows "\<exists>ht' vals' m'. insert_values [n..<n + k] ht vals m = Inr (ht', vals', m') \<and> stores {..<n + k} ht' vals' m'"
  using assms
proof (induction k arbitrary: n ht vals m)
  case (Suc k)
  obtain ht1 m1 m2 where i: "malloc m = (Suc (clock m), m1)"
      "InsertHashTable ht (kv_of (key_of n) (Suc (clock m))) m1 = Inr (1, None, ht1, m2)"
      "stores (insert n {..<n}) ht1 (vals(Suc (clock m) \<mapsto> int n)) m2"
    by (rule insert_value_step [OF Suc.prems(1), of n]) (use Suc.prems(2) in auto)
  have s: "stores {..<Suc n} ht1 (vals(Suc (clock m) \<mapsto> int n)) m2" using i(3) by (simp only: lessThan_Suc)
  define xs where "xs = [Suc n..<Suc n + k]"
  have "Suc n + k \<le> 2 ^ 16" using Suc.prems(2) by simp
  from Suc.IH [OF s this] obtain ht' vals' m' where
    r: "insert_values xs ht1 (vals(Suc (clock m) \<mapsto> int n)) m2 = Inr (ht', vals', m')" "stores {..<Suc n + k} ht' vals' m'"
    unfolding xs_def by blast
  have "[n..<n + Suc k] = n # xs" by (simp add: upt_rec xs_def)
  moreover have "NumElementsInHashTable ht = of_nat n" "NumElementsInHashTable ht1 = of_nat (Suc n)"
    using stores_count(1) [OF Suc.prems(1)] stores_count(1) [OF s] by simp_all
  ultimately show ?case using r i(1,2) by (simp add: Let_def)
qed simp

lemma check_lookup_ok:
  assumes "stores I ht vals m" "i \<in> I"
  shows "\<exists>m'. stores I ht vals m' \<and> (\<forall>k. check_lookup ht i vals m k = k m')"
proof -
  note s = storesD [OF assms(1)]
  obtain p where p: "ht_map ht (key_of i) = Some p" "vals p = Some (int i)" using s(7) [OF assms(2)] by blast
  obtain m' where "later m m'" "LookupHashTable ht (key_of i) m = Inr (1, Some (kv_of (key_of i) p), m')"
    using ht.lookup_law [OF s(1,2), of "key_of i"] p(1) by auto
  then show ?thesis using stores_later [OF assms(1)] p(2)
    by (intro exI [of _ m']) (simp add: check_lookup_def check_pair_def kv_of_def)
qed

lemma check_absent_ok:
  assumes "stores I ht vals m" "i < 2 ^ 16" "i \<notin> I"
  shows "\<exists>m'. stores I ht vals m' \<and> (\<forall>k. check_absent ht i m k = k m')"
proof -
  note s = storesD [OF assms(1)]
  obtain m' where "later m m'" "LookupHashTable ht (key_of i) m = Inr (0, None, m')"
    using ht.lookup_law [OF s(1,2), of "key_of i"] stores_absent [OF assms] by auto
  then show ?thesis using stores_later [OF assms(1)]
    by (intro exI [of _ m']) (simp add: check_absent_def)
qed

lemma remove_value_step:
  assumes "stores I ht vals m" "i \<in> I"
  obtains p ht' m' where "RemoveFromHashTable ht (key_of i) m = Inr (1, Some (kv_of (key_of i) p), ht', m')"
    "\<And>k. check_pair 1 (Some (kv_of (key_of i) p)) i vals k = k p"
    "ExampleValueFree p vals = Inr (vals(p := None))" "stores (I - {i}) ht' (vals(p := None)) m'"
proof -
  note s = storesD [OF assms(1)]
  obtain p where p: "ht_map ht (key_of i) = Some p" "vals p = Some (int i)" using s(7) [OF assms(2)] by blast
  obtain ht' m' where r: "later m m'" "ht_inv ht' m'" "ht_map ht' = (ht_map ht)(key_of i := None)"
      "RemoveFromHashTable ht (key_of i) m = Inr (1, Some (kv_of (key_of i) p), ht', m')"
    using ht.remove_law [OF s(1,2), of "key_of i"] p(1) by auto
  have other: "ht_map ht k \<noteq> Some p" if "k \<noteq> key_of i" for k
    using stores_inj [OF assms(1) _ p(1)] that by blast
  have key: "key_of j \<noteq> key_of i" if "j \<in> I - {i}" for j
    using that s(3) assms(2) FNVHashInt64_inj [of j i] by (auto simp: subset_iff)
  have p0: "p \<noteq> NULL" using s(6) [of p] p(2) by blast
  have "stores (I - {i}) ht' (vals(p := None)) m'"
    unfolding stores_def
  proof (intro conjI ballI r(2))
    show "reliable m'" using r(1) s(2) by (rule later_reliable)
    show "I - {i} \<subseteq> {..<2 ^ 16}" using s(3) by blast
    show "dom (ht_map ht') = key_of ` (I - {i})" using s(4) r(3) key by auto
    have "x \<in> ran (ht_map ht') \<longleftrightarrow> x \<in> ran (ht_map ht) \<and> x \<noteq> p" for x
      unfolding r(3) ran_def mem_Collect_eq fun_upd_apply using other p(1) by (metis option.distinct(1) option.inject)
    then show "dom (vals(p := None)) = ran (ht_map ht')" using s(5) by auto
  next
    fix j assume j: "j \<in> I - {i}"
    then obtain q where q: "ht_map ht (key_of j) = Some q" "vals q = Some (int j)" using s(7) [of j] by blast
    then have "q \<noteq> p" using other [OF key [OF j]] by blast
    then show "\<exists>q. ht_map ht' (key_of j) = Some q \<and> (vals(p := None)) q = Some (int j)"
      using q key [OF j] r(3) by auto
  next
    fix q assume "q \<in> dom (vals(p := None))"
    then have "q \<in> dom vals" by (auto split: if_splits)
    then show "q \<noteq> NULL" "q \<le> clock m'" using s(6) [of q] r(1) by (auto simp: later_def)
  qed
  then show thesis
    using that [OF r(4)] p(2) p0 by (simp add: check_pair_def kv_of_def ExampleValueFree_def)
qed

lemma iterate_values_ok:
  assumes "ht_inv ht m0" "it_ok ht it" "reliable m" "length (it_items ht it) < n"
    and "\<forall>kv \<in> set (it_items ht it). kv_key kv \<noteq> FNVHashInt64 100"
  shows "\<exists>m'. iterate_values n ht it i m = Inr (i + of_nat (length (it_items ht it)), m')"
  using assms(2-5)
proof (induction n arbitrary: it i m)
  case (Suc n)
  show ?case
  proof (cases "it_items ht it")
    case Nil
    then show ?thesis using PastEnd_iff [OF assms(1) Suc.prems(1)] by simp
  next
    case (Cons kv rest)
    have v: "\<not> HTIteratorPastEnd it" "HTIteratorGet ht it = Inr (Some kv)"
      using PastEnd_iff [OF assms(1) Suc.prems(1)] HTIteratorGet_ok [OF assms(1) Suc.prems(1)] Cons
      by simp_all
    obtain it2 m2 where x: "HTIteratorNext ht it m
        = Inr (if tl (it_items ht it) = [] then 0 else 1, it2, m2)"
      "later m m2" "it_ok ht it2" "it_items ht it2 = rest"
      using HTIteratorNext_ok [OF assms(1) Suc.prems(1) _ Suc.prems(2)] Cons by auto
    have "\<exists>m'. iterate_values n ht it2 (i + 1) m2 = Inr (i + 1 + of_nat (length rest), m')"
      using Suc.IH [OF x(3) later_reliable [OF x(2) Suc.prems(2)]] Suc.prems(3,4) Cons x(4) by simp
    with v x(1) Cons Suc.prems(4) show ?thesis by (simp add: algebra_simps)
  qed
qed simp

text \<open>Freeing every value once frees all of them.\<close>

lemma free_values:
  assumes "distinct (map kv_value pairs)" "kv_value ` set pairs \<subseteq> dom vals" "NULL \<notin> dom vals"
  shows "fold (\<lambda>kv vals. andThen vals (ExampleValueFree (kv_value kv))) pairs (Inr vals)
     = Inr (vals |` (- kv_value ` set pairs))"
  using assms
proof (induction pairs arbitrary: vals)
  case (Cons kv pairs)
  let ?p = "kv_value kv"
  have "?p \<in> dom vals" using Cons.prems(2) by simp
  then obtain n where n: "vals ?p = Some n" "?p \<noteq> NULL" using Cons.prems(3) by (metis domD)
  have "fold (\<lambda>kv vals. andThen vals (ExampleValueFree (kv_value kv))) pairs (Inr (vals(?p := None)))
      = Inr ((vals(?p := None)) |` (- kv_value ` set pairs))"
  proof (rule Cons.IH)
    have d: "dom (vals(?p := None)) = dom vals - {?p}" by simp
    have "?p \<notin> kv_value ` set pairs" "kv_value ` set pairs \<subseteq> dom vals" using Cons.prems(1,2) by simp_all
    then show "kv_value ` set pairs \<subseteq> dom (vals(?p := None))" unfolding d by blast
    show "NULL \<notin> dom (vals(?p := None))" using Cons.prems(3) unfolding d by blast
  qed (use Cons.prems(1) in simp)
  moreover have "(vals(?p := None)) |` (- kv_value ` set pairs) = vals |` (- kv_value ` set (kv # pairs))"
    by (auto simp: restrict_map_def fun_eq_iff)
  moreover have "ExampleValueFree ?p vals = Inr (vals(?p := None))" using n by (simp add: ExampleValueFree_def)
  ultimately show ?case by simp
qed (simp add: restrict_map_def fun_eq_iff)

lemma free_table_ok:
  assumes "stores I ht vals m"
  shows "FreeHashTable (\<lambda>v vals. andThen vals (ExampleValueFree v)) ht (Inr vals) = Inr (Map.empty, Inr Map.empty)"
proof -
  note s = storesD [OF assms]
  obtain pairs where k: "FreeHashTable (\<lambda>v vals. andThen vals (ExampleValueFree v)) ht (Inr vals)
       = Inr (Map.empty, fold (\<lambda>kv vals. andThen vals (ExampleValueFree (kv_value kv))) pairs (Inr vals))"
      "distinct (map kv_key pairs)" "map_of (map pair_of pairs) = ht_map ht"
    using FreeHashTable_frees_all [OF s(1), of "\<lambda>v vals. andThen vals (ExampleValueFree v)" "Inr vals"] by blast
  have entry: "ht_map ht (kv_key kv) = Some (kv_value kv)" if "kv \<in> set pairs" for kv
    unfolding k(3) [symmetric] using that k(2)
    by (intro map_of_is_SomeI) (auto simp: pair_of_def comp_def)
  have vs: "kv_value ` set pairs = dom vals"
  proof -
    have "ran (ht_map ht) = kv_value ` set pairs"
      unfolding k(3) [symmetric] using k(2) by (subst ran_distinct) (auto simp: pair_of_def comp_def image_image)
    then show ?thesis using s(5) by simp
  qed
  have "inj_on kv_value (set pairs)"
  proof (rule inj_onI)
    fix a b assume ab: "a \<in> set pairs" "b \<in> set pairs" "kv_value a = kv_value b"
    have "kv_key a = kv_key b" using stores_inj [OF assms entry [OF ab(1)]] entry [OF ab(2)] ab(3) by simp
    then show "a = b" using ab(3) by simp
  qed
  moreover have "distinct pairs" using k(2) by (simp add: distinct_map)
  ultimately have "distinct (map kv_value pairs)" by (simp add: distinct_map)
  then have "fold (\<lambda>kv vals. andThen vals (ExampleValueFree (kv_value kv))) pairs (Inr vals) = Inr (vals |` (- dom vals))"
    using free_values [of pairs vals] s(6) [of NULL] vs by auto
  moreover have "vals |` (- dom vals) = Map.empty" by (auto simp: restrict_map_def fun_eq_iff)
  ultimately show ?thesis using k(1) by simp
qed

section \<open>The program as a whole\<close>

text \<open>
  C25: The example program of the hash table does what it is written for: with memory available, every one of
  its checks holds, through 20000 insertions and the lookups, the removal and the traversal after them,
  no two of its keys collide, \<^verbatim>\<open>main\<close> returns 0, and none of its values and of the pairs of the table is
  left: each is freed exactly once.
\<close>

theorem example_program_ht_correct:
  assumes "reliable m"
  shows "example_program_ht m = Inr (0, Map.empty, Map.empty)"
proof -
  let ?m0 = "m\<lparr>clock := Suc (Suc (clock m)) + unat (10000 :: u32)\<rparr>"
  have alloc: "AllocateHashTable 10000 m = (Some (empty_table 10000 :: ptr hash_table), ?m0)"
    using assms by (rule AllocateHashTable_reliable) simp
  have "stores {..<0} (empty_table 10000) Map.empty ?m0" using assms by (simp add: stores_def)
  from insert_values_ok [OF this, of 20000] obtain ht vals m1 where
    ins: "insert_values [0..<20000] (empty_table 10000) Map.empty ?m0 = Inr (ht, vals, m1)" and s1: "stores {..<20000} ht vals m1"
    by (auto simp del: upt_rec_numeral)
  have in1: "100 \<in> {..<20000 :: nat}" "18583 \<in> {..<20000 :: nat}" "(20000 :: nat) < 2 ^ 16" "20000 \<notin> {..<20000 :: nat}"
    "(100 :: nat) < 2 ^ 16" by simp_all
  obtain m2 where s2: "stores {..<20000} ht vals m2"
      and l2: "\<And>k :: mem \<Rightarrow> (int \<times> (ptr \<rightharpoonup> ptr HTKeyValue) \<times> example_values) res. check_lookup ht 100 vals m1 k = k m2"
    using check_lookup_ok [OF s1 in1(1)] by blast
  obtain m3 where s3: "stores {..<20000} ht vals m3"
      and l3: "\<And>k :: mem \<Rightarrow> (int \<times> (ptr \<rightharpoonup> ptr HTKeyValue) \<times> example_values) res. check_lookup ht 18583 vals m2 k = k m3"
    using check_lookup_ok [OF s2 in1(2)] by blast
  obtain m4 where s4: "stores {..<20000} ht vals m4"
      and l4: "\<And>k :: mem \<Rightarrow> (int \<times> (ptr \<rightharpoonup> ptr HTKeyValue) \<times> example_values) res. check_absent ht 20000 m3 k = k m4"
    using check_absent_ok [OF s3 in1(3,4)] by blast
  obtain p ht5 m5 where r5: "RemoveFromHashTable ht (key_of 100) m4 = Inr (1, Some (kv_of (key_of 100) p), ht5, m5)"
      and c5: "\<And>k :: ptr \<Rightarrow> (int \<times> (ptr \<rightharpoonup> ptr HTKeyValue) \<times> example_values) res.
        check_pair 1 (Some (kv_of (key_of 100) p)) 100 vals k = k p"
      and f5: "ExampleValueFree p vals = Inr (vals(p := None))"
      and s5: "stores ({..<20000} - {100}) ht5 (vals(p := None)) m5"
    using remove_value_step [OF s4 in1(1)] by blast
  obtain m6 where s6: "stores ({..<20000} - {100}) ht5 (vals(p := None)) m6"
      and l6: "\<And>k :: mem \<Rightarrow> (int \<times> (ptr \<rightharpoonup> ptr HTKeyValue) \<times> example_values) res. check_absent ht5 100 m5 k = k m6"
    using check_absent_ok [OF s5 in1(5)] by blast
  have "card ({..<20000} - {100 :: nat}) = 19999" by (simp add: card_Diff_singleton)
  with stores_count [OF s6] have n6: "NumElementsInHashTable ht5 = 19999" "total ht5 = 19999" by simp_all
  obtain it m7 where i7: "HashTableMakeIterator ht5 m6 = Inr (Some it, m7)" "ht_inv ht5 m7" "reliable m7" "it_ok ht5 it"
      "it_items ht5 it = ht_items ht5"
    by (rule make_iterator_any [OF storesD(1,2) [OF s6]]) (simp_all add: n6(2))
  have len: "length (it_items ht5 it) = 19999"
    using n6(2) unfolding i7(5) by (simp add: ht_items_def total_def)
  have "ht_map ht5 (key_of 100) = None" using stores_absent [OF s6 in1(5)] by simp
  then have "key_of 100 \<notin> kv_key ` set (ht_items ht5)"
    unfolding ht_map_def by (simp add: map_of_eq_None_iff pair_of_def image_image)
  then have "kv_key kv \<noteq> key_of 100" if "kv \<in> set (it_items ht5 it)" for kv
    using that unfolding i7(5) by (metis imageI)
  then have keys: "\<forall>kv \<in> set (it_items ht5 it). kv_key kv \<noteq> FNVHashInt64 100" by simp
  obtain m8 where i8: "iterate_values (Suc (total ht5)) ht5 it 0 m7 = Inr (19999, m8)"
    using iterate_values_ok [OF i7(2,4,3) _ keys, of "Suc (total ht5)" 0] unfolding len n6(2) by auto
  have key: "FNVHashInt64 100 = key_of 100" by simp
  show ?thesis
    unfolding example_program_ht_def alloc prod.case option.case ins andThen_simps l2 l3 l4 key r5 c5 f5 l6 n6(1)
      i7(1) i8 free_table_ok [OF s6] Verify333_simps simp_thms
    by simp
qed

lemma example_program_ht_correct_witness: "example_program_ht fresh_mem = Inr (0, Map.empty, Map.empty)"
  using example_program_ht_correct [OF reliable_fresh_mem] .

end
