(* ===== verification/FileLayout.thy ===== *)
theory FileLayout
  imports Prelude
begin

text \<open>
  The on-disk structures of \<^verbatim>\<open>hw3/filelayout.h\<close> with their conversions between host and disk
  format. The host is little-endian: the memory image of an integer is its bytes, lowest first, and
  the structures are packed, so the image of a structure is the concatenation of the images of its
  fields. The theorems show that the disk format is big-endian and that reading it back is a round
  trip.
\<close>

unbundle bit_operations_syntax

section \<open>Memory images of integers\<close>

primrec le_bytes :: "nat \<Rightarrow> 'a :: len word \<Rightarrow> u8 list" where
  "le_bytes 0 x = []"
| "le_bytes (Suc n) x = ucast x # le_bytes n (drop_bit 8 x)"

primrec of_le_bytes :: "u8 list \<Rightarrow> 'a :: len word" where
  "of_le_bytes [] = 0"
| "of_le_bytes (b # bs) = ucast b OR push_bit 8 (of_le_bytes bs)"

definition be_bytes :: "nat \<Rightarrow> 'a :: len word \<Rightarrow> u8 list" where
  "be_bytes n x = rev (le_bytes n x)"

text \<open>\<^verbatim>\<open>htons\<close>, \<^verbatim>\<open>htonl\<close> and their inverses swap the bytes on this host.\<close>

definition htons :: "u16 \<Rightarrow> u16" where
  "htons x = of_le_bytes (rev (le_bytes 2 x))"

definition htonl :: "u32 \<Rightarrow> u32" where
  "htonl x = of_le_bytes (rev (le_bytes 4 x))"

text \<open>The macros of \<^verbatim>\<open>fileindexutil.h\<close> for 64 bits.\<close>

definition ntohll :: "u64 \<Rightarrow> u64" where
  "ntohll x = push_bit 32 (ucast (htonl (ucast (drop_bit 32 (push_bit 32 x)))))
     OR ucast (htonl (ucast (drop_bit 32 x)))"

definition htonll :: "u64 \<Rightarrow> u64" where
  "htonll x = ntohll x"

lemma length_le_bytes [simp]: "length (le_bytes n x) = n"
  by (induction n arbitrary: x) simp_all

lemma length_be_bytes [simp]: "length (be_bytes n x) = n"
  by (simp add: be_bytes_def)

lemma bit_u8: "bit (b :: u8) i \<Longrightarrow> i < 8"
  using bit_imp_le_length [of b i] by simp

lemma nth_le_bytes:
  fixes x :: "'a :: len word"
  shows "k < n \<Longrightarrow> bit (le_bytes n x ! k) i \<longleftrightarrow> i < 8 \<and> bit x (8 * k + i)"
proof (induction n arbitrary: k x)
  case (Suc n)
  show ?case
  proof (cases k)
    case 0
    then show ?thesis by (auto simp: bit_word_ucast_iff dest: bit_imp_le_length)
  next
    case (Suc j)
    then have "bit (le_bytes (Suc n) x ! k) i \<longleftrightarrow> i < 8 \<and> bit (drop_bit 8 x) (8 * j + i)"
      using Suc.IH [of j "drop_bit 8 x"] Suc.prems \<open>k = Suc j\<close> by simp
    moreover have "bit (drop_bit 8 x) (8 * j + i) \<longleftrightarrow> bit x (8 * k + i)"
      unfolding bit_drop_bit_eq comp_def \<open>k = Suc j\<close> by (simp add: add.commute add.left_commute)
    ultimately show ?thesis by simp
  qed
qed simp

lemma bit_of_le_bytes:
  "bit (of_le_bytes bs :: 'a :: len word) i \<longleftrightarrow>
     i < LENGTH('a) \<and> i < 8 * length bs \<and> bit (bs ! (i div 8)) (i mod 8)"
proof (induction bs arbitrary: i)
  case (Cons b bs)
  show ?case
  proof (cases "i < 8")
    case True
    then show ?thesis
      by (auto simp: bit_or_iff bit_push_bit_iff bit_word_ucast_iff)
  next
    case False
    then have d: "i div 8 = Suc ((i - 8) div 8)" "i mod 8 = (i - 8) mod 8"
      by (simp_all add: le_div_geq le_mod_geq)
    have "\<not> bit b i" using False bit_u8 by blast
    then have "bit (of_le_bytes (b # bs) :: 'a word) i \<longleftrightarrow> i < LENGTH('a) \<and> bit (of_le_bytes bs :: 'a word) (i - 8)"
      using False by (auto simp: bit_or_iff bit_push_bit_iff bit_word_ucast_iff possible_bit_def)
    then show ?thesis using False unfolding Cons.IH d by auto
  qed
qed simp

lemma of_le_bytes_le_bytes:
  assumes "LENGTH('a) \<le> 8 * n"
  shows "of_le_bytes (le_bytes n x) = (x :: 'a :: len word)"
proof (rule bit_word_eqI)
  fix i assume i: "i < LENGTH('a)"
  then have "i < 8 * n" using assms by simp
  then have "i div 8 < n" by (simp add: div_less_iff_less_mult mult.commute)
  with i \<open>i < 8 * n\<close> show "bit (of_le_bytes (le_bytes n x) :: 'a word) i \<longleftrightarrow> bit x i"
    by (simp add: bit_of_le_bytes nth_le_bytes)
qed

lemma le_bytes_of_le_bytes:
  assumes "8 * length bs \<le> LENGTH('a)"
  shows "le_bytes (length bs) (of_le_bytes bs :: 'a :: len word) = bs"
proof (rule nth_equalityI)
  fix k assume "k < length (le_bytes (length bs) (of_le_bytes bs :: 'a word))"
  then have k: "k < length bs" by simp
  show "le_bytes (length bs) (of_le_bytes bs :: 'a word) ! k = bs ! k"
  proof (rule bit_word_eqI)
    fix i assume "i < LENGTH(8)"
    then have i: "i < 8" by simp
    then have "8 * k + i < 8 * length bs" using k by linarith
    with i k assms show "bit (le_bytes (length bs) (of_le_bytes bs :: 'a word) ! k) i \<longleftrightarrow> bit (bs ! k) i"
      by (simp add: nth_le_bytes bit_of_le_bytes)
  qed
qed simp

lemma le_bytes_of: "length bs = n \<Longrightarrow> 8 * n \<le> LENGTH('a) \<Longrightarrow> le_bytes n (of_le_bytes bs :: 'a :: len word) = bs"
  using le_bytes_of_le_bytes by blast

lemma htons_bytes: "le_bytes 2 (htons x) = be_bytes 2 x"
  unfolding htons_def be_bytes_def by (rule le_bytes_of) simp_all

lemma htonl_bytes: "le_bytes 4 (htonl x) = be_bytes 4 x"
  unfolding htonl_def be_bytes_def by (rule le_bytes_of) simp_all

lemma swap_twice:
  assumes "LENGTH('a) = 8 * n"
  shows "of_le_bytes (rev (le_bytes n (of_le_bytes (rev (le_bytes n x)) :: 'a word))) = (x :: 'a :: len word)"
proof -
  have "le_bytes n (of_le_bytes (rev (le_bytes n x)) :: 'a word) = rev (le_bytes n x)"
    by (rule le_bytes_of) (simp_all add: assms)
  then show ?thesis by (simp add: of_le_bytes_le_bytes assms)
qed

lemma htons_htons [simp]: "htons (htons x) = x"
  unfolding htons_def by (rule swap_twice) simp

lemma htonl_htonl [simp]: "htonl (htonl x) = x"
  unfolding htonl_def by (rule swap_twice) simp

lemma le_bytes_append:
  "le_bytes (m + n) (x :: 'a :: len word) = le_bytes m x @ le_bytes n (drop_bit (8 * m) x)"
  by (induction m arbitrary: x) (simp_all add: add.commute)

lemma le_bytes_ucast:
  assumes "8 * n \<le> LENGTH('b)"
  shows "le_bytes n (ucast (x :: 'a :: len word) :: 'b :: len word) = le_bytes n x"
proof (rule nth_equalityI)
  fix k assume "k < length (le_bytes n (ucast x :: 'b word))"
  then have k: "k < n" by simp
  show "le_bytes n (ucast x :: 'b word) ! k = le_bytes n x ! k"
  proof (rule bit_word_eqI)
    fix i assume "i < LENGTH(8)"
    then have "8 * k + i < 8 * n" using k by simp
    then show "bit (le_bytes n (ucast x :: 'b word) ! k) i \<longleftrightarrow> bit (le_bytes n x ! k) i"
      using assms k by (auto simp: nth_le_bytes bit_word_ucast_iff dest: bit_imp_le_length)
  qed
qed simp

lemma low_high:
  fixes a b :: u32
  defines "y \<equiv> push_bit 32 (ucast a) OR ucast b :: u64"
  shows "ucast y = b" "drop_bit 32 y = ucast a"
proof -
  have y: "bit y i \<longleftrightarrow> (if i < 32 then bit b i else i < 64 \<and> bit a (i - 32))" for i
    by (auto simp: y_def bit_or_iff bit_push_bit_iff bit_word_ucast_iff possible_bit_def
        simp del: push_bit_numeral dest: bit_imp_le_length)
  show "ucast y = b" by (rule bit_word_eqI) (simp add: bit_word_ucast_iff y)
  show "drop_bit 32 y = ucast a"
    by (rule bit_word_eqI) (auto simp: bit_drop_bit_eq y bit_word_ucast_iff dest: bit_imp_le_length)
qed

lemma ntohll_halves:
  "ntohll x = push_bit 32 (ucast (htonl (ucast x))) OR ucast (htonl (ucast (drop_bit 32 x)))"
proof -
  have "ucast (drop_bit 32 (push_bit 32 x)) = (ucast x :: u32)"
    by (rule bit_word_eqI) (auto simp: bit_word_ucast_iff bit_drop_bit_eq bit_push_bit_iff
        possible_bit_def simp del: push_bit_numeral)
  then show ?thesis by (simp add: ntohll_def del: push_bit_numeral)
qed

lemma htonll_bytes: "le_bytes 8 (htonll x) = be_bytes 8 x"
proof -
  let ?a = "htonl (ucast x)" and ?b = "htonl (ucast (drop_bit 32 x))"
  let ?y = "push_bit 32 (ucast ?a) OR ucast ?b :: u64"
  have y: "htonll x = ?y" by (simp only: htonll_def ntohll_halves)
  have "le_bytes 8 ?y = le_bytes 4 ?y @ le_bytes 4 (drop_bit 32 ?y)"
    using le_bytes_append [of 4 4 ?y] by simp
  also have "le_bytes 4 ?y = le_bytes 4 (ucast ?y :: u32)" by (simp add: le_bytes_ucast)
  also have "ucast ?y = ?b" by (rule low_high)
  also have "drop_bit 32 ?y = ucast ?a" by (rule low_high)
  also have "le_bytes 4 (ucast ?a :: u64) = le_bytes 4 ?a" by (simp add: le_bytes_ucast)
  finally have "le_bytes 8 ?y = be_bytes 4 (ucast (drop_bit 32 x) :: u32) @ be_bytes 4 (ucast x :: u32)"
    by (simp add: htonl_bytes)
  moreover have "le_bytes 8 x = le_bytes 4 (ucast x :: u32) @ le_bytes 4 (ucast (drop_bit 32 x) :: u32)"
    using le_bytes_append [of 4 4 x] by (simp add: le_bytes_ucast)
  ultimately show ?thesis by (simp add: y be_bytes_def)
qed

lemma htonll_htonll [simp]: "ntohll (htonll x) = x"
proof -
  have "(of_le_bytes (le_bytes 8 (ntohll (htonll x))) :: u64) = of_le_bytes (le_bytes 8 x)"
    using htonll_bytes [of "htonll x"] htonll_bytes [of x]
    by (simp add: be_bytes_def flip: htonll_def)
  then show ?thesis by (simp add: of_le_bytes_le_bytes)
qed

section \<open>The structures\<close>

text \<open>
  For every structure: its fields, \<^verbatim>\<open>toDiskFormat\<close> and \<^verbatim>\<open>toHostFormat\<close> (\<^verbatim>\<open>ntohs\<close> and \<^verbatim>\<open>ntohl\<close> are the same
  functions as \<^verbatim>\<open>htons\<close> and \<^verbatim>\<open>htonl\<close>), its image in memory, and the structure that an image holds.
\<close>

definition MAGIC_NUMBER :: u32 where
  "MAGIC_NUMBER = 0xCAFEF00D"

record IndexFileHeader =
  magic_number :: u32
  checksum :: u32
  doctable_size :: u32
  index_size :: u32

definition IndexFileHeader_toDiskFormat :: "IndexFileHeader \<Rightarrow> IndexFileHeader" where
  "IndexFileHeader_toDiskFormat h = \<lparr>magic_number = htonl (magic_number h), checksum = htonl (checksum h), doctable_size = htonl (doctable_size h), index_size = htonl (index_size h)\<rparr>"

definition IndexFileHeader_toHostFormat :: "IndexFileHeader \<Rightarrow> IndexFileHeader" where
  "IndexFileHeader_toHostFormat h = \<lparr>magic_number = htonl (magic_number h), checksum = htonl (checksum h), doctable_size = htonl (doctable_size h), index_size = htonl (index_size h)\<rparr>"

definition IndexFileHeader_image :: "IndexFileHeader \<Rightarrow> u8 list" where
  "IndexFileHeader_image h = le_bytes 4 (magic_number h) @ le_bytes 4 (checksum h) @ le_bytes 4 (doctable_size h) @ le_bytes 4 (index_size h)"

definition IndexFileHeader_of_image :: "u8 list \<Rightarrow> IndexFileHeader" where
  "IndexFileHeader_of_image bs = \<lparr>magic_number = of_le_bytes (take 4 bs), checksum = of_le_bytes (take 4 (drop 4 bs)), doctable_size = of_le_bytes (take 4 (drop 8 bs)), index_size = of_le_bytes (take 4 (drop 12 bs))\<rparr>"

record BucketListHeader =
  bl_num_buckets :: u32

definition BucketListHeader_toDiskFormat :: "BucketListHeader \<Rightarrow> BucketListHeader" where
  "BucketListHeader_toDiskFormat h = \<lparr>bl_num_buckets = htonl (bl_num_buckets h)\<rparr>"

definition BucketListHeader_toHostFormat :: "BucketListHeader \<Rightarrow> BucketListHeader" where
  "BucketListHeader_toHostFormat h = \<lparr>bl_num_buckets = htonl (bl_num_buckets h)\<rparr>"

definition BucketListHeader_image :: "BucketListHeader \<Rightarrow> u8 list" where
  "BucketListHeader_image h = le_bytes 4 (bl_num_buckets h)"

definition BucketListHeader_of_image :: "u8 list \<Rightarrow> BucketListHeader" where
  "BucketListHeader_of_image bs = \<lparr>bl_num_buckets = of_le_bytes (take 4 bs)\<rparr>"

record bucket_rec =
  chain_len :: u32
  bucket_position :: u32

definition bucket_rec_toDiskFormat :: "bucket_rec \<Rightarrow> bucket_rec" where
  "bucket_rec_toDiskFormat h = \<lparr>chain_len = htonl (chain_len h), bucket_position = htonl (bucket_position h)\<rparr>"

definition bucket_rec_toHostFormat :: "bucket_rec \<Rightarrow> bucket_rec" where
  "bucket_rec_toHostFormat h = \<lparr>chain_len = htonl (chain_len h), bucket_position = htonl (bucket_position h)\<rparr>"

definition bucket_rec_image :: "bucket_rec \<Rightarrow> u8 list" where
  "bucket_rec_image h = le_bytes 4 (chain_len h) @ le_bytes 4 (bucket_position h)"

definition bucket_rec_of_image :: "u8 list \<Rightarrow> bucket_rec" where
  "bucket_rec_of_image bs = \<lparr>chain_len = of_le_bytes (take 4 bs), bucket_position = of_le_bytes (take 4 (drop 4 bs))\<rparr>"

record element_position_rec =
  element_position :: u32

definition element_position_rec_toDiskFormat :: "element_position_rec \<Rightarrow> element_position_rec" where
  "element_position_rec_toDiskFormat h = \<lparr>element_position = htonl (element_position h)\<rparr>"

definition element_position_rec_toHostFormat :: "element_position_rec \<Rightarrow> element_position_rec" where
  "element_position_rec_toHostFormat h = \<lparr>element_position = htonl (element_position h)\<rparr>"

definition element_position_rec_image :: "element_position_rec \<Rightarrow> u8 list" where
  "element_position_rec_image h = le_bytes 4 (element_position h)"

definition element_position_rec_of_image :: "u8 list \<Rightarrow> element_position_rec" where
  "element_position_rec_of_image bs = \<lparr>element_position = of_le_bytes (take 4 bs)\<rparr>"

record doctable_element_header =
  de_docid :: u64
  filename_len :: u16

definition doctable_element_header_toDiskFormat :: "doctable_element_header \<Rightarrow> doctable_element_header" where
  "doctable_element_header_toDiskFormat h = \<lparr>de_docid = htonll (de_docid h), filename_len = htons (filename_len h)\<rparr>"

definition doctable_element_header_toHostFormat :: "doctable_element_header \<Rightarrow> doctable_element_header" where
  "doctable_element_header_toHostFormat h = \<lparr>de_docid = ntohll (de_docid h), filename_len = htons (filename_len h)\<rparr>"

definition doctable_element_header_image :: "doctable_element_header \<Rightarrow> u8 list" where
  "doctable_element_header_image h = le_bytes 8 (de_docid h) @ le_bytes 2 (filename_len h)"

definition doctable_element_header_of_image :: "u8 list \<Rightarrow> doctable_element_header" where
  "doctable_element_header_of_image bs = \<lparr>de_docid = of_le_bytes (take 8 bs), filename_len = of_le_bytes (take 2 (drop 8 bs))\<rparr>"

record worddocset_header =
  word_len :: u16
  doctable_len :: u32

definition worddocset_header_toDiskFormat :: "worddocset_header \<Rightarrow> worddocset_header" where
  "worddocset_header_toDiskFormat h = \<lparr>word_len = htons (word_len h), doctable_len = htonl (doctable_len h)\<rparr>"

definition worddocset_header_toHostFormat :: "worddocset_header \<Rightarrow> worddocset_header" where
  "worddocset_header_toHostFormat h = \<lparr>word_len = htons (word_len h), doctable_len = htonl (doctable_len h)\<rparr>"

definition worddocset_header_image :: "worddocset_header \<Rightarrow> u8 list" where
  "worddocset_header_image h = le_bytes 2 (word_len h) @ le_bytes 4 (doctable_len h)"

definition worddocset_header_of_image :: "u8 list \<Rightarrow> worddocset_header" where
  "worddocset_header_of_image bs = \<lparr>word_len = of_le_bytes (take 2 bs), doctable_len = of_le_bytes (take 4 (drop 2 bs))\<rparr>"

record docid_element_header =
  del_docid :: u64
  num_positions :: u32

definition docid_element_header_toDiskFormat :: "docid_element_header \<Rightarrow> docid_element_header" where
  "docid_element_header_toDiskFormat h = \<lparr>del_docid = htonll (del_docid h), num_positions = htonl (num_positions h)\<rparr>"

definition docid_element_header_toHostFormat :: "docid_element_header \<Rightarrow> docid_element_header" where
  "docid_element_header_toHostFormat h = \<lparr>del_docid = ntohll (del_docid h), num_positions = htonl (num_positions h)\<rparr>"

definition docid_element_header_image :: "docid_element_header \<Rightarrow> u8 list" where
  "docid_element_header_image h = le_bytes 8 (del_docid h) @ le_bytes 4 (num_positions h)"

definition docid_element_header_of_image :: "u8 list \<Rightarrow> docid_element_header" where
  "docid_element_header_of_image bs = \<lparr>del_docid = of_le_bytes (take 8 bs), num_positions = of_le_bytes (take 4 (drop 8 bs))\<rparr>"

record docid_element_position =
  dep_position :: u32

definition docid_element_position_toDiskFormat :: "docid_element_position \<Rightarrow> docid_element_position" where
  "docid_element_position_toDiskFormat h = \<lparr>dep_position = htonl (dep_position h)\<rparr>"

definition docid_element_position_toHostFormat :: "docid_element_position \<Rightarrow> docid_element_position" where
  "docid_element_position_toHostFormat h = \<lparr>dep_position = htonl (dep_position h)\<rparr>"

definition docid_element_position_image :: "docid_element_position \<Rightarrow> u8 list" where
  "docid_element_position_image h = le_bytes 4 (dep_position h)"

definition docid_element_position_of_image :: "u8 list \<Rightarrow> docid_element_position" where
  "docid_element_position_of_image bs = \<lparr>dep_position = of_le_bytes (take 4 bs)\<rparr>"

lemmas struct_defs =
  IndexFileHeader_toDiskFormat_def IndexFileHeader_toHostFormat_def IndexFileHeader_image_def IndexFileHeader_of_image_def
  BucketListHeader_toDiskFormat_def BucketListHeader_toHostFormat_def BucketListHeader_image_def BucketListHeader_of_image_def
  bucket_rec_toDiskFormat_def bucket_rec_toHostFormat_def bucket_rec_image_def bucket_rec_of_image_def
  element_position_rec_toDiskFormat_def element_position_rec_toHostFormat_def element_position_rec_image_def element_position_rec_of_image_def
  doctable_element_header_toDiskFormat_def doctable_element_header_toHostFormat_def doctable_element_header_image_def doctable_element_header_of_image_def
  worddocset_header_toDiskFormat_def worddocset_header_toHostFormat_def worddocset_header_image_def worddocset_header_of_image_def
  docid_element_header_toDiskFormat_def docid_element_header_toHostFormat_def docid_element_header_image_def docid_element_header_of_image_def
  docid_element_position_toDiskFormat_def docid_element_position_toHostFormat_def docid_element_position_image_def docid_element_position_of_image_def

text \<open>The disk image of a structure: its fields in big-endian order.\<close>

lemma IndexFileHeader_disk: "IndexFileHeader_image (IndexFileHeader_toDiskFormat h) = be_bytes 4 (magic_number h) @ be_bytes 4 (checksum h) @ be_bytes 4 (doctable_size h) @ be_bytes 4 (index_size h)"
  by (simp add: struct_defs htons_bytes htonl_bytes htonll_bytes)

lemma BucketListHeader_disk: "BucketListHeader_image (BucketListHeader_toDiskFormat h) = be_bytes 4 (bl_num_buckets h)"
  by (simp add: struct_defs htons_bytes htonl_bytes htonll_bytes)

lemma bucket_rec_disk: "bucket_rec_image (bucket_rec_toDiskFormat h) = be_bytes 4 (chain_len h) @ be_bytes 4 (bucket_position h)"
  by (simp add: struct_defs htons_bytes htonl_bytes htonll_bytes)

lemma element_position_rec_disk: "element_position_rec_image (element_position_rec_toDiskFormat h) = be_bytes 4 (element_position h)"
  by (simp add: struct_defs htons_bytes htonl_bytes htonll_bytes)

lemma doctable_element_header_disk: "doctable_element_header_image (doctable_element_header_toDiskFormat h) = be_bytes 8 (de_docid h) @ be_bytes 2 (filename_len h)"
  by (simp add: struct_defs htons_bytes htonl_bytes htonll_bytes)

lemma worddocset_header_disk: "worddocset_header_image (worddocset_header_toDiskFormat h) = be_bytes 2 (word_len h) @ be_bytes 4 (doctable_len h)"
  by (simp add: struct_defs htons_bytes htonl_bytes htonll_bytes)

lemma docid_element_header_disk: "docid_element_header_image (docid_element_header_toDiskFormat h) = be_bytes 8 (del_docid h) @ be_bytes 4 (num_positions h)"
  by (simp add: struct_defs htons_bytes htonl_bytes htonll_bytes)

lemma docid_element_position_disk: "docid_element_position_image (docid_element_position_toDiskFormat h) = be_bytes 4 (dep_position h)"
  by (simp add: struct_defs htons_bytes htonl_bytes htonll_bytes)

text \<open>What \<^verbatim>\<open>fread\<close> and \<^verbatim>\<open>toHostFormat\<close> make of a disk image.\<close>

lemma of_be_bytes:
  "of_le_bytes (be_bytes 2 (x :: u16)) = htons x" "of_le_bytes (be_bytes 4 (y :: u32)) = htonl y"
  "of_le_bytes (be_bytes 8 (z :: u64)) = htonll z"
  by (simp_all add: of_le_bytes_le_bytes flip: htons_bytes htonl_bytes htonll_bytes)

lemma IndexFileHeader_host: "IndexFileHeader_toHostFormat (IndexFileHeader_of_image (be_bytes 4 (a :: u32) @ be_bytes 4 (b :: u32) @ be_bytes 4 (c :: u32) @ be_bytes 4 (d :: u32))) = \<lparr>magic_number = a, checksum = b, doctable_size = c, index_size = d\<rparr>"
  by (simp add: struct_defs of_be_bytes)

lemma BucketListHeader_host: "BucketListHeader_toHostFormat (BucketListHeader_of_image (be_bytes 4 (a :: u32))) = \<lparr>bl_num_buckets = a\<rparr>"
  by (simp add: struct_defs of_be_bytes)

lemma bucket_rec_host: "bucket_rec_toHostFormat (bucket_rec_of_image (be_bytes 4 (a :: u32) @ be_bytes 4 (b :: u32))) = \<lparr>chain_len = a, bucket_position = b\<rparr>"
  by (simp add: struct_defs of_be_bytes)

lemma element_position_rec_host: "element_position_rec_toHostFormat (element_position_rec_of_image (be_bytes 4 (a :: u32))) = \<lparr>element_position = a\<rparr>"
  by (simp add: struct_defs of_be_bytes)

lemma doctable_element_header_host: "doctable_element_header_toHostFormat (doctable_element_header_of_image (be_bytes 8 (a :: u64) @ be_bytes 2 (b :: u16))) = \<lparr>de_docid = a, filename_len = b\<rparr>"
  by (simp add: struct_defs of_be_bytes)

lemma worddocset_header_host: "worddocset_header_toHostFormat (worddocset_header_of_image (be_bytes 2 (a :: u16) @ be_bytes 4 (b :: u32))) = \<lparr>word_len = a, doctable_len = b\<rparr>"
  by (simp add: struct_defs of_be_bytes)

lemma docid_element_header_host: "docid_element_header_toHostFormat (docid_element_header_of_image (be_bytes 8 (a :: u64) @ be_bytes 4 (b :: u32))) = \<lparr>del_docid = a, num_positions = b\<rparr>"
  by (simp add: struct_defs of_be_bytes)

lemma docid_element_position_host: "docid_element_position_toHostFormat (docid_element_position_of_image (be_bytes 4 (a :: u32))) = \<lparr>dep_position = a\<rparr>"
  by (simp add: struct_defs of_be_bytes)

text \<open>
  Every structure of an index file survives the way to the disk and back: its image has the
  packed size, holds the fields in big-endian order, and reading it back gives the same fields.
\<close>

theorem disk_structures_roundtrip:
  "IndexFileHeader_toHostFormat (IndexFileHeader_of_image (IndexFileHeader_image (IndexFileHeader_toDiskFormat h1))) = h1 \<and>
   length (IndexFileHeader_image h1) = 16 \<and> IndexFileHeader_image (IndexFileHeader_toDiskFormat h1) = be_bytes 4 (magic_number h1) @ be_bytes 4 (checksum h1) @ be_bytes 4 (doctable_size h1) @ be_bytes 4 (index_size h1) \<and>
   BucketListHeader_toHostFormat (BucketListHeader_of_image (BucketListHeader_image (BucketListHeader_toDiskFormat h2))) = h2 \<and>
   length (BucketListHeader_image h2) = 4 \<and> BucketListHeader_image (BucketListHeader_toDiskFormat h2) = be_bytes 4 (bl_num_buckets h2) \<and>
   bucket_rec_toHostFormat (bucket_rec_of_image (bucket_rec_image (bucket_rec_toDiskFormat h3))) = h3 \<and>
   length (bucket_rec_image h3) = 8 \<and> bucket_rec_image (bucket_rec_toDiskFormat h3) = be_bytes 4 (chain_len h3) @ be_bytes 4 (bucket_position h3) \<and>
   element_position_rec_toHostFormat (element_position_rec_of_image (element_position_rec_image (element_position_rec_toDiskFormat h4))) = h4 \<and>
   length (element_position_rec_image h4) = 4 \<and> element_position_rec_image (element_position_rec_toDiskFormat h4) = be_bytes 4 (element_position h4) \<and>
   doctable_element_header_toHostFormat (doctable_element_header_of_image (doctable_element_header_image (doctable_element_header_toDiskFormat h5))) = h5 \<and>
   length (doctable_element_header_image h5) = 10 \<and> doctable_element_header_image (doctable_element_header_toDiskFormat h5) = be_bytes 8 (de_docid h5) @ be_bytes 2 (filename_len h5) \<and>
   worddocset_header_toHostFormat (worddocset_header_of_image (worddocset_header_image (worddocset_header_toDiskFormat h6))) = h6 \<and>
   length (worddocset_header_image h6) = 6 \<and> worddocset_header_image (worddocset_header_toDiskFormat h6) = be_bytes 2 (word_len h6) @ be_bytes 4 (doctable_len h6) \<and>
   docid_element_header_toHostFormat (docid_element_header_of_image (docid_element_header_image (docid_element_header_toDiskFormat h7))) = h7 \<and>
   length (docid_element_header_image h7) = 12 \<and> docid_element_header_image (docid_element_header_toDiskFormat h7) = be_bytes 8 (del_docid h7) @ be_bytes 4 (num_positions h7) \<and>
   docid_element_position_toHostFormat (docid_element_position_of_image (docid_element_position_image (docid_element_position_toDiskFormat h8))) = h8 \<and>
   length (docid_element_position_image h8) = 4 \<and> docid_element_position_image (docid_element_position_toDiskFormat h8) = be_bytes 4 (dep_position h8)"
  by (simp add: IndexFileHeader_disk IndexFileHeader_host BucketListHeader_disk BucketListHeader_host bucket_rec_disk bucket_rec_host element_position_rec_disk element_position_rec_host doctable_element_header_disk doctable_element_header_host worddocset_header_disk worddocset_header_host docid_element_header_disk docid_element_header_host docid_element_position_disk docid_element_position_host)
    (simp add: struct_defs)

end
