(* ===== verification/Crc32.thy ===== *)
theory Crc32
  imports Prelude
begin

text \<open>
  The checksum of the index files: the class \<^verbatim>\<open>CRC32\<close> of \<^verbatim>\<open>hw3/fileindexutil.cc\<close>. The table, which
  the code fills when the first object is constructed and shares between all objects, is the
  constant \<open>CRC32_table\<close>.
\<close>

unbundle bit_operations_syntax

section \<open>The code\<close>

text \<open>The loop over \<^verbatim>\<open>position\<close> moves bit \<open>i\<close> of the \<open>c\<close> low bits to bit \<open>c - 1 - i\<close>.\<close>

definition CRC32Reflect :: "u32 \<Rightarrow> nat \<Rightarrow> u32" where
  "CRC32Reflect reflectme c =
     fst (fold (\<lambda>position (val, r).
            (if r AND 1 \<noteq> 0 then val OR push_bit (c - position) 1 else val, drop_bit 1 r))
          [1..<c + 1] (0, reflectme))"

definition polynomial :: u32 where
  "polynomial = 0x04C11DB7"

definition CRC32_table_entry :: "u32 \<Rightarrow> u32" where
  "CRC32_table_entry codes =
     CRC32Reflect
       (((\<lambda>t. push_bit 1 t XOR (if t AND 0x80000000 \<noteq> 0 then polynomial else 0)) ^^ 8)
          (push_bit 24 (CRC32Reflect codes 8))) 32"

definition CRC32_table :: "u32 list" where
  "CRC32_table = map (\<lambda>codes. CRC32_table_entry (of_nat codes)) [0..<256]"

record CRC32 =
  crc_state :: u32
  finalized :: bool

definition new_CRC32 :: CRC32 where
  "new_CRC32 = \<lparr>crc_state = 0xFFFFFFFF, finalized = False\<rparr>"

definition FoldByteIntoCRC :: "u8 \<Rightarrow> CRC32 \<Rightarrow> CRC32 res" where
  "FoldByteIntoCRC nextbyte c =
     Verify333 (\<not> finalized c)
       (Inr (c\<lparr>crc_state := drop_bit 8 (crc_state c)
                 XOR CRC32_table ! unat ((crc_state c AND 0xFF) XOR ucast nextbyte)\<rparr>))"

definition GetFinalCRC :: "CRC32 \<Rightarrow> u32 \<times> CRC32" where
  "GetFinalCRC c =
     (let c = (if finalized c then c
               else c\<lparr>finalized := True, crc_state := crc_state c XOR 0xFFFFFFFF\<rparr>)
      in (crc_state c, c))"

text \<open>Feeding bytes one after the other to an object.\<close>

primrec FoldBytes :: "u8 list \<Rightarrow> CRC32 \<Rightarrow> CRC32 res" where
  "FoldBytes [] c = Inr c"
| "FoldBytes (b # bs) c = andThen (FoldByteIntoCRC b c) (FoldBytes bs)"

section \<open>The reference: one bit at a time\<close>

definition REVERSED :: u32 where
  "REVERSED = 0xEDB88320"

definition crc_bit :: "u32 \<Rightarrow> u32" where
  "crc_bit s = (if bit s 0 then drop_bit 1 s XOR REVERSED else drop_bit 1 s)"

definition crc_byte :: "u32 \<Rightarrow> u8 \<Rightarrow> u32" where
  "crc_byte s b = (crc_bit ^^ 8) (s XOR ucast b)"

definition crc32_reference :: "u8 list \<Rightarrow> u32" where
  "crc32_reference bs = foldl crc_byte 0xFFFFFFFF bs XOR 0xFFFFFFFF"

section \<open>The table holds the reference steps\<close>

lemma reflect_loop:
  assumes "k \<le> c" "c \<le> 32"
  shows "fold (\<lambda>position (val :: u32, r).
            (if r AND 1 \<noteq> 0 then val OR push_bit (c - position) 1 else val, drop_bit 1 r))
          [1..<k + 1] (0, x) = (val, r) \<Longrightarrow>
     r = drop_bit k x \<and> (\<forall>i. bit val i \<longleftrightarrow> c - k \<le> i \<and> i < c \<and> bit x (c - 1 - i))"
  using assms(1)
proof (induction k arbitrary: val r)
  case 0
  then show ?case by auto
next
  case (Suc k)
  let ?f = "\<lambda>position (val :: u32, r).
            (if r AND 1 \<noteq> 0 then val OR push_bit (c - position) 1 else val, drop_bit 1 r)"
  obtain val1 r1 where f: "fold ?f [1..<k + 1] (0, x) = (val1, r1)" by fastforce
  from Suc.IH [OF f] Suc.prems(2) have ih: "r1 = drop_bit k x"
    "\<And>i. bit val1 i \<longleftrightarrow> c - k \<le> i \<and> i < c \<and> bit x (c - 1 - i)" by auto
  have "fold ?f [1..<Suc k + 1] (0, x) = ?f (k + 1) (val1, r1)"
    using f by simp
  with Suc.prems(1) have v: "val = (if r1 AND 1 \<noteq> 0 then val1 OR push_bit (c - (k + 1)) 1 else val1)"
    and r: "r = drop_bit 1 r1" by auto
  have one: "r1 AND 1 \<noteq> 0 \<longleftrightarrow> bit x k"
    using ih(1) by (simp add: and_one_eq bit_iff_odd_drop_bit odd_iff_mod_2_eq_one)
  have "bit val i \<longleftrightarrow> c - Suc k \<le> i \<and> i < c \<and> bit x (c - 1 - i)" for i
  proof (cases "i = c - Suc k")
    case True
    with Suc.prems(2) have "c - 1 - i = k" "i < c" "\<not> c - k \<le> i" by auto
    with True assms(2) show ?thesis
      unfolding v one by (auto simp: bit_or_iff bit_exp_iff possible_bit_def ih(2))
  next
    case False
    then have "c - Suc k \<le> i \<longleftrightarrow> c - k \<le> i" by auto
    with False show ?thesis
      unfolding v by (auto simp: bit_or_iff bit_exp_iff ih(2))
  qed
  moreover have "r = drop_bit (Suc k) x" unfolding r ih(1) by simp
  ultimately show ?case by blast
qed

lemma bit_CRC32Reflect:
  assumes "c \<le> 32"
  shows "bit (CRC32Reflect x c) i \<longleftrightarrow> i < c \<and> bit x (c - 1 - i)"
proof -
  obtain val r where f: "fold (\<lambda>position (val :: u32, r).
            (if r AND 1 \<noteq> 0 then val OR push_bit (c - position) 1 else val, drop_bit 1 r))
          [1..<c + 1] (0, x) = (val, r)" by fastforce
  from reflect_loop [OF le_refl assms f] f show ?thesis by (simp add: CRC32Reflect_def)
qed

lemma u32_eqI: "(\<And>i. i < 32 \<Longrightarrow> bit (x :: u32) i \<longleftrightarrow> bit y i) \<Longrightarrow> x = y"
  by (rule bit_eqI) (simp add: possible_bit_def)

lemma reflect_twice: "CRC32Reflect (CRC32Reflect x 32) 32 = x"
  by (rule u32_eqI) (auto simp: bit_CRC32Reflect)

lemma reflect_polynomial: "CRC32Reflect polynomial 32 = REVERSED"
proof (rule u32_eqI)
  fix i :: nat assume "i < 32"
  then have "i \<in> set [0..<32]" by simp
  moreover have "\<forall>i \<in> set [0..<32]. bit polynomial (31 - i) \<longleftrightarrow> bit REVERSED i"
    by (simp add: polynomial_def REVERSED_def upt_rec)
  ultimately show "bit (CRC32Reflect polynomial 32) i \<longleftrightarrow> bit REVERSED i"
    using \<open>i < 32\<close> by (simp add: bit_CRC32Reflect)
qed

definition crc_left :: "u32 \<Rightarrow> u32" where
  "crc_left t = push_bit 1 t XOR (if t AND 0x80000000 \<noteq> 0 then polynomial else 0)"

lemma top_bit: "(t :: u32) AND 0x80000000 \<noteq> 0 \<longleftrightarrow> bit t 31"
proof -
  have "(0x80000000 :: u32) = push_bit 31 1" by simp
  then have b: "bit (0x80000000 :: u32) i \<longleftrightarrow> i = 31" for i
    by (simp only: bit_push_bit_iff bit_1_iff possible_bit_def) auto
  show ?thesis
  proof
    assume "t AND 0x80000000 \<noteq> 0"
    then obtain i where "bit (t AND 0x80000000) i" by (metis bit_0_eq bit_eqI bot_apply bot_bool_def)
    then show "bit t 31" unfolding bit_and_iff b by blast
  next
    assume "bit t 31"
    then have "bit (t AND 0x80000000) 31" by (simp only: bit_and_iff b)
    then show "t AND 0x80000000 \<noteq> 0" by (metis bit_0_eq bot_apply bot_bool_def)
  qed
qed

lemma reflect_left: "CRC32Reflect (crc_left t) 32 = crc_bit (CRC32Reflect t 32)"
proof (rule u32_eqI)
  fix i :: nat assume i: "i < 32"
  have p: "bit polynomial (31 - i) \<longleftrightarrow> bit REVERSED i"
    using i bit_CRC32Reflect [of 32 polynomial i] by (simp add: reflect_polynomial)
  have b0: "bit (CRC32Reflect t 32) 0 \<longleftrightarrow> bit t 31" by (simp add: bit_CRC32Reflect)
  have "bit (push_bit 1 t) (31 - i) \<longleftrightarrow> bit (drop_bit 1 (CRC32Reflect t 32)) i"
    using i unfolding bit_push_bit_iff bit_drop_bit_eq comp_def
    by (auto simp: bit_CRC32Reflect)
  with i p show "bit (CRC32Reflect (crc_left t) 32) i \<longleftrightarrow> bit (crc_bit (CRC32Reflect t 32)) i"
    unfolding crc_left_def crc_bit_def b0 top_bit
    by (auto simp: bit_CRC32Reflect bit_xor_iff)
qed

lemma reflect_lefts: "CRC32Reflect ((crc_left ^^ n) t) 32 = (crc_bit ^^ n) (CRC32Reflect t 32)"
  by (induction n) (simp_all add: reflect_left)

lemma small_high_bits: "codes < 256 \<Longrightarrow> 8 \<le> i \<Longrightarrow> \<not> bit (of_nat codes :: u32) i"
proof -
  assume "codes < 256" "8 \<le> i"
  moreover from this(2) have "2 ^ 8 \<le> (2 :: nat) ^ i" by (rule power_increasing) simp
  ultimately have "\<not> bit codes i" by (simp add: bit_iff_odd)
  then show ?thesis unfolding bit_of_nat_iff by blast
qed

lemma table_entry:
  assumes "codes < 256"
  shows "CRC32_table_entry (of_nat codes) = (crc_bit ^^ 8) (of_nat codes)"
proof -
  let ?x = "of_nat codes :: u32"
  have "push_bit 24 (CRC32Reflect ?x 8) = CRC32Reflect ?x 32"
  proof (rule u32_eqI)
    fix i :: nat assume "i < 32"
    then show "bit (push_bit 24 (CRC32Reflect ?x 8)) i \<longleftrightarrow> bit (CRC32Reflect ?x 32) i"
      using small_high_bits [OF assms, of "31 - i"]
      by (cases "24 \<le> i") (auto simp: bit_push_bit_iff bit_CRC32Reflect)
  qed
  moreover have "CRC32_table_entry ?x = CRC32Reflect ((crc_left ^^ 8) (push_bit 24 (CRC32Reflect ?x 8))) 32"
    by (simp add: CRC32_table_entry_def crc_left_def [abs_def])
  ultimately show ?thesis by (simp add: reflect_lefts reflect_twice)
qed

section \<open>One step of the table\<close>

lemma crc_bit_xor: "crc_bit (x XOR y) = crc_bit x XOR crc_bit y"
  by (rule bit_eqI) (auto simp: crc_bit_def bit_xor_iff bit_drop_bit_eq)

lemma crc_bits_xor: "(crc_bit ^^ n) (x XOR y) = (crc_bit ^^ n) x XOR (crc_bit ^^ n) y"
  by (induction n) (simp_all add: crc_bit_xor)

lemma crc_bits_high:
  "(\<And>i. i < n \<Longrightarrow> \<not> bit x i) \<Longrightarrow> (crc_bit ^^ n) x = drop_bit n x"
proof (induction n arbitrary: x)
  case (Suc n)
  then have b0: "\<not> bit x 0" by blast
  then have "crc_bit x = drop_bit 1 x" by (simp add: crc_bit_def)
  moreover have "\<not> bit (drop_bit 1 x) i" if "i < n" for i
    using Suc.prems [of "Suc i"] that by (simp add: bit_drop_bit_eq)
  ultimately have "(crc_bit ^^ n) (crc_bit x) = drop_bit n (drop_bit 1 x)" using Suc.IH by metis
  then show ?case by (simp add: funpow_swap1)
qed simp

definition low_byte :: "u32 \<Rightarrow> u8 \<Rightarrow> u32" where
  "low_byte s b = (s AND 0xFF) XOR ucast b"

lemma mask_255: "(0xFF :: u32) = mask 8"
  by (simp add: mask_numeral)

lemma bit_low_byte: "bit (low_byte s b) i \<longleftrightarrow> i < 8 \<and> (bit s i \<noteq> bit b i)"
proof -
  have "bit (s AND mask 8) i \<longleftrightarrow> i < 8 \<and> bit s i"
    unfolding bit_and_iff Word.bit_mask_iff by auto
  moreover have "bit (ucast b :: u32) i \<longleftrightarrow> i < 8 \<and> bit b i"
    unfolding bit_word_ucast_iff by auto
  ultimately show ?thesis unfolding low_byte_def mask_255 bit_xor_iff by auto
qed

lemma low_byte_index: "unat (low_byte s b) < 256"
proof -
  have "low_byte s b = take_bit 8 (low_byte s b)"
    by (rule u32_eqI) (auto simp: bit_take_bit_iff bit_low_byte)
  then have "unat (low_byte s b) = take_bit 8 (unat (low_byte s b))"
    by (metis unsigned_take_bit_eq)
  then show ?thesis using take_bit_nat_less_exp [of 8 "unat (low_byte s b)"] by simp
qed

lemma table_step: "drop_bit 8 s XOR CRC32_table ! unat (low_byte s b) = crc_byte s b"
proof -
  let ?h = "push_bit 8 (drop_bit 8 s)"
  have split: "s XOR ucast b = low_byte s b XOR ?h"
  proof (rule u32_eqI)
    fix i :: nat assume "i < 32"
    moreover have "bit (ucast b :: u32) i \<longleftrightarrow> i < 8 \<and> bit b i"
      unfolding bit_word_ucast_iff by auto
    ultimately show "bit (s XOR ucast b) i \<longleftrightarrow> bit (low_byte s b XOR ?h) i"
      unfolding bit_xor_iff bit_low_byte bit_push_bit_iff bit_drop_bit_eq comp_def by auto
  qed
  have "(crc_bit ^^ 8) ?h = drop_bit 8 ?h"
    by (rule crc_bits_high) (simp add: bit_push_bit_iff del: push_bit_numeral)
  also have "\<dots> = drop_bit 8 s"
    by (rule u32_eqI) (auto simp: bit_drop_bit_eq bit_push_bit_iff dest: bit_imp_le_length)
  finally have h: "(crc_bit ^^ 8) ?h = drop_bit 8 s" .
  have "CRC32_table ! unat (low_byte s b) = (crc_bit ^^ 8) (low_byte s b)"
    using table_entry [OF low_byte_index, of s b] low_byte_index [of s b] by (simp add: CRC32_table_def)
  then show ?thesis
    unfolding crc_byte_def split crc_bits_xor h by (simp add: xor.commute)
qed

lemma FoldBytes_reference:
  "\<not> finalized c \<Longrightarrow> FoldBytes bs c = Inr (c\<lparr>crc_state := foldl crc_byte (crc_state c) bs\<rparr>)"
proof (induction bs arbitrary: c)
  case (Cons b bs)
  then have "FoldByteIntoCRC b c = Inr (c\<lparr>crc_state := crc_byte (crc_state c) b\<rparr>)"
    by (simp add: FoldByteIntoCRC_def flip: low_byte_def table_step)
  then show ?case using Cons by simp
qed simp

lemma crc_bit_inj: "crc_bit x = crc_bit y \<longleftrightarrow> x = y"
proof
  assume eq: "crc_bit x = crc_bit y"
  have R: "bit REVERSED 31" by (simp add: REVERSED_def)
  have "bit (crc_bit z) 31 \<longleftrightarrow> bit z 0" for z
    using R by (auto simp: crc_bit_def bit_xor_iff bit_drop_bit_eq dest: bit_imp_le_length)
  with eq have b0: "bit x 0 \<longleftrightarrow> bit y 0" by metis
  have "drop_bit 1 x = drop_bit 1 y"
  proof (cases "bit x 0")
    case True
    with eq b0 have "(drop_bit 1 x XOR REVERSED) XOR REVERSED = (drop_bit 1 y XOR REVERSED) XOR REVERSED"
      by (simp add: crc_bit_def)
    then show ?thesis by (simp add: xor.assoc)
  qed (use eq b0 in \<open>simp add: crc_bit_def\<close>)
  then have "bit x (Suc i) \<longleftrightarrow> bit y (Suc i)" for i
    by (metis One_nat_def bit_drop_bit_eq comp_def plus_1_eq_Suc)
  with b0 show "x = y" by (intro bit_eqI) (metis not0_implies_Suc)
qed simp

lemma crc_byte_inj: "crc_byte s b = crc_byte s' b' \<longleftrightarrow> s XOR ucast b = s' XOR ucast b'"
proof -
  have "(crc_bit ^^ n) x = (crc_bit ^^ n) y \<longleftrightarrow> x = y" for n x y
    by (induction n) (simp_all add: crc_bit_inj)
  then show ?thesis unfolding crc_byte_def .
qed

lemma xor_cancel: "(x XOR z :: u32) = y XOR z \<longleftrightarrow> x = y" "(z XOR x :: u32) = z XOR y \<longleftrightarrow> x = y"
  by (auto simp: bit_eq_iff bit_xor_iff)

lemma crc_bytes_inj: "foldl crc_byte s bs = foldl crc_byte s' bs \<longleftrightarrow> s = s'"
  by (induction bs arbitrary: s s') (simp_all add: crc_byte_inj xor_cancel)

section \<open>Properties\<close>

text \<open>The checksum that a new object gives for a byte sequence.\<close>

definition checksum_of :: "u8 list \<Rightarrow> u32 res" where
  "checksum_of bs = andThen (FoldBytes bs new_CRC32) (\<lambda>c. Inr (fst (GetFinalCRC c)))"

lemma checksum_of_reference: "checksum_of bs = Inr (crc32_reference bs)"
  by (simp add: checksum_of_def FoldBytes_reference new_CRC32_def GetFinalCRC_def crc32_reference_def)

lemma crc32_reference_change:
  assumes "b \<noteq> b'"
  shows "crc32_reference (pre @ b # post) \<noteq> crc32_reference (pre @ b' # post)"
proof -
  have "(ucast b :: u32) \<noteq> ucast b'"
    using assms by transfer (simp add: take_bit_take_bit min_def)
  then show ?thesis by (simp add: crc32_reference_def xor_cancel crc_bytes_inj crc_byte_inj)
qed

text \<open>
  C32: The table-driven checksum is the bit-by-bit CRC-32 with the reversed polynomial
  \<open>0xEDB88320\<close>, initial value and final complement of all ones; a finished object gives its checksum
  again, and folding another byte into it stops the program.
\<close>

theorem CRC32_is_reference:
  "\<exists>c. FoldBytes bs new_CRC32 = Inr c \<and>
     (case GetFinalCRC c of (crc, c') \<Rightarrow>
        crc = foldl (\<lambda>s b. (crc_bit ^^ 8) (s XOR ucast b)) 0xFFFFFFFF bs XOR 0xFFFFFFFF \<and>
        GetFinalCRC c' = (crc, c') \<and> FoldByteIntoCRC b c' = Inl VerificationFailure)"
  unfolding crc_byte_def [abs_def, symmetric]
  by (simp add: FoldBytes_reference new_CRC32_def GetFinalCRC_def FoldByteIntoCRC_def)

text \<open>
  Changing one byte of a sequence, whichever it is, changes its checksum: a damaged byte in the
  tables of an index file is always noticed.
\<close>

theorem CRC32_detects_byte_change:
  assumes "b \<noteq> b'"
  shows "checksum_of (pre @ b # post) \<noteq> checksum_of (pre @ b' # post)"
  using crc32_reference_change [OF assms] by (simp add: checksum_of_reference)

lemma CRC32_detects_byte_change_witness: "checksum_of [1, 2, 3] \<noteq> checksum_of [1, 7, 3]"
  using CRC32_detects_byte_change [of 2 7 "[1]" "[3]"] by simp

end
