(* ===== verification/IndexReader.thy ===== *)
theory IndexReader
  imports FileLayout Crc32 Fnv
begin

text \<open>
  Reading an index file: \<^verbatim>\<open>hw3/HashTableReader.cc\<close>, \<^verbatim>\<open>DocTableReader.cc\<close>, \<^verbatim>\<open>DocIDTableReader.cc\<close>,
  \<^verbatim>\<open>IndexTableReader.cc\<close> and \<^verbatim>\<open>FileIndexReader.cc\<close>.

  An open file is its list of bytes; every reader seeks before it reads, so the position is a local
  value. A read fails when the file has not enough bytes. Where the code verifies the result of
  \<^verbatim>\<open>fread\<close>, a failure ends the program; where it does not, it goes on with an uninitialised
  structure, which is \<open>MemFault\<close>. Offsets that the code computes in \<^verbatim>\<open>IndexFileOffset_t\<close> wrap at 32
  bits, those passed directly to \<^verbatim>\<open>fseek\<close> do not.
\<close>

section \<open>Hash tables\<close>

definition read_at :: "u8 list \<Rightarrow> nat \<Rightarrow> nat \<Rightarrow> u8 list option" where
  "read_at f pos n = (if pos + n \<le> length f then Some (take n (drop pos f)) else None)"

text \<open>A read whose result is verified, and one whose result is not looked at.\<close>

definition fread_verified :: "u8 list \<Rightarrow> nat \<Rightarrow> nat \<Rightarrow> (u8 list \<Rightarrow> 'a res) \<Rightarrow> 'a res" where
  "fread_verified f pos n k = (case read_at f pos n of None \<Rightarrow> Inl VerificationFailure | Some bs \<Rightarrow> k bs)"

definition fread_unchecked :: "u8 list \<Rightarrow> nat \<Rightarrow> nat \<Rightarrow> (u8 list \<Rightarrow> 'a res) \<Rightarrow> 'a res" where
  "fread_unchecked f pos n k = (case read_at f pos n of None \<Rightarrow> Inl MemFault | Some bs \<Rightarrow> k bs)"

record HashTableReader =
  htr_file :: "u8 list"
  htr_offset :: u32
  htr_header :: BucketListHeader

definition new_HashTableReader :: "u8 list \<Rightarrow> u32 \<Rightarrow> HashTableReader res" where
  "new_HashTableReader f offset =
     fread_verified f (unat offset) 4 (\<lambda>bs.
       Inr \<lparr>htr_file = f, htr_offset = offset,
            htr_header = BucketListHeader_toHostFormat (BucketListHeader_of_image bs)\<rparr>)"

text \<open>The copy constructor and the assignment operator duplicate the file and copy the rest.\<close>

definition copy_HashTableReader :: "HashTableReader \<Rightarrow> HashTableReader" where
  "copy_HashTableReader rhs =
     \<lparr>htr_file = htr_file rhs, htr_offset = htr_offset rhs, htr_header = htr_header rhs\<rparr>"

text \<open>\<open>n\<close> 32-bit values in disk format from a position on.\<close>

primrec read_u32s :: "nat \<Rightarrow> u8 list \<Rightarrow> nat \<Rightarrow> u32 list res" where
  "read_u32s 0 f pos = Inr []"
| "read_u32s (Suc n) f pos =
     fread_verified f pos 4 (\<lambda>bs.
       andThen (read_u32s n f (pos + 4)) (\<lambda>ps. Inr (htonl (of_le_bytes bs) # ps)))"

definition LookupElementPositions :: "HashTableReader \<Rightarrow> u64 \<Rightarrow> u32 list res" where
  "LookupElementPositions r hashKey =
     (let n = bl_num_buckets (htr_header r) in
      if n = 0 then Inl MemFault
      else
        let bucket_num = ucast (hashKey mod ucast n);
            bucketrec_offset = htr_offset r + 4 + 8 * bucket_num in
        fread_verified (htr_file r) (unat bucketrec_offset) 8 (\<lambda>bs.
          let b_rec = bucket_rec_toHostFormat (bucket_rec_of_image bs) in
          if chain_len b_rec = 0 then Inr []
          else read_u32s (unat (chain_len b_rec)) (htr_file r) (unat (bucket_position b_rec))))"

section \<open>The document table\<close>

text \<open>\<open>n\<close> bytes, read one at a time; the position is the one after a header.\<close>

primrec read_chars :: "nat \<Rightarrow> u8 list \<Rightarrow> nat \<Rightarrow> string res" where
  "read_chars 0 f pos = Inr []"
| "read_chars (Suc n) f pos =
     fread_verified f pos 1 (\<lambda>bs.
       andThen (read_chars n f (Suc pos)) (\<lambda>cs. Inr (char_of (unat (hd bs)) # cs)))"

primrec DocTable_LookupDocID_loop :: "u8 list \<Rightarrow> u64 \<Rightarrow> u32 list \<Rightarrow> string option res" where
  "DocTable_LookupDocID_loop f docid [] = Inr None"
| "DocTable_LookupDocID_loop f docid (next_offset # elements) =
     fread_unchecked f (unat next_offset) 10 (\<lambda>bs.
       let header = doctable_element_header_toHostFormat (doctable_element_header_of_image bs) in
       if de_docid header = docid then
         andThen (read_chars (unat (filename_len header)) f (unat next_offset + 10)) (\<lambda>s. Inr (Some s))
       else DocTable_LookupDocID_loop f docid elements)"

definition DocTableReader_LookupDocID :: "HashTableReader \<Rightarrow> u64 \<Rightarrow> string option res" where
  "DocTableReader_LookupDocID r docid =
     andThen (LookupElementPositions r docid) (DocTable_LookupDocID_loop (htr_file r) docid)"

section \<open>The table of the documents of a word\<close>

primrec DocIDTable_LookupDocID_loop :: "u8 list \<Rightarrow> u64 \<Rightarrow> u32 list \<Rightarrow> u32 list option res" where
  "DocIDTable_LookupDocID_loop f docid [] = Inr None"
| "DocIDTable_LookupDocID_loop f docid (next_offset # elements) =
     fread_unchecked f (unat next_offset) 12 (\<lambda>bs.
       let header = docid_element_header_toHostFormat (docid_element_header_of_image bs) in
       if del_docid header = docid then
         andThen (read_u32s (unat (num_positions header)) f (unat next_offset + 12)) (\<lambda>ps. Inr (Some ps))
       else DocIDTable_LookupDocID_loop f docid elements)"

definition DocIDTableReader_LookupDocID :: "HashTableReader \<Rightarrow> u64 \<Rightarrow> u32 list option res" where
  "DocIDTableReader_LookupDocID r docid =
     andThen (LookupElementPositions r docid) (DocIDTable_LookupDocID_loop (htr_file r) docid)"

text \<open>The inner loop of \<^verbatim>\<open>GetDocIDList\<close>: the chain elements with the numbers \<open>js\<close>.\<close>

primrec GetDocIDList_chain :: "u8 list \<Rightarrow> u32 \<Rightarrow> nat list \<Rightarrow> docid_element_header list res" where
  "GetDocIDList_chain f bucket_pos [] = Inr []"
| "GetDocIDList_chain f bucket_pos (j # js) =
     fread_verified f (unat bucket_pos + j * 4) 4 (\<lambda>bs.
       let ep = element_position_rec_toHostFormat (element_position_rec_of_image bs) in
       fread_verified f (unat (element_position ep)) 12 (\<lambda>bs.
         let doc_el = docid_element_header_toHostFormat (docid_element_header_of_image bs) in
         andThen (GetDocIDList_chain f bucket_pos js) (\<lambda>ds. Inr (doc_el # ds))))"

primrec GetDocIDList_loop :: "HashTableReader \<Rightarrow> nat list \<Rightarrow> docid_element_header list res" where
  "GetDocIDList_loop r [] = Inr []"
| "GetDocIDList_loop r (i # is) =
     fread_verified (htr_file r) (unat (htr_offset r) + 4 + i * 8) 8 (\<lambda>bs.
       let b_rec = bucket_rec_toHostFormat (bucket_rec_of_image bs) in
       andThen (GetDocIDList_chain (htr_file r) (bucket_position b_rec) [0..<unat (chain_len b_rec)]) (\<lambda>ds.
         andThen (GetDocIDList_loop r is) (\<lambda>ds'. Inr (ds @ ds'))))"

definition GetDocIDList :: "HashTableReader \<Rightarrow> docid_element_header list res" where
  "GetDocIDList r = GetDocIDList_loop r [0..<unat (bl_num_buckets (htr_header r))]"

section \<open>The index\<close>

primrec LookupWord_loop :: "u8 list \<Rightarrow> string \<Rightarrow> u32 list \<Rightarrow> HashTableReader option res" where
  "LookupWord_loop f wrd [] = Inr None"
| "LookupWord_loop f wrd (next_offset # elements) =
     fread_unchecked f (unat next_offset) 6 (\<lambda>bs.
       let header = worddocset_header_toHostFormat (worddocset_header_of_image bs) in
       if unat (word_len header) \<noteq> length wrd then LookupWord_loop f wrd elements
       else andThen (read_chars (unat (word_len header)) f (unat next_offset + 6)) (\<lambda>s.
         if wrd = s then
           andThen (new_HashTableReader f (next_offset + 6 + ucast (word_len header))) (\<lambda>r. Inr (Some r))
         else LookupWord_loop f wrd elements))"

definition LookupWord :: "HashTableReader \<Rightarrow> string \<Rightarrow> HashTableReader option res" where
  "LookupWord r wrd =
     andThen (LookupElementPositions r (hash_string wrd)) (LookupWord_loop (htr_file r) wrd)"

section \<open>The file\<close>

record FileIndexReader =
  fir_file :: "u8 list"
  fir_header :: IndexFileHeader

text \<open>
  The loop that validates the checksum, 512 bytes at a time. At the end of the file it reads nothing
  and goes on as long as \<open>left_to_read\<close> is positive; the fuel is used up only then.
\<close>

primrec validate_loop :: "nat \<Rightarrow> u8 list \<Rightarrow> nat \<Rightarrow> u32 \<Rightarrow> CRC32 \<Rightarrow> CRC32 res" where
  "validate_loop 0 f pos left_to_read crcobj = Inl OutOfFuel"
| "validate_loop (Suc n) f pos left_to_read crcobj =
     (if 0 < left_to_read then
        let buf = take 512 (drop pos f) in
        andThen (FoldBytes buf crcobj)
          (validate_loop n f (pos + length buf) (left_to_read - of_nat (length buf)))
      else Inr crcobj)"

definition new_FileIndexReader :: "u8 list option \<Rightarrow> bool \<Rightarrow> FileIndexReader res" where
  "new_FileIndexReader file validate =
     (case file of
        None \<Rightarrow> Inl VerificationFailure
      | Some f \<Rightarrow>
          fread_verified f 0 16 (\<lambda>bs.
            let header = IndexFileHeader_toHostFormat (IndexFileHeader_of_image bs);
                fir = \<lparr>fir_file = f, fir_header = header\<rparr> in
            Verify333 (magic_number header = MAGIC_NUMBER)
              (Verify333 (of_nat (length f) = 16 + doctable_size header + index_size header)
                (if validate then
                   andThen (validate_loop (length f + 2) f 16 (doctable_size header + index_size header) new_CRC32)
                     (\<lambda>crcobj. Verify333 (fst (GetFinalCRC crcobj) = checksum header) (Inr fir))
                 else Inr fir))))"

definition GetDocTableReader :: "FileIndexReader \<Rightarrow> HashTableReader res" where
  "GetDocTableReader fir = new_HashTableReader (fir_file fir) 16"

definition GetIndexTableReader :: "FileIndexReader \<Rightarrow> HashTableReader res" where
  "GetIndexTableReader fir = new_HashTableReader (fir_file fir) (16 + doctable_size (fir_header fir))"

end
