(* ===== verification/FileParser.thy ===== *)
theory FileParser
  imports HashTable
begin

text \<open>
  The file parser of \<^verbatim>\<open>hw2/fileparser.c\<close>: reading a file into a buffer and building the table of
  its words with their positions. The table maps word hashes to pointers; \<open>wps\<close> is the store of
  the \<^verbatim>\<open>WordPositions\<close> objects. The buffer is a list of characters that ends with \<^verbatim>\<open>NUL\<close>, and the
  pointers \<^verbatim>\<open>curptr\<close> and \<^verbatim>\<open>wordstart\<close> are indices into it.

  The operating system is a parameter: what \<^verbatim>\<open>stat\<close> says of a file, whether \<^verbatim>\<open>open\<close> succeeds, the
  \<^verbatim>\<open>errno\<close> that these two leave when they fail, and the outcome of every call of \<^verbatim>\<open>read\<close>, given the
  number of the call and of the bytes asked for. A call that succeeds leaves \<^verbatim>\<open>errno\<close> alone. The
  global \<^verbatim>\<open>FILTER_STOP_WORD\<close> is an argument.
\<close>

section \<open>Characters and stop words\<close>

abbreviation NUL :: char where
  "NUL \<equiv> CHR 0x00"

text \<open>\<^verbatim>\<open>isalpha\<close> and \<^verbatim>\<open>tolower\<close> of the C locale.\<close>

definition isalpha :: "char \<Rightarrow> bool" where
  "isalpha c = (let n = (of_char c :: nat) in (65 \<le> n \<and> n \<le> 90) \<or> (97 \<le> n \<and> n \<le> 122))"

definition tolower :: "char \<Rightarrow> char" where
  "tolower c = (let n = (of_char c :: nat) in if 65 \<le> n \<and> n \<le> 90 then char_of (n + 32) else c)"

definition STOPWORDS :: "string list" where
  "STOPWORDS = [''a'', ''an'', ''and'', ''are'', ''as'', ''at'', ''be'', ''by'', ''from'',
     ''has'', ''he'', ''in'', ''is'', ''it'', ''its'', ''of'', ''on'', ''that'',
     ''the'', ''to'', ''was'', ''were'', ''will'', ''with'']"

definition IsStopWord :: "string \<Rightarrow> bool" where
  "IsStopWord str = list_ex (\<lambda>w. str = w) STOPWORDS"

definition Unfiltered :: "bool \<Rightarrow> string \<Rightarrow> bool" where
  "Unfiltered FILTER_STOP_WORD w = (\<not> FILTER_STOP_WORD \<or> \<not> IsStopWord w)"

section \<open>The word table\<close>

record WordPositions =
  wp_word :: string
  positions :: "u32 cells"

record word_table =
  tab :: "ptr hash_table"
  wps :: "ptr \<rightharpoonup> WordPositions"

text \<open>The structures, with their words, that \<^verbatim>\<open>WordHTFree\<close> frees.\<close>

definition WordHTFree :: "ptr \<Rightarrow> ((ptr \<rightharpoonup> WordPositions) \<times> string list) res
    \<Rightarrow> ((ptr \<rightharpoonup> WordPositions) \<times> string list) res" where
  "WordHTFree pos w =
     andThen w (\<lambda>(st, words). load st pos (\<lambda>wp. Inr (st(pos := None), wp_word wp # words)))"

definition FreeWordHT :: "word_table \<Rightarrow> ((ptr \<rightharpoonup> WordPositions) \<times> string list) res" where
  "FreeWordHT t = andThen (FreeHashTable WordHTFree (tab t) (Inr (wps t, []))) snd"

definition AddToHashTable :: "word_table \<Rightarrow> string \<Rightarrow> u32 \<Rightarrow> mem \<Rightarrow> (word_table \<times> mem) res" where
  "AddToHashTable t word pos m =
     (let hashKey = hash_string word in
      andThen (LookupHashTable (tab t) hashKey m) (\<lambda>(retval, kv, m).
        if retval = 1 then
          (case kv of
             None \<Rightarrow> Inl MemFault
           | Some kv \<Rightarrow>
               load (wps t) (kv_value kv) (\<lambda>wp.
                 case cl_append pos (positions wp) m of (retval, ps, m) \<Rightarrow>
                   Verify333 retval
                     (Inr (t\<lparr>wps := (wps t)(kv_value kv \<mapsto> wp\<lparr>positions := ps\<rparr>)\<rparr>, m))))
        else
          (case malloc m of (wp, m) \<Rightarrow>
           case malloc m of (newstr, m) \<Rightarrow>
             if newstr = NULL then Inl MemFault
             else Verify333 (wp \<noteq> NULL)
               (case malloc m of (list, m) \<Rightarrow>
                  Verify333 (list \<noteq> NULL)
                    (case cl_append pos [] m of (retval, ps, m) \<Rightarrow>
                       Verify333 retval
                         (andThen (InsertHashTable (tab t) (kv_of hashKey wp) m)
                           (\<lambda>(retval, _, tab', m).
                              Verify333 (retval = 1)
                                (Inr (\<lparr>tab = tab',
                                       wps = (wps t)(wp \<mapsto> \<lparr>wp_word = word, positions = ps\<rparr>)\<rparr>,
                                      m)))))))))"

section \<open>Splitting the buffer into words\<close>

text \<open>The C string that starts at an index of the buffer.\<close>

definition c_string :: "string \<Rightarrow> nat \<Rightarrow> string" where
  "c_string content i = takeWhile (\<lambda>c. c \<noteq> NUL) (drop i content)"

function LoopAndInsert_loop ::
  "bool \<Rightarrow> string \<Rightarrow> nat \<Rightarrow> nat \<Rightarrow> word_table \<Rightarrow> mem \<Rightarrow> (word_table \<times> mem) res" where
  "LoopAndInsert_loop flt content curptr wordstart t m =
     (if curptr < length content then
        let c = content ! curptr in
        if \<not> isalpha c then
          let fileend = (c = NUL);
              content' = (if wordstart \<noteq> curptr then content[curptr := NUL] else content) in
          andThen
            (if wordstart \<noteq> curptr then
               let w = c_string content' wordstart in
               if Unfiltered flt w then AddToHashTable t w (of_nat wordstart) m else Inr (t, m)
             else Inr (t, m))
            (\<lambda>(t, m).
               if fileend then Inr (t, m)
               else LoopAndInsert_loop flt content' (curptr + 1) (curptr + 1) t m)
        else LoopAndInsert_loop flt (content[curptr := tolower c]) (curptr + 1) wordstart t m
      else Inl MemFault)"
  by pat_completeness auto
termination
  by (relation "measure (\<lambda>(flt, content, curptr, wordstart, t, m). length content - curptr)") auto

declare LoopAndInsert_loop.simps [simp del]

definition LoopAndInsert :: "bool \<Rightarrow> word_table \<Rightarrow> string \<Rightarrow> mem \<Rightarrow> (word_table \<times> mem) res" where
  "LoopAndInsert flt t content m = LoopAndInsert_loop flt content 0 0 t m"

section \<open>Reading a file\<close>

text \<open>
  A call of \<^verbatim>\<open>read\<close> fails (\<open>True\<close>: with \<^verbatim>\<open>EINTR\<close> or \<^verbatim>\<open>EAGAIN\<close>) or delivers bytes; no bytes mean the
  end of the file.
\<close>

datatype read_outcome = ReadError bool | ReadBytes string

text \<open>
  The \<^verbatim>\<open>errno\<close> of a failed \<^verbatim>\<open>read\<close>. The program only asks whether it is one of \<^verbatim>\<open>EINTR\<close> and \<^verbatim>\<open>EAGAIN\<close>,
  so one value stands for both and one for all others.
\<close>

definition read_errno :: "bool \<Rightarrow> int" where
  "read_errno again = (if again then EINTR else EIO)"

lemma retriable_read_errno [simp]: "retriable (read_errno again) = again"
  by (simp add: read_errno_def)

text \<open>What \<^verbatim>\<open>stat\<close> gives: the size and whether the file is a regular one.\<close>

record file_os =
  os_stat :: "(nat \<times> bool) option"
  os_open :: bool
  os_errno :: int
  os_read :: "nat \<Rightarrow> nat \<Rightarrow> read_outcome"

text \<open>
  The read loop; \<open>i\<close> is the number of the next call of \<^verbatim>\<open>read\<close>, \<open>buf\<close> the bytes read so far.
  \<open>None\<close> is the return after an error.
\<close>

primrec ReadFile_loop ::
  "nat \<Rightarrow> (nat \<Rightarrow> nat \<Rightarrow> read_outcome) \<Rightarrow> nat \<Rightarrow> string \<Rightarrow> nat \<Rightarrow> mem \<Rightarrow> (string option \<times> mem) res" where
  "ReadFile_loop 0 rd i buf left_to_read m = Inl OutOfFuel"
| "ReadFile_loop (Suc n) rd i buf left_to_read m =
     (if 0 < left_to_read then
        (case rd i left_to_read of
           ReadError again \<Rightarrow>
             let m = m\<lparr>errno := read_errno again\<rparr> in
             if retriable (errno m) then ReadFile_loop n rd (Suc i) buf left_to_read m
             else Inr (None, m)
         | ReadBytes bytes \<Rightarrow>
             if bytes = [] then Inr (Some buf, m)
             else if left_to_read < length bytes then Inl MemFault
             else ReadFile_loop n rd (Suc i) (buf @ bytes) (left_to_read - length bytes) m)
      else Inr (Some buf, m))"

text \<open>
  The buffer with the terminator at index \<open>*size\<close>, where the number of bytes read is cut to 32
  bits, and that size.
\<close>

definition ReadFile :: "nat \<Rightarrow> file_os \<Rightarrow> mem \<Rightarrow> ((string \<times> u32) option \<times> mem) res" where
  "ReadFile fuel os m =
     (case os_stat os of
        None \<Rightarrow> Inr (None, m\<lparr>errno := os_errno os\<rparr>)
      | Some (st_size, isreg) \<Rightarrow>
          if \<not> isreg then Inr (None, m)
          else if \<not> os_open os then Inr (None, m\<lparr>errno := os_errno os\<rparr>)
          else case malloc m of (buf, m) \<Rightarrow>
            if buf = NULL then Inr (None, m)
            else andThen (ReadFile_loop fuel (os_read os) 0 [] st_size m) (\<lambda>(r, m).
              case r of
                None \<Rightarrow> Inr (None, m)
              | Some bytes \<Rightarrow>
                  let size = of_nat (length bytes) :: u32 in
                  Inr (Some ((bytes @ [NUL])[unat size := NUL], size), m)))"

definition ASCII_UPPER_BOUND :: nat where
  "ASCII_UPPER_BOUND = 0x7F"

definition BuildWordHT :: "nat \<Rightarrow> bool \<Rightarrow> file_os \<Rightarrow> mem \<Rightarrow> (word_table option \<times> mem) res" where
  "BuildWordHT fuel flt os m =
     andThen (ReadFile fuel os m) (\<lambda>(r, m).
       case r of
         None \<Rightarrow> Inr (None, m)
       | Some (filecontent, filelen) \<Rightarrow>
           if list_ex (\<lambda>c. c = NUL \<or> ASCII_UPPER_BOUND < of_char c) (take (unat filelen) filecontent)
           then Inr (None, m)
           else case AllocateHashTable 64 m of
             (None, m) \<Rightarrow> Inl VerificationFailure
           | (Some ht, m) \<Rightarrow>
               andThen (LoopAndInsert flt \<lparr>tab = ht, wps = Map.empty\<rparr> filecontent m) (\<lambda>(t, m).
                 if NumElementsInHashTable (tab t) = 0
                 then andThen (FreeWordHT t) (\<lambda>_. Inr (None, m))
                 else Inr (Some t, m)))"

end
