(* ===== verification/DocTable.thy ===== *)
theory DocTable
  imports HashTableProps
begin

text \<open>
  The document table of \<^verbatim>\<open>hw2/doctable.c\<close>: two hash tables that map document ids to names and
  hashes of names to ids. The abstraction of a table is the list of the registered names in the
  order of their registration; the id of a document is its position in this list, from 1.
\<close>

section \<open>The operations\<close>

record doc_table =
  docid_to_docname :: "string hash_table"
  docname_to_docid :: "u64 hash_table"
  max_id :: u64

definition AllocateDocTable :: "mem \<Rightarrow> (doc_table \<times> mem) res" where
  "AllocateDocTable m =
     (case malloc m of (dt, m) \<Rightarrow>
        Verify333 (dt \<noteq> NULL)
          (case AllocateHashTable 1024 m of (d2n, m) \<Rightarrow>
           case AllocateHashTable 1024 m of (n2d, m) \<Rightarrow>
             (case d2n of None \<Rightarrow> Inl VerificationFailure
              | Some d2n \<Rightarrow>
                  (case n2d of None \<Rightarrow> Inl VerificationFailure
                   | Some n2d \<Rightarrow>
                       Inr (\<lparr>docid_to_docname = d2n, docname_to_docid = n2d, max_id = 0\<rparr>, m)))))"

text \<open>What \<^verbatim>\<open>DocNameFree\<close> and \<^verbatim>\<open>DocIDFree\<close> free, as the lists of names and ids handed to them.\<close>

definition FreeDocTable :: "doc_table \<Rightarrow> (string list \<times> u64 list) res" where
  "FreeDocTable table =
     andThen (FreeHashTable (#) (docid_to_docname table) []) (\<lambda>(_, names).
       andThen (FreeHashTable (#) (docname_to_docid table) []) (\<lambda>(_, ids).
         Inr (names, ids)))"

definition DTNumDocsInDocTable :: "doc_table \<Rightarrow> u32" where
  "DTNumDocsInDocTable table = NumElementsInHashTable (docid_to_docname table)"

definition DTLookupDocumentName :: "doc_table \<Rightarrow> string \<Rightarrow> mem \<Rightarrow> (u64 \<times> mem) res" where
  "DTLookupDocumentName table docname m =
     andThen (LookupHashTable (docname_to_docid table) (hash_string docname) m) (\<lambda>(res, kv, m).
       if res = 1 then (case kv of None \<Rightarrow> Inl MemFault | Some kv \<Rightarrow> Inr (kv_value kv, m))
       else Inr (0, m))"

definition DTLookupDocID :: "doc_table \<Rightarrow> u64 \<Rightarrow> mem \<Rightarrow> (string option \<times> mem) res" where
  "DTLookupDocID table docid m =
     Verify333 (docid \<noteq> 0)
       (andThen (LookupHashTable (docid_to_docname table) docid m) (\<lambda>(res, kv, m).
          if res = 1 then (case kv of None \<Rightarrow> Inl MemFault | Some kv \<Rightarrow> Inr (Some (kv_value kv), m))
          else Inr (None, m)))"

definition DTRegisterDocumentName ::
  "doc_table \<Rightarrow> string \<Rightarrow> mem \<Rightarrow> (u64 \<times> doc_table \<times> mem) res" where
  "DTRegisterDocumentName table docname m =
     (case malloc m of (docid, m) \<Rightarrow>
      case malloc m of (doccopy, m) \<Rightarrow>
        Verify333 (doccopy \<noteq> NULL)
          (Verify333 (docid \<noteq> NULL)
            (andThen (DTLookupDocumentName table docname m) (\<lambda>(res, m).
               if res \<noteq> 0 then Inr (res, table, m)
               else
                 let docid = max_id table + 1; table = table\<lparr>max_id := docid\<rparr> in
                 andThen (InsertHashTable (docid_to_docname table) (kv_of docid docname) m)
                   (\<lambda>(retval, _, d2n, m).
                     let table = table\<lparr>docid_to_docname := d2n\<rparr> in
                     Verify333 (retval = 1)
                       (andThen (InsertHashTable (docname_to_docid table)
                           (kv_of (hash_string docname) docid) m)
                         (\<lambda>(retval, _, n2d, m).
                           Verify333 (retval = 1)
                             (Inr (docid, table\<lparr>docname_to_docid := n2d\<rparr>, m)))))))))"

definition DTGetDocidTable :: "doc_table \<Rightarrow> string hash_table" where
  "DTGetDocidTable table = docid_to_docname table"

section \<open>The abstraction\<close>

text \<open>The id of the name with a given hash, and the name with a given id.\<close>

definition name_of_id :: "string list \<Rightarrow> u64 \<rightharpoonup> string" where
  "name_of_id ns d = (if 0 < unat d \<and> unat d \<le> length ns then Some (ns ! (unat d - 1)) else None)"

primrec id_of_hash :: "nat \<Rightarrow> string list \<Rightarrow> u64 \<rightharpoonup> u64" where
  "id_of_hash i [] key = None"
| "id_of_hash i (n # ns) key =
     (if hash_string n = key then Some (of_nat (Suc i)) else id_of_hash (Suc i) ns key)"

definition dt_rep :: "doc_table \<Rightarrow> string list \<Rightarrow> mem \<Rightarrow> bool" where
  "dt_rep t ns m \<longleftrightarrow>
     ht_inv (docid_to_docname t) m \<and> ht_inv (docname_to_docid t) m \<and> sized 1024 (docid_to_docname t) \<and>
     length ns < 2 ^ 64 \<and> max_id t = of_nat (length ns) \<and> distinct (map hash_string ns) \<and>
     ht_map (docid_to_docname t) = name_of_id ns \<and> ht_map (docname_to_docid t) = id_of_hash 0 ns"

lemma dt_rep_later: "dt_rep t ns m \<Longrightarrow> later m m' \<Longrightarrow> dt_rep t ns m'"
  by (auto simp: dt_rep_def ht_inv_later)

lemma unat_of_nat_u64: "n < 2 ^ 64 \<Longrightarrow> unat (of_nat n :: u64) = n"
  by (simp add: unat_of_nat take_bit_nat_eq_self)

lemma id_of_hash_append:
  "id_of_hash i (ns @ [n]) key =
     (case id_of_hash i ns key of Some d \<Rightarrow> Some d
      | None \<Rightarrow> if hash_string n = key then Some (of_nat (Suc (i + length ns))) else None)"
  by (induction ns arbitrary: i) (simp_all split: option.splits)

lemma id_of_hash_None: "id_of_hash i ns key = None \<longleftrightarrow> key \<notin> hash_string ` set ns"
  by (induction ns arbitrary: i) auto

lemma id_of_hash_nth:
  "distinct (map hash_string ns) \<Longrightarrow> j < length ns \<Longrightarrow>
     id_of_hash i ns (hash_string (ns ! j)) = Some (of_nat (Suc (i + j)))"
proof (induction ns arbitrary: i j)
  case (Cons n ns)
  show ?case
  proof (cases j)
    case (Suc k)
    with Cons.prems have "hash_string n \<noteq> hash_string (ns ! k)" by auto
    with Suc Cons.prems Cons.IH [of k "Suc i"] show ?thesis by simp
  qed simp
qed simp

lemma name_of_id_append:
  assumes "Suc (length ns) < 2 ^ 64"
  shows "name_of_id (ns @ [n]) = (name_of_id ns)(of_nat (Suc (length ns)) \<mapsto> n)"
proof (rule ext)
  fix d :: u64
  have u: "unat (of_nat (Suc (length ns)) :: u64) = Suc (length ns)"
    using assms by (rule unat_of_nat_u64)
  have "d = of_nat (Suc (length ns)) \<longleftrightarrow> unat d = Suc (length ns)"
    by (simp only: word_unat_eq_iff u)
  then show "name_of_id (ns @ [n]) d = ((name_of_id ns)(of_nat (Suc (length ns)) \<mapsto> n)) d"
    by (auto simp: name_of_id_def nth_append u simp del: of_nat_Suc)
qed

section \<open>The operations on the abstraction\<close>

lemma AllocateDocTable_rep:
  assumes "reliable m"
  obtains t m' where "AllocateDocTable m = Inr (t, m')" "later m m'" "dt_rep t [] m'"
proof -
  let ?t = "\<lparr>docid_to_docname = empty_table 1024, docname_to_docid = empty_table 1024, max_id = 0\<rparr>"
  obtain m' where "AllocateDocTable m = Inr (?t, m')" "later m m'"
    using assms by (simp add: AllocateDocTable_def malloc_reliable AllocateHashTable_reliable)
  moreover have "dt_rep ?t [] m'"
    by (auto simp: dt_rep_def name_of_id_def fun_eq_iff)
  ultimately show thesis by (rule that)
qed

lemma DTLookupDocumentName_rep:
  assumes "dt_rep t ns m" "reliable m"
  obtains m' where "later m m'" "DTLookupDocumentName t name m
     = Inr (case id_of_hash 0 ns (hash_string name) of None \<Rightarrow> 0 | Some d \<Rightarrow> d, m')"
proof -
  from assms have "ht_inv (docname_to_docid t) m" and M: "ht_map (docname_to_docid t) = id_of_hash 0 ns"
    by (simp_all add: dt_rep_def)
  from this(1) assms(2) obtain m' where "later m m'"
    "LookupHashTable (docname_to_docid t) (hash_string name) m
       = Inr (case id_of_hash 0 ns (hash_string name) of
         None \<Rightarrow> (0, None, m') | Some v \<Rightarrow> (1, Some (kv_of (hash_string name) v), m'))"
    unfolding M [symmetric] by (rule ht.lookupE)
  then show thesis
    by (intro that [of m']) (simp_all add: DTLookupDocumentName_def split: option.splits)
qed

lemma DTLookupDocID_rep:
  assumes "dt_rep t ns m" "reliable m" "d \<noteq> 0"
  obtains m' where "later m m'" "DTLookupDocID t d m = Inr (name_of_id ns d, m')"
proof -
  from assms have "ht_inv (docid_to_docname t) m" and M: "ht_map (docid_to_docname t) = name_of_id ns"
    by (simp_all add: dt_rep_def)
  from this(1) assms(2) obtain m' where "later m m'"
    "LookupHashTable (docid_to_docname t) d m = Inr (case name_of_id ns d of
         None \<Rightarrow> (0, None, m') | Some v \<Rightarrow> (1, Some (kv_of d v), m'))"
    unfolding M [symmetric] by (rule ht.lookupE)
  with assms(3) show thesis
    by (intro that [of m']) (simp_all add: DTLookupDocID_def split: option.splits)
qed

lemma id_of_hash_nonzero:
  "id_of_hash i ns key = Some d \<Longrightarrow> i + length ns < 2 ^ 64 \<Longrightarrow> d \<noteq> 0"
proof (induction ns arbitrary: i)
  case (Cons n ns)
  show ?case
  proof (cases "hash_string n = key")
    case True
    with Cons.prems have "d = of_nat (Suc i)" "Suc i < 2 ^ 64" by simp_all
    with unat_of_nat_u64 [of "Suc i"] show ?thesis by (metis unat_0 nat.distinct(1))
  next
    case False
    with Cons.prems Cons.IH [of "Suc i"] show ?thesis by simp
  qed
qed simp

text \<open>Registering a name whose hash is known gives the old id; otherwise the name is appended.\<close>

lemma DTRegisterDocumentName_rep:
  assumes rep: "dt_rep t ns m" and rel: "reliable m" and room: "Suc (length ns) < 2 ^ 64"
  shows "\<exists>t' m'. later m m' \<and>
     (case id_of_hash 0 ns (hash_string name) of
        Some d \<Rightarrow> DTRegisterDocumentName t name m = Inr (d, t, m')
      | None \<Rightarrow> DTRegisterDocumentName t name m = Inr (of_nat (Suc (length ns)), t', m') \<and>
          dt_rep t' (ns @ [name]) m')"
proof -
  let ?h = "hash_string name" and ?id = "of_nat (Suc (length ns)) :: u64"
  note R = rep [unfolded dt_rep_def]
  let ?m = "m\<lparr>clock := Suc (Suc (clock m))\<rparr>"
  have "dt_rep t ns ?m" using rep by (rule dt_rep_later) simp
  then obtain m1 where m1: "later ?m m1" "DTLookupDocumentName t name ?m
     = Inr (case id_of_hash 0 ns ?h of None \<Rightarrow> 0 | Some d \<Rightarrow> d, m1)"
    by (rule DTLookupDocumentName_rep) (use rel in simp)
  have lat: "later m m1" using m1(1) by (simp add: later_def)
  have rel1: "reliable m1" using lat rel by (rule later_reliable)
  show ?thesis
  proof (cases "id_of_hash 0 ns ?h")
    case (Some d)
    then have "d \<noteq> 0" using id_of_hash_nonzero [of 0 ns ?h] R by auto
    then have "DTRegisterDocumentName t name m = Inr (d, t, m1)"
      using rel m1(2) Some by (simp add: DTRegisterDocumentName_def malloc_reliable)
    with Some lat show ?thesis by auto
  next
    case None
    have new: "ht_map (docid_to_docname t) ?id = None"
      using R unat_of_nat_u64 [OF room] by (simp add: name_of_id_def del: of_nat_Suc)
    have d2n: "ht_inv (docid_to_docname t) m1" using R lat by (auto intro: ht_inv_later)
    from this rel1 new obtain d2n m2 where i1: "later m1 m2" "ht_inv d2n m2" "reliable m2"
      "ht_map d2n = (ht_map (docid_to_docname t))(?id \<mapsto> name)"
      "InsertHashTable (docid_to_docname t) (kv_of ?id name) m1 = Inr (1, None, d2n, m2)"
      by (rule ht.insert_newE)
    have new2: "ht_map (docname_to_docid t) ?h = None" using R None by simp
    have "ht_inv (docname_to_docid t) m2"
      using R lat i1(1) by (meson ht_inv_later)
    from this i1(3) new2 obtain n2d m3 where i2: "later m2 m3" "ht_inv n2d m3" "reliable m3"
      "ht_map n2d = (ht_map (docname_to_docid t))(?h \<mapsto> ?id)"
      "InsertHashTable (docname_to_docid t) (kv_of ?h ?id) m2 = Inr (1, None, n2d, m3)"
      by (rule ht.insert_newE)
    let ?t = "\<lparr>docid_to_docname = d2n, docname_to_docid = n2d, max_id = ?id\<rparr>"
    have mx: "max_id t + 1 = ?id" using R by simp
    have "DTRegisterDocumentName t name m = Inr (?id, ?t, m3)"
      using rel m1(2) None i1(5) i2(5) mx
      by (simp add: DTRegisterDocumentName_def malloc_reliable Let_def del: of_nat_Suc)
    moreover have "dt_rep ?t (ns @ [name]) m3"
    proof -
      have "ht_inv d2n m3" using i1(2) i2(1) by (rule ht_inv_later)
      moreover have "distinct (map hash_string (ns @ [name]))"
        using R None by (auto simp: id_of_hash_None)
      moreover have "ht_map n2d = id_of_hash 0 (ns @ [name])"
        using i2(4) R None by (auto simp: fun_eq_iff id_of_hash_append split: option.splits)
      moreover have "ht_map d2n = name_of_id (ns @ [name])"
        using i1(4) R name_of_id_append [OF room] by simp
      moreover have "sized 1024 d2n"
        using InsertHashTable_sized [OF d2n rel1 _ _ i1(5)] R by simp
      ultimately show ?thesis using i2(2) room by (simp add: dt_rep_def)
    qed
    moreover have "later m m3" using lat i1(1) i2(1) by (meson later_trans)
    ultimately show ?thesis using None by auto
  qed
qed

section \<open>Registering documents\<close>

primrec register_each :: "string list \<Rightarrow> doc_table \<Rightarrow> mem \<Rightarrow> (u64 list \<times> doc_table \<times> mem) res" where
  "register_each [] t m = Inr ([], t, m)"
| "register_each (n # names) t m =
     andThen (DTRegisterDocumentName t n m) (\<lambda>(d, t, m).
       andThen (register_each names t m) (\<lambda>(ids, t, m). Inr (d # ids, t, m)))"

text \<open>The names that get an id: those whose hash is not the hash of an earlier name.\<close>

definition add_name :: "string list \<Rightarrow> string \<Rightarrow> string list" where
  "add_name ns n = (if hash_string n \<in> hash_string ` set ns then ns else ns @ [n])"

lemma add_name_hash: "hash_string ` set (add_name ns n) = insert (hash_string n) (hash_string ` set ns)"
  by (auto simp: add_name_def)

lemma set_add_name: "set (add_name ns n) \<subseteq> insert n (set ns)"
  by (auto simp: add_name_def)

lemma id_of_hash_add_name:
  "id_of_hash 0 ns key = Some d \<Longrightarrow> id_of_hash 0 (add_name ns n) key = Some d"
  by (auto simp: add_name_def id_of_hash_append)

lemma id_of_hash_add_names:
  "id_of_hash 0 ns key = Some d \<Longrightarrow> id_of_hash 0 (foldl add_name ns names) key = Some d"
  by (induction names arbitrary: ns) (simp_all add: id_of_hash_add_name)

lemma length_add_name: "length (add_name ns n) \<le> Suc (length ns)"
  by (simp add: add_name_def)

lemma add_names_hash: "hash_string ` set (foldl add_name ns names) = hash_string ` (set ns \<union> set names)"
  by (induction names arbitrary: ns) (simp_all add: add_name_hash image_Un)

lemma set_add_names: "set (foldl add_name ns names) \<subseteq> set ns \<union> set names"
  by (induction names arbitrary: ns) (use set_add_name in fastforce)+

lemma DTRegisterDocumentName_add:
  assumes "dt_rep t ns m" "reliable m" "Suc (length ns) < 2 ^ 64"
  obtains d t' m' where "DTRegisterDocumentName t name m = Inr (d, t', m')" "later m m'"
    "dt_rep t' (add_name ns name) m'" "id_of_hash 0 (add_name ns name) (hash_string name) = Some d"
proof -
  from DTRegisterDocumentName_rep [OF assms, of name] obtain t' m' where l: "later m m'" and
    r: "case id_of_hash 0 ns (hash_string name) of
        Some d \<Rightarrow> DTRegisterDocumentName t name m = Inr (d, t, m')
      | None \<Rightarrow> DTRegisterDocumentName t name m = Inr (of_nat (Suc (length ns)), t', m') \<and>
          dt_rep t' (ns @ [name]) m'" by blast
  show thesis
  proof (cases "id_of_hash 0 ns (hash_string name)")
    case None
    then have "add_name ns name = ns @ [name]" by (auto simp: add_name_def id_of_hash_None)
    with None r l show thesis
      by (intro that [of "of_nat (Suc (length ns))" t' m']) (simp_all add: id_of_hash_append)
  next
    case (Some d)
    then have "hash_string name \<in> hash_string ` set ns" by (metis id_of_hash_None option.distinct(1))
    with Some r l dt_rep_later [OF assms(1) l] show thesis by (intro that) (simp_all add: add_name_def)
  qed
qed

lemma register_each_rep:
  assumes "dt_rep t ns m" "reliable m" "length ns + length names < 2 ^ 64"
  shows "\<exists>ids t' m'. register_each names t m = Inr (ids, t', m') \<and> later m m' \<and>
     dt_rep t' (foldl add_name ns names) m' \<and>
     map (id_of_hash 0 (foldl add_name ns names)) (map hash_string names) = map Some ids"
  using assms
proof (induction names arbitrary: t ns m)
  case (Cons n names)
  have "Suc (length ns) < 2 ^ 64" using Cons.prems(3) by simp
  with Cons.prems(1,2) obtain d t1 m1 where r: "DTRegisterDocumentName t n m = Inr (d, t1, m1)"
    "later m m1" "dt_rep t1 (add_name ns n) m1" "id_of_hash 0 (add_name ns n) (hash_string n) = Some d"
    by (rule DTRegisterDocumentName_add [where name = n])
  have rel1: "reliable m1" using r(2) Cons.prems(2) by (rule later_reliable)
  have "length (add_name ns n) + length names < 2 ^ 64"
    using Cons.prems(3) length_add_name [of ns n] by simp
  from Cons.IH [OF r(3) rel1 this] obtain ids t2 m2 where
    "register_each names t1 m1 = Inr (ids, t2, m2)" "later m1 m2"
    "dt_rep t2 (foldl add_name (add_name ns n) names) m2"
    "map (id_of_hash 0 (foldl add_name (add_name ns n) names)) (map hash_string names) = map Some ids"
    by blast
  with r id_of_hash_add_names [OF r(4)] show ?case
    by (intro exI [of _ "d # ids"] exI [of _ t2] exI [of _ m2]) (auto intro: later_trans)
qed auto

lemma id_of_hash_Some:
  "id_of_hash i ns key = Some d \<Longrightarrow> \<exists>j < length ns. hash_string (ns ! j) = key \<and> d = of_nat (Suc (i + j))"
proof (induction ns arbitrary: i)
  case (Cons n ns)
  show ?case
  proof (cases "hash_string n = key")
    case True
    with Cons.prems show ?thesis by auto
  next
    case False
    with Cons.prems Cons.IH [of "Suc i"] obtain j where
      "j < length ns" "hash_string (ns ! j) = key" "d = of_nat (Suc (Suc i + j))" by auto
    then show ?thesis by (intro exI [of _ "Suc j"]) simp
  qed
qed simp

lemma name_of_id_of_hash:
  assumes "id_of_hash 0 ns (hash_string n) = Some d" "inj_on hash_string (insert n (set ns))"
    and "length ns < 2 ^ 64"
  shows "name_of_id ns d = Some n"
proof -
  obtain j where j: "j < length ns" "hash_string (ns ! j) = hash_string n" "d = of_nat (Suc j)"
    using id_of_hash_Some [OF assms(1)] by auto
  then have "ns ! j = n" using inj_onD [OF assms(2) j(2)] by simp
  moreover have "unat d = Suc j" using j assms(3) by (simp only: unat_of_nat_u64)
  ultimately show ?thesis using j(1) by (simp add: name_of_id_def)
qed

lemma DTNumDocs_rep:
  assumes "dt_rep t ns m"
  shows "DTNumDocsInDocTable t = of_nat (length ns)"
proof -
  have "length ns < 2 ^ 64" and M: "ht_map (docid_to_docname t) = name_of_id ns"
    using assms by (simp_all add: dt_rep_def)
  have "dom (name_of_id ns) = of_nat ` {1..length ns}"
  proof (intro set_eqI iffI)
    fix d assume "d \<in> dom (name_of_id ns)"
    then have "unat d \<in> {1..length ns}" by (auto simp: name_of_id_def split: if_splits)
    moreover have "d = of_nat (unat d)" by simp
    ultimately show "d \<in> of_nat ` {1..length ns}" by blast
  next
    fix d :: u64 assume "d \<in> of_nat ` {1..length ns}"
    then obtain i where "d = of_nat i" "1 \<le> i" "i \<le> length ns" by auto
    with \<open>length ns < 2 ^ 64\<close> show "d \<in> dom (name_of_id ns)"
      by (simp add: name_of_id_def unat_of_nat_u64 dom_def)
  qed
  moreover have "inj_on (of_nat :: nat \<Rightarrow> u64) {1..length ns}"
  proof (rule inj_onI)
    fix i j assume "i \<in> {1..length ns}" "j \<in> {1..length ns}" "(of_nat i :: u64) = of_nat j"
    with \<open>length ns < 2 ^ 64\<close> show "i = j"
      by (metis atLeastAtMost_iff le_less_trans unat_of_nat_u64)
  qed
  ultimately have "card (dom (name_of_id ns)) = length ns" by (simp add: card_image)
  then show ?thesis
    using assms NumElements_card [of "docid_to_docname t" m] M
    by (simp add: dt_rep_def DTNumDocsInDocTable_def)
qed

text \<open>
  C28: Document ids and names are a round trip: after registering any list of names (repetitions
  allowed) whose hashes do not collide, looking a name up gives the id its registration returned,
  looking that id up gives the name back, and the table counts the distinct names, as long as
  memory does not run out.
\<close>

theorem DocTable_roundtrip:
  assumes "reliable m" "inj_on hash_string (set names)" "length names < 2 ^ 64" "i < length names"
  shows "\<exists>t0 m0 ids t m1 m2 m3. AllocateDocTable m = Inr (t0, m0) \<and>
     register_each names t0 m0 = Inr (ids, t, m1) \<and>
     DTLookupDocumentName t (names ! i) m1 = Inr (ids ! i, m2) \<and>
     DTLookupDocID t (ids ! i) m2 = Inr (Some (names ! i), m3) \<and>
     DTNumDocsInDocTable t = of_nat (card (set names))"
proof -
  obtain t0 m0 where a: "AllocateDocTable m = Inr (t0, m0)" "later m m0" "dt_rep t0 [] m0"
    using AllocateDocTable_rep [OF assms(1)] .
  let ?ns = "foldl add_name [] names"
  have rel0: "reliable m0" using a(2) assms(1) by (rule later_reliable)
  obtain ids t m1 where r: "register_each names t0 m0 = Inr (ids, t, m1)" "later m0 m1"
    "dt_rep t ?ns m1" "map (id_of_hash 0 ?ns) (map hash_string names) = map Some ids"
    using register_each_rep [OF a(3) rel0, of names] assms(3) by auto
  have rel1: "reliable m1" using r(2) rel0 by (rule later_reliable)
  have d: "id_of_hash 0 ?ns (hash_string (names ! i)) = Some (ids ! i)"
    using r(4) assms(4) by (metis length_map nth_map)
  have sub: "set ?ns \<subseteq> set names" using set_add_names [of "[]" names] by simp
  have R: "length ?ns < 2 ^ 64" "distinct (map hash_string ?ns)"
    using r(3) by (simp_all add: dt_rep_def)
  have "ids ! i \<noteq> 0" using id_of_hash_nonzero [OF d] R(1) by simp
  obtain m2 where l1: "later m1 m2" "DTLookupDocumentName t (names ! i) m1 = Inr (ids ! i, m2)"
    using DTLookupDocumentName_rep [OF r(3) rel1, of "names ! i"] d by auto
  have "inj_on hash_string (insert (names ! i) (set ?ns))"
    using assms(2,4) sub by (meson inj_on_subset insert_subset nth_mem)
  then have n: "name_of_id ?ns (ids ! i) = Some (names ! i)"
    using name_of_id_of_hash [OF d] R(1) by blast
  obtain m3 where l2: "DTLookupDocID t (ids ! i) m2 = Inr (Some (names ! i), m3)"
    using DTLookupDocID_rep [OF dt_rep_later [OF r(3) l1(1)] later_reliable [OF l1(1) rel1]
        \<open>ids ! i \<noteq> 0\<close>] n by auto
  have "length ?ns = card (hash_string ` set ?ns)"
    using R(2) by (metis distinct_card image_set length_map)
  also have "\<dots> = card (set names)"
    using assms(2) add_names_hash [of "[]" names] by (simp add: card_image)
  finally have "DTNumDocsInDocTable t = of_nat (card (set names))"
    using DTNumDocs_rep [OF r(3)] by simp
  with a(1) r(1) l1(2) l2 show ?thesis by blast
qed

lemma DocTable_roundtrip_witness:
  "\<exists>t0 m0 ids t m1 m2 m3. AllocateDocTable fresh_mem = Inr (t0, m0) \<and>
     register_each [''a.txt'', ''b.txt'', ''a.txt''] t0 m0 = Inr (ids, t, m1) \<and>
     DTLookupDocumentName t ''b.txt'' m1 = Inr (ids ! 1, m2) \<and>
     DTLookupDocID t (ids ! 1) m2 = Inr (Some ''b.txt'', m3) \<and> DTNumDocsInDocTable t = 2"
proof -
  have h: "hash_string ''a.txt'' \<noteq> hash_string ''b.txt''"
    by (simp add: hash_string_def bytes_of_def FNVHash64_def fnv_octet_def FNV1_64_INIT_def
        FNV_64_PRIME_def)
  then have "inj_on hash_string (set [''a.txt'', ''b.txt'', ''a.txt''])" by auto
  moreover have "card (set [''a.txt'', ''b.txt'', ''a.txt'']) = 2" by (simp add: card_insert_if)
  ultimately show ?thesis
    using DocTable_roundtrip [of fresh_mem "[''a.txt'', ''b.txt'', ''a.txt'']" 1] by simp
qed

end
