(* ===== verification/MemIndex.thy ===== *)
theory MemIndex
  imports HashTableProps LinkedListSort
begin

text \<open>
  The in-memory inverted index of \<^verbatim>\<open>hw2/memindex.c\<close>. The index is a hash table from word hashes to
  pointers; each pointer leads to a \<^verbatim>\<open>WordDocSet\<close>, which holds the word and a hash table from
  document ids to the list of the word's positions in that document. \<open>wdss\<close> is the store of the
  \<^verbatim>\<open>WordDocSet\<close> objects. The positions of a list are not changed once the index owns it.

  A query returns \<open>None\<close> for \<^verbatim>\<open>NULL\<close>, or the list of pointers to the search results with the
  store of those results.
\<close>

section \<open>The structures\<close>

record SearchResult =
  docid :: u64
  rank :: u32

record WordDocSet =
  word :: string
  docIDs :: "u32 cells hash_table"

record mem_index =
  index :: "ptr hash_table"
  wdss :: "ptr \<rightharpoonup> WordDocSet"

type_synonym results = "ptr cells \<times> (ptr \<rightharpoonup> SearchResult)"

definition MISearchListComparator :: "SearchResult \<Rightarrow> SearchResult \<Rightarrow> int" where
  "MISearchListComparator sr1 sr2 =
     (if rank sr1 > rank sr2 then 1 else if rank sr1 < rank sr2 then -1 else 0)"

text \<open>Lists are handed to \<open>MIListFree\<close>, words and structures are freed by \<open>MIFree\<close>.\<close>

definition MIListFree :: "u32 cells \<Rightarrow> unit \<Rightarrow> unit" where
  "MIListFree list w = w"

definition MIFree :: "ptr \<Rightarrow> ((ptr \<rightharpoonup> WordDocSet) \<times> string list) res
    \<Rightarrow> ((ptr \<rightharpoonup> WordDocSet) \<times> string list) res" where
  "MIFree p w =
     andThen w (\<lambda>(wds, words).
       load wds p (\<lambda>wd.
         andThen (FreeHashTable MIListFree (docIDs wd) ()) (\<lambda>_.
           Inr (wds(p := None), word wd # words))))"

definition AllocateMemIndex :: "mem \<Rightarrow> (mem_index \<times> mem) res" where
  "AllocateMemIndex m =
     (case AllocateHashTable 128 m of
        (None, m) \<Rightarrow> Inl VerificationFailure
      | (Some mi, m) \<Rightarrow> Inr (\<lparr>index = mi, wdss = Map.empty\<rparr>, m))"

definition FreeMemIndex :: "mem_index \<Rightarrow> ((ptr \<rightharpoonup> WordDocSet) \<times> string list) res" where
  "FreeMemIndex mi = andThen (FreeHashTable MIFree (index mi) (Inr (wdss mi, []))) snd"

definition MINumWordsInMemIndex :: "mem_index \<Rightarrow> u32" where
  "MINumWordsInMemIndex mi = NumElementsInHashTable (index mi)"

section \<open>Adding a posting list\<close>

definition MIAddPostingList ::
  "mem_index \<Rightarrow> string \<Rightarrow> u64 \<Rightarrow> u32 cells \<Rightarrow> mem \<Rightarrow> (int \<times> mem_index \<times> mem) res" where
  "MIAddPostingList mi w d positions m =
     (let wordkey = hash_string w in
      andThen (LookupHashTable (index mi) wordkey m) (\<lambda>(res, kv, m).
        andThen
          (if res = 0 then
             (case malloc m of (wds, m) \<Rightarrow>
                if wds = NULL then Inl MemFault
                else case AllocateHashTable 23 m of (tab, m) \<Rightarrow>
                  andThen (InsertHashTable (index mi) (kv_of wordkey wds) m) (\<lambda>(res, _, ix, m).
                    Verify333 (res = 1)
                      (case tab of
                         None \<Rightarrow> Inl VerificationFailure
                       | Some tab \<Rightarrow>
                           Inr (wds, mi\<lparr>index := ix,
                                        wdss := (wdss mi)(wds \<mapsto> \<lparr>word = w, docIDs = tab\<rparr>)\<rparr>, m))))
           else (case kv of None \<Rightarrow> Inl MemFault | Some kv \<Rightarrow> Inr (kv_value kv, mi, m)))
          (\<lambda>(wds, mi, m).
            load (wdss mi) wds (\<lambda>wd.
              andThen (LookupHashTable (docIDs wd) d m) (\<lambda>(res, _, m).
                Verify333 (res = 0)
                  (andThen (InsertHashTable (docIDs wd) (kv_of d positions) m) (\<lambda>(res, _, tab, m).
                     Verify333 (res = 1)
                       (Inr (1, mi\<lparr>wdss := (wdss mi)(wds \<mapsto> wd\<lparr>docIDs := tab\<rparr>)\<rparr>, m)))))))))"

section \<open>Queries\<close>

text \<open>The results for the first word: one per document, ranked by the number of positions.\<close>

primrec first_word_loop ::
  "nat \<Rightarrow> u32 cells hash_table \<Rightarrow> ht_iter \<Rightarrow> results \<Rightarrow> mem \<Rightarrow> (results \<times> mem) res" where
  "first_word_loop 0 docs it rs m = Inl OutOfFuel"
| "first_word_loop (Suc n) docs it rs m =
     (case rs of (retlist, srs) \<Rightarrow>
        andThen (HTIteratorGet docs it) (\<lambda>kv.
          case kv of
            None \<Rightarrow> Inl MemFault
          | Some kv \<Rightarrow>
              (case malloc m of (sr, m) \<Rightarrow>
                 if sr = NULL then Inl MemFault
                 else
                   let srs = srs(sr \<mapsto> \<lparr>docid = kv_key kv, rank = cl_count (kv_value kv)\<rparr>) in
                   (case cl_append sr retlist m of (res, retlist, m) \<Rightarrow>
                      Verify333 res
                        (andThen (HTIteratorNext docs it m) (\<lambda>(more, it, m).
                           if more \<noteq> 0 then first_word_loop n docs it (retlist, srs) m
                           else Inr ((retlist, srs), m)))))))"

text \<open>
  One pass over the results for a further word: a result whose document has the word gains the
  number of its positions, the other results are deleted. The loop runs \<^verbatim>\<open>ne\<close> times.
\<close>

primrec refine_loop ::
  "nat \<Rightarrow> u32 cells hash_table \<Rightarrow> ptr \<Rightarrow> results \<Rightarrow> mem \<Rightarrow> (results \<times> mem) res" where
  "refine_loop 0 docs llit rs m = Inr (rs, m)"
| "refine_loop (Suc n) docs llit rs m =
     (case rs of (retlist, srs) \<Rightarrow>
        andThen (cl_payload retlist llit) (\<lambda>sr.
          load srs sr (\<lambda>r.
            andThen (LookupHashTable docs (docid r) m) (\<lambda>(res, kvhit, m).
              if res \<noteq> 1 then
                andThen (cl_delete retlist llit) (\<lambda>(_, sr, llit, retlist).
                  refine_loop n docs llit (retlist, srs(sr := None)) m)
              else
                (case kvhit of
                   None \<Rightarrow> Inl MemFault
                 | Some kvhit \<Rightarrow>
                     let srs = srs(sr \<mapsto> r\<lparr>rank := rank r + cl_count (kv_value kvhit)\<rparr>) in
                     andThen (cl_next retlist llit) (\<lambda>(_, llit).
                       refine_loop n docs llit (retlist, srs) m))))))"

text \<open>\<^verbatim>\<open>query[i]\<close>\<close>

definition query_at :: "string list \<Rightarrow> nat \<Rightarrow> (string \<Rightarrow> 'a res) \<Rightarrow> 'a res" where
  "query_at query i k = (if i < length query then k (query ! i) else Inl MemFault)"

text \<open>The loop over the words from \<open>query[i]\<close> on; \<open>None\<close> is the \<^verbatim>\<open>NULL\<close> of an empty result.\<close>

primrec query_loop ::
  "mem_index \<Rightarrow> string list \<Rightarrow> nat list \<Rightarrow> results \<Rightarrow> mem \<Rightarrow> (results option \<times> mem) res" where
  "query_loop mi query [] rs m = Inr (Some rs, m)"
| "query_loop mi query (i # is) rs m =
     query_at query i (\<lambda>w.
       andThen (LookupHashTable (index mi) (hash_string w) m) (\<lambda>(res, kv, m).
         if res \<noteq> 1 then Inr (None, m)
         else (case kv of
                 None \<Rightarrow> Inl MemFault
               | Some kv \<Rightarrow>
                   load (wdss mi) (kv_value kv) (\<lambda>wds.
                     case cl_make_iterator (fst rs) 0 m of
                       (None, m) \<Rightarrow> Inl VerificationFailure
                     | (Some llit, m) \<Rightarrow>
                         andThen (refine_loop (nat (sint (cl_count (fst rs)))) (docIDs wds) llit rs m)
                           (\<lambda>(rs, m).
                             if cl_count (fst rs) = 0 then Inr (None, m)
                             else query_loop mi query is rs m)))))"

text \<open>Sorting the results by descending rank.\<close>

definition sort_results :: "results \<Rightarrow> results res" where
  "sort_results rs =
     (case rs of (retlist, srs) \<Rightarrow>
        andThen (cl_sort (Suc (length retlist * length retlist)) False
                  (\<lambda>p q. MISearchListComparator (the (srs p)) (the (srs q))) retlist)
          (\<lambda>retlist. Inr (retlist, srs)))"

definition MIProcessQuery ::
  "mem_index \<Rightarrow> string list \<Rightarrow> u8 \<Rightarrow> mem \<Rightarrow> (results option \<times> mem) res" where
  "MIProcessQuery mi query qlen m =
     (if qlen = 0 then Inr (None, m)
      else case malloc m of (retlist, m) \<Rightarrow>
        Verify333 (retlist \<noteq> NULL)
          (query_at query 0 (\<lambda>w.
             andThen (LookupHashTable (index mi) (hash_string w) m) (\<lambda>(res, kv, m).
               if res \<noteq> 1 then Inr (None, m)
               else (case kv of
                 None \<Rightarrow> Inl MemFault
               | Some kv \<Rightarrow>
                   load (wdss mi) (kv_value kv) (\<lambda>wds.
                     andThen (HashTableMakeIterator (docIDs wds) m) (\<lambda>(iter, m).
                       case iter of
                         None \<Rightarrow> Inl VerificationFailure
                       | Some iter \<Rightarrow>
                           andThen (first_word_loop (Suc (total (docIDs wds))) (docIDs wds) iter
                               ([], Map.empty) m) (\<lambda>(rs, m).
                             if qlen = 1 then andThen (sort_results rs) (\<lambda>rs. Inr (Some rs, m))
                             else
                               andThen (query_loop mi query [1..<unat qlen] rs m) (\<lambda>(rs, m).
                                 case rs of
                                   None \<Rightarrow> Inr (None, m)
                                 | Some rs \<Rightarrow>
                                     andThen (sort_results rs) (\<lambda>rs. Inr (Some rs, m)))))))))))"

end
