(* ===== verification/OwnedTable.thy ===== *)
theory OwnedTable
  imports HashTableProps
begin

text \<open>
  Hash tables whose values are pointers to objects that the table owns: the word table of the file
  parser and the inverted index are of this kind. \<open>own_map\<close> reads through the pointer; the lemmas
  say what changing an object, adding one and taking one out mean for it.
\<close>

definition own_map :: "ptr hash_table \<Rightarrow> (ptr \<rightharpoonup> 'a) \<Rightarrow> u64 \<rightharpoonup> 'a" where
  "own_map ix st key = (case ht_map ix key of None \<Rightarrow> None | Some p \<Rightarrow> st p)"

text \<open>Every object is reached from exactly one key and no object is leaked.\<close>

definition own_ok :: "ptr hash_table \<Rightarrow> (ptr \<rightharpoonup> 'a) \<Rightarrow> mem \<Rightarrow> bool" where
  "own_ok ix st m \<longleftrightarrow>
     ht_inv ix m \<and> dom st = ran (ht_map ix) \<and>
     (\<forall>k k' p. ht_map ix k = Some p \<longrightarrow> ht_map ix k' = Some p \<longrightarrow> k = k') \<and>
     (\<forall>p \<in> dom st. 0 < p \<and> p \<le> clock m)"

lemma own_inv: "own_ok ix st m \<Longrightarrow> ht_inv ix m"
  by (simp add: own_ok_def)

lemma own_only: "own_ok ix st m \<Longrightarrow> ht_map ix k = Some p \<Longrightarrow> ht_map ix k' = Some p \<Longrightarrow> k = k'"
  unfolding own_ok_def by blast

lemma own_ok_later: "own_ok ix st m \<Longrightarrow> later m m' \<Longrightarrow> own_ok ix st m'"
  unfolding own_ok_def by (meson ht_inv_later later_def le_trans)

lemma own_ok_empty [simp]: "nb \<noteq> 0 \<Longrightarrow> own_ok (empty_table nb) Map.empty m"
  by (simp add: own_ok_def)

lemma own_map_empty [simp]: "own_map (empty_table nb) st = Map.empty"
  by (simp add: own_map_def fun_eq_iff)

lemma own_reach:
  assumes "own_ok ix st m" "ht_map ix k = Some p"
  obtains x where "st p = Some x" "own_map ix st k = Some x"
proof -
  have "p \<in> dom st" using assms by (auto simp: own_ok_def intro: ranI)
  then obtain x where "st p = Some x" by auto
  with assms(2) that show thesis by (simp add: own_map_def)
qed

lemma own_map_None:
  assumes "own_ok ix st m"
  shows "own_map ix st k = None \<longleftrightarrow> ht_map ix k = None"
proof (cases "ht_map ix k")
  case (Some p)
  with assms show ?thesis by (metis own_reach option.distinct(1))
qed (simp add: own_map_def)

lemma ran_own_map:
  assumes "own_ok ix st m"
  shows "ran (own_map ix st) = ran st"
proof -
  have "x \<in> ran (own_map ix st)" if "st p = Some x" for x p
  proof -
    have "p \<in> ran (ht_map ix)" using assms that by (auto simp: own_ok_def)
    then obtain k where "ht_map ix k = Some p" by (auto simp: ran_def)
    with that have "own_map ix st k = Some x" by (simp add: own_map_def)
    then show ?thesis by (rule ranI)
  qed
  moreover have "x \<in> ran st" if "own_map ix st k = Some x" for x k
    using that by (auto simp: own_map_def intro: ranI split: option.splits)
  ultimately show ?thesis by (auto simp: ran_def)
qed

lemma own_update:
  assumes ok: "own_ok ix st m" and p: "ht_map ix k = Some p"
  shows "own_ok ix (st(p \<mapsto> x)) m" "own_map ix (st(p \<mapsto> x)) = (own_map ix st)(k \<mapsto> x)"
proof -
  have "p \<in> dom st" using ok p by (auto simp: own_ok_def intro: ranI)
  then have "dom (st(p \<mapsto> x)) = dom st" by auto
  then show "own_ok ix (st(p \<mapsto> x)) m"
    using ok by (simp add: own_ok_def)
  show "own_map ix (st(p \<mapsto> x)) = (own_map ix st)(k \<mapsto> x)"
  proof (intro ext)
    fix k' show "own_map ix (st(p \<mapsto> x)) k' = ((own_map ix st)(k \<mapsto> x)) k'"
    proof (cases "k' = k")
      case False
      then have "ht_map ix k' \<noteq> Some p" using own_only [OF ok p, of k'] by auto
      with False show ?thesis by (simp add: own_map_def split: option.splits)
    qed (simp add: own_map_def p)
  qed
qed

lemma own_new:
  assumes ok: "own_ok ix st m0" and later: "later m0 m" and new: "ht_map ix k = None"
    and ix: "ht_inv ix' m" "ht_map ix' = (ht_map ix)(k \<mapsto> p)" and p: "clock m0 < p" "p \<le> clock m"
  shows "own_ok ix' (st(p \<mapsto> x)) m" "own_map ix' (st(p \<mapsto> x)) = (own_map ix st)(k \<mapsto> x)"
proof -
  note O = own_ok_later [OF ok later, unfolded own_ok_def]
  have "p \<notin> dom st" using ok p(1) unfolding own_ok_def by (metis linorder_not_less)
  then have pr: "ht_map ix k' \<noteq> Some p" for k' using O by (auto intro: ranI)
  have "ran (ht_map ix') = insert p (ran (ht_map ix))"
    using new ix(2) by simp
  moreover have "\<forall>k k' q. ht_map ix' k = Some q \<longrightarrow> ht_map ix' k' = Some q \<longrightarrow> k = k'"
  proof (intro allI impI)
    fix k1 k2 q assume "ht_map ix' k1 = Some q" "ht_map ix' k2 = Some q"
    then show "k1 = k2" using O pr ix(2) by (auto split: if_splits)
  qed
  ultimately show "own_ok ix' (st(p \<mapsto> x)) m"
    using O ix(1) p(2) gr_implies_not0 [OF p(1)] by (auto simp: own_ok_def)
  show "own_map ix' (st(p \<mapsto> x)) = (own_map ix st)(k \<mapsto> x)"
  proof (intro ext)
    fix k' show "own_map ix' (st(p \<mapsto> x)) k' = ((own_map ix st)(k \<mapsto> x)) k'"
      using pr [of k'] ix(2) by (simp add: own_map_def split: option.splits)
  qed
qed

text \<open>The table gives an object away.\<close>

lemma own_remove:
  assumes ok: "own_ok ix st m" and p: "ht_map ix k = Some p"
    and ix: "ht_inv ix' m'" "ht_map ix' = (ht_map ix)(k := None)" "clock m \<le> clock m'"
  shows "own_ok ix' (st(p := None)) m'" "own_map ix' (st(p := None)) = (own_map ix st)(k := None)"
proof -
  have other: "ht_map ix k' \<noteq> Some p" if "k' \<noteq> k" for k'
    using own_only [OF ok p, of k'] that by auto
  have "ran (ht_map ix') = ran (ht_map ix) - {p}"
  proof -
    have "q \<in> ran (ht_map ix') \<longleftrightarrow> q \<in> ran (ht_map ix) \<and> q \<noteq> p" for q
      using p other by (auto simp: ran_def ix(2)) (metis option.inject)
    then show ?thesis by blast
  qed
  then show "own_ok ix' (st(p := None)) m'"
    using ok ix(1,3) le_trans [OF _ ix(3)] by (auto simp: own_ok_def ix(2))
  show "own_map ix' (st(p := None)) = (own_map ix st)(k := None)"
  proof (intro ext)
    fix k' show "own_map ix' (st(p := None)) k' = ((own_map ix st)(k := None)) k'"
      using other [of k'] by (auto simp: own_map_def ix(2) split: option.splits)
  qed
qed

text \<open>The pointers in a table, in the order of its pairs.\<close>

lemma own_pointers:
  assumes "own_ok ix st m"
  shows "distinct (map kv_value (ht_items ix))" "set (map kv_value (ht_items ix)) = dom st"
proof -
  let ?items = "ht_items ix"
  have inv: "ht_inv ix m" using assms by (rule own_inv)
  have at: "ht_map ix (kv_key kv) = Some (kv_value kv)" if "kv \<in> set ?items" for kv
    using that ht_map_Some_iff [OF inv] by blast
  have "inj_on kv_value (set ?items)"
  proof (rule inj_onI)
    fix x y assume "x \<in> set ?items" "y \<in> set ?items" "kv_value x = kv_value y"
    with at [of x] at [of y] own_only [OF assms] show "x = y" by (metis kv_of_eq)
  qed
  moreover have "distinct ?items" using ht_invD(7) [OF inv] by (simp add: distinct_map)
  ultimately show "distinct (map kv_value ?items)" by (simp add: distinct_map)
  have "p \<in> ran (ht_map ix) \<longleftrightarrow> p \<in> kv_value ` set ?items" for p
    unfolding ran_def mem_Collect_eq ht_map_Some_iff [OF inv] by auto
  then show "set (map kv_value ?items) = dom st" using assms by (auto simp: own_ok_def)
qed

end
