(* ===== verification/MemIndexInv.thy ===== *)
theory MemIndexInv
  imports MemIndex OwnedTable
begin

text \<open>
  The inverted index as a finite map from word hashes to the word and its documents: the invariant
  of the representation, and what \<^verbatim>\<open>MIAddPostingList\<close> does to the map.
\<close>

section \<open>Abstraction and invariant\<close>

type_synonym postings = "u64 \<rightharpoonup> u32 cells"

definition wds_abs :: "WordDocSet \<Rightarrow> string \<times> postings" where
  "wds_abs wd = (word wd, ht_map (docIDs wd))"

definition mi_abs :: "mem_index \<Rightarrow> u64 \<rightharpoonup> string \<times> postings" where
  "mi_abs mi key = map_option wds_abs (own_map (index mi) (wdss mi) key)"

text \<open>
  The index owns exactly the \<^verbatim>\<open>WordDocSet\<close>s its table points to, each reached from one key; the
  tables of the documents are well formed, and all tables have grown by insertions only. Between operations none of them is empty.
\<close>

definition mi_ok :: "mem_index \<Rightarrow> mem \<Rightarrow> bool" where
  "mi_ok mi m \<longleftrightarrow> own_ok (index mi) (wdss mi) m \<and> sized 128 (index mi) \<and>
     (\<forall>wd \<in> ran (wdss mi). ht_inv (docIDs wd) m \<and> sized 23 (docIDs wd))"

definition mi_inv :: "mem_index \<Rightarrow> mem \<Rightarrow> bool" where
  "mi_inv mi m \<longleftrightarrow> mi_ok mi m \<and> (\<forall>wd \<in> ran (wdss mi). ht_map (docIDs wd) \<noteq> Map.empty)"

lemma mi_ok_later: "mi_ok mi m \<Longrightarrow> later m m' \<Longrightarrow> mi_ok mi m'"
  unfolding mi_ok_def by (meson ht_inv_later own_ok_later)

lemma mi_inv_later: "mi_inv mi m \<Longrightarrow> later m m' \<Longrightarrow> mi_inv mi m'"
  by (auto simp: mi_inv_def mi_ok_later)

lemma mi_inv_ok: "mi_inv mi m \<Longrightarrow> mi_ok mi m"
  by (simp add: mi_inv_def)

lemma mi_ok_inv: "mi_ok mi m \<Longrightarrow> ht_inv (index mi) m"
  unfolding mi_ok_def using own_inv by blast

lemma mi_reach:
  assumes "mi_ok mi m" "ht_map (index mi) k = Some p"
  obtains wd where "wdss mi p = Some wd" "ht_inv (docIDs wd) m" "mi_abs mi k = Some (wds_abs wd)"
proof -
  have "own_ok (index mi) (wdss mi) m" using assms(1) by (simp add: mi_ok_def)
  then obtain wd where wd: "wdss mi p = Some wd" "own_map (index mi) (wdss mi) k = Some wd"
    using assms(2) by (rule own_reach)
  then have "wd \<in> ran (wdss mi)" by (intro ranI)
  with wd assms(1) that show thesis by (simp add: mi_ok_def mi_abs_def)
qed

lemma mi_abs_None: "mi_ok mi m \<Longrightarrow> mi_abs mi k = None \<longleftrightarrow> ht_map (index mi) k = None"
  using own_map_None by (auto simp: mi_abs_def mi_ok_def)

lemma AllocateMemIndex_ok:
  assumes "reliable m"
  obtains mi m' where "AllocateMemIndex m = Inr (mi, m')" "later m m'" "mi_inv mi m'"
    "mi_abs mi = Map.empty"
proof -
  let ?mi = "\<lparr>index = empty_table 128, wdss = Map.empty\<rparr>"
  obtain m' where "AllocateMemIndex m = Inr (?mi, m')" "later m m'"
    using assms by (simp add: AllocateMemIndex_def AllocateHashTable_reliable)
  moreover have "mi_inv ?mi m'" "mi_abs ?mi = Map.empty"
    by (simp_all add: mi_inv_def mi_ok_def mi_abs_def fun_eq_iff)
  ultimately show thesis by (rule that)
qed

section \<open>Adding a posting list\<close>

text \<open>The change of one \<^verbatim>\<open>WordDocSet\<close>, and what a new one is.\<close>

lemma mi_update:
  assumes ok: "mi_ok mi m" and p: "ht_map (index mi) k = Some p" and inv: "ht_inv (docIDs wd') m" "sized 23 (docIDs wd')"
  shows "mi_ok (mi\<lparr>wdss := (wdss mi)(p \<mapsto> wd')\<rparr>) m"
    "mi_abs (mi\<lparr>wdss := (wdss mi)(p \<mapsto> wd')\<rparr>) = (mi_abs mi)(k \<mapsto> wds_abs wd')"
proof -
  have own: "own_ok (index mi) (wdss mi) m" using ok by (simp add: mi_ok_def)
  note U = own_update [OF own p, of wd']
  have "ran ((wdss mi)(p \<mapsto> wd')) \<subseteq> insert wd' (ran (wdss mi))"
    by (auto simp: ran_def)
  then show "mi_ok (mi\<lparr>wdss := (wdss mi)(p \<mapsto> wd')\<rparr>) m"
    using ok inv U(1) by (auto simp: mi_ok_def)
  show "mi_abs (mi\<lparr>wdss := (wdss mi)(p \<mapsto> wd')\<rparr>) = (mi_abs mi)(k \<mapsto> wds_abs wd')"
    using U(2) by (simp add: mi_abs_def fun_eq_iff)
qed

lemma mi_new:
  assumes ok: "mi_ok mi m0" and later: "later m0 m" and new: "ht_map (index mi) k = None"
    and ix: "ht_inv ix m" "ht_map ix = (ht_map (index mi))(k \<mapsto> p)"
    and p: "clock m0 < p" "p \<le> clock m" and inv: "ht_inv (docIDs wd) m" "sized 23 (docIDs wd)" and size: "sized 128 ix"
  shows "mi_ok (mi\<lparr>index := ix, wdss := (wdss mi)(p \<mapsto> wd)\<rparr>) m"
    "mi_abs (mi\<lparr>index := ix, wdss := (wdss mi)(p \<mapsto> wd)\<rparr>) = (mi_abs mi)(k \<mapsto> wds_abs wd)"
proof -
  have own: "own_ok (index mi) (wdss mi) m0" using ok by (simp add: mi_ok_def)
  note U = own_new [OF own later new ix p, of wd]
  have "ran ((wdss mi)(p \<mapsto> wd)) \<subseteq> insert wd (ran (wdss mi))"
    by (auto simp: ran_def)
  then show "mi_ok (mi\<lparr>index := ix, wdss := (wdss mi)(p \<mapsto> wd)\<rparr>) m"
    using mi_ok_later [OF ok later] inv size U(1) by (auto simp: mi_ok_def)
  show "mi_abs (mi\<lparr>index := ix, wdss := (wdss mi)(p \<mapsto> wd)\<rparr>) = (mi_abs mi)(k \<mapsto> wds_abs wd)"
    using U(2) by (simp add: mi_abs_def fun_eq_iff)
qed

text \<open>The second half of \<^verbatim>\<open>MIAddPostingList\<close>: the document is entered into the set of the word.\<close>

definition add_document :: "ptr \<Rightarrow> mem_index \<Rightarrow> u64 \<Rightarrow> u32 cells \<Rightarrow> mem \<Rightarrow> (int \<times> mem_index \<times> mem) res" where
  "add_document wds mi d positions m =
     load (wdss mi) wds (\<lambda>wd.
       andThen (LookupHashTable (docIDs wd) d m) (\<lambda>(res, _, m).
         Verify333 (res = 0)
           (andThen (InsertHashTable (docIDs wd) (kv_of d positions) m) (\<lambda>(res, _, tab, m).
              Verify333 (res = 1)
                (Inr (1, mi\<lparr>wdss := (wdss mi)(wds \<mapsto> wd\<lparr>docIDs := tab\<rparr>)\<rparr>, m))))))"

lemma add_document_ok:
  assumes ok: "mi_ok mi m" and rel: "reliable m" and p: "ht_map (index mi) k = Some p"
    and wd: "wdss mi p = Some wd"
  shows "if ht_map (docIDs wd) d = None
     then \<exists>mi' wd' m'. add_document p mi d ps m = Inr (1, mi', m') \<and> later m m' \<and> mi_ok mi' m' \<and>
            wdss mi' = (wdss mi)(p \<mapsto> wd') \<and>
            wds_abs wd' = (word wd, (ht_map (docIDs wd))(d \<mapsto> ps)) \<and>
            mi_abs mi' = (mi_abs mi)(k \<mapsto> wds_abs wd')
     else add_document p mi d ps m = Inl VerificationFailure"
proof -
  have inv: "ht_inv (docIDs wd) m" using ok wd by (auto simp: mi_ok_def intro: ranI)
  obtain m1 where l: "later m m1" "ht_inv (docIDs wd) m1" "reliable m1"
    "LookupHashTable (docIDs wd) d m = Inr (case ht_map (docIDs wd) d of
        None \<Rightarrow> (0, None, m1) | Some v \<Rightarrow> (1, Some (kv_of d v), m1))"
    using ht.lookupE [OF inv rel, of d] by blast
  show ?thesis
  proof (cases "ht_map (docIDs wd) d")
    case (Some v)
    with wd l(4) show ?thesis by (simp add: add_document_def)
  next
    case None
    obtain tab m2 where i: "later m1 m2" "ht_inv tab m2"
      "ht_map tab = (ht_map (docIDs wd))(d \<mapsto> ps)"
      "InsertHashTable (docIDs wd) (kv_of d ps) m1 = Inr (1, None, tab, m2)"
      using ht.insert_newE [OF l(2,3) None] by blast
    let ?wd = "wd\<lparr>docIDs := tab\<rparr>"
    have lat: "later m m2" using l(1) i(1) by (rule later_trans)
    have "mi_ok mi m2" using ok lat by (rule mi_ok_later)
    moreover have "ht_inv (docIDs ?wd) m2" using i(2) by simp
    moreover have "sized 23 (docIDs wd)" using ok wd by (auto simp: mi_ok_def intro: ranI)
    then have "sized 23 (docIDs ?wd)" using InsertHashTable_sized [OF l(2,3) _ _ i(4)] by simp
    moreover note mi_update [OF calculation(1) p calculation(2,3)]
    moreover have "add_document p mi d ps m
        = Inr (1, mi\<lparr>wdss := (wdss mi)(p \<mapsto> ?wd)\<rparr>, m2)"
      using wd l(4) i(4) None by (simp add: add_document_def)
    moreover have "wds_abs ?wd = (word wd, (ht_map (docIDs wd))(d \<mapsto> ps))"
      using i(3) by (simp add: wds_abs_def)
    ultimately show ?thesis using None lat by auto
  qed
qed

definition with_posting :: "(string \<times> postings) option \<Rightarrow> string \<Rightarrow> u64 \<Rightarrow> u32 cells \<Rightarrow> string \<times> postings" where
  "with_posting old w d ps = (case old of None \<Rightarrow> (w, [d \<mapsto> ps]) | Some (w', M) \<Rightarrow> (w', M(d \<mapsto> ps)))"

definition has_document :: "(string \<times> postings) option \<Rightarrow> u64 \<Rightarrow> bool" where
  "has_document old d = (case old of None \<Rightarrow> False | Some (w, M) \<Rightarrow> M d \<noteq> None)"

lemma mi_inv_upd:
  assumes "mi_inv mi m" "mi_ok mi' m'" "wdss mi' = (wdss mi)(p \<mapsto> wd)" "snd (wds_abs wd) \<noteq> Map.empty"
  shows "mi_inv mi' m'"
proof -
  have "ran (wdss mi') \<subseteq> insert wd (ran (wdss mi))"
    unfolding assms(3) by (auto simp: ran_def)
  with assms show ?thesis by (auto simp: mi_inv_def wds_abs_def)
qed

lemma MIAddPostingList_spec:
  assumes inv: "mi_inv mi m" and rel: "reliable m"
  shows "if has_document (mi_abs mi (hash_string w)) d
     then MIAddPostingList mi w d ps m = Inl VerificationFailure
     else \<exists>mi' m'. MIAddPostingList mi w d ps m = Inr (1, mi', m') \<and> later m m' \<and> mi_inv mi' m' \<and>
       mi_abs mi' = (mi_abs mi)(hash_string w \<mapsto> with_posting (mi_abs mi (hash_string w)) w d ps)"
proof -
  let ?k = "hash_string w"
  have ok: "mi_ok mi m" using inv by (rule mi_inv_ok)
  then have ixinv: "ht_inv (index mi) m" by (rule mi_ok_inv)
  obtain m1 where l: "later m m1" "ht_inv (index mi) m1" "reliable m1"
    "LookupHashTable (index mi) ?k m = Inr (case ht_map (index mi) ?k of
        None \<Rightarrow> (0, None, m1) | Some v \<Rightarrow> (1, Some (kv_of ?k v), m1))"
    using ht.lookupE [OF ixinv rel, of ?k] by blast
  have ok1: "mi_ok mi m1" using ok l(1) by (rule mi_ok_later)
  show ?thesis
  proof (cases "ht_map (index mi) ?k")
    case (Some p)
    obtain wd where wd: "wdss mi p = Some wd" "mi_abs mi ?k = Some (wds_abs wd)"
      using mi_reach [OF ok1 Some] by blast
    have call: "MIAddPostingList mi w d ps m = add_document p mi d ps m1"
      using l(4) Some by (simp add: MIAddPostingList_def add_document_def Let_def)
    show ?thesis
    proof (cases "ht_map (docIDs wd) d = None")
      case False
      with add_document_ok [OF ok1 l(3) Some wd(1), of d ps] call wd(2) show ?thesis
        by (simp add: has_document_def wds_abs_def)
    next
      case True
      with add_document_ok [OF ok1 l(3) Some wd(1), of d ps] obtain mi' wd' m' where a:
        "add_document p mi d ps m1 = Inr (1, mi', m')" "later m1 m'" "mi_ok mi' m'"
        "wdss mi' = (wdss mi)(p \<mapsto> wd')" "wds_abs wd' = (word wd, (ht_map (docIDs wd))(d \<mapsto> ps))"
        "mi_abs mi' = (mi_abs mi)(?k \<mapsto> wds_abs wd')" by auto
      have "mi_inv mi' m'" using mi_inv_upd [OF inv a(3,4)] a(5) by simp
      moreover have "later m m'" using l(1) a(2) by (rule later_trans)
      ultimately show ?thesis
        using True call wd(2) a(1,5,6) by (simp add: has_document_def with_posting_def wds_abs_def)
    qed
  next
    case None
    let ?p = "Suc (clock m1)"
    let ?m = "m1\<lparr>clock := ?p\<rparr>" and ?tab = "empty_table 23 :: u32 cells hash_table"
    obtain m2 where al: "AllocateHashTable 23 ?m = (Some ?tab, m2)" "later ?m m2"
      by (rule AllocateHashTable_ok [of ?m 23]) (use l(3) in simp_all)
    have lat2: "later m1 m2" "reliable m2" "?p \<le> clock m2"
      using al(2) l(3) by (auto simp: later_def reliable_def)
    have ix2: "ht_inv (index mi) m2" using l(2) lat2(1) by (rule ht_inv_later)
    from this lat2(2) None obtain ix m3 where
      i: "later m2 m3" "ht_inv ix m3" "reliable m3" "ht_map ix = (ht_map (index mi))(?k \<mapsto> ?p)"
      "InsertHashTable (index mi) (kv_of ?k ?p) m2 = Inr (1, None, ix, m3)" by (rule ht.insert_newE)
    have size: "sized 128 ix" using InsertHashTable_sized [OF ix2 lat2(2) _ _ i(5)] ok by (simp add: mi_ok_def)
    let ?wd = "\<lparr>word = w, docIDs = ?tab\<rparr>"
    let ?mi = "mi\<lparr>index := ix, wdss := (wdss mi)(?p \<mapsto> ?wd)\<rparr>"
    have lat3: "later m1 m3" "?p \<le> clock m3" using lat2 i(1) by (auto simp: later_def)
    have new: "mi_ok ?mi m3" "mi_abs ?mi = (mi_abs mi)(?k \<mapsto> wds_abs ?wd)"
      by (rule mi_new [OF ok1 lat3(1) None i(2,4) _ lat3(2)]; simp add: size)+
    have call: "MIAddPostingList mi w d ps m = add_document ?p ?mi d ps m3"
      using l(3,4) None al(1) i(5)
      by (simp add: MIAddPostingList_def add_document_def malloc_reliable Let_def)
    have "ht_map (index ?mi) ?k = Some ?p" "wdss ?mi ?p = Some ?wd" "ht_map (docIDs ?wd) d = None"
      using i(4) by simp_all
    with add_document_ok [OF new(1) i(3) this(1,2), of d ps] obtain mi' wd' m' where a:
      "add_document ?p ?mi d ps m3 = Inr (1, mi', m')" "later m3 m'" "mi_ok mi' m'"
      "wdss mi' = (wdss ?mi)(?p \<mapsto> wd')" "wds_abs wd' = (w, [d \<mapsto> ps])"
      "mi_abs mi' = (mi_abs ?mi)(?k \<mapsto> wds_abs wd')" by auto
    have "mi_inv mi' m'"
      by (rule mi_inv_upd [OF inv a(3), of ?p wd']) (use a(4,5) in simp_all)
    moreover have "later m m'" using l(1) lat3(1) a(2) by (meson later_trans)
    moreover have "mi_abs mi ?k = None" using mi_abs_None [OF ok] None by simp
    ultimately show ?thesis
      using call a(1,5,6) new(2) by (simp add: has_document_def with_posting_def)
  qed
qed

end
