(* ===== verification/MemIndexQuery.thy ===== *)
theory MemIndexQuery
  imports MemIndexInv
begin

text \<open>
  Queries on the inverted index: what each loop of \<^verbatim>\<open>MIProcessQuery\<close> does to the list of search
  results, and that a query returns exactly the documents that contain every word of the query,
  with the right rank, in descending order of rank.
\<close>

section \<open>Result lists\<close>

definition result_list :: "results \<Rightarrow> SearchResult list" where
  "result_list rs = map (\<lambda>c. the (snd rs (snd c))) (fst rs)"

text \<open>The result list owns exactly the search results it points to.\<close>

definition rs_ok :: "results \<Rightarrow> mem \<Rightarrow> bool" where
  "rs_ok rs m \<longleftrightarrow>
     distinct (map fst (fst rs)) \<and> NULL \<notin> addrs (fst rs) \<and> (\<forall>a \<in> addrs (fst rs). a \<le> clock m) \<and>
     distinct (map snd (fst rs)) \<and> dom (snd rs) = snd ` set (fst rs) \<and>
     (\<forall>p \<in> dom (snd rs). p \<le> clock m)"

lemma rs_ok_later: "rs_ok rs m \<Longrightarrow> later m m' \<Longrightarrow> rs_ok rs m'"
  unfolding rs_ok_def later_def by (meson le_trans)

lemma length_result_list [simp]: "length (result_list rs) = length (fst rs)"
  by (simp add: result_list_def)

lemma rs_ok_empty [simp]: "rs_ok ([], Map.empty) m"
  by (simp add: rs_ok_def)

section \<open>The first word\<close>

definition first_result :: "u32 cells HTKeyValue \<Rightarrow> SearchResult" where
  "first_result kv = \<lparr>docid = kv_key kv, rank = cl_count (kv_value kv)\<rparr>"

text \<open>One more result at the end of the list.\<close>

lemma rs_ok_append:
  assumes ok: "rs_ok (retlist, srs) m" and fresh: "clock m < p" "clock m < a" "p \<le> clock m'" "a \<le> clock m'"
    and later: "later m m'"
  shows "rs_ok (retlist @ [(a, p)], srs(p \<mapsto> r)) m'"
    "result_list (retlist @ [(a, p)], srs(p \<mapsto> r)) = result_list (retlist, srs) @ [r]"
proof -
  have a: "a \<notin> addrs retlist" and p: "p \<notin> dom srs"
    using ok fresh(1,2) unfolding rs_ok_def by (metis fst_conv snd_conv linorder_not_less)+
  then have p': "p \<notin> snd ` set retlist" using ok by (simp add: rs_ok_def)
  have "rs_ok (retlist, srs) m'" using ok later by (rule rs_ok_later)
  then show "rs_ok (retlist @ [(a, p)], srs(p \<mapsto> r)) m'"
    using a p' fresh by (auto simp: rs_ok_def)
  show "result_list (retlist @ [(a, p)], srs(p \<mapsto> r)) = result_list (retlist, srs) @ [r]"
    using p' by (auto simp: result_list_def)
qed

lemma first_word_loop_ok:
  assumes inv: "ht_inv docs m0" and ok: "it_ok docs it" and rs: "rs_ok rs m" and rel: "reliable m"
    and ne: "it_items docs it \<noteq> []" and n: "length (it_items docs it) \<le> n"
  shows "\<exists>rs' m'. first_word_loop n docs it rs m = Inr (rs', m') \<and> later m m' \<and> rs_ok rs' m' \<and>
     result_list rs' = result_list rs @ map first_result (it_items docs it)"
  using ok rs rel ne n
proof (induction n arbitrary: it rs m)
  case (Suc n)
  obtain retlist srs where rs: "rs = (retlist, srs)" by (cases rs)
  from Suc.prems(4) obtain kv rest where items: "it_items docs it = kv # rest"
    by (cases "it_items docs it") auto
  have get: "HTIteratorGet docs it = Inr (Some kv)"
    using HTIteratorGet_ok [OF inv Suc.prems(1)] items by simp
  let ?p = "Suc (clock m)" and ?a = "Suc (Suc (clock m))"
  let ?m = "m\<lparr>clock := ?a\<rparr>"
  let ?rs = "(retlist @ [(?a, ?p)], srs(?p \<mapsto> first_result kv))"
  have ap: "cl_append ?p retlist (m\<lparr>clock := ?p\<rparr>) = (True, retlist @ [(?a, ?p)], ?m)"
    using Suc.prems(3) by (simp add: cl_append_def malloc_reliable)
  have new: "rs_ok ?rs ?m" "result_list ?rs = result_list rs @ [first_result kv]"
    using rs_ok_append [OF Suc.prems(2) [unfolded rs], of ?p ?a ?m] rs by simp_all
  have relm: "reliable ?m" using Suc.prems(3) by simp
  obtain it2 m2 where x: "HTIteratorNext docs it ?m
      = Inr (if tl (it_items docs it) = [] then 0 else 1, it2, m2)" "later ?m m2" "it_ok docs it2"
      "it_items docs it2 = tl (it_items docs it)"
    using HTIteratorNext_ok [OF inv Suc.prems(1) Suc.prems(4) relm] by blast
  have lat: "later m m2" using x(2) by (simp add: later_def)
  have step: "first_word_loop (Suc n) docs it rs m
      = (if rest = [] then Inr (?rs, m2) else first_word_loop n docs it2 ?rs m2)"
    using rs get Suc.prems(3) ap x(1) items
    by (simp add: malloc_reliable first_result_def [symmetric])
  have ok2: "rs_ok ?rs m2" using new(1) x(2) by (rule rs_ok_later)
  show ?case
  proof (cases "rest = []")
    case True
    with step ok2 new(2) lat items show ?thesis by auto
  next
    case False
    have "reliable m2" using x(2) relm by (rule later_reliable)
    from Suc.IH [OF x(3) ok2 this] False x(4) items Suc.prems(5) obtain rs' m' where
      "first_word_loop n docs it2 ?rs m2 = Inr (rs', m')" "later m2 m'" "rs_ok rs' m'"
      "result_list rs' = result_list ?rs @ map first_result rest"
      by auto
    with False step new(2) items lat show ?thesis by (auto intro: later_trans)
  qed
qed simp

section \<open>The further words\<close>

definition refined :: "postings \<Rightarrow> SearchResult \<Rightarrow> SearchResult option" where
  "refined M r = (case M (docid r) of None \<Rightarrow> None
     | Some ps \<Rightarrow> Some (r\<lparr>rank := rank r + cl_count ps\<rparr>))"

lemma refined_simps:
  "M (docid r) = None \<Longrightarrow> refined M r = None"
  "M (docid r) = Some ps \<Longrightarrow> refined M r = Some (r\<lparr>rank := rank r + cl_count ps\<rparr>)"
  by (simp_all add: refined_def)

lemma rs_ok_delete:
  assumes "rs_ok (xs @ (a, p) # ys, srs) m"
  shows "rs_ok (xs @ ys, srs(p := None)) m"
    "result_list (xs, srs(p := None)) = result_list (xs, srs)"
    "result_list (ys, srs(p := None)) = result_list (ys, srs)"
  using assms by (auto simp: rs_ok_def result_list_def)

lemma rs_ok_update:
  assumes "rs_ok (xs @ (a, p) # ys, srs) m"
  shows "rs_ok ((xs @ [(a, p)]) @ ys, srs(p \<mapsto> r)) m"
    "result_list (xs @ [(a, p)], srs(p \<mapsto> r)) = result_list (xs, srs) @ [r]"
    "result_list (ys, srs(p \<mapsto> r)) = result_list (ys, srs)"
  using assms by (auto simp: rs_ok_def result_list_def)

lemma refine_loop_ok:
  assumes inv: "ht_inv docs m" and rel: "reliable m" and ok: "rs_ok (xs @ ys, srs) m"
    and llit: "ys \<noteq> [] \<Longrightarrow> llit = first_addr ys NULL"
  shows "\<exists>rs' m'. refine_loop (length ys) docs llit (xs @ ys, srs) m = Inr (rs', m') \<and> later m m' \<and>
     rs_ok rs' m' \<and> result_list rs' = result_list (xs, srs)
       @ List.map_filter (refined (ht_map docs)) (result_list (ys, srs))"
  using assms
proof (induction ys arbitrary: xs llit srs m)
  case Nil
  then show ?case by (auto simp: List.map_filter_def result_list_def)
next
  case (Cons c ys)
  obtain a p where c: "c = (a, p)" by (cases c)
  note prems = Cons.prems [unfolded c]
  have A: "a \<noteq> NULL" "a \<notin> addrs xs" "a \<notin> addrs ys" "NULL \<notin> addrs ys" "p \<in> dom srs"
    using prems(3) by (auto simp: rs_ok_def)
  then obtain r where r: "srs p = Some r" by auto
  have a: "llit = a" using prems(4) by simp
  have pay: "cl_payload (xs @ (a, p) # ys) a = Inr p"
    using A by (simp add: cl_payload_at)
  obtain m1 where l: "later m m1" "ht_inv docs m1" "reliable m1"
    "LookupHashTable docs (docid r) m = Inr (case ht_map docs (docid r) of
        None \<Rightarrow> (0, None, m1) | Some v \<Rightarrow> (1, Some (kv_of (docid r) v), m1))"
    using ht.lookupE [OF prems(1,2), of "docid r"] by blast
  have ok1: "rs_ok (xs @ (a, p) # ys, srs) m1" using prems(3) l(1) by (rule rs_ok_later)
  have list: "result_list ((a, p) # ys, srs) = r # result_list (ys, srs)"
    using r by (simp add: result_list_def)
  show ?case
  proof (cases "ht_map docs (docid r)")
    case None
    let ?it = "if ys \<noteq> [] then first_addr ys NULL else first_addr xs NULL"
    note D = rs_ok_delete [OF ok1]
    have it: "ys \<noteq> [] \<Longrightarrow> ?it = first_addr ys NULL" by simp
    have step: "refine_loop (length (c # ys)) docs llit (xs @ c # ys, srs) m
        = refine_loop (length ys) docs ?it (xs @ ys, srs(p := None)) m1"
      using pay r l(4) None A(1-3) by (simp add: c a cl_delete_split)
    obtain rs' m' where I: "refine_loop (length ys) docs ?it (xs @ ys, srs(p := None)) m1 = Inr (rs', m')"
      "later m1 m'" "rs_ok rs' m'" "result_list rs' = result_list (xs, srs(p := None))
         @ List.map_filter (refined (ht_map docs)) (result_list (ys, srs(p := None)))"
      using Cons.IH [OF l(2,3) D(1) it] by blast
    have "later m m'" using l(1) I(2) by (rule later_trans)
    with I(1,3,4) D(2,3) list c refined_simps(1) [where M = "ht_map docs", OF None] show ?thesis
      unfolding step by (simp add: List.map_filter_simps)
  next
    case (Some ps)
    let ?r = "r\<lparr>rank := rank r + cl_count ps\<rparr>"
    let ?it = "if ys = [] then a else first_addr ys NULL"
    note D = rs_ok_update [OF ok1, of ?r]
    have it: "ys \<noteq> [] \<Longrightarrow> ?it = first_addr ys NULL" by simp
    have step: "refine_loop (length (c # ys)) docs llit (xs @ c # ys, srs) m
        = refine_loop (length ys) docs ?it ((xs @ [(a, p)]) @ ys, srs(p \<mapsto> ?r)) m1"
      using pay r l(4) Some A by (simp add: c a cl_next_at)
    obtain rs' m' where I: "refine_loop (length ys) docs ?it ((xs @ [(a, p)]) @ ys, srs(p \<mapsto> ?r)) m1
        = Inr (rs', m')" "later m1 m'" "rs_ok rs' m'"
      "result_list rs' = result_list (xs @ [(a, p)], srs(p \<mapsto> ?r))
         @ List.map_filter (refined (ht_map docs)) (result_list (ys, srs(p \<mapsto> ?r)))"
      using Cons.IH [OF l(2,3) D(1) it] by blast
    have "later m m'" using l(1) I(2) by (rule later_trans)
    with I(1,3,4) D(2,3) list c refined_simps(2) [where M = "ht_map docs", OF Some] show ?thesis
      unfolding step by (simp add: List.map_filter_simps)
  qed
qed

text \<open>The documents of a word.\<close>

definition docs_of :: "mem_index \<Rightarrow> string \<Rightarrow> postings" where
  "docs_of mi w = (case mi_abs mi (hash_string w) of None \<Rightarrow> Map.empty | Some (_, M) \<Rightarrow> M)"

definition refine_all :: "mem_index \<Rightarrow> string list \<Rightarrow> SearchResult list \<Rightarrow> SearchResult list" where
  "refine_all mi ws L = foldl (\<lambda>L w. List.map_filter (refined (docs_of mi w)) L) L ws"

lemma map_filter_Nil [simp]: "List.map_filter f [] = []"
  by (simp add: List.map_filter_def)

lemma length_map_filter: "length (List.map_filter f xs) \<le> length xs"
  by (simp add: List.map_filter_def)

lemma refine_all_Nil [simp]: "refine_all mi ws [] = []"
  by (induction ws) (simp_all add: refine_all_def)

lemma refine_all_Cons:
  "refine_all mi (w # ws) L = refine_all mi ws (List.map_filter (refined (docs_of mi w)) L)"
  by (simp add: refine_all_def)

lemma map_filter_empty_map: "List.map_filter (refined Map.empty) L = []"
  by (simp add: List.map_filter_def refined_def)

lemma sint_cl_count: "length cs < 2 ^ 31 \<Longrightarrow> nat (sint (cl_count cs)) = length cs"
  by (simp add: cl_count_def signed_of_nat signed_take_bit_int_eq_self)

text \<open>Finding the documents of a word.\<close>

lemma lookup_word:
  assumes inv: "mi_inv mi m" and rel: "reliable m"
  obtains (absent) m' where "later m m'" "docs_of mi w = Map.empty"
      "LookupHashTable (index mi) (hash_string w) m = Inr (0, None, m')"
  | (found) p wd m' where "later m m'" "wdss mi p = Some wd" "ht_inv (docIDs wd) m'"
      "docs_of mi w = ht_map (docIDs wd)" "docs_of mi w \<noteq> Map.empty" "wd \<in> ran (wdss mi)"
      "LookupHashTable (index mi) (hash_string w) m = Inr (1, Some (kv_of (hash_string w) p), m')"
proof -
  let ?k = "hash_string w"
  have ok: "mi_ok mi m" using inv by (rule mi_inv_ok)
  then have "ht_inv (index mi) m" by (rule mi_ok_inv)
  from this rel obtain m' where l: "later m m'"
    "LookupHashTable (index mi) ?k m = Inr (case ht_map (index mi) ?k of
        None \<Rightarrow> (0, None, m') | Some v \<Rightarrow> (1, Some (kv_of ?k v), m'))"
    by (rule ht.lookupE)
  show thesis
  proof (cases "ht_map (index mi) ?k")
    case None
    with l mi_abs_None [OF ok, of ?k] show thesis by (intro absent [of m']) (simp_all add: docs_of_def)
  next
    case (Some p)
    obtain wd where wd: "wdss mi p = Some wd" "ht_inv (docIDs wd) m" "mi_abs mi ?k = Some (wds_abs wd)"
      using mi_reach [OF ok Some] .
    then have "docs_of mi w = ht_map (docIDs wd)" by (simp add: docs_of_def wds_abs_def)
    moreover have "wd \<in> ran (wdss mi)" using wd(1) by (rule ranI)
    moreover from this inv have "ht_map (docIDs wd) \<noteq> Map.empty" by (simp add: mi_inv_def)
    ultimately show thesis
      using l Some wd(1,2) by (intro found [of m' p wd]) (simp_all add: ht_inv_later)
  qed
qed

lemma query_loop_ok:
  assumes "mi_inv mi m" "reliable m" "rs_ok rs m" "fst rs \<noteq> []" "length (fst rs) < 2 ^ 31"
    and "\<And>i. i \<in> set is \<Longrightarrow> i < length query"
  shows "\<exists>r m'. query_loop mi query is rs m = Inr (r, m') \<and> later m m' \<and>
     (case r of
        None \<Rightarrow> refine_all mi (map ((!) query) is) (result_list rs) = []
      | Some rs' \<Rightarrow> rs_ok rs' m' \<and> fst rs' \<noteq> [] \<and>
          result_list rs' = refine_all mi (map ((!) query) is) (result_list rs))"
  using assms
proof (induction "is" arbitrary: rs m)
  case Nil
  then show ?case by (auto simp: refine_all_def)
next
  case (Cons i "is")
  let ?w = "query ! i"
  have i: "i < length query" using Cons.prems(6) by simp
  from Cons.prems(1,2) show ?case
  proof (cases rule: lookup_word [where w = ?w])
    case (absent m1)
    then show ?thesis
      using i by (auto simp: query_at_def refine_all_Cons map_filter_empty_map)
  next
    case (found p wd m1)
    obtain retlist srs where rs: "rs = (retlist, srs)" by (cases rs)
    let ?m = "m1\<lparr>clock := Suc (clock m1)\<rparr>"
    have rel1: "reliable m1" using found(1) Cons.prems(2) by (rule later_reliable)
    have it: "cl_make_iterator retlist 0 m1 = (Some (first_addr retlist NULL), ?m)"
      using Cons.prems(4) rs rel1 by (simp add: cl_make_iterator_head)
    have latm: "later m ?m" using found(1) by (auto simp: later_def)
    have relm: "reliable ?m" using rel1 by simp
    have "ht_inv (docIDs wd) ?m" using found(3) by (rule ht_inv_later) simp
    moreover have "rs_ok ([] @ retlist, srs) ?m"
      using rs_ok_later [OF Cons.prems(3) latm] rs by simp
    ultimately obtain rs' m2 where R:
      "refine_loop (length retlist) (docIDs wd) (first_addr retlist NULL) (retlist, srs) ?m
         = Inr (rs', m2)" "later ?m m2" "rs_ok rs' m2"
      "result_list rs' = List.map_filter (refined (docs_of mi ?w)) (result_list rs)"
      using refine_loop_ok [of "docIDs wd" ?m "[]" retlist srs "first_addr retlist NULL"] relm
        found(4) rs by (auto simp: result_list_def [of "([], srs)"])
    have n: "nat (sint (cl_count retlist)) = length retlist"
      using Cons.prems(5) rs by (simp add: sint_cl_count)
    have len: "length (fst rs') < 2 ^ 31"
    proof -
      have "length (fst rs') = length (result_list rs')" by simp
      also have "\<dots> \<le> length (result_list rs)" unfolding R(4) by (rule length_map_filter)
      finally show ?thesis using Cons.prems(5) by simp
    qed
    then have z: "cl_count (fst rs') = 0 \<longleftrightarrow> fst rs' = []" by simp
    have step: "query_loop mi query (i # is) rs m
        = (if fst rs' = [] then Inr (None, m2) else query_loop mi query is rs' m2)"
      using i found(2,7) it n R(1) rs z by (simp add: query_at_def)
    have lat: "later m m2" using latm R(2) by (rule later_trans)
    have unf: "refine_all mi (map ((!) query) (i # is)) (result_list rs)
        = refine_all mi (map ((!) query) is) (result_list rs')"
      by (simp add: refine_all_Cons R(4))
    show ?thesis
    proof (cases "fst rs' = []")
      case True
      then have "result_list rs' = []" by (simp add: result_list_def)
      with True lat show ?thesis unfolding unf step by simp
    next
      case False
      from Cons.IH [OF mi_inv_later [OF Cons.prems(1) lat] later_reliable [OF lat Cons.prems(2)]
          R(3) False len] Cons.prems(6)
      obtain r m3 where "query_loop mi query is rs' m2 = Inr (r, m3)" "later m2 m3"
        "case r of None \<Rightarrow> refine_all mi (map ((!) query) is) (result_list rs') = []
         | Some rs'' \<Rightarrow> rs_ok rs'' m3 \<and> fst rs'' \<noteq> [] \<and>
             result_list rs'' = refine_all mi (map ((!) query) is) (result_list rs')"
        by auto
      with False lat show ?thesis unfolding unf step by (auto intro: later_trans)
    qed
  qed
qed

section \<open>Sorting\<close>

text \<open>The comparator of the search results keeps the contract of \<^verbatim>\<open>SortLinkedList\<close>.\<close>

interpretation by_rank: comparator "\<lambda>p q. MISearchListComparator (the (srs p)) (the (srs q))"
  for srs :: "ptr \<rightharpoonup> SearchResult"
  by unfold_locales (auto simp: MISearchListComparator_def split: if_splits)

lemma sort_results_ok:
  assumes "rs_ok rs m"
  obtains rs' where "sort_results rs = Inr rs'" "rs_ok rs' m"
    "mset (result_list rs') = mset (result_list rs)"
    "sorted_wrt (\<lambda>a b. rank b \<le> rank a) (result_list rs')"
proof -
  obtain retlist srs where rs: "rs = (retlist, srs)" by (cases rs)
  obtain L where L: "cl_sort (Suc (length retlist * length retlist)) False
      (\<lambda>p q. MISearchListComparator (the (srs p)) (the (srs q))) retlist = Inr L"
    "map fst L = map fst retlist" "mset (map snd L) = mset (map snd retlist)"
    "sorted_wrt (by_rank.in_order srs False) (map snd L)"
    using by_rank.cl_sort_correct [where srs = srs and asc = False and cs = retlist
        and fuel = "Suc (length retlist * length retlist)"] by blast
  have s: "set (map snd L) = set (map snd retlist)" using L(3) by (rule mset_eq_setD)
  have "distinct (map snd L) = distinct (map snd retlist)"
    using L(3) by (rule mset_eq_imp_distinct_iff)
  moreover have "addrs L = addrs retlist" using L(2) by (metis image_set)
  ultimately have "rs_ok (L, srs) m"
    using assms s L(2) by (simp add: rs_ok_def rs)
  moreover have "mset (result_list (L, srs)) = mset (result_list rs)"
  proof -
    have "mset (result_list (L, srs)) = image_mset (\<lambda>p. the (srs p)) (mset (map snd L))"
      by (simp add: result_list_def multiset.map_comp comp_def)
    then show ?thesis
      unfolding L(3) by (simp add: result_list_def rs multiset.map_comp comp_def)
  qed
  moreover have "sorted_wrt (\<lambda>a b. rank b \<le> rank a) (result_list (L, srs))"
  proof -
    have "by_rank.in_order srs False p q \<Longrightarrow> rank (the (srs q)) \<le> rank (the (srs p))" for p q
      unfolding by_rank.in_order_def by (auto simp: MISearchListComparator_def split: if_splits)
    then show ?thesis
      using L(4) by (auto simp: result_list_def sorted_wrt_map elim: sorted_wrt_mono_rel [rotated])
  qed
  moreover have "sort_results rs = Inr (L, srs)"
    using L(1) by (simp add: sort_results_def rs)
  ultimately show thesis using that by blast
qed

section \<open>The answer of a query\<close>

text \<open>The rank of a document: how often the words of the query occur in it, modulo \<open>2 ^ 32\<close>.\<close>

definition score :: "mem_index \<Rightarrow> string list \<Rightarrow> u64 \<Rightarrow> u32" where
  "score mi ws d = sum_list (map (\<lambda>w. cl_count (the (docs_of mi w d))) ws)"

definition contains_all :: "mem_index \<Rightarrow> string list \<Rightarrow> u64 \<Rightarrow> bool" where
  "contains_all mi ws d \<longleftrightarrow> (\<forall>w \<in> set ws. docs_of mi w d \<noteq> None)"

lemma refine_all_eq:
  "refine_all mi ws L = map (\<lambda>r. r\<lparr>rank := rank r + score mi ws (docid r)\<rparr>)
     (filter (\<lambda>r. contains_all mi ws (docid r)) L)"
proof (induction ws arbitrary: L)
  case Nil
  have "(\<lambda>r :: SearchResult. r\<lparr>rank := rank r\<rparr>) = (\<lambda>r. r)" by simp
  then show ?case by (simp add: refine_all_def score_def contains_all_def)
next
  case (Cons w ws)
  have one: "List.map_filter (refined (docs_of mi w)) L
      = map (\<lambda>r. r\<lparr>rank := rank r + cl_count (the (docs_of mi w (docid r)))\<rparr>)
          (filter (\<lambda>r. docs_of mi w (docid r) \<noteq> None) L)"
    by (induction L) (auto simp: List.map_filter_simps refined_def split: option.splits)
  show ?case
    unfolding refine_all_Cons one Cons.IH
    by (auto simp: filter_map comp_def score_def contains_all_def add.assoc intro: filter_cong)
qed

lemma docid_first_result [simp]: "docid (first_result kv) = kv_key kv"
  "rank (first_result kv) = cl_count (kv_value kv)"
  by (simp_all add: first_result_def)

text \<open>The list of results for a query, before it is sorted.\<close>

lemma unsorted_results:
  assumes inv: "ht_inv docs m" and M: "docs_of mi w = ht_map docs"
    and L: "L = refine_all mi ws (map first_result (ht_items docs))"
  shows "distinct (map docid L)" "docid ` set L = {d. contains_all mi (w # ws) d}"
    "\<And>r. r \<in> set L \<Longrightarrow> rank r = score mi (w # ws) (docid r)"
proof -
  let ?items = "ht_items docs"
  have d0: "distinct (map kv_key ?items)" using ht_invD(7) [OF inv] .
  have at: "docs_of mi w (kv_key kv) = Some (kv_value kv)" if "kv \<in> set ?items" for kv
    using that ht_map_Some_iff [OF inv, of "kv_key kv" "kv_value kv"] unfolding M by blast
  have keys: "docs_of mi w d \<noteq> None \<longleftrightarrow> (\<exists>kv \<in> set ?items. kv_key kv = d)" for d
    using ht_map_Some_iff [OF inv, of d] unfolding M by (metis not_None_eq)
  have "map docid L = map kv_key (filter (\<lambda>kv. contains_all mi ws (kv_key kv)) ?items)"
    unfolding L refine_all_eq by (simp add: filter_map comp_def)
  with d0 show "distinct (map docid L)" by (simp add: distinct_map_filter)
  from \<open>map docid L = _\<close> have "docid ` set L = kv_key ` {kv \<in> set ?items. contains_all mi ws (kv_key kv)}"
    by (metis list.set_map set_filter)
  also have "\<dots> = {d. contains_all mi (w # ws) d}"
    using keys by (auto simp: contains_all_def)
  finally show "docid ` set L = {d. contains_all mi (w # ws) d}" .
  fix r assume "r \<in> set L"
  then obtain kv where "kv \<in> set ?items"
    "r = (first_result kv)\<lparr>rank := cl_count (kv_value kv) + score mi ws (kv_key kv)\<rparr>"
    unfolding L refine_all_eq by auto
  with at show "rank r = score mi (w # ws) (docid r)" by (simp add: score_def)
qed

text \<open>What a query answers.\<close>

definition query_answer :: "mem_index \<Rightarrow> string list \<Rightarrow> results option \<Rightarrow> mem \<Rightarrow> bool" where
  "query_answer mi ws r m \<longleftrightarrow>
     (case r of
        None \<Rightarrow> ws = [] \<or> (\<forall>d. \<not> contains_all mi ws d)
      | Some rs \<Rightarrow> ws \<noteq> [] \<and> fst rs \<noteq> [] \<and> rs_ok rs m \<and> distinct (map docid (result_list rs)) \<and>
          docid ` set (result_list rs) = {d. contains_all mi ws d} \<and>
          (\<forall>r \<in> set (result_list rs). rank r = score mi ws (docid r)) \<and>
          sorted_wrt (\<lambda>a b. rank b \<le> rank a) (result_list rs))"

lemma sorted_answer:
  assumes "rs_ok rs m" "fst rs \<noteq> []" "ws \<noteq> []" "distinct (map docid (result_list rs))"
    and "docid ` set (result_list rs) = {d. contains_all mi ws d}"
    and "\<And>r. r \<in> set (result_list rs) \<Longrightarrow> rank r = score mi ws (docid r)"
  obtains rs' where "sort_results rs = Inr rs'" "query_answer mi ws (Some rs') m"
proof -
  obtain rs' where s: "sort_results rs = Inr rs'" "rs_ok rs' m"
    "mset (result_list rs') = mset (result_list rs)"
    "sorted_wrt (\<lambda>a b. rank b \<le> rank a) (result_list rs')"
    using sort_results_ok [OF assms(1)] .
  have set: "set (result_list rs') = set (result_list rs)" using s(3) by (rule mset_eq_setD)
  have "mset (map docid (result_list rs')) = mset (map docid (result_list rs))" using s(3) by simp
  then have "distinct (map docid (result_list rs'))"
    using assms(4) mset_eq_imp_distinct_iff by blast
  moreover have "fst rs' \<noteq> []"
    using assms(2) s(3) by (metis length_0_conv length_result_list size_mset)
  ultimately show thesis
    using that [OF s(1)] s(2,4) set assms(3,5,6) by (simp add: query_answer_def)
qed

text \<open>The tables of documents are small enough for the counters of the code.\<close>

definition mi_small :: "mem_index \<Rightarrow> bool" where
  "mi_small mi \<longleftrightarrow> (\<forall>wd \<in> ran (wdss mi). total (docIDs wd) < 2 ^ 31)"

lemma MIProcessQuery_answer:
  assumes inv: "mi_inv mi m" and rel: "reliable m" and small: "mi_small mi"
    and len: "unat qlen \<le> length query"
  shows "\<exists>r m'. MIProcessQuery mi query qlen m = Inr (r, m') \<and> later m m' \<and>
           query_answer mi (take (unat qlen) query) r m'"
proof (cases "qlen = 0")
  case True
  then show ?thesis by (simp add: MIProcessQuery_def query_answer_def)
next
  case False
  then have q: "0 < unat qlen" by (simp add: unat_gt_0)
  then have q0: "0 < length query" using len by linarith
  let ?is = "[1..<unat qlen]"
  have words: "take (unat qlen) query = query ! 0 # map ((!) query) ?is"
  proof -
    have "take (unat qlen) query = map ((!) query) [0..<unat qlen]"
      by (rule nth_equalityI) (use len in simp_all)
    then show ?thesis using q by (simp only: upt_rec [of 0]) simp
  qed
  let ?m = "m\<lparr>clock := Suc (clock m)\<rparr>"
  have inv': "mi_inv mi ?m" using inv by (rule mi_inv_later) simp
  have rel': "reliable ?m" using rel by simp
  from inv' rel' show ?thesis
  proof (cases rule: lookup_word [where w = "query ! 0"])
    case (absent m1)
    have "\<not> contains_all mi (take (unat qlen) query) d" for d
      using absent(2) words by (simp add: contains_all_def)
    moreover have "MIProcessQuery mi query qlen m = Inr (None, m1)"
      using False rel absent(3) q0 by (simp add: MIProcessQuery_def malloc_reliable query_at_def)
    moreover have "later m m1" using absent(1) by (simp add: later_def)
    ultimately show ?thesis by (simp add: query_answer_def)
  next
    case (found p wd m1)
    have rel1: "reliable m1" using found(1) rel' by (rule later_reliable)
    have tot: "total (docIDs wd) < 2 ^ 31" using small found(6) by (simp add: mi_small_def)
    then have "total (docIDs wd) < 2 ^ 32" by simp
    with found(3) rel1 obtain it m2 where I: "HashTableMakeIterator (docIDs wd) m1 = Inr (Some it, m2)"
      "later m1 m2" "ht_inv (docIDs wd) m2" "reliable m2" "it_ok (docIDs wd) it"
      "it_items (docIDs wd) it = ht_items (docIDs wd)"
      by (rule make_iterator_any)
    have ni: "length (ht_items (docIDs wd)) = total (docIDs wd)" by (simp add: ht_items_def total_def)
    have ne: "it_items (docIDs wd) it \<noteq> []"
      using found(4,5) I(6) by (auto simp: ht_map_def)
    obtain rs m3 where F: "first_word_loop (Suc (total (docIDs wd))) (docIDs wd) it ([], Map.empty) m2
        = Inr (rs, m3)" "later m2 m3" "rs_ok rs m3"
      "result_list rs = map first_result (ht_items (docIDs wd))"
      using first_word_loop_ok [OF I(3,5) rs_ok_empty I(4) ne, of "Suc (total (docIDs wd))"] I(6) ni
      by (auto simp: result_list_def [of "([], Map.empty)"])
    have lat: "later m m3"
      using found(1) I(2) F(2) by (auto simp: later_def)
    have rel3: "reliable m3" using lat rel by (rule later_reliable)
    have rsne: "fst rs \<noteq> []" using F(4) ne I(6) by (auto simp: result_list_def)
    have rslen: "length (fst rs) < 2 ^ 31"
      using F(4) tot ni by (metis length_map length_result_list)
    let ?ws = "take (unat qlen) query"
    note U = unsorted_results [where ws = "map ((!) query) ?is", OF found(3,4) refl, folded words]
    have call: "MIProcessQuery mi query qlen m =
        (if qlen = 1 then andThen (sort_results rs) (\<lambda>rs. Inr (Some rs, m3))
         else andThen (query_loop mi query ?is rs m3) (\<lambda>(rs, m).
                case rs of None \<Rightarrow> Inr (None, m)
                | Some rs \<Rightarrow> andThen (sort_results rs) (\<lambda>rs. Inr (Some rs, m))))"
      using False rel found(2,7) q0 I(1) F(1)
      by (simp add: MIProcessQuery_def malloc_reliable query_at_def del: first_word_loop.simps)
    have wne: "?ws \<noteq> []" using words by simp
    show ?thesis
    proof (cases "qlen = 1")
      case True
      then have R: "result_list rs = refine_all mi (map ((!) query) ?is) (map first_result (ht_items (docIDs wd)))"
        using F(4) by (simp add: refine_all_def)
      obtain rs' where "sort_results rs = Inr rs'" "query_answer mi ?ws (Some rs') m3"
        using sorted_answer [OF F(3) rsne wne, of mi] U unfolding R by blast
      then show ?thesis using call True lat by simp
    next
      case False
      have bounds: "i < length query" if "i \<in> set ?is" for i using that len by simp
      obtain r m4 where Q: "query_loop mi query ?is rs m3 = Inr (r, m4)" "later m3 m4"
        "case r of
          None \<Rightarrow> refine_all mi (map ((!) query) ?is) (result_list rs) = []
        | Some rs' \<Rightarrow> rs_ok rs' m4 \<and> fst rs' \<noteq> [] \<and>
            result_list rs' = refine_all mi (map ((!) query) ?is) (result_list rs)"
        using query_loop_ok [OF mi_inv_later [OF inv lat] rel3 F(3) rsne rslen bounds] by blast
      have lat4: "later m m4" using lat Q(2) by (rule later_trans)
      show ?thesis
      proof (cases r)
        case None
        then have "\<not> contains_all mi ?ws d" for d
          using Q(3) U(2) F(4) by auto
        then show ?thesis using call False Q(1) None lat4 by (simp add: query_answer_def)
      next
        case (Some rs1)
        with Q(3) have R: "rs_ok rs1 m4" "fst rs1 \<noteq> []" "result_list rs1
            = refine_all mi (map ((!) query) ?is) (map first_result (ht_items (docIDs wd)))"
          using F(4) by simp_all
        obtain rs' where "sort_results rs1 = Inr rs'" "query_answer mi ?ws (Some rs') m4"
          using sorted_answer [OF R(1,2) wne, of mi] U unfolding R(3) by blast
        then show ?thesis using call False Q(1) Some lat4 by simp
      qed
    qed
  qed
qed

end
