(* ===== verification/MemIndexProps.thy ===== *)
theory MemIndexProps
  imports MemIndexQuery
begin

text \<open>
  The properties of the inverted index: adding posting lists, answering queries, freeing.
\<close>

section \<open>An index for the witnesses\<close>

text \<open>Document 1 has ``cat'' twice; document 2 has ``cat'' once and ``dog'' twice.\<close>

definition demo_cat :: "u32 cells hash_table" where
  "demo_cat = \<lparr>num_buckets = 1, ht_num_elements = 2, buckets = [[(20, 21), (22, 23)]],
     kvs = [21 \<mapsto> kv_of 1 [(30, 0), (31, 8)], 23 \<mapsto> kv_of 2 [(32, 4)]]\<rparr>"

definition demo_dog :: "u32 cells hash_table" where
  "demo_dog = \<lparr>num_buckets = 1, ht_num_elements = 1, buckets = [[(24, 25)]],
     kvs = [25 \<mapsto> kv_of 2 [(33, 0), (34, 9)]]\<rparr>"

definition demo_top :: "u64 \<Rightarrow> u64 \<Rightarrow> ptr hash_table" where
  "demo_top k k' = \<lparr>num_buckets = 1, ht_num_elements = 2, buckets = [[(2, 3), (5, 6)]],
     kvs = [3 \<mapsto> kv_of k 10, 6 \<mapsto> kv_of k' 11]\<rparr>"

definition demo_index :: mem_index where
  "demo_index = \<lparr>index = demo_top (hash_string ''cat'') (hash_string ''dog''),
     wdss = [10 \<mapsto> \<lparr>word = ''cat'', docIDs = demo_cat\<rparr>, 11 \<mapsto> \<lparr>word = ''dog'', docIDs = demo_dog\<rparr>]\<rparr>"

definition demo_mem50 :: mem where
  "demo_mem50 = mem_at 50 (\<lambda>_. False)"

lemmas hash_evals = hash_string_def bytes_of_def FNVHash64_def fnv_octet_def FNV1_64_INIT_def
  FNV_64_PRIME_def

lemma cat_dog: "hash_string ''cat'' \<noteq> hash_string ''dog''" "hash_string ''dog'' \<noteq> hash_string ''cat''"
  by (simp_all add: hash_evals)

lemma bucket_of_1 [simp]: "bucket_of 1 k = 0"
  by (simp add: bucket_of_def)

lemma demo_mem50_reliable: "reliable demo_mem50"
  by (simp add: reliable_def demo_mem50_def)

lemma demo_docs_inv: "ht_inv demo_cat demo_mem50" "ht_inv demo_dog demo_mem50"
  by (simp_all add: ht_inv_def demo_cat_def demo_dog_def demo_mem50_def total_def ht_items_def
      insert_commute)

lemma demo_docs_map:
  "ht_map demo_cat = [1 \<mapsto> [(30, 0), (31, 8)], 2 \<mapsto> [(32, 4)]]"
  "ht_map demo_dog = [2 \<mapsto> [(33, 0), (34, 9)]]"
  by (auto simp: demo_cat_def demo_dog_def ht_map_def ht_items_def fun_eq_iff)

lemma demo_top_inv: "k \<noteq> k' \<Longrightarrow> ht_inv (demo_top k k') demo_mem50"
  unfolding ht_inv_def demo_top_def demo_mem50_def total_def ht_items_def
  by (intro conjI, simp, simp, simp, simp, simp, (auto) [1], simp, simp, simp)

lemma demo_top_map: "k \<noteq> k' \<Longrightarrow> ht_map (demo_top k k') = [k \<mapsto> 10, k' \<mapsto> 11]"
  by (auto simp: demo_top_def ht_map_def ht_items_def fun_eq_iff)

lemma demo_index_map:
  "ht_map (index demo_index) = [hash_string ''cat'' \<mapsto> 10, hash_string ''dog'' \<mapsto> 11]"
  using demo_top_map [OF cat_dog(1)] by (simp add: demo_index_def)

lemma demo_index_inv: "mi_inv demo_index demo_mem50"
proof -
  have "ht_inv (index demo_index) demo_mem50"
    using demo_top_inv [OF cat_dog(1)] by (simp add: demo_index_def)
  moreover have "\<forall>wd \<in> ran (wdss demo_index). docIDs wd \<in> {demo_cat, demo_dog}"
    by (auto simp: demo_index_def ran_def split: if_splits)
  moreover have "dom (wdss demo_index) = {10, 11}" by (auto simp: demo_index_def)
  moreover have "ran (ht_map (index demo_index)) = {10, 11}"
    unfolding demo_index_map using cat_dog by (auto simp: ran_def)
  moreover have "\<forall>k k' p. ht_map (index demo_index) k = Some p \<longrightarrow>
      ht_map (index demo_index) k' = Some p \<longrightarrow> k = k'"
    unfolding demo_index_map by auto
  moreover have "ht_map demo_cat \<noteq> Map.empty" "ht_map demo_dog \<noteq> Map.empty"
    unfolding demo_docs_map by (auto simp: fun_eq_iff)
  moreover have "sized 128 (index demo_index)" "sized 23 demo_cat" "sized 23 demo_dog"
    by (simp_all add: sized_def total_def demo_index_def demo_top_def demo_cat_def demo_dog_def)
  ultimately show ?thesis
    using demo_docs_inv unfolding mi_inv_def mi_ok_def own_ok_def by (auto simp: demo_mem50_def)
qed

lemma demo_docs_of:
  "docs_of demo_index ''cat'' = ht_map demo_cat" "docs_of demo_index ''dog'' = ht_map demo_dog"
  by (simp_all add: docs_of_def mi_abs_def own_map_def demo_index_map cat_dog wds_abs_def)
    (simp_all add: demo_index_def wds_abs_def)

lemma demo_index_small: "mi_small demo_index"
  by (auto simp: mi_small_def demo_index_def demo_cat_def demo_dog_def total_def ran_def
      split: if_splits)

section \<open>Adding posting lists\<close>

text \<open>
  \<^verbatim>\<open>MIAddPostingList\<close> adds the positions of one word in one document: the entry of the
  word's hash gains the document (a new entry keeps the given word, an old one its own), every
  other entry is as before and the index stays well formed. A document that the word already has
  stops the program at the \<^verbatim>\<open>Verify333\<close>.
\<close>

theorem MIAddPostingList_correct:
  assumes "mi_inv mi m" "reliable m"
  shows "if has_document (mi_abs mi (hash_string w)) d
     then MIAddPostingList mi w d ps m = Inl VerificationFailure
     else \<exists>mi' m'. MIAddPostingList mi w d ps m = Inr (1, mi', m') \<and> mi_inv mi' m' \<and>
       mi_abs mi' = (mi_abs mi)(hash_string w \<mapsto>
         (case mi_abs mi (hash_string w) of None \<Rightarrow> (w, [d \<mapsto> ps]) | Some (w', M) \<Rightarrow> (w', M(d \<mapsto> ps))))"
  using MIAddPostingList_spec [OF assms, of w d ps] unfolding with_posting_def
  by (auto split: if_splits)

lemma MIAddPostingList_correct_witness:
  "MIAddPostingList demo_index ''dog'' 2 [] demo_mem50 = Inl VerificationFailure \<and>
   (\<exists>mi' m'. MIAddPostingList demo_index ''dog'' 7 [(40, 3)] demo_mem50 = Inr (1, mi', m') \<and>
      mi_inv mi' m' \<and> docs_of mi' ''dog'' = (ht_map demo_dog)(7 \<mapsto> [(40, 3)]))"
proof -
  have a: "mi_abs demo_index (hash_string ''dog'') = Some (''dog'', ht_map demo_dog)"
    by (simp add: mi_abs_def own_map_def demo_index_map cat_dog) (simp add: demo_index_def wds_abs_def)
  note C = MIAddPostingList_correct [OF demo_index_inv demo_mem50_reliable, where w = "''dog''",
      unfolded a has_document_def demo_docs_map]
  show ?thesis
    using C [of 2 "[]"] C [of 7 "[(40, 3)]"] by (auto simp: docs_of_def demo_docs_map)
qed

section \<open>Answering queries\<close>

text \<open>
  C16: A query returns \<^verbatim>\<open>NULL\<close> exactly when it has no words or no document contains all of them.
  Otherwise it returns a list with one result for each document that contains all its words, and
  for no other document; the rank is the number of occurrences of the words (modulo \<open>2 ^ 32\<close>), and
  the list is sorted by descending rank. Memory does not run out, and the counts of the index are
  far enough from their 32-bit width.
\<close>

theorem MIProcessQuery_correct:
  assumes "mi_inv mi m" "reliable m" "mi_small mi" "unat qlen \<le> length query"
    and "ws = take (unat qlen) query"
  shows "\<exists>r m'. MIProcessQuery mi query qlen m = Inr (r, m') \<and>
     (r = None \<longleftrightarrow> ws = [] \<or> (\<forall>d. \<exists>w \<in> set ws. docs_of mi w d = None)) \<and>
     (\<forall>rs. r = Some rs \<longrightarrow> distinct (map docid (result_list rs)) \<and>
        docid ` set (result_list rs) = {d. \<forall>w \<in> set ws. docs_of mi w d \<noteq> None} \<and>
        (\<forall>x \<in> set (result_list rs).
           rank x = sum_list (map (\<lambda>w. cl_count (the (docs_of mi w (docid x)))) ws)) \<and>
        sorted_wrt (\<lambda>x y. rank y \<le> rank x) (result_list rs))"
proof -
  from MIProcessQuery_answer [OF assms(1-4)] obtain r m' where
    q: "MIProcessQuery mi query qlen m = Inr (r, m')" "query_answer mi ws r m'"
    unfolding assms(5) by blast
  have "r = None \<longleftrightarrow> ws = [] \<or> (\<forall>d. \<not> contains_all mi ws d)"
  proof (cases r)
    case (Some rs)
    with q(2) have "ws \<noteq> []" "docid ` set (result_list rs) = {d. contains_all mi ws d}" "fst rs \<noteq> []"
      by (simp_all add: query_answer_def)
    moreover from this(3) have "result_list rs \<noteq> []" by (simp add: result_list_def)
    ultimately show ?thesis using Some by (cases "result_list rs") auto
  qed (use q(2) in \<open>simp add: query_answer_def\<close>)
  then have "r = None \<longleftrightarrow> ws = [] \<or> (\<forall>d. \<exists>w \<in> set ws. docs_of mi w d = None)"
    by (simp add: contains_all_def)
  moreover have "{d. contains_all mi ws d} = {d. \<forall>w \<in> set ws. docs_of mi w d \<noteq> None}"
    by (simp only: contains_all_def)
  moreover from this have "\<forall>rs. r = Some rs \<longrightarrow> distinct (map docid (result_list rs)) \<and>
        docid ` set (result_list rs) = {d. \<forall>w \<in> set ws. docs_of mi w d \<noteq> None} \<and>
        (\<forall>x \<in> set (result_list rs).
           rank x = sum_list (map (\<lambda>w. cl_count (the (docs_of mi w (docid x)))) ws)) \<and>
        sorted_wrt (\<lambda>x y. rank y \<le> rank x) (result_list rs)"
    using q(2) by (cases r) (simp_all add: query_answer_def score_def)
  ultimately show ?thesis using q(1) by blast
qed

lemma MIProcessQuery_correct_witness:
  "\<exists>rs m'. MIProcessQuery demo_index [''cat'', ''dog''] 2 demo_mem50 = Inr (Some rs, m') \<and>
     docid ` set (result_list rs) = {2} \<and> (\<forall>x \<in> set (result_list rs). rank x = 3)"
proof -
  define Q where "Q = [''cat'', ''dog'']"
  have len: "unat (2 :: u8) \<le> length Q" and ws: "Q = take (unat (2 :: u8)) Q"
    by (simp_all add: unat_numeral Q_def)
  have all2: "(\<forall>w \<in> set Q. docs_of demo_index w d \<noteq> None) \<longleftrightarrow> d = 2" for d
    by (auto simp: demo_docs_of demo_docs_map Q_def)
  have sc: "sum_list (map (\<lambda>w. cl_count (the (docs_of demo_index w 2))) Q) = 3"
    by (simp add: demo_docs_of demo_docs_map cl_count_def Q_def)
  from MIProcessQuery_correct [OF demo_index_inv demo_mem50_reliable demo_index_small len ws]
  show ?thesis
  proof (elim exE conjE)
    fix r m'
    assume q: "MIProcessQuery demo_index Q 2 demo_mem50 = Inr (r, m')"
      and n: "r = None \<longleftrightarrow> Q = [] \<or> (\<forall>d. \<exists>w \<in> set Q. docs_of demo_index w d = None)"
      and a: "\<forall>rs. r = Some rs \<longrightarrow> distinct (map docid (result_list rs)) \<and>
        docid ` set (result_list rs) = {d. \<forall>w \<in> set Q. docs_of demo_index w d \<noteq> None} \<and>
        (\<forall>x \<in> set (result_list rs).
           rank x = sum_list (map (\<lambda>w. cl_count (the (docs_of demo_index w (docid x)))) Q)) \<and>
        sorted_wrt (\<lambda>x y. rank y \<le> rank x) (result_list rs)"
    have "Q \<noteq> []" by (simp add: Q_def)
    then have "r \<noteq> None" using n all2 [of 2] by blast
    then obtain rs where rs: "r = Some rs" by auto
    with a have d: "docid ` set (result_list rs) = {2}" unfolding all2 by blast
    have "rank x = 3" if "x \<in> set (result_list rs)" for x
    proof -
      have "docid x = 2" using d that by blast
      moreover have "rank x = sum_list (map (\<lambda>w. cl_count (the (docs_of demo_index w (docid x)))) Q)"
        using a rs that by blast
      ultimately show ?thesis using sc by simp
    qed
    with q rs d show ?thesis unfolding Q_def by (intro exI [of _ rs] exI [of _ m']) simp
  qed
qed

section \<open>Freeing the index\<close>

lemma fold_MIFree:
  assumes "distinct ps" "set ps \<subseteq> dom wds" "\<forall>wd \<in> ran wds. ht_inv (docIDs wd) m"
  shows "fold MIFree ps (Inr (wds, words))
     = Inr (wds |` (- set ps), rev (map (\<lambda>p. word (the (wds p))) ps) @ words)"
  using assms
proof (induction ps arbitrary: wds words)
  case Nil
  then show ?case by (simp add: restrict_map_def)
next
  case (Cons p ps)
  then obtain wd where wd: "wds p = Some wd" by auto
  then have "ht_inv (docIDs wd) m" using Cons.prems(3) by (auto intro: ranI)
  then have one: "MIFree p (Inr (wds, words)) = Inr (wds(p := None), word wd # words)"
    using wd by (simp add: MIFree_def FreeHashTable_ok)
  have "set ps \<subseteq> dom (wds(p := None))" using Cons.prems(1,2) by auto
  moreover have "\<forall>wd \<in> ran (wds(p := None)). ht_inv (docIDs wd) m"
    using Cons.prems(3) by (auto simp: ran_def split: if_splits)
  ultimately have "fold MIFree ps (Inr (wds(p := None), word wd # words))
      = Inr ((wds(p := None)) |` (- set ps),
             rev (map (\<lambda>q. word (the ((wds(p := None)) q))) ps) @ word wd # words)"
    using Cons.IH Cons.prems(1) by simp
  moreover have "(wds(p := None)) |` (- set ps) = wds |` (- set (p # ps))"
    by (auto simp: restrict_map_def fun_eq_iff)
  moreover have "map (\<lambda>q. word (the ((wds(p := None)) q))) ps = map (\<lambda>q. word (the (wds q))) ps"
    using Cons.prems(1) by auto
  ultimately show ?case using one wd by simp
qed

lemma FreeMemIndex_ok:
  assumes "mi_inv mi m"
  shows "\<exists>ps. FreeMemIndex mi = Inr (Map.empty, map (\<lambda>p. word (the (wdss mi p))) ps) \<and>
     distinct ps \<and> set ps = dom (wdss mi)"
proof -
  note O = mi_inv_ok [OF assms, unfolded mi_ok_def]
  then have own: "own_ok (index mi) (wdss mi) m" by blast
  let ?ps = "map kv_value (ht_items (index mi))"
  note d = own_pointers(1) [OF own] and s = own_pointers(2) [OF own]
  have inv: "ht_inv (index mi) m" using own by (rule own_inv)
  have "fold MIFree ?ps (Inr (wdss mi, [])) = Inr (Map.empty, rev (map (\<lambda>p. word (the (wdss mi p))) ?ps))"
  proof -
    have "wdss mi |` (- set ?ps) = Map.empty" unfolding s by (auto simp: restrict_map_def fun_eq_iff)
    with fold_MIFree [OF d, of "wdss mi" m "[]"] s O show ?thesis by simp
  qed
  then have "FreeMemIndex mi = Inr (Map.empty, map (\<lambda>p. word (the (wdss mi p))) (rev ?ps))"
    by (simp add: FreeMemIndex_def FreeHashTable_ok [OF inv] fold_map comp_def rev_map)
  with d s show ?thesis by (metis distinct_rev set_rev)
qed

text \<open>
  Freeing the index frees every \<^verbatim>\<open>WordDocSet\<close> and each of their words exactly once and leaves
  none allocated.
\<close>

theorem FreeMemIndex_frees_all:
  assumes "mi_inv mi m"
  shows "\<exists>ps. FreeMemIndex mi = Inr (Map.empty, map (\<lambda>p. word (the (wdss mi p))) ps) \<and>
     distinct ps \<and> set ps = dom (wdss mi)"
  by (rule FreeMemIndex_ok [OF assms])

lemma FreeMemIndex_frees_all_witness:
  "\<exists>ps. FreeMemIndex demo_index = Inr (Map.empty, map (\<lambda>p. word (the (wdss demo_index p))) ps) \<and>
     distinct ps \<and> set ps = dom (wdss demo_index)"
  by (rule FreeMemIndex_frees_all [OF demo_index_inv])

end
