(* ===== verification/FileParserProps.thy ===== *)
theory FileParserProps
  imports FileParser OwnedTable
begin

text \<open>
  The words of a text, defined without a buffer and without pointers, and the proof that the file
  parser finds exactly these words at exactly these positions; the read loop delivers the file.
\<close>

section \<open>The words of a text\<close>

text \<open>The maximal runs of letters, in lower case, with the offset where each starts.\<close>

function tokens :: "nat \<Rightarrow> string \<Rightarrow> (string \<times> nat) list" where
  "tokens n [] = []"
| "tokens n (c # cs) =
     (if isalpha c
      then (map tolower (c # takeWhile isalpha cs), n)
             # tokens (Suc n + length (takeWhile isalpha cs)) (dropWhile isalpha cs)
      else tokens (Suc n) cs)"
  by pat_completeness auto
termination
  by (relation "measure (\<lambda>(n, cs). length cs)") (auto simp: le_imp_less_Suc length_dropWhile_le)

definition words_of :: "bool \<Rightarrow> string \<Rightarrow> (string \<times> nat) list" where
  "words_of flt text = filter (\<lambda>(w, _). Unfiltered flt w) (tokens 0 text)"

text \<open>The parser's calls of \<^verbatim>\<open>AddToHashTable\<close>.\<close>

primrec add_each :: "(string \<times> nat) list \<Rightarrow> word_table \<Rightarrow> mem \<Rightarrow> (word_table \<times> mem) res" where
  "add_each [] t m = Inr (t, m)"
| "add_each (x # xs) t m =
     andThen (AddToHashTable t (fst x) (of_nat (snd x)) m) (\<lambda>(t, m). add_each xs t m)"

lemma not_alpha_NUL [simp]: "\<not> isalpha NUL"
  by (simp add: isalpha_def)

lemma tolower_not_NUL:
  assumes "isalpha c"
  shows "tolower c \<noteq> NUL"
proof
  assume z: "tolower c = NUL"
  let ?n = "of_char c :: nat"
  have "of_char (tolower c) = (if 65 \<le> ?n \<and> ?n \<le> 90 then ?n + 32 else ?n)"
    by (simp add: tolower_def Let_def take_bit_nat_eq_self)
  moreover have "of_char (tolower c) = (0 :: nat)" unfolding z by simp
  ultimately show False using assms by (simp add: isalpha_def Let_def split: if_splits)
qed

lemma tokens_run:
  "list_all isalpha w \<Longrightarrow> w \<noteq> [] \<Longrightarrow> rest = [] \<or> \<not> isalpha (hd rest) \<Longrightarrow>
     tokens n (w @ rest) = (map tolower w, n) # tokens (n + length w) rest"
proof (cases w)
  case (Cons c cs)
  assume a: "list_all isalpha w" and r: "rest = [] \<or> \<not> isalpha (hd rest)"
  then have "takeWhile isalpha (cs @ rest) = cs" "dropWhile isalpha (cs @ rest) = rest"
    using Cons by (cases rest; simp add: list_all_iff)+
  with a Cons show ?thesis by simp
qed simp

lemma c_string_run:
  "list_all (\<lambda>c. c \<noteq> NUL) w \<Longrightarrow> c_string (pre @ w @ NUL # post) (length pre) = w"
  by (simp add: c_string_def list_all_iff)

text \<open>
  The loop at a point where the run \<open>w\<close> has been read and lowered and \<open>rest\<close> is still to come. The
  part of the buffer before the run does not matter.
\<close>

lemma LoopAndInsert_loop_eq:
  assumes "list_all isalpha w" "list_all (\<lambda>c. c \<noteq> NUL) rest"
  shows "LoopAndInsert_loop flt (pre @ map tolower w @ rest @ [NUL]) (length pre + length w)
       (length pre) t m
     = add_each (filter (\<lambda>(w, _). Unfiltered flt w) (tokens (length pre) (w @ rest))) t m"
  using assms
proof (induction rest arbitrary: pre w t m)
  case Nil
  let ?buf = "pre @ map tolower w @ [NUL]"
  have nth: "?buf ! (length pre + length w) = NUL" by (simp add: nth_append)
  have nn: "list_all (\<lambda>c. c \<noteq> NUL) (map tolower w)"
    using Nil.prems(1) by (auto simp: list_all_iff tolower_not_NUL)
  have upd: "?buf[length pre + length w := NUL] = ?buf" by (simp add: list_update_append)
  show ?case
  proof (cases "w = []")
    case True
    then show ?thesis by (subst LoopAndInsert_loop.simps) (simp add: Let_def)
  next
    case False
    have tok: "tokens (length pre) (w @ []) = [(map tolower w, length pre)]"
      using tokens_run [OF Nil.prems(1) False, of "[]"] by simp
    show ?thesis
      unfolding append_Nil tok
      by (subst LoopAndInsert_loop.simps)
        (use False nth upd c_string_run [OF nn, of pre "[]"] in \<open>auto simp: Let_def andThen_def split: sum.splits\<close>)
  qed
next
  case (Cons c rest)
  let ?buf = "pre @ map tolower w @ (c # rest) @ [NUL]"
  let ?i = "length pre + length w"
  have nth: "?buf ! ?i = c" by (simp add: nth_append)
  have len: "?i < length ?buf" by simp
  show ?case
  proof (cases "isalpha c")
    case True
    have buf: "?buf[?i := tolower c] = pre @ map tolower (w @ [c]) @ rest @ [NUL]"
      by (simp add: list_update_append)
    have "LoopAndInsert_loop flt ?buf ?i (length pre) t m
        = LoopAndInsert_loop flt (?buf[?i := tolower c]) (?i + 1) (length pre) t m"
      using True nth len by (subst LoopAndInsert_loop.simps) (simp only: Let_def if_True simp_thms if_False)
    also have "\<dots> = add_each (filter (\<lambda>(w, _). Unfiltered flt w)
        (tokens (length pre) ((w @ [c]) @ rest))) t m"
      unfolding buf using Cons.IH [of "w @ [c]" pre t m] Cons.prems True by simp
    finally show ?thesis by simp
  next
    case False
    then have nc: "c \<noteq> NUL" using Cons.prems(2) by simp
    have rest: "list_all (\<lambda>c. c \<noteq> NUL) rest" using Cons.prems(2) by simp
    let ?rec = "\<lambda>pre t m. add_each (filter (\<lambda>(w, _). Unfiltered flt w) (tokens (length pre) rest)) t m"
    have IH: "LoopAndInsert_loop flt (pre' @ rest @ [NUL]) (length pre') (length pre') t' m' = ?rec pre' t' m'"
      for pre' t' m'
      using Cons.IH [of "[]" pre' t' m'] rest by simp
    show ?thesis
    proof (cases "w = []")
      case True
      have "LoopAndInsert_loop flt ?buf ?i (length pre) t m
          = LoopAndInsert_loop flt ?buf (?i + 1) (?i + 1) t m"
        using False nth len nc True by (subst LoopAndInsert_loop.simps) (simp add: Let_def)
      also have "\<dots> = ?rec (pre @ [c]) t m"
        using IH [of "pre @ [c]"] True by simp
      finally show ?thesis using True False by simp
    next
      case w: False
      let ?pre = "pre @ map tolower w @ [NUL]"
      have buf: "?buf[?i := NUL] = ?pre @ rest @ [NUL]" by (simp add: list_update_append)
      have nn: "list_all (\<lambda>c. c \<noteq> NUL) (map tolower w)"
        using Cons.prems(1) by (auto simp: list_all_iff tolower_not_NUL)
      have cstr: "c_string (?pre @ rest @ [NUL]) (length pre) = map tolower w"
        using c_string_run [OF nn, of pre "rest @ [NUL]"] by simp
      have tok: "tokens (length pre) (w @ c # rest)
          = (map tolower w, length pre) # tokens (length ?pre) rest"
        using tokens_run [OF Cons.prems(1) w, of "c # rest" "length pre"] False by simp
      have ne: "length pre \<noteq> ?i" using w by simp
      have "LoopAndInsert_loop flt ?buf ?i (length pre) t m
          = andThen (if Unfiltered flt (map tolower w)
              then AddToHashTable t (map tolower w) (of_nat (length pre)) m else Inr (t, m))
              (\<lambda>(t, m). LoopAndInsert_loop flt (?pre @ rest @ [NUL]) (length ?pre) (length ?pre) t m)"
        using False nth len nc ne buf cstr by (subst LoopAndInsert_loop.simps) (simp add: Let_def)
      also have "\<dots> = andThen (if Unfiltered flt (map tolower w)
              then AddToHashTable t (map tolower w) (of_nat (length pre)) m else Inr (t, m))
              (\<lambda>(t, m). ?rec ?pre t m)"
        unfolding IH ..
      finally show ?thesis unfolding tok by simp
    qed
  qed
qed

lemma LoopAndInsert_words:
  assumes "list_all (\<lambda>c. c \<noteq> NUL) text"
  shows "LoopAndInsert flt t (text @ [NUL]) m = add_each (words_of flt text) t m"
  using LoopAndInsert_loop_eq [of "[]" "text" flt "[]" t m] assms
  by (simp add: LoopAndInsert_def words_of_def)

section \<open>The word table\<close>

text \<open>A word table as a map from hashes to the word and its positions.\<close>

type_synonym word_map = "u64 \<rightharpoonup> string \<times> u32 list"

definition wp_abs :: "WordPositions \<Rightarrow> string \<times> u32 list" where
  "wp_abs wp = (wp_word wp, map snd (positions wp))"

definition wt_ok :: "word_table \<Rightarrow> mem \<Rightarrow> bool" where
  "wt_ok t m \<longleftrightarrow> own_ok (tab t) (wps t) m"

definition wt_abs :: "word_table \<Rightarrow> word_map" where
  "wt_abs t key = map_option wp_abs (own_map (tab t) (wps t) key)"

definition note_word :: "word_map \<Rightarrow> string \<times> nat \<Rightarrow> word_map" where
  "note_word M x = M(hash_string (fst x) \<mapsto>
     (case M (hash_string (fst x)) of
        None \<Rightarrow> (fst x, [of_nat (snd x)])
      | Some (w, ps) \<Rightarrow> (w, ps @ [of_nat (snd x)])))"

lemma AddToHashTable_spec:
  assumes ok: "wt_ok t m" and rel: "reliable m"
  shows "\<exists>t' m'. AddToHashTable t w (of_nat pos) m = Inr (t', m') \<and> later m m' \<and> wt_ok t' m' \<and>
     wt_abs t' = note_word (wt_abs t) (w, pos)"
proof -
  let ?k = "hash_string w" and ?pos = "of_nat pos :: u32"
  have own: "own_ok (tab t) (wps t) m" using ok by (simp add: wt_ok_def)
  obtain m1 where l: "later m m1" "ht_inv (tab t) m1" "reliable m1"
    "LookupHashTable (tab t) ?k m = Inr (case ht_map (tab t) ?k of
        None \<Rightarrow> (0, None, m1) | Some v \<Rightarrow> (1, Some (kv_of ?k v), m1))"
    using ht.lookupE [OF own_inv [OF own] rel, of ?k] by blast
  have own1: "own_ok (tab t) (wps t) m1" using own l(1) by (rule own_ok_later)
  show ?thesis
  proof (cases "ht_map (tab t) ?k")
    case (Some p)
    obtain wp where wp: "wps t p = Some wp" "own_map (tab t) (wps t) ?k = Some wp"
      using own_reach [OF own1 Some] .
    let ?m = "m1\<lparr>clock := Suc (clock m1)\<rparr>"
    let ?wp = "wp\<lparr>positions := positions wp @ [(Suc (clock m1), ?pos)]\<rparr>"
    let ?t = "t\<lparr>wps := (wps t)(p \<mapsto> ?wp)\<rparr>"
    have call: "AddToHashTable t w ?pos m = Inr (?t, ?m)"
      using l(3,4) Some wp(1) by (simp add: AddToHashTable_def cl_append_def malloc_reliable Let_def)
    have "own_ok (tab t) (wps t) ?m" using own1 by (rule own_ok_later) simp
    note U = own_update [OF this Some, of ?wp]
    have "wt_ok ?t ?m" using U(1) by (simp add: wt_ok_def)
    moreover have "wt_abs ?t = note_word (wt_abs t) (w, pos)"
      using U(2) wp(2) by (simp add: wt_abs_def note_word_def wp_abs_def fun_eq_iff)
    moreover have "later m ?m" using l(1) by (auto simp: later_def)
    ultimately show ?thesis using call by blast
  next
    case None
    let ?p = "Suc (clock m1)"
    let ?m = "m1\<lparr>clock := Suc (Suc (Suc ?p))\<rparr>"
    let ?wp = "\<lparr>wp_word = w, positions = [(Suc (Suc (Suc ?p)), ?pos)]\<rparr>"
    have "ht_inv (tab t) ?m" using l(2) by (rule ht_inv_later) simp
    moreover have "reliable ?m" using l(3) by simp
    ultimately obtain ix m2 where i: "later ?m m2" "ht_inv ix m2" "reliable m2"
      "ht_map ix = (ht_map (tab t))(?k \<mapsto> ?p)"
      "InsertHashTable (tab t) (kv_of ?k ?p) ?m = Inr (1, None, ix, m2)"
      using None by (rule ht.insert_newE)
    have lat: "later m1 m2" "?p \<le> clock m2" using i(1) by (auto simp: later_def)
    let ?t = "\<lparr>tab = ix, wps = (wps t)(?p \<mapsto> ?wp)\<rparr>"
    have call: "AddToHashTable t w ?pos m = Inr (?t, m2)"
      using l(3,4) None i(5) by (simp add: AddToHashTable_def cl_append_def malloc_reliable Let_def)
    note U = own_new [OF own1 lat(1) None i(2,4) _ lat(2), of ?wp]
    have "wt_ok ?t m2" using U(1) by (simp add: wt_ok_def)
    moreover have "wt_abs ?t = note_word (wt_abs t) (w, pos)"
      using U(2) None own_map_None [OF own, of ?k]
      by (simp add: wt_abs_def note_word_def wp_abs_def fun_eq_iff)
    moreover have "later m m2" using l(1) lat(1) by (rule later_trans)
    ultimately show ?thesis using call by blast
  qed
qed

lemma add_each_spec:
  "wt_ok t m \<Longrightarrow> reliable m \<Longrightarrow>
     \<exists>t' m'. add_each xs t m = Inr (t', m') \<and> later m m' \<and> wt_ok t' m' \<and>
       wt_abs t' = foldl note_word (wt_abs t) xs"
proof (induction xs arbitrary: t m)
  case (Cons x xs)
  obtain w pos where x: "x = (w, pos)" by (cases x)
  obtain t1 m1 where a: "AddToHashTable t w (of_nat pos) m = Inr (t1, m1)" "later m m1" "wt_ok t1 m1"
    "wt_abs t1 = note_word (wt_abs t) (w, pos)"
    using AddToHashTable_spec [OF Cons.prems] by blast
  obtain t2 m2 where "add_each xs t1 m1 = Inr (t2, m2)" "later m1 m2" "wt_ok t2 m2"
    "wt_abs t2 = foldl note_word (wt_abs t1) xs"
    using Cons.IH [OF a(3) later_reliable [OF a(2) Cons.prems(2)]] by blast
  with a x show ?case by (auto intro: later_trans)
qed auto

text \<open>What is noted for a hash: the first word with it, and the positions of all of them.\<close>

definition occurrences :: "(string \<times> nat) list \<Rightarrow> u64 \<Rightarrow> (string \<times> nat) list" where
  "occurrences xs key = filter (\<lambda>(w, _). hash_string w = key) xs"

definition noted :: "(string \<times> nat) list \<Rightarrow> word_map" where
  "noted xs key = (case occurrences xs key of
     [] \<Rightarrow> None
   | x # os \<Rightarrow> Some (fst x, map (\<lambda>(_, pos). of_nat pos) (x # os)))"

lemma noted_Nil [simp]: "noted [] = Map.empty"
  by (simp add: noted_def occurrences_def fun_eq_iff)

lemma noted_snoc: "noted (xs @ [x]) = note_word (noted xs) x"
proof (rule ext)
  fix key
  show "noted (xs @ [x]) key = note_word (noted xs) x key"
  proof (cases "hash_string (fst x) = key")
    case False
    then have "occurrences (xs @ [x]) key = occurrences xs key"
      by (simp add: occurrences_def case_prod_beta)
    with False show ?thesis by (simp add: noted_def note_word_def)
  next
    case True
    then have "occurrences (xs @ [x]) key = occurrences xs key @ [x]"
      by (simp add: occurrences_def case_prod_beta)
    with True show ?thesis
      by (cases "occurrences xs key") (simp_all add: noted_def note_word_def case_prod_beta)
  qed
qed

lemma foldl_note_word: "foldl note_word Map.empty xs = noted xs"
  by (induction xs rule: rev_induct) (simp_all add: noted_snoc)

lemma dom_noted: "dom (noted xs) = (\<lambda>x. hash_string (fst x)) ` set xs"
proof (rule set_eqI)
  fix key
  have "noted xs key = None \<longleftrightarrow> occurrences xs key = []"
    by (simp add: noted_def split: list.splits)
  also have "\<dots> \<longleftrightarrow> key \<notin> (\<lambda>x. hash_string (fst x)) ` set xs"
    by (force simp: occurrences_def filter_empty_conv)
  finally show "key \<in> dom (noted xs) \<longleftrightarrow> key \<in> (\<lambda>x. hash_string (fst x)) ` set xs"
    by (auto simp: domIff)
qed

lemma wt_dom:
  assumes "wt_ok t m"
  shows "dom (wt_abs t) = dom (ht_map (tab t))"
proof -
  have "wt_abs t k = None \<longleftrightarrow> ht_map (tab t) k = None" for k
    using own_map_None [of "tab t" "wps t" m k] assms by (simp add: wt_ok_def wt_abs_def)
  then show ?thesis by (simp add: dom_def del: not_None_eq)
qed

section \<open>Reading a file\<close>

text \<open>
  The contract of \<^verbatim>\<open>read\<close> on a regular file \<open>f\<close>: a call is interrupted, which happens only in the
  calls with numbers in the finite set \<open>K\<close>, or it delivers some of the next bytes, at least one
  and at most as many as asked for.
\<close>

definition reads_file :: "(nat \<Rightarrow> nat \<Rightarrow> read_outcome) \<Rightarrow> string \<Rightarrow> nat set \<Rightarrow> bool" where
  "reads_file rd f K \<longleftrightarrow> finite K \<and>
     (\<forall>i left. 0 < left \<longrightarrow> left \<le> length f \<longrightarrow>
        (case rd i left of
           ReadError again \<Rightarrow> again \<and> i \<in> K
         | ReadBytes bytes \<Rightarrow> bytes \<noteq> [] \<and> length bytes \<le> left \<and>
             bytes = take (length bytes) (drop (length f - left) f)))"

lemma ReadFile_loop_file:
  assumes rd: "reads_file rd f K" and left: "left \<le> length f"
    and n: "left + card (K \<inter> {i..}) < n"
  shows "\<exists>e. ReadFile_loop n rd i (take (length f - left) f) left m = Inr (Some f, m\<lparr>errno := e\<rparr>) \<and>
     (K = {} \<longrightarrow> e = errno m)"
  using left n
proof (induction n arbitrary: i left m)
  case (Suc n)
  show ?case
  proof (cases "left = 0")
    case True
    then show ?thesis by (intro exI [of _ "errno m"]) simp
  next
    case False
    have c: "case rd i left of ReadError again \<Rightarrow> again \<and> i \<in> K
         | ReadBytes bytes \<Rightarrow> bytes \<noteq> [] \<and> length bytes \<le> left \<and>
             bytes = take (length bytes) (drop (length f - left) f)"
      using rd False Suc.prems(1) by (simp add: reads_file_def)
    show ?thesis
    proof (cases "rd i left")
      case (ReadError again)
      with c have "again" "i \<in> K" by simp_all
      have fin: "finite (K \<inter> {i..})" using rd by (simp add: reads_file_def)
      have "i \<in> K \<inter> {i..}" "i \<notin> K \<inter> {Suc i..}" using \<open>i \<in> K\<close> by simp_all
      moreover have "K \<inter> {Suc i..} \<subseteq> K \<inter> {i..}" by auto
      ultimately have "K \<inter> {Suc i..} \<subset> K \<inter> {i..}" by blast
      then have "card (K \<inter> {Suc i..}) < card (K \<inter> {i..})" using fin by (rule psubset_card_mono [rotated])
      with Suc.prems(2) have "left + card (K \<inter> {Suc i..}) < n" by simp
      from Suc.IH [OF Suc.prems(1) this, of "m\<lparr>errno := read_errno again\<rparr>"] obtain e where
        "ReadFile_loop n rd (Suc i) (take (length f - left) f) left (m\<lparr>errno := read_errno again\<rparr>)
           = Inr (Some f, m\<lparr>errno := e\<rparr>)" by auto
      with ReadError \<open>again\<close> \<open>i \<in> K\<close> False show ?thesis by (intro exI [of _ e]) auto
    next
      case (ReadBytes bytes)
      with c have b: "bytes \<noteq> []" "length bytes \<le> left"
        "bytes = take (length bytes) (drop (length f - left) f)" by simp_all
      let ?left = "left - length bytes"
      have "take (length f - left) f @ take (length bytes) (drop (length f - left) f)
          = take (length f - left + length bytes) f"
        by (rule take_add [symmetric])
      then have "take (length f - left) f @ bytes = take (length f - left + length bytes) f"
        unfolding b(3) [symmetric] .
      also have "length f - left + length bytes = length f - ?left"
        using b(2) Suc.prems(1) by simp
      finally have buf: "take (length f - left) f @ bytes = take (length f - ?left) f" .
      have "card (K \<inter> {Suc i..}) \<le> card (K \<inter> {i..})"
        using rd by (intro card_mono) (auto simp: reads_file_def)
      moreover have "0 < length bytes" using b(1) by simp
      ultimately have "?left + card (K \<inter> {Suc i..}) < n" using Suc.prems(2) b(2) by linarith
      then have "\<exists>e. ReadFile_loop n rd (Suc i) (take (length f - ?left) f) ?left m
           = Inr (Some f, m\<lparr>errno := e\<rparr>) \<and> (K = {} \<longrightarrow> e = errno m)"
        using Suc.IH [of ?left "Suc i" m] Suc.prems(1) by simp
      with ReadBytes False b(1,2) buf show ?thesis by simp
    qed
  qed
qed simp

text \<open>The operating system has a regular file \<open>f\<close> that can be read.\<close>

definition has_file :: "file_os \<Rightarrow> string \<Rightarrow> nat set \<Rightarrow> bool" where
  "has_file os f K \<longleftrightarrow> os_stat os = Some (length f, True) \<and> os_open os \<and> reads_file (os_read os) f K"

lemma ReadFile_file:
  assumes f: "has_file os f K" "length f < 2 ^ 32" and rel: "reliable m"
    and n: "length f + card K < fuel"
  obtains e where "ReadFile fuel os m
     = Inr (Some (f @ [NUL], of_nat (length f)), m\<lparr>clock := Suc (clock m), errno := e\<rparr>)"
    "K = {} \<longrightarrow> e = errno m"
proof -
  obtain e where "ReadFile_loop fuel (os_read os) 0 [] (length f) (m\<lparr>clock := Suc (clock m)\<rparr>)
      = Inr (Some f, m\<lparr>clock := Suc (clock m), errno := e\<rparr>)" "K = {} \<longrightarrow> e = errno m"
    using ReadFile_loop_file [of "os_read os" f K "length f" 0 fuel "m\<lparr>clock := Suc (clock m)\<rparr>"] f(1) n
    by (auto simp: has_file_def)
  with that f rel show thesis
    by (simp add: ReadFile_def has_file_def malloc_reliable Let_def unat_of_nat_u32
        list_update_append)
qed

section \<open>The words are the maximal runs of letters\<close>

definition is_run :: "string \<Rightarrow> nat \<Rightarrow> nat \<Rightarrow> bool" where
  "is_run s j k \<longleftrightarrow> 0 < k \<and> j + k \<le> length s \<and> (\<forall>x. j \<le> x \<longrightarrow> x < j + k \<longrightarrow> isalpha (s ! x)) \<and>
     (0 < j \<longrightarrow> \<not> isalpha (s ! (j - 1))) \<and> (j + k < length s \<longrightarrow> \<not> isalpha (s ! (j + k)))"

lemma is_run_first: "is_run s j k \<Longrightarrow> isalpha (s ! j)"
  by (simp add: is_run_def)

lemma is_run_Cons:
  assumes "\<not> isalpha c"
  shows "is_run (c # cs) j k \<longleftrightarrow> (\<exists>j'. j = Suc j' \<and> is_run cs j' k)"
proof (cases j)
  case 0
  with assms show ?thesis using is_run_first [of "c # cs" 0 k] by auto
next
  case (Suc j')
  have "(\<forall>x. Suc j' \<le> x \<longrightarrow> x < Suc j' + k \<longrightarrow> isalpha ((c # cs) ! x))
      \<longleftrightarrow> (\<forall>x. j' \<le> x \<longrightarrow> x < j' + k \<longrightarrow> isalpha (cs ! x))" (is "?l \<longleftrightarrow> ?r")
  proof
    assume ?l show ?r using spec [OF \<open>?l\<close>, of "Suc _"] by simp
  next
    assume ?r show ?l
    proof (intro allI impI)
      fix x assume "Suc j' \<le> x" "x < Suc j' + k"
      with \<open>?r\<close> show "isalpha ((c # cs) ! x)" by (cases x) simp_all
    qed
  qed
  with Suc assms show ?thesis by (cases j') (auto simp: is_run_def)
qed

lemma is_run_append:
  assumes w: "list_all isalpha w" "w \<noteq> []" and r: "rest = [] \<or> \<not> isalpha (hd rest)"
  shows "is_run (w @ rest) j k \<longleftrightarrow>
     (j = 0 \<and> k = length w) \<or> (\<exists>j'. j = length w + j' \<and> is_run rest j' k)"
proof
  let ?n = "length w"
  have alpha: "isalpha ((w @ rest) ! x)" if "x < ?n" for x
    using w(1) that by (simp add: nth_append list_all_length)
  have stop: "\<not> isalpha ((w @ rest) ! ?n)" if "rest \<noteq> []"
    using r that by (simp add: nth_append hd_conv_nth)
  {
    assume run: "is_run (w @ rest) j k"
    note R = run [unfolded is_run_def]
    show "(j = 0 \<and> k = ?n) \<or> (\<exists>j'. j = ?n + j' \<and> is_run rest j' k)"
    proof (cases "j < ?n")
      case True
      have "j = 0" using R alpha [of "j - 1"] True by (cases j) auto
      moreover have "\<not> ?n < k" using R stop \<open>j = 0\<close> by force
      moreover have "\<not> k < ?n" using R alpha [of k] \<open>j = 0\<close> by auto
      ultimately show ?thesis by auto
    next
      case False
      then obtain j' where j: "j = ?n + j'" by (metis le_iff_add not_less)
      have "0 < j'"
      proof (rule ccontr)
        assume "\<not> 0 < j'"
        then have "isalpha ((w @ rest) ! ?n)" "rest \<noteq> []" using R j by auto
        with stop show False by simp
      qed
      have "isalpha (rest ! x)" if "j' \<le> x" "x < j' + k" for x
        using R that j by (auto simp: nth_append dest: spec [of _ "?n + x"])
      moreover have "\<not> isalpha (rest ! (j' - 1))"
        using R j \<open>0 < j'\<close> by (cases j') (auto simp: nth_append)
      moreover have "j' + k < length rest \<longrightarrow> \<not> isalpha (rest ! (j' + k))"
        using R j by (auto simp: nth_append add.assoc)
      ultimately show ?thesis using R j by (auto simp: is_run_def)
    qed
  next
    assume "(j = 0 \<and> k = ?n) \<or> (\<exists>j'. j = ?n + j' \<and> is_run rest j' k)"
    then show "is_run (w @ rest) j k"
    proof (elim disjE exE conjE)
      assume "j = 0" "k = ?n"
      with w alpha stop show ?thesis by (auto simp: is_run_def)
    next
      fix j' assume j: "j = ?n + j'" and run: "is_run rest j' k"
      have "rest \<noteq> []" using run by (auto simp: is_run_def)
      then have "j' \<noteq> 0" using is_run_first [OF run] r by (cases j') (auto simp: hd_conv_nth)
      have "isalpha ((w @ rest) ! x)" if "j \<le> x" "x < j + k" for x
        using run that j by (simp add: is_run_def nth_append)
      moreover have "\<not> isalpha ((w @ rest) ! (j - 1))"
        using run j \<open>j' \<noteq> 0\<close> by (cases j') (simp_all add: is_run_def nth_append)
      moreover have "j + k < length (w @ rest) \<longrightarrow> \<not> isalpha ((w @ rest) ! (j + k))"
        using run j by (simp add: is_run_def nth_append add.assoc)
      ultimately show ?thesis using run j by (simp add: is_run_def)
    qed
  }
qed

lemma not_run_Nil [simp]: "\<not> is_run [] j k"
  by (auto simp: is_run_def)

lemma tokens_runs:
  "(w, i) \<in> set (tokens n s) \<longleftrightarrow>
     (\<exists>j k. i = n + j \<and> is_run s j k \<and> w = map tolower (take k (drop j s)))"
proof (induction n s rule: tokens.induct)
  case (1 n)
  show ?case by simp
next
  case (2 n c cs)
  show ?case
  proof (cases "isalpha c")
    case False
    have "(w, i) \<in> set (tokens n (c # cs)) \<longleftrightarrow> (w, i) \<in> set (tokens (Suc n) cs)"
      using False by simp
    also have "\<dots> \<longleftrightarrow> (\<exists>j k. i = n + j \<and> is_run (c # cs) j k \<and> w = map tolower (take k (drop j (c # cs))))"
      unfolding 2(2) [OF False] is_run_Cons [OF False] by auto
    finally show ?thesis .
  next
    case True
    let ?w = "c # takeWhile isalpha cs" and ?rest = "dropWhile isalpha cs"
    have s: "c # cs = ?w @ ?rest" by simp
    have w: "list_all isalpha ?w" "?w \<noteq> []"
      using True by (auto simp: list_all_iff dest: set_takeWhileD)
    have r: "?rest = [] \<or> \<not> isalpha (hd ?rest)" using hd_dropWhile [of isalpha cs] by blast
    have "(w, i) \<in> set (tokens n (c # cs)) \<longleftrightarrow>
        w = map tolower ?w \<and> i = n \<or> (w, i) \<in> set (tokens (n + length ?w) ?rest)"
      using True by auto
    also have "\<dots> \<longleftrightarrow> w = map tolower ?w \<and> i = n \<or>
        (\<exists>j k. i = n + length ?w + j \<and> is_run ?rest j k \<and> w = map tolower (take k (drop j ?rest)))"
      using 2(1) [OF True] by simp
    also have "\<dots> \<longleftrightarrow> (\<exists>j k. i = n + j \<and> is_run (?w @ ?rest) j k \<and>
        w = map tolower (take k (drop j (?w @ ?rest))))"
      unfolding is_run_append [OF w r] by (auto simp del: takeWhile_dropWhile_id)
    finally show ?thesis unfolding s .
  qed
qed

section \<open>The whole parser\<close>

lemma length_tokens: "length (tokens n s) \<le> length s"
proof (induction n s rule: tokens.induct)
  case (2 n c cs)
  show ?case
  proof (cases "isalpha c")
    case True
    have "length (dropWhile isalpha cs) \<le> length cs" by (rule length_dropWhile_le)
    with 2(1) [OF True] True show ?thesis by simp
  next
    case False
    with 2(2) [OF False] show ?thesis by simp
  qed
qed simp

lemma length_words_of: "length (words_of flt s) \<le> length s"
  unfolding words_of_def using length_tokens [of 0 s] length_filter_le le_trans by blast

definition plain_text :: "string \<Rightarrow> bool" where
  "plain_text f \<longleftrightarrow> list_all (\<lambda>c. c \<noteq> NUL \<and> of_char c \<le> ASCII_UPPER_BOUND) f"

lemma card_dom_noted: "card (dom (noted xs)) \<le> length xs"
  unfolding dom_noted using card_image_le card_length le_trans by blast

lemma wt_total:
  assumes "wt_ok t m"
  shows "total (tab t) = card (dom (wt_abs t))"
  using total_card [of "tab t" m] wt_dom [OF assms] assms by (simp add: wt_ok_def own_inv)

lemma FreeWordHT_empty:
  assumes "wt_ok t m" "total (tab t) = 0"
  shows "FreeWordHT t = Inr (wps t, [])"
proof -
  have "ht_items (tab t) = []" using assms(2) by (simp add: ht_items_def total_def items_of_def del: concat_eq_Nil_conv)
  moreover have "ht_inv (tab t) m" using assms(1) by (simp add: wt_ok_def own_inv)
  ultimately show ?thesis by (simp add: FreeWordHT_def FreeHashTable_ok)
qed

lemma BuildWordHT_spec:
  assumes f: "has_file os f K" "length f < 2 ^ 32" and rel: "reliable m"
    and n: "length f + card K < fuel"
  shows "\<exists>r m'. BuildWordHT fuel flt os m = Inr (r, m') \<and> (K = {} \<longrightarrow> later m m') \<and>
     (r = None \<longleftrightarrow> \<not> plain_text f \<or> words_of flt f = []) \<and>
     (\<forall>t. r = Some t \<longrightarrow> wt_ok t m' \<and> wt_abs t = noted (words_of flt f))"
proof -
  obtain e where read: "ReadFile fuel os m
      = Inr (Some (f @ [NUL], of_nat (length f)), m\<lparr>clock := Suc (clock m), errno := e\<rparr>)"
    and e: "K = {} \<longrightarrow> e = errno m"
    by (rule ReadFile_file [OF f rel n])
  let ?m = "m\<lparr>clock := Suc (clock m), errno := e\<rparr>"
  have lat: "K = {} \<longrightarrow> later m ?m" using e by (simp add: later_def)
  have scan: "list_ex (\<lambda>c. c = NUL \<or> ASCII_UPPER_BOUND < of_char c)
      (take (unat (of_nat (length f) :: u32)) (f @ [NUL])) \<longleftrightarrow> \<not> plain_text f"
    using f(2) by (auto simp: unat_of_nat_u32 plain_text_def list_ex_iff list_all_iff not_le)
  show ?thesis
  proof (cases "plain_text f")
    case False
    then show ?thesis
      using read scan lat by (intro exI [of _ None] exI [of _ ?m]) (simp add: BuildWordHT_def)
  next
    case True
    let ?t = "\<lparr>tab = empty_table 64, wps = Map.empty\<rparr> :: word_table"
    have "reliable ?m" using rel by simp
    then obtain m1 where al: "AllocateHashTable 64 ?m = (Some (empty_table 64 :: ptr hash_table), m1)"
      "later ?m m1" "reliable m1"
      by (rule AllocateHashTable_ok [where nb = 64]) simp_all
    have "wt_ok ?t m1" "wt_abs ?t = Map.empty" by (simp_all add: wt_ok_def wt_abs_def fun_eq_iff)
    from add_each_spec [OF this(1) al(3), of "words_of flt f"] this(2) obtain t m2 where
      a: "add_each (words_of flt f) ?t m1 = Inr (t, m2)" "later m1 m2" "wt_ok t m2"
        "wt_abs t = noted (words_of flt f)"
      by (auto simp: foldl_note_word)
    have nn: "list_all (\<lambda>c. c \<noteq> NUL) f" using True by (auto simp: plain_text_def list_all_iff)
    have tot: "total (tab t) = card (dom (noted (words_of flt f)))"
      using wt_total [OF a(3)] a(4) by simp
    have "total (tab t) < 2 ^ 32"
      using tot card_dom_noted [of "words_of flt f"] length_words_of [of flt f] f(2) by linarith
    then have z: "NumElementsInHashTable (tab t) = 0 \<longleftrightarrow> total (tab t) = 0"
      using ht_invD(3) [OF own_inv [OF a(3) [unfolded wt_ok_def]]]
      by (simp add: NumElementsInHashTable_def of_nat_u32_eq_0_iff)
    have t0: "total (tab t) = 0 \<longleftrightarrow> words_of flt f = []"
      unfolding tot dom_noted by simp
    have "BuildWordHT fuel flt os m = (if words_of flt f = [] then Inr (None, m2) else Inr (Some t, m2))"
      using read scan True al(1) a(1) LoopAndInsert_words [OF nn, of flt ?t m1] z t0
        FreeWordHT_empty [OF a(3)]
      by (simp add: BuildWordHT_def)
    moreover have "K = {} \<longrightarrow> later m m2" using lat al(2) a(2) later_trans by blast
    ultimately show ?thesis using a(3,4) True by auto
  qed
qed

end
