(* ===== verification/FileParserThms.thy ===== *)
theory FileParserThms
  imports FileParserProps
begin

text \<open>
  The properties of the file parser: the read loop delivers the file, splitting the buffer finds
  the words of the text, and the word table holds every word with all its positions.
\<close>

text \<open>A file for the witnesses; the first call of \<^verbatim>\<open>read\<close> is interrupted, then up to 4 bytes come.\<close>

definition demo_text :: string where
  "demo_text = ''The fox; the Ox''"

definition demo_os :: file_os where
  "demo_os = \<lparr>os_stat = Some (length demo_text, True), os_open = True, os_errno = ENOENT,
     os_read = (\<lambda>i left. if i = 0 then ReadError True
                 else ReadBytes (take 4 (drop (length demo_text - left) demo_text)))\<rparr>"

lemma demo_text_length: "length demo_text = 15" "length demo_text < 2 ^ 32"
  by (simp_all add: demo_text_def)

lemma take_min_length: "take (min (length xs) n) xs = take n xs"
  by (simp add: min_def)

lemma demo_file: "has_file demo_os demo_text {0}"
proof -
  have "take 4 (drop (length demo_text - left) demo_text)
      = take (min left 4) (drop (length demo_text - left) demo_text)" if "left \<le> length demo_text" for left
    using take_min_length [of "drop (length demo_text - left) demo_text" 4] that by simp
  then show ?thesis
    by (auto simp: has_file_def demo_os_def reads_file_def demo_text_length(1))
qed

lemma demo_words: "words_of True demo_text = [(''fox'', 4), (''ox'', 13)]"
  by code_simp

text \<open>
  \<^verbatim>\<open>ReadFile\<close> returns the whole file, terminated, with its length, however the system cuts it
  into pieces and whichever calls of \<^verbatim>\<open>read\<close> are interrupted; length of the file plus number of
  interruptions plus one calls are enough.
\<close>

theorem ReadFile_delivers:
  assumes "has_file os f K" "length f < 2 ^ 32" "reliable m" "length f + card K < fuel"
  shows "\<exists>e. ReadFile fuel os m
     = Inr (Some (f @ [NUL], of_nat (length f)), m\<lparr>clock := Suc (clock m), errno := e\<rparr>)"
  by (rule ReadFile_file [OF assms]) blast

lemma ReadFile_delivers_witness:
  "\<exists>e. ReadFile 20 demo_os fresh_mem
     = Inr (Some (''The fox; the Ox'' @ [NUL], 15), fresh_mem\<lparr>clock := Suc 0, errno := e\<rparr>)"
proof -
  have "length demo_text + card {0 :: nat} < 20" by (simp add: demo_text_length)
  from ReadFile_delivers [OF demo_file demo_text_length(2) reliable_fresh_mem this]
  show ?thesis by (simp add: demo_text_def)
qed

text \<open>
  Splitting the buffer in place is the same as adding, in order, each word of the text with its
  offset: \<^verbatim>\<open>LoopAndInsert\<close> calls \<^verbatim>\<open>AddToHashTable\<close> exactly for the unfiltered words, and the words
  are the maximal runs of letters, in lower case, at the offsets where the runs start.
\<close>

theorem LoopAndInsert_finds_words:
  assumes "list_all (\<lambda>c. c \<noteq> NUL) s"
  shows "LoopAndInsert flt t (s @ [NUL]) m = add_each (words_of flt s) t m \<and>
     (\<forall>w i. (w, i) \<in> set (words_of flt s) \<longleftrightarrow>
        Unfiltered flt w \<and> (\<exists>k. is_run s i k \<and> w = map tolower (take k (drop i s))))"
proof -
  have "(w, i) \<in> set (words_of flt s) \<longleftrightarrow>
        Unfiltered flt w \<and> (\<exists>k. is_run s i k \<and> w = map tolower (take k (drop i s)))" for w i
    using tokens_runs [of w i 0 s] by (auto simp: words_of_def)
  with LoopAndInsert_words [OF assms] show ?thesis by simp
qed

lemma LoopAndInsert_finds_words_witness:
  "LoopAndInsert True \<lparr>tab = empty_table 1, wps = Map.empty\<rparr> (demo_text @ [NUL]) fresh_mem
     = add_each [(''fox'', 4), (''ox'', 13)] \<lparr>tab = empty_table 1, wps = Map.empty\<rparr> fresh_mem"
proof -
  have "list_all (\<lambda>c. c \<noteq> NUL) demo_text" by (simp add: demo_text_def)
  from LoopAndInsert_finds_words [OF this, of True _ fresh_mem] show ?thesis
    unfolding demo_words by blast
qed

text \<open>
  C20: The word table of a file: there is none when the file is not plain ASCII text or has no
  unfiltered word; otherwise the entry of a hash is the first word with that hash together with
  the offsets of all words with it, in the order of the text, and the table owns its entries, as
  long as memory does not run out. Reads may be short or interrupted.
\<close>

theorem BuildWordHT_correct:
  assumes "has_file os f K" "length f < 2 ^ 32" "reliable m" "length f + card K < fuel"
  shows "\<exists>r m'. BuildWordHT fuel flt os m = Inr (r, m') \<and>
     (r = None \<longleftrightarrow> (\<exists>c \<in> set f. c = NUL \<or> 127 < (of_char c :: nat)) \<or> words_of flt f = []) \<and>
     (\<forall>t key. r = Some t \<longrightarrow> wt_ok t m' \<and>
        wt_abs t key = (case filter (\<lambda>(w, _). hash_string w = key) (words_of flt f) of
            [] \<Rightarrow> None
          | (w, i) # os \<Rightarrow> Some (w, of_nat i # map (\<lambda>(_, i). of_nat i) os)))"
proof -
  obtain r m' where b: "BuildWordHT fuel flt os m = Inr (r, m')"
    "r = None \<longleftrightarrow> \<not> plain_text f \<or> words_of flt f = []"
    "\<forall>t. r = Some t \<longrightarrow> wt_ok t m' \<and> wt_abs t = noted (words_of flt f)"
    using BuildWordHT_spec [OF assms, of flt] by blast
  have plain: "plain_text f \<longleftrightarrow> \<not> (\<exists>c \<in> set f. c = NUL \<or> 127 < (of_char c :: nat))"
    unfolding plain_text_def list_all_iff ASCII_UPPER_BOUND_def by (meson not_le)
  have noted: "noted (words_of flt f) key
      = (case filter (\<lambda>(w, _). hash_string w = key) (words_of flt f) of
            [] \<Rightarrow> None
          | (w, i) # os \<Rightarrow> Some (w, of_nat i # map (\<lambda>(_, i). of_nat i) os))" for key
    unfolding noted_def occurrences_def
    by (cases "filter (\<lambda>(w, _). hash_string w = key) (words_of flt f)") auto
  show ?thesis
  proof (intro exI conjI allI impI)
    show "BuildWordHT fuel flt os m = Inr (r, m')" by (rule b(1))
    show "r = None \<longleftrightarrow> (\<exists>c \<in> set f. c = NUL \<or> 127 < (of_char c :: nat)) \<or> words_of flt f = []"
      unfolding b(2) plain by (simp only: not_not)
    fix t key assume "r = Some t"
    with b(3) have t: "wt_ok t m'" "wt_abs t = noted (words_of flt f)" by blast+
    show "wt_ok t m'" by (rule t(1))
    show "wt_abs t key = (case filter (\<lambda>(w, _). hash_string w = key) (words_of flt f) of
            [] \<Rightarrow> None
          | (w, i) # os \<Rightarrow> Some (w, of_nat i # map (\<lambda>(_, i). of_nat i) os))"
      unfolding t(2) by (rule noted)
  qed
qed

lemma BuildWordHT_correct_witness:
  "\<exists>t m'. BuildWordHT 20 True demo_os fresh_mem = Inr (Some t, m') \<and>
     wt_abs t (hash_string ''ox'') = Some (''ox'', [13])"
proof -
  have n: "length demo_text + card {0 :: nat} < 20" by (simp add: demo_text_length)
  have h: "hash_string ''fox'' \<noteq> hash_string ''ox''"
    by (simp add: hash_string_def bytes_of_def FNVHash64_def fnv_octet_def FNV1_64_INIT_def
        FNV_64_PRIME_def)
  have plain: "\<not> (\<exists>c \<in> set demo_text. c = NUL \<or> 127 < (of_char c :: nat))"
    by (simp add: demo_text_def)
  have "filter (\<lambda>(w, _). hash_string w = hash_string ''ox'') [(''fox'', 4), (''ox'', 13 :: nat)] = [(''ox'', 13)]"
    using h by simp
  with BuildWordHT_correct [OF demo_file demo_text_length(2) reliable_fresh_mem n, of True] plain
  show ?thesis unfolding demo_words by fastforce
qed

lemma fold_WordHTFree:
  assumes "distinct ps" "set ps \<subseteq> dom st"
  shows "fold WordHTFree ps (Inr (st, words))
     = Inr (st |` (- set ps), rev (map (\<lambda>p. wp_word (the (st p))) ps) @ words)"
  using assms
proof (induction ps arbitrary: st words)
  case Nil
  then show ?case by (simp add: restrict_map_def)
next
  case (Cons p ps)
  then obtain wp where wp: "st p = Some wp" by auto
  have "set ps \<subseteq> dom (st(p := None))" using Cons.prems by auto
  then have "fold WordHTFree ps (Inr (st(p := None), wp_word wp # words))
      = Inr ((st(p := None)) |` (- set ps),
             rev (map (\<lambda>q. wp_word (the ((st(p := None)) q))) ps) @ wp_word wp # words)"
    using Cons.IH Cons.prems(1) by simp
  moreover have "(st(p := None)) |` (- set ps) = st |` (- set (p # ps))"
    by (auto simp: restrict_map_def fun_eq_iff)
  moreover have "map (\<lambda>q. wp_word (the ((st(p := None)) q))) ps = map (\<lambda>q. wp_word (the (st q))) ps"
    using Cons.prems(1) by auto
  moreover have "WordHTFree p (Inr (st, words)) = Inr (st(p := None), wp_word wp # words)"
    using wp by (simp add: WordHTFree_def)
  ultimately show ?case using wp by simp
qed

text \<open>
  Freeing a word table frees every entry and each of their words exactly once and leaves none
  allocated.
\<close>

theorem FreeWordHT_frees_all:
  assumes "wt_ok t m"
  shows "\<exists>ps. FreeWordHT t = Inr (Map.empty, map (\<lambda>p. wp_word (the (wps t p))) ps) \<and>
     distinct ps \<and> set ps = dom (wps t)"
proof -
  have own: "own_ok (tab t) (wps t) m" using assms by (simp add: wt_ok_def)
  let ?ps = "map kv_value (ht_items (tab t))"
  note d = own_pointers(1) [OF own] and s = own_pointers(2) [OF own]
  have "wps t |` (- set ?ps) = Map.empty" unfolding s by (auto simp: restrict_map_def fun_eq_iff)
  with fold_WordHTFree [OF d, of "wps t" "[]"] s
  have "FreeWordHT t = Inr (Map.empty, map (\<lambda>p. wp_word (the (wps t p))) (rev ?ps))"
    by (simp add: FreeWordHT_def FreeHashTable_ok [OF own_inv [OF own]] fold_map comp_def rev_map)
  with d s show ?thesis by (metis distinct_rev set_rev)
qed

definition demo_word_table :: word_table where
  "demo_word_table = \<lparr>tab = \<lparr>num_buckets = 1, ht_num_elements = 1, buckets = [[(2, 3)]],
       kvs = [3 \<mapsto> kv_of (hash_string ''ox'') 4]\<rparr>,
     wps = [4 \<mapsto> \<lparr>wp_word = ''ox'', positions = [(5, 13)]\<rparr>]\<rparr>"

lemma FreeWordHT_frees_all_witness:
  "\<exists>ps. FreeWordHT demo_word_table
       = Inr (Map.empty, map (\<lambda>p. wp_word (the (wps demo_word_table p))) ps) \<and>
     distinct ps \<and> set ps = {4}"
proof -
  have "wt_ok demo_word_table (mem_at 5 (\<lambda>_. False))"
    by (simp add: wt_ok_def own_ok_def demo_word_table_def ht_inv_def total_def ht_items_def
        ht_map_def bucket_of_def)
  from FreeWordHT_frees_all [OF this] show ?thesis by (simp add: demo_word_table_def)
qed

end
