(* ===== verification/FileCrawler.thy ===== *)
theory FileCrawler
  imports DocTable MemIndexProps FileParserThms
begin

text \<open>
  The crawler of \<^verbatim>\<open>hw2/filecrawler.c\<close>: it walks a directory tree, parses every regular file, gives
  the file a document id and moves its word table into the inverted index.

  The file system is a parameter: what \<^verbatim>\<open>stat\<close> says of a path, the outcomes of the \<^verbatim>\<open>readdir\<close> calls
  on a directory that \<^verbatim>\<open>opendir\<close> opens, and the contents of the files. It does not change during
  the crawl. \<open>rfuel\<close> bounds the calls of \<^verbatim>\<open>read\<close> for one file and of \<^verbatim>\<open>readdir\<close> at the end of a
  directory, \<open>n\<close> the depth of the directories.

  No function of the program sets \<^verbatim>\<open>errno\<close> to zero, and \<^verbatim>\<open>readdir\<close> leaves it alone at the end of a
  directory. So what an earlier call left in \<^verbatim>\<open>errno\<close> decides there whether the loop is left.
\<close>

section \<open>The crawler\<close>

datatype file_mode = S_REG | S_DIR | S_OTHER

text \<open>
  A \<^verbatim>\<open>readdir\<close> that fails (\<^verbatim>\<open>NULL\<close>, and \<^verbatim>\<open>errno\<close> set to the value given) or gives an entry; after the
  outcomes listed the end of the directory is reached, where every call gives \<^verbatim>\<open>NULL\<close>.
\<close>

datatype dirent = DirError int | Entry string

text \<open>\<open>path_errno\<close> is the \<^verbatim>\<open>errno\<close> that a failing \<^verbatim>\<open>stat\<close> or \<^verbatim>\<open>opendir\<close> of the path leaves.\<close>

record crawl_os =
  stat_mode :: "string \<rightharpoonup> file_mode"
  path_errno :: "string \<Rightarrow> int"
  open_dir :: "string \<rightharpoonup> dirent list"
  close_dir :: "string \<Rightarrow> bool"
  file_at :: "string \<Rightarrow> file_os"

text \<open>
  The loop of \<^verbatim>\<open>HandleFile\<close>: it takes the next word out of the table through the iterator, adds its
  positions to the index and frees the \<^verbatim>\<open>WordPositions\<close>.
\<close>

primrec HandleFile_loop ::
  "nat \<Rightarrow> u64 \<Rightarrow> word_table \<Rightarrow> ht_iter \<Rightarrow> mem_index \<Rightarrow> mem \<Rightarrow> (word_table \<times> mem_index \<times> mem) res" where
  "HandleFile_loop 0 docID t it mi m = Inl OutOfFuel"
| "HandleFile_loop (Suc n) docID t it mi m =
     (if 0 < NumElementsInHashTable (tab t) then
        andThen (HTIteratorDelete (tab t) it m) (\<lambda>(_, kv, tb, it, m).
          case kv of
            None \<Rightarrow> Inl MemFault
          | Some kv \<Rightarrow>
              load (wps t) (kv_value kv) (\<lambda>wp.
                andThen (MIAddPostingList mi (wp_word wp) docID (positions wp) m) (\<lambda>(_, mi, m).
                  HandleFile_loop n docID
                    (t\<lparr>tab := tb, wps := (wps t)(kv_value kv := None)\<rparr>) it mi m)))
      else Inr (t, mi, m))"

definition HandleFile ::
  "nat \<Rightarrow> bool \<Rightarrow> crawl_os \<Rightarrow> string \<Rightarrow> doc_table \<Rightarrow> mem_index \<Rightarrow> mem
     \<Rightarrow> (doc_table \<times> mem_index \<times> mem) res" where
  "HandleFile rfuel flt os fpath dt mi m =
     andThen (BuildWordHT rfuel flt (file_at os fpath) m) (\<lambda>(t, m).
       case t of
         None \<Rightarrow> Inr (dt, mi, m)
       | Some t \<Rightarrow>
           andThen (DTRegisterDocumentName dt fpath m) (\<lambda>(docID, dt, m).
             Verify333 (docID \<noteq> 0)
               (andThen (HashTableMakeIterator (tab t) m) (\<lambda>(it, m).
                  case it of
                    None \<Rightarrow> Inl VerificationFailure
                  | Some it \<Rightarrow>
                      andThen (HandleFile_loop (Suc (total (tab t))) docID t it mi m) (\<lambda>(t, mi, m).
                        andThen (FreeWordHT t) (\<lambda>_. Inr (dt, mi, m)))))))"

text \<open>The path of a directory entry.\<close>

definition entry_path :: "string \<Rightarrow> string \<Rightarrow> string" where
  "entry_path dirpath d_name =
     (if last dirpath = CHR ''/'' then dirpath @ d_name else dirpath @ ''/'' @ d_name)"

text \<open>The rounds of the loop in which \<^verbatim>\<open>readdir\<close> gives \<^verbatim>\<open>NULL\<close> at the end of the directory.\<close>

primrec end_of_directory :: "nat \<Rightarrow> mem \<Rightarrow> unit res" where
  "end_of_directory 0 m = Inl OutOfFuel"
| "end_of_directory (Suc k) m = (if retriable (errno m) then end_of_directory k m else Inr ())"

text \<open>
  The loop over the entries of an open directory. A directory that cannot be opened is skipped (and
  its path is never freed); every other path is skipped unless it is a regular file.
\<close>

function HandleDir ::
  "nat \<Rightarrow> nat \<Rightarrow> bool \<Rightarrow> crawl_os \<Rightarrow> string \<Rightarrow> dirent list \<Rightarrow> doc_table \<Rightarrow> mem_index \<Rightarrow> mem
     \<Rightarrow> (doc_table \<times> mem_index \<times> mem) res" where
  "HandleDir n rfuel flt os dirpath [] dt mi m =
     andThen (end_of_directory (Suc rfuel) m) (\<lambda>_. Inr (dt, mi, m))"
| "HandleDir n rfuel flt os dirpath (DirError e # d) dt mi m =
     (let m = m\<lparr>errno := e\<rparr> in
      if retriable (errno m) then HandleDir n rfuel flt os dirpath d dt mi m else Inr (dt, mi, m))"
| "HandleDir n rfuel flt os dirpath (Entry d_name # d) dt mi m =
     (if d_name = ''.'' \<or> d_name = ''..'' then HandleDir n rfuel flt os dirpath d dt mi m
      else case malloc m of (newfile, m) \<Rightarrow>
        if newfile = NULL then Inl VerificationFailure
        else if dirpath = [] then Inl MemFault
        else let path = entry_path dirpath d_name in
          case stat_mode os path of
            Some S_REG \<Rightarrow>
              (case HandleFile rfuel flt os path dt mi m of
                 Inl e \<Rightarrow> Inl e
               | Inr (dt, mi, m) \<Rightarrow> HandleDir n rfuel flt os dirpath d dt mi m)
          | Some S_DIR \<Rightarrow>
              (case open_dir os path of
                 None \<Rightarrow> HandleDir n rfuel flt os dirpath d dt mi (m\<lparr>errno := path_errno os path\<rparr>)
               | Some sd \<Rightarrow>
                   (case n of
                      0 \<Rightarrow> Inl OutOfFuel
                    | Suc n' \<Rightarrow>
                        (case HandleDir n' rfuel flt os path sd dt mi m of
                           Inl e \<Rightarrow> Inl e
                         | Inr (dt, mi, m) \<Rightarrow> HandleDir n rfuel flt os dirpath d dt mi m)))
          | Some S_OTHER \<Rightarrow> HandleDir n rfuel flt os dirpath d dt mi m
          | None \<Rightarrow> HandleDir n rfuel flt os dirpath d dt mi (m\<lparr>errno := path_errno os path\<rparr>))"
  by pat_completeness auto
termination
  by (relation "measures [\<lambda>(n, _). n, \<lambda>(_, _, _, _, _, d, _). length d]") auto

text \<open>\<open>None\<close> is the result 0.\<close>

definition CrawlFileTree ::
  "nat \<Rightarrow> nat \<Rightarrow> bool \<Rightarrow> crawl_os \<Rightarrow> string \<Rightarrow> mem \<Rightarrow> ((doc_table \<times> mem_index) option \<times> mem) res" where
  "CrawlFileTree n rfuel flt os rootdir m =
     (case stat_mode os rootdir of
        Some S_DIR \<Rightarrow>
          (case open_dir os rootdir of
             None \<Rightarrow> Inr (None, m\<lparr>errno := path_errno os rootdir\<rparr>)
           | Some rd \<Rightarrow>
               andThen (AllocateDocTable m) (\<lambda>(dt, m).
                 andThen (AllocateMemIndex m) (\<lambda>(mi, m).
                   andThen (HandleDir n rfuel flt os rootdir rd dt mi m) (\<lambda>(dt, mi, m).
                     Verify333 (close_dir os rootdir) (Inr (Some (dt, mi), m))))))
      | Some _ \<Rightarrow> Inr (None, m)
      | None \<Rightarrow> Inr (None, m\<lparr>errno := path_errno os rootdir\<rparr>))"

end
