(* ===== verification/FileCrawlerProps.thy ===== *)
theory FileCrawlerProps
  imports FileCrawler
begin

text \<open>
  What the crawler builds: the index as a map from word hashes to the word and the offsets in every
  document, and the files of a directory tree in the order of the walk.
\<close>

section \<open>Moving a word table into the index\<close>

type_synonym index_view = "u64 \<rightharpoonup> string \<times> (u64 \<rightharpoonup> u32 list)"

definition mi_view :: "mem_index \<Rightarrow> index_view" where
  "mi_view mi key = map_option (\<lambda>(w, M). (w, \<lambda>d. map_option (map snd) (M d))) (mi_abs mi key)"

definition add_table :: "u64 \<Rightarrow> index_view \<Rightarrow> word_map \<Rightarrow> index_view" where
  "add_table d V T key =
     (case T key of
        None \<Rightarrow> V key
      | Some (w, ps) \<Rightarrow>
          Some (case V key of None \<Rightarrow> (w, [d \<mapsto> ps]) | Some (w', D) \<Rightarrow> (w', D(d \<mapsto> ps))))"

lemma add_table_empty [simp]: "add_table d V Map.empty = V"
  by (simp add: add_table_def fun_eq_iff)

definition in_view :: "index_view \<Rightarrow> u64 \<Rightarrow> u64 \<Rightarrow> bool" where
  "in_view V key d = (case V key of None \<Rightarrow> False | Some (_, D) \<Rightarrow> D d \<noteq> None)"

lemma has_document_view: "has_document (mi_abs mi key) d = in_view (mi_view mi) key d"
  by (simp add: has_document_def in_view_def mi_view_def split: option.splits prod.splits)

lemma mi_view_with_posting:
  assumes "mi_abs mi' = (mi_abs mi)(k \<mapsto> with_posting (mi_abs mi k) w d ps)"
  shows "mi_view mi' = (mi_view mi)(k \<mapsto> (case mi_view mi k of
      None \<Rightarrow> (w, [d \<mapsto> map snd ps]) | Some (w', D) \<Rightarrow> (w', D(d \<mapsto> map snd ps))))"
  by (auto simp: assms mi_view_def with_posting_def fun_eq_iff split: option.splits)

lemma MIAddPostingList_view:
  assumes "mi_inv mi m" "reliable m" "\<not> in_view (mi_view mi) (hash_string w) d"
  obtains mi' m' where "MIAddPostingList mi w d ps m = Inr (1, mi', m')" "later m m'" "mi_inv mi' m'"
    "mi_view mi' = (mi_view mi)(hash_string w \<mapsto> (case mi_view mi (hash_string w) of
      None \<Rightarrow> (w, [d \<mapsto> map snd ps]) | Some (w', D) \<Rightarrow> (w', D(d \<mapsto> map snd ps))))"
proof -
  from MIAddPostingList_spec [OF assms(1,2), of w d ps] assms(3) obtain mi' m' where
    "MIAddPostingList mi w d ps m = Inr (1, mi', m')" "later m m'" "mi_inv mi' m'"
    "mi_abs mi' = (mi_abs mi)(hash_string w \<mapsto> with_posting (mi_abs mi (hash_string w)) w d ps)"
    by (auto simp: has_document_view)
  with that mi_view_with_posting show thesis by blast
qed

text \<open>The first entry of a word table goes over to the index.\<close>

lemma add_table_step:
  assumes "T k = Some (w, ps)"
  shows "add_table d (V(k \<mapsto> (case V k of
      None \<Rightarrow> (w, [d \<mapsto> ps]) | Some (w', D) \<Rightarrow> (w', D(d \<mapsto> ps))))) (T(k := None)) = add_table d V T"
  using assms by (auto simp: add_table_def fun_eq_iff split: option.splits)

lemma wt_remove:
  assumes "wt_ok t m" "ht_map (tab t) k = Some p" "ht_inv tb m'" "ht_map tb = (ht_map (tab t))(k := None)"
    and "later m m'"
  shows "wt_ok (t\<lparr>tab := tb, wps := (wps t)(p := None)\<rparr>) m'"
    "wt_abs (t\<lparr>tab := tb, wps := (wps t)(p := None)\<rparr>) = (wt_abs t)(k := None)"
  using own_remove [OF assms(1) [unfolded wt_ok_def] assms(2,3,4)] assms(5)
  by (auto simp: wt_ok_def wt_abs_def later_def fun_eq_iff)

lemma wt_ok_later: "wt_ok t m \<Longrightarrow> later m m' \<Longrightarrow> wt_ok t m'"
  unfolding wt_ok_def by (rule own_ok_later)

definition keyed :: "word_map \<Rightarrow> bool" where
  "keyed T \<longleftrightarrow> (\<forall>k w ps. T k = Some (w, ps) \<longrightarrow> hash_string w = k)"

lemma HandleFile_loop_ok:
  assumes "wt_ok t m" "mi_inv mi m" "reliable m" "it_ok (tab t) it"
    and "distinct (map kv_key (it_items (tab t) it))"
    and "ht_map (tab t) = map_of (map pair_of (it_items (tab t) it))"
    and "total (tab t) = length (it_items (tab t) it)" "total (tab t) < 2 ^ 32"
    and "length (it_items (tab t) it) < n" "keyed (wt_abs t)"
    and "\<forall>k. wt_abs t k \<noteq> None \<longrightarrow> \<not> in_view (mi_view mi) k d"
  shows "\<exists>t' mi' m'. HandleFile_loop n d t it mi m = Inr (t', mi', m') \<and> later m m' \<and>
     wt_ok t' m' \<and> total (tab t') = 0 \<and> mi_inv mi' m' \<and>
     mi_view mi' = add_table d (mi_view mi) (wt_abs t)"
  using assms
proof (induction n arbitrary: t it mi m)
  case (Suc n)
  have inv: "ht_inv (tab t) m" using Suc.prems(1) by (simp add: wt_ok_def own_inv)
  have num: "0 < NumElementsInHashTable (tab t) \<longleftrightarrow> it_items (tab t) it \<noteq> []"
    using Suc.prems(7,8) ht_invD(3) [OF inv]
    by (simp add: NumElementsInHashTable_def word_neq_0_conv [symmetric] of_nat_u32_eq_0_iff)
  show ?case
  proof (cases "it_items (tab t) it")
    case Nil
    then have "dom (wt_abs t) = {}"
      using Suc.prems(6) wt_dom [OF Suc.prems(1)] by simp
    then have "wt_abs t = Map.empty" by simp
    with Nil num Suc.prems(1,2,7) show ?thesis by (auto simp: later_def)
  next
    case (Cons kv rest)
    have "ht_map (tab t) (kv_key kv) = Some (kv_value kv)"
      using Suc.prems(6) Cons by (simp add: pair_of_def)
    note p = this
    then have mem: "kv \<in> set (ht_items (tab t))"
      unfolding ht_map_Some_iff [OF inv] by (metis kv_of_eq)
    obtain tb it1 m1 where d: "HTIteratorDelete (tab t) it m
        = Inr (if rest = [] then 2 else 1, Some kv, tb, it1, m1)" "later m m1" "ht_inv tb m1"
      "ht_map tb = (ht_map (tab t))(kv_key kv := None)" "total (tab t) = Suc (total tb)"
      "it_ok tb it1" "it_items tb it1 = rest"
      using HTIteratorDelete_step [OF inv Suc.prems(3,4) Cons Suc.prems(5) [unfolded Cons] mem] by blast
    obtain wp where wp: "wps t (kv_value kv) = Some wp" "wt_abs t (kv_key kv) = Some (wp_abs wp)"
      by (rule own_reach [OF Suc.prems(1) [unfolded wt_ok_def] p]) (simp add: wt_abs_def)
    have h: "hash_string (wp_word wp) = kv_key kv"
      using Suc.prems(10) wp(2) by (auto simp: keyed_def wp_abs_def)
    have rel1: "reliable m1" using d(2) Suc.prems(3) by (rule later_reliable)
    have fresh: "\<not> in_view (mi_view mi) (hash_string (wp_word wp)) d"
      using Suc.prems(11) wp(2) h by simp
    obtain mi1 m2 where a: "MIAddPostingList mi (wp_word wp) d (positions wp) m1 = Inr (1, mi1, m2)"
      "later m1 m2" "mi_inv mi1 m2"
      and v: "mi_view mi1 = (mi_view mi)(kv_key kv \<mapsto> (case mi_view mi (kv_key kv) of
         None \<Rightarrow> (wp_word wp, [d \<mapsto> map snd (positions wp)])
       | Some (w', D) \<Rightarrow> (w', D(d \<mapsto> map snd (positions wp)))))"
      using MIAddPostingList_view [OF mi_inv_later [OF Suc.prems(2) d(2)] rel1 fresh, of "positions wp"]
      unfolding h by blast
    let ?t = "t\<lparr>tab := tb, wps := (wps t)(kv_value kv := None)\<rparr>"
    have lat: "later m m2" using d(2) a(2) by (rule later_trans)
    note R = wt_remove [OF Suc.prems(1) p ht_inv_later [OF d(3) a(2)] d(4) lat]
    have "\<exists>t' mi' m'. HandleFile_loop n d ?t it1 mi1 m2 = Inr (t', mi', m') \<and> later m2 m' \<and>
       wt_ok t' m' \<and> total (tab t') = 0 \<and> mi_inv mi' m' \<and>
       mi_view mi' = add_table d (mi_view mi1) (wt_abs ?t)"
    proof (rule Suc.IH [OF R(1) a(3) later_reliable [OF a(2) rel1]])
      have "kv_key kv \<notin> kv_key ` set rest" using Suc.prems(5) Cons by simp
      then have "map_of (map pair_of rest) (kv_key kv) = None"
        by (simp only: map_of_pairs_None simp_thms)
      then show "ht_map (tab ?t) = map_of (map pair_of (it_items (tab ?t) it1))"
        using d(4,7) Suc.prems(6) Cons by (auto simp: fun_eq_iff pair_of_def [of kv])
      show "keyed (wt_abs ?t)" using Suc.prems(10) unfolding R(2) keyed_def by simp
      show "\<forall>k. wt_abs ?t k \<noteq> None \<longrightarrow> \<not> in_view (mi_view mi1) k d"
        using Suc.prems(11) unfolding R(2) v by (auto simp: in_view_def)
    qed (use d Suc.prems(5,7,8,9) Cons in auto)
    then obtain t' mi' m' where ih: "HandleFile_loop n d ?t it1 mi1 m2 = Inr (t', mi', m')"
      "later m2 m'" "wt_ok t' m'" "total (tab t') = 0" "mi_inv mi' m'"
      "mi_view mi' = add_table d (mi_view mi1) (wt_abs ?t)" by blast
    have "mi_view mi' = add_table d (mi_view mi) (wt_abs t)"
      unfolding ih(6) R(2) v by (rule add_table_step) (use wp(2) in \<open>simp add: wp_abs_def\<close>)
    moreover have "HandleFile_loop (Suc n) d t it mi m = Inr (t', mi', m')"
      using num Cons d(1) wp(1) a(1) ih(1) by simp
    moreover have "later m m'" using lat ih(2) by (rule later_trans)
    ultimately show ?thesis using ih(3-5) by blast
  qed
qed simp

section \<open>The index of a list of documents\<close>

text \<open>Documents are pairs of a path and a text; they get the ids 1, 2, \<dots> in order.\<close>

primrec corpus_from :: "nat \<Rightarrow> bool \<Rightarrow> (string \<times> string) list \<Rightarrow> index_view \<Rightarrow> index_view" where
  "corpus_from i flt [] V = V"
| "corpus_from i flt (doc # docs) V =
     corpus_from (Suc i) flt docs (add_table (of_nat (Suc i)) V (noted (words_of flt (snd doc))))"

definition corpus :: "bool \<Rightarrow> (string \<times> string) list \<Rightarrow> index_view" where
  "corpus flt docs = corpus_from 0 flt docs Map.empty"

lemma corpus_from_append:
  "corpus_from i flt (xs @ ys) V = corpus_from (i + length xs) flt ys (corpus_from i flt xs V)"
  by (induction xs arbitrary: i V) simp_all

lemma corpus_Nil [simp]: "corpus flt [] = Map.empty"
  by (simp add: corpus_def)

lemma corpus_snoc: "corpus flt (docs @ [doc])
    = add_table (of_nat (Suc (length docs))) (corpus flt docs) (noted (words_of flt (snd doc)))"
  by (simp add: corpus_def corpus_from_append)

definition posting :: "index_view \<Rightarrow> u64 \<Rightarrow> u64 \<Rightarrow> u32 list option" where
  "posting V key d = (case V key of None \<Rightarrow> None | Some (_, D) \<Rightarrow> D d)"

lemma in_view_posting: "in_view V key d \<longleftrightarrow> posting V key d \<noteq> None"
  by (simp add: in_view_def posting_def split: option.splits)

lemma posting_add_table:
  "posting (add_table d V T) key d' =
     (if d' = d \<and> T key \<noteq> None then map_option snd (T key) else posting V key d')"
  by (auto simp: posting_def add_table_def split: option.splits)

text \<open>The index holds, for every word and document, the offsets of the word in the text.\<close>

lemma posting_corpus:
  assumes "length docs < 2 ^ 64"
  shows "posting (corpus flt docs) key d =
     (if 0 < unat d \<and> unat d \<le> length docs
      then map_option snd (noted (words_of flt (snd (docs ! (unat d - 1)))) key) else None)"
  using assms
proof (induction docs rule: rev_induct)
  case Nil
  then show ?case by (auto simp: posting_def)
next
  case (snoc doc docs)
  have u: "unat (of_nat (Suc (length docs)) :: u64) = Suc (length docs)"
    using snoc.prems by (intro unat_of_nat_u64) simp
  have iff: "d = of_nat (Suc (length docs)) \<longleftrightarrow> unat d = Suc (length docs)"
    using u by (metis word_unat_eq_iff)
  show ?case
  proof (cases "unat d = Suc (length docs)")
    case True
    then show ?thesis
      using snoc iff
      by (cases "noted (words_of flt (snd doc)) key")
        (simp_all add: corpus_snoc posting_add_table nth_append del: of_nat_Suc)
  next
    case False
    then have "(docs @ [doc]) ! (unat d - 1) = docs ! (unat d - 1)" if "unat d \<le> Suc (length docs)" "0 < unat d"
      using that \<open>unat d \<noteq> Suc (length docs)\<close> by (subst nth_append) auto
    with False show ?thesis
      using snoc iff by (auto simp: corpus_snoc posting_add_table simp del: of_nat_Suc)
  qed
qed

section \<open>One file\<close>

text \<open>The tables of the program stand for the documents \<open>docs\<close>.\<close>

definition crawl_rep :: "bool \<Rightarrow> (string \<times> string) list \<Rightarrow> doc_table \<Rightarrow> mem_index \<Rightarrow> mem \<Rightarrow> bool" where
  "crawl_rep flt docs dt mi m \<longleftrightarrow>
     dt_rep dt (map fst docs) m \<and> mi_inv mi m \<and> mi_view mi = corpus flt docs"

lemma crawl_rep_later: "crawl_rep flt docs dt mi m \<Longrightarrow> later m m' \<Longrightarrow> crawl_rep flt docs dt mi m'"
  by (auto simp: crawl_rep_def intro: dt_rep_later mi_inv_later)

text \<open>A file becomes a document if it is plain text with at least one word.\<close>

definition indexable :: "bool \<Rightarrow> string \<Rightarrow> string \<Rightarrow> (string \<times> string) list" where
  "indexable flt path f = (if plain_text f \<and> words_of flt f \<noteq> [] then [(path, f)] else [])"

text \<open>
  The system delivers the text \<open>f\<close> of a file within \<open>rfuel\<close> calls of \<^verbatim>\<open>read\<close>, none of which is
  interrupted.
\<close>

definition readable :: "nat \<Rightarrow> file_os \<Rightarrow> string \<Rightarrow> bool" where
  "readable rfuel os f \<longleftrightarrow> length f < 2 ^ 32 \<and> has_file os f {} \<and> length f < rfuel"

lemma keyed_noted: "keyed (noted xs)"
proof -
  have "hash_string w = k" if "occurrences xs k = (w, i) # os" for k w i os
  proof -
    have "(w, i) \<in> set (occurrences xs k)" using that by simp
    then show ?thesis by (simp add: occurrences_def)
  qed
  then show ?thesis by (auto simp: keyed_def noted_def split: list.splits)
qed

lemma wt_total_small:
  assumes "wt_ok t m" "wt_abs t = noted (words_of flt f)" "length f < 2 ^ 32"
  shows "total (tab t) < 2 ^ 32"
  using wt_total [OF assms(1)] card_dom_noted [of "words_of flt f"] length_words_of [of flt f] assms(2,3)
  by simp

lemma DTRegister_new:
  assumes "dt_rep t ns m" "reliable m" "Suc (length ns) < 2 ^ 64" "hash_string name \<notin> hash_string ` set ns"
  obtains t' m' where "DTRegisterDocumentName t name m = Inr (of_nat (Suc (length ns)), t', m')"
    "later m m'" "dt_rep t' (ns @ [name]) m'"
proof -
  from DTRegisterDocumentName_add [OF assms(1-3), of name] obtain d t' m' where
    r: "DTRegisterDocumentName t name m = Inr (d, t', m')" "later m m'" "dt_rep t' (add_name ns name) m'"
      "id_of_hash 0 (add_name ns name) (hash_string name) = Some d" .
  have "add_name ns name = ns @ [name]" "id_of_hash 0 ns (hash_string name) = None"
    using assms(4) by (simp_all add: add_name_def id_of_hash_None)
  with r that show thesis by (simp add: id_of_hash_append)
qed

lemma HandleFile_ok:
  assumes rd: "readable rfuel (file_at os path) f" and rep: "crawl_rep flt docs dt mi m"
    and rel: "reliable m" and new: "hash_string path \<notin> (\<lambda>x. hash_string (fst x)) ` set docs"
    and room: "Suc (length docs) < 2 ^ 64"
  shows "\<exists>dt' mi' m'. HandleFile rfuel flt os path dt mi m = Inr (dt', mi', m') \<and> later m m' \<and>
     crawl_rep flt (docs @ indexable flt path f) dt' mi' m'"
proof -
  have K: "has_file (file_at os path) f {}" "length f < 2 ^ 32" "length f + card {} < rfuel"
    using rd by (simp_all add: readable_def)
  obtain r m1 where b: "BuildWordHT rfuel flt (file_at os path) m = Inr (r, m1)" "later m m1"
    "r = None \<longleftrightarrow> \<not> plain_text f \<or> words_of flt f = []"
    "\<forall>t. r = Some t \<longrightarrow> wt_ok t m1 \<and> wt_abs t = noted (words_of flt f)"
    using BuildWordHT_spec [OF K(1,2) rel K(3), of flt] by auto
  note R = crawl_rep_later [OF rep b(2), unfolded crawl_rep_def]
  have rel1: "reliable m1" using b(2) rel by (rule later_reliable)
  show ?thesis
  proof (cases r)
    case None
    with b crawl_rep_later [OF rep b(2)] show ?thesis by (auto simp: HandleFile_def indexable_def)
  next
    case (Some t)
    with b(4) have t: "wt_ok t m1" "wt_abs t = noted (words_of flt f)" by simp_all
    have dtr: "dt_rep dt (map fst docs) m1" using R by simp
    have new': "hash_string path \<notin> hash_string ` set (map fst docs)" using new by auto
    from DTRegister_new [OF dtr rel1 _ new'] room obtain dt' m2 where
      d: "DTRegisterDocumentName dt path m1 = Inr (of_nat (Suc (length docs)), dt', m2)"
        "later m1 m2" "dt_rep dt' (map fst docs @ [path]) m2" by auto
    let ?d = "of_nat (Suc (length docs)) :: u64"
    have u: "unat ?d = Suc (length docs)" using room by (rule unat_of_nat_u64)
    have d0: "?d \<noteq> 0" using u by (metis Zero_not_Suc unat_0)
    have rel2: "reliable m2" using d(2) rel1 by (rule later_reliable)
    have t2: "wt_ok t m2" using t(1) d(2) by (rule wt_ok_later)
    have inv: "ht_inv (tab t) m2" using t2 by (simp add: wt_ok_def own_inv)
    have small: "total (tab t) < 2 ^ 32" using t2 t(2) K(2) by (rule wt_total_small)
    obtain it m3 where i: "HashTableMakeIterator (tab t) m2 = Inr (Some it, m3)" "later m2 m3"
      "reliable m3" "it_ok (tab t) it" "it_items (tab t) it = ht_items (tab t)"
      using make_iterator_any [OF inv rel2 small] .
    have len: "length (it_items (tab t) it) = total (tab t)" by (simp add: i(5) ht_items_def total_def)
    have fresh: "\<forall>k. wt_abs t k \<noteq> None \<longrightarrow> \<not> in_view (mi_view mi) k ?d"
      using R u room by (simp add: in_view_posting posting_corpus)
    have mi3: "mi_inv mi m3" using R d(2) i(2) by (meson mi_inv_later)
    have "\<exists>t' mi' m'. HandleFile_loop (Suc (total (tab t))) ?d t it mi m3 = Inr (t', mi', m') \<and>
       later m3 m' \<and> wt_ok t' m' \<and> total (tab t') = 0 \<and> mi_inv mi' m' \<and>
       mi_view mi' = add_table ?d (mi_view mi) (wt_abs t)"
      by (rule HandleFile_loop_ok [OF wt_ok_later [OF t2 i(2)] mi3 i(3,4) _ _ _ small _ _ fresh])
        (use len i(5) ht_invD(7) [OF inv] t(2) keyed_noted in \<open>simp_all add: ht_map_def\<close>)
    then obtain t' mi' m4 where h: "HandleFile_loop (Suc (total (tab t))) ?d t it mi m3 = Inr (t', mi', m4)"
      "later m3 m4" "wt_ok t' m4" "total (tab t') = 0" "mi_inv mi' m4"
      "mi_view mi' = add_table ?d (mi_view mi) (wt_abs t)" by blast
    have ix: "indexable flt path f = [(path, f)]" using b(3) Some by (simp add: indexable_def)
    have lat: "later m2 m4" using i(2) h(2) by (rule later_trans)
    have "crawl_rep flt (docs @ [(path, f)]) dt' mi' m4"
      using dt_rep_later [OF d(3) lat] h(5,6) R t(2) by (simp add: crawl_rep_def corpus_snoc)
    moreover have "later m m4" using b(2) d(2) lat by (meson later_trans)
    ultimately show ?thesis
      using b(1) Some d(1) d0 i(1) h(1) FreeWordHT_empty [OF h(3,4)] ix
      by (simp add: HandleFile_def del: of_nat_Suc)
  qed
qed

end
