(* ===== verification/FileCrawlerThms.thy ===== *)
theory FileCrawlerThms
  imports FileCrawlerProps
begin

text \<open>
  The walk over a directory tree, and the whole of homework 2 put together: crawling a tree and
  then asking a query gives the names of the documents that contain all its words.
\<close>

section \<open>Directory trees\<close>

text \<open>
  \<open>Skipped\<close> is what the crawler passes by: a path that \<^verbatim>\<open>stat\<close> refuses, a device or socket, or a
  directory that cannot be opened. No call is interrupted: \<open>quiet\<close> says so of a directory, \<open>readable\<close> of
  a file.
\<close>

datatype tree = RegularFile string | Directory "(string \<times> tree) list" | Skipped

text \<open>The documents of a tree in the order of the walk.\<close>

fun docs_under :: "bool \<Rightarrow> string \<Rightarrow> tree \<Rightarrow> (string \<times> string) list" where
  "docs_under flt path (RegularFile f) = indexable flt path f"
| "docs_under flt path (Directory ts) =
     concat (map (\<lambda>x. docs_under flt (entry_path path (fst x)) (snd x)) ts)"
| "docs_under flt path Skipped = []"

primrec entry_names :: "dirent list \<Rightarrow> string list" where
  "entry_names [] = []"
| "entry_names (e # d) =
     (case e of
        DirError e \<Rightarrow> entry_names d
      | Entry d_name \<Rightarrow>
          if d_name = ''.'' \<or> d_name = ''..'' then entry_names d else d_name # entry_names d)"

definition quiet :: "dirent list \<Rightarrow> bool" where
  "quiet d = list_all (\<lambda>e. case e of DirError e \<Rightarrow> False | Entry d_name \<Rightarrow> True) d"

lemma quiet_simps [simp]:
  "quiet []" "quiet (Entry d_name # d) = quiet d" "\<not> quiet (DirError e # d)"
  by (simp_all add: quiet_def)

text \<open>The file system shows the tree at the path.\<close>

fun on_disk :: "nat \<Rightarrow> crawl_os \<Rightarrow> string \<Rightarrow> tree \<Rightarrow> bool" where
  "on_disk rfuel os path (RegularFile f) \<longleftrightarrow>
     stat_mode os path = Some S_REG \<and> readable rfuel (file_at os path) f"
| "on_disk rfuel os path (Directory ts) \<longleftrightarrow>
     path \<noteq> [] \<and> stat_mode os path = Some S_DIR \<and>
     (case open_dir os path of None \<Rightarrow> False | Some d \<Rightarrow> quiet d \<and> entry_names d = map fst ts) \<and>
     (\<forall>x \<in> set ts. on_disk rfuel os (entry_path path (fst x)) (snd x))"
| "on_disk rfuel os path Skipped \<longleftrightarrow>
     (case stat_mode os path of
        None \<Rightarrow> \<not> retriable (path_errno os path)
      | Some mode \<Rightarrow> mode = S_OTHER \<or>
          mode = S_DIR \<and> open_dir os path = None \<and> \<not> retriable (path_errno os path))"

text \<open>Every path of the tree can be read.\<close>

fun all_open :: "tree \<Rightarrow> bool" where
  "all_open (RegularFile f) \<longleftrightarrow> True"
| "all_open (Directory ts) \<longleftrightarrow> (\<forall>x \<in> set ts. all_open (snd x))"
| "all_open Skipped \<longleftrightarrow> False"

fun height :: "tree \<Rightarrow> nat" where
  "height (Directory ts) = Suc (foldr (\<lambda>x. max (height (snd x))) ts 0)"
| "height _ = 0"

lemma height_entries: "height (Directory ts) \<le> Suc n \<longleftrightarrow> (\<forall>x \<in> set ts. height (snd x) \<le> n)"
  by (induction ts) auto

abbreviation entry_docs :: "bool \<Rightarrow> string \<Rightarrow> (string \<times> tree) list \<Rightarrow> (string \<times> string) list" where
  "entry_docs flt path ts \<equiv> concat (map (\<lambda>x. docs_under flt (entry_path path (fst x)) (snd x)) ts)"

abbreviation path_keys :: "(string \<times> string) list \<Rightarrow> u64 list" where
  "path_keys docs \<equiv> map (\<lambda>x. hash_string (fst x)) docs"

section \<open>The walk\<close>

lemma entry_path_nonempty [simp]: "path \<noteq> [] \<Longrightarrow> entry_path path d_name \<noteq> []"
  by (simp add: entry_path_def)

lemma HandleFile_skip:
  assumes "readable rfuel (file_at os path) f" "reliable m" "indexable flt path f = []"
  obtains m' where "HandleFile rfuel flt os path dt mi m = Inr (dt, mi, m')" "later m m'"
proof -
  have K: "has_file (file_at os path) f {}" "length f < 2 ^ 32" "length f + card {} < rfuel"
    using assms(1) by (simp_all add: readable_def)
  have "\<not> plain_text f \<or> words_of flt f = []" using assms(3) by (auto simp: indexable_def split: if_splits)
  with BuildWordHT_spec [OF K(1,2) assms(2) K(3), of flt] obtain m' where
    "BuildWordHT rfuel flt (file_at os path) m = Inr (None, m')" "later m m'" by auto
  with that show thesis by (simp add: HandleFile_def)
qed

text \<open>The documents of one entry can still be registered: their paths are new, and there is room.\<close>

definition room_for :: "(string \<times> string) list \<Rightarrow> (string \<times> string) list \<Rightarrow> bool" where
  "room_for docs new \<longleftrightarrow> distinct (path_keys (docs @ new)) \<and> length (docs @ new) < 2 ^ 64"

lemma room_for_append: "room_for docs (xs @ ys) \<Longrightarrow> room_for docs xs \<and> room_for (docs @ xs) ys"
  by (auto simp: room_for_def Int_Un_distrib)

lemma HandleFile_walk:
  assumes rd: "readable rfuel (file_at os path) f" and rep: "crawl_rep flt docs dt mi m"
    and rel: "reliable m" and room: "room_for docs (indexable flt path f)"
  obtains dt' mi' m' where "HandleFile rfuel flt os path dt mi m = Inr (dt', mi', m')" "later m m'"
    "crawl_rep flt (docs @ indexable flt path f) dt' mi' m'"
proof (cases "indexable flt path f = []")
  case True
  with HandleFile_skip [OF rd rel True] that crawl_rep_later [OF rep] show thesis
    by (metis append_Nil2)
next
  case False
  then have "indexable flt path f = [(path, f)]" by (simp add: indexable_def split: if_splits)
  with room have "hash_string path \<notin> (\<lambda>x. hash_string (fst x)) ` set docs" "Suc (length docs) < 2 ^ 64"
    by (auto simp: room_for_def)
  with HandleFile_ok [OF rd rep rel] that show thesis by blast
qed

text \<open>
  \<open>crawled m m'\<close>: as \<open>later\<close>, but calls that failed may have set \<^verbatim>\<open>errno\<close> to a value that does not
  ask for another try.
\<close>

definition crawled :: "mem \<Rightarrow> mem \<Rightarrow> bool" where
  "crawled m m' \<longleftrightarrow> oom m' = oom m \<and> clock m \<le> clock m' \<and> frame_slack m' = frame_slack m \<and>
     (retriable (errno m') \<longrightarrow> retriable (errno m))"

lemma crawled_refl [simp]: "crawled m m"
  by (simp add: crawled_def)

lemma crawled_trans: "crawled m m' \<Longrightarrow> crawled m' m'' \<Longrightarrow> crawled m m''"
  by (auto simp: crawled_def)

lemma crawled_later: "later m m' \<Longrightarrow> reliable m \<Longrightarrow> crawled m m'"
  by (simp add: crawled_def later_errno) (simp add: later_def)

lemma crawled_reliable: "crawled m m' \<Longrightarrow> reliable m \<Longrightarrow> reliable m'"
  by (simp add: crawled_def reliable_def)

lemma crawled_spare: "crawled m m' \<Longrightarrow> spare_frame m \<Longrightarrow> spare_frame m'"
  by (simp add: crawled_def spare_frame_def)

lemma crawl_rep_errno: "crawl_rep flt docs dt mi m \<Longrightarrow> crawl_rep flt docs dt mi (m\<lparr>errno := e\<rparr>)"
  by (simp add: crawl_rep_def dt_rep_def mi_inv_def mi_ok_def own_ok_def ht_inv_def)

text \<open>What the walk promises for the entries of a directory.\<close>

definition walk_ok :: "nat \<Rightarrow> nat \<Rightarrow> bool \<Rightarrow> crawl_os \<Rightarrow> bool" where
  "walk_ok n rfuel flt os \<longleftrightarrow>
     (\<forall>d rest ts dirpath docs dt mi m. entry_names d = map fst ts \<longrightarrow> quiet d \<longrightarrow> dirpath \<noteq> [] \<longrightarrow>
        (\<forall>x \<in> set ts. on_disk rfuel os (entry_path dirpath (fst x)) (snd x) \<and> height (snd x) \<le> n) \<longrightarrow>
        crawl_rep flt docs dt mi m \<longrightarrow> reliable m \<longrightarrow> \<not> retriable (errno m) \<longrightarrow>
        room_for docs (entry_docs flt dirpath ts) \<longrightarrow>
        (\<exists>dt' mi' m'. HandleDir n rfuel flt os dirpath (d @ rest) dt mi m
             = HandleDir n rfuel flt os dirpath rest dt' mi' m' \<and> crawled m m' \<and>
           crawl_rep flt (docs @ entry_docs flt dirpath ts) dt' mi' m'))"

text \<open>A file.\<close>

lemma walk_file:
  assumes name: "d_name \<noteq> ''.''" "d_name \<noteq> ''..''" "dirpath \<noteq> []" "path = entry_path dirpath d_name"
    and f: "stat_mode os path = Some S_REG" "readable rfuel (file_at os path) f"
    and rep: "crawl_rep flt docs dt mi m" and rel: "reliable m"
    and room: "room_for docs (indexable flt path f)"
  obtains dt' mi' m' where "HandleDir n rfuel flt os dirpath (Entry d_name # d) dt mi m
       = HandleDir n rfuel flt os dirpath d dt' mi' m'" "later m m'"
     "crawl_rep flt (docs @ indexable flt path f) dt' mi' m'"
proof -
  let ?m = "m\<lparr>clock := Suc (clock m)\<rparr>"
  have mal: "malloc m = (Suc (clock m), ?m)" using rel by (simp add: malloc_reliable)
  have lat: "later m ?m" "reliable ?m" using rel by simp_all
  from HandleFile_walk [OF f(2) crawl_rep_later [OF rep lat(1)] lat(2) room] obtain dt' mi' m' where
    h: "HandleFile rfuel flt os path dt mi ?m = Inr (dt', mi', m')" "later ?m m'"
      "crawl_rep flt (docs @ indexable flt path f) dt' mi' m'" .
  have "HandleDir n rfuel flt os dirpath (Entry d_name # d) dt mi m
      = HandleDir n rfuel flt os dirpath d dt' mi' m'"
    using f(1) h(1) name mal by simp
  with that h(3) later_trans [OF lat(1) h(2)] show thesis by blast
qed

text \<open>One entry.\<close>

lemma walk_entry:
  assumes sub: "\<And>n'. n = Suc n' \<Longrightarrow> walk_ok n' rfuel flt os"
    and name: "d_name \<noteq> ''.''" "d_name \<noteq> ''..''" "dirpath \<noteq> []" "path = entry_path dirpath d_name"
    and t: "on_disk rfuel os path t" "height t \<le> n"
    and rep: "crawl_rep flt docs dt mi m" and rel: "reliable m" and err: "\<not> retriable (errno m)"
    and room: "room_for docs (docs_under flt path t)"
  shows "\<exists>dt' mi' m'. HandleDir n rfuel flt os dirpath (Entry d_name # d) dt mi m
       = HandleDir n rfuel flt os dirpath d dt' mi' m' \<and> crawled m m' \<and>
     crawl_rep flt (docs @ docs_under flt path t) dt' mi' m'"
proof -
  let ?m = "m\<lparr>clock := Suc (clock m)\<rparr>"
  have mal: "malloc m = (Suc (clock m), ?m)" using rel by (simp add: malloc_reliable)
  have lat: "later m ?m" "reliable ?m" using rel by simp_all
  have rep': "crawl_rep flt docs dt mi ?m" using rep lat(1) by (rule crawl_rep_later)
  show ?thesis
  proof (cases t)
    case Skipped
    let ?me = "?m\<lparr>errno := path_errno os path\<rparr>"
    have "crawl_rep flt docs dt mi ?me" using rep' by (rule crawl_rep_errno)
    moreover have "HandleDir n rfuel flt os dirpath (Entry d_name # d) dt mi m
        = HandleDir n rfuel flt os dirpath d dt mi
            (if stat_mode os path = Some S_OTHER then ?m else ?me)"
      using t(1) Skipped name mal by (auto split: option.splits)
    moreover have "crawled m (if stat_mode os path = Some S_OTHER then ?m else ?me)"
      using t(1) Skipped err by (auto simp: crawled_def split: option.splits)
    ultimately show ?thesis using Skipped rep'
      by (intro exI [of _ dt] exI [of _ mi]
            exI [of _ "if stat_mode os path = Some S_OTHER then ?m else ?me"]) simp
  next
    case (RegularFile f)
    with t(1) have f: "stat_mode os path = Some S_REG" "readable rfuel (file_at os path) f" by simp_all
    have "room_for docs (indexable flt path f)" using room RegularFile by simp
    from walk_file [OF name f rep rel this, of n d] show ?thesis
      using crawled_later [OF _ rel] RegularFile by (metis docs_under.simps(1))
  next
    case (Directory ts)
    with t(1) obtain sd where s: "stat_mode os path = Some S_DIR" "open_dir os path = Some sd"
      "quiet sd" "entry_names sd = map fst ts" "path \<noteq> []" by (auto split: option.splits)
    obtain n' where n: "n = Suc n'" using t(2) Directory by (cases n) auto
    have "\<forall>x \<in> set ts. on_disk rfuel os (entry_path path (fst x)) (snd x) \<and> height (snd x) \<le> n'"
      using t Directory n height_entries [of ts n'] by simp
    moreover have "room_for docs (entry_docs flt path ts)" using room Directory by simp
    moreover have "\<not> retriable (errno ?m)" using err by simp
    ultimately obtain dt' mi' m' where h: "HandleDir n' rfuel flt os path (sd @ []) dt mi ?m
        = HandleDir n' rfuel flt os path [] dt' mi' m'"
      "crawled ?m m'" "crawl_rep flt (docs @ entry_docs flt path ts) dt' mi' m'"
      using sub [OF n] s(3,4,5) rep' lat(2) unfolding walk_ok_def by blast
    have cr: "crawled m m'" using crawled_later [OF lat(1) rel] h(2) by (rule crawled_trans)
    then have "\<not> retriable (errno m')" using err by (auto simp: crawled_def)
    then have "HandleDir n' rfuel flt os path sd dt mi ?m = Inr (dt', mi', m')" using h(1) by simp
    then have "HandleDir n rfuel flt os dirpath (Entry d_name # d) dt mi m
        = HandleDir n rfuel flt os dirpath d dt' mi' m'"
      using s(1,2) n name mal by simp
    with Directory h(3) cr show ?thesis by (metis docs_under.simps(2))
  qed
qed

lemma quiet_Cons: "quiet (e # d) \<longleftrightarrow> (\<exists>d_name. e = Entry d_name) \<and> quiet d"
  by (cases e) simp_all

lemma HandleDir_walk: "walk_ok n rfuel flt os"
proof (induction n rule: less_induct)
  case (less n)
  then have sub: "walk_ok n' rfuel flt os" if "n = Suc n'" for n' using that by simp
  show ?case unfolding walk_ok_def
  proof (intro allI impI)
    fix d rest ts dirpath docs dt mi m
    assume "entry_names d = map fst ts" "quiet d" and path: "dirpath \<noteq> []"
      and "\<forall>x \<in> set ts. on_disk rfuel os (entry_path dirpath (fst x)) (snd x) \<and> height (snd x) \<le> n"
      and "crawl_rep flt docs dt mi m" "reliable m" "\<not> retriable (errno m)"
      and "room_for docs (entry_docs flt dirpath ts)"
    then show "\<exists>dt' mi' m'. HandleDir n rfuel flt os dirpath (d @ rest) dt mi m
          = HandleDir n rfuel flt os dirpath rest dt' mi' m' \<and> crawled m m' \<and>
        crawl_rep flt (docs @ entry_docs flt dirpath ts) dt' mi' m'"
    proof (induction d arbitrary: ts docs dt mi m)
      case Nil
      then show ?case by (intro exI [of _ dt] exI [of _ mi] exI [of _ m]) simp
    next
      case (Cons e d)
      from Cons.prems(2) obtain d_name where e: "e = Entry d_name" "quiet d"
        by (auto simp: quiet_Cons)
      show ?case
      proof (cases "d_name = ''.'' \<or> d_name = ''..''")
        case True
        then have "HandleDir n rfuel flt os dirpath ((e # d) @ rest) dt mi m
            = HandleDir n rfuel flt os dirpath (d @ rest) dt mi m"
          "entry_names (e # d) = entry_names d" using e(1) by auto
        with Cons e(2) show ?thesis by simp
      next
        case False
        with Cons.prems(1) e obtain t ts' where ts: "ts = (d_name, t) # ts'" "entry_names d = map fst ts'"
          by (cases ts) auto
        let ?path = "entry_path dirpath d_name"
        have room: "room_for docs (docs_under flt ?path t)"
          "room_for (docs @ docs_under flt ?path t) (entry_docs flt dirpath ts')"
          using room_for_append [of docs "docs_under flt ?path t"] Cons.prems(8) ts(1) by simp_all
        have t: "on_disk rfuel os ?path t" "height t \<le> n" using Cons.prems(4) ts(1) by simp_all
        have name: "d_name \<noteq> ''.''" "d_name \<noteq> ''..''" using False by simp_all
        from walk_entry [OF sub name path refl t Cons.prems(5,6,7) room(1), of "d @ rest"]
        obtain dt1 mi1 m1 where
          h: "HandleDir n rfuel flt os dirpath (Entry d_name # d @ rest) dt mi m
             = HandleDir n rfuel flt os dirpath (d @ rest) dt1 mi1 m1" "crawled m m1"
          "crawl_rep flt (docs @ docs_under flt ?path t) dt1 mi1 m1" by blast
        have m1: "reliable m1" "\<not> retriable (errno m1)"
          using crawled_reliable [OF h(2) Cons.prems(6)] h(2) Cons.prems(7) by (auto simp: crawled_def)
        with Cons.IH [OF ts(2) e(2) path _ h(3) m1 room(2)] Cons.prems(4) ts(1) obtain dt' mi' m' where
          "HandleDir n rfuel flt os dirpath (d @ rest) dt1 mi1 m1
             = HandleDir n rfuel flt os dirpath rest dt' mi' m'" "crawled m1 m'"
          "crawl_rep flt ((docs @ docs_under flt ?path t) @ entry_docs flt dirpath ts') dt' mi' m'"
          by auto
        with h(1,2) e(1) ts(1) crawled_trans show ?thesis by fastforce
      qed
    qed
  qed
qed

section \<open>The whole crawl\<close>

lemma crawl_start:
  assumes rel: "reliable m"
  obtains dt m1 mi m2 where "AllocateDocTable m = Inr (dt, m1)" "AllocateMemIndex m1 = Inr (mi, m2)"
    "later m m2" "crawl_rep flt [] dt mi m2"
proof -
  obtain dt m1 where a: "AllocateDocTable m = Inr (dt, m1)" "later m m1" "dt_rep dt [] m1"
    using AllocateDocTable_rep [OF rel] .
  obtain mi m2 where b: "AllocateMemIndex m1 = Inr (mi, m2)" "later m1 m2" "mi_inv mi m2"
    "mi_abs mi = Map.empty" using AllocateMemIndex_ok [OF later_reliable [OF a(2) rel]] .
  have "mi_view mi = Map.empty" using b(4) by (simp add: mi_view_def fun_eq_iff)
  then have "crawl_rep flt [] dt mi m2"
    using dt_rep_later [OF a(3) b(2)] b(3) by (simp add: crawl_rep_def)
  with that a(1) b(1) later_trans [OF a(2) b(2)] show thesis by blast
qed

lemma CrawlFileTree_ok:
  assumes disk: "on_disk rfuel os rootdir (Directory ts)" and close: "close_dir os rootdir"
    and h: "height (Directory ts) \<le> Suc n" and rel: "reliable m" and err: "\<not> retriable (errno m)"
    and room: "room_for [] (docs_under flt rootdir (Directory ts))"
  obtains dt mi m' where "CrawlFileTree n rfuel flt os rootdir m = Inr (Some (dt, mi), m')" "crawled m m'"
    "crawl_rep flt (docs_under flt rootdir (Directory ts)) dt mi m'"
proof -
  obtain rd where rd: "stat_mode os rootdir = Some S_DIR" "open_dir os rootdir = Some rd"
    "quiet rd" "entry_names rd = map fst ts" "rootdir \<noteq> []" using disk by (auto split: option.splits)
  obtain dt m1 mi m2 where start: "AllocateDocTable m = Inr (dt, m1)" "AllocateMemIndex m1 = Inr (mi, m2)"
    "later m m2" "crawl_rep flt [] dt mi m2" by (rule crawl_start [OF rel])
  have rel2: "reliable m2" using start(3) rel by (rule later_reliable)
  have err2: "\<not> retriable (errno m2)" using err later_errno [OF start(3) rel] by simp
  have sub: "\<forall>x \<in> set ts. on_disk rfuel os (entry_path rootdir (fst x)) (snd x) \<and> height (snd x) \<le> n"
    using disk h height_entries [of ts n] by simp
  have room': "room_for [] (entry_docs flt rootdir ts)" using room by simp
  obtain dt' mi' m' where w: "HandleDir n rfuel flt os rootdir (rd @ []) dt mi m2
      = HandleDir n rfuel flt os rootdir [] dt' mi' m'"
    "crawled m2 m'" "crawl_rep flt ([] @ entry_docs flt rootdir ts) dt' mi' m'"
    using HandleDir_walk [of n rfuel flt os] rd(3,4,5) sub start(4) rel2 err2 room'
    unfolding walk_ok_def by blast
  have "\<not> retriable (errno m')" using w(2) err2 by (auto simp: crawled_def)
  then have "HandleDir n rfuel flt os rootdir rd dt mi m2 = Inr (dt', mi', m')" using w(1) by simp
  then have "CrawlFileTree n rfuel flt os rootdir m = Inr (Some (dt', mi'), m')"
    using rd(1,2) start(1,2) close by (simp add: CrawlFileTree_def)
  moreover have "crawled m m'" using crawled_later [OF start(3) rel] w(2) by (rule crawled_trans)
  ultimately show thesis using that w(3) by simp
qed

section \<open>An interrupted call\<close>

text \<open>With an \<^verbatim>\<open>errno\<close> that asks for another try the end of a directory is never left.\<close>

lemma end_of_directory_hangs: "retriable (errno m) \<Longrightarrow> end_of_directory k m = Inl OutOfFuel"
  by (induction k) simp_all

definition hangs :: "nat \<Rightarrow> nat \<Rightarrow> bool \<Rightarrow> crawl_os \<Rightarrow> bool" where
  "hangs n rfuel flt os \<longleftrightarrow>
     (\<forall>d ts dirpath docs dt mi m. entry_names d = map fst ts \<longrightarrow> quiet d \<longrightarrow> dirpath \<noteq> [] \<longrightarrow>
        (\<forall>x \<in> set ts. on_disk rfuel os (entry_path dirpath (fst x)) (snd x) \<and> all_open (snd x)) \<longrightarrow>
        crawl_rep flt docs dt mi m \<longrightarrow> reliable m \<longrightarrow> retriable (errno m) \<longrightarrow>
        room_for docs (entry_docs flt dirpath ts) \<longrightarrow>
        HandleDir n rfuel flt os dirpath d dt mi m = Inl OutOfFuel)"

lemma hangs_subdirectory:
  assumes sub: "\<And>n'. n = Suc n' \<Longrightarrow> hangs n' rfuel flt os"
    and name: "d_name \<noteq> ''.''" "d_name \<noteq> ''..''" "dirpath \<noteq> []" "path = entry_path dirpath d_name"
    and t: "on_disk rfuel os path (Directory ts)" "all_open (Directory ts)"
    and rep: "crawl_rep flt docs dt mi m" and rel: "reliable m" and err: "retriable (errno m)"
    and room: "room_for docs (entry_docs flt path ts)"
  shows "HandleDir n rfuel flt os dirpath (Entry d_name # d) dt mi m = Inl OutOfFuel"
proof -
  let ?m = "m\<lparr>clock := Suc (clock m)\<rparr>"
  have mal: "malloc m = (Suc (clock m), ?m)" using rel by (simp add: malloc_reliable)
  have m: "later m ?m" "reliable ?m" "retriable (errno ?m)" using rel err by simp_all
  have rep': "crawl_rep flt docs dt mi ?m" using rep m(1) by (rule crawl_rep_later)
  obtain sd where s: "stat_mode os path = Some S_DIR" "open_dir os path = Some sd"
    "quiet sd" "entry_names sd = map fst ts" "path \<noteq> []" using t(1) by (auto split: option.splits)
  have "\<forall>x \<in> set ts. on_disk rfuel os (entry_path path (fst x)) (snd x) \<and> all_open (snd x)"
    using t by simp
  then have "HandleDir n' rfuel flt os path sd dt mi ?m = Inl OutOfFuel" if "n = Suc n'" for n'
    using sub [OF that] s(3,4,5) rep' m(2,3) room unfolding hangs_def by blast
  then show ?thesis using s(1,2) name mal by (cases n) simp_all
qed

lemma HandleDir_hangs: "hangs n rfuel flt os"
proof (induction n rule: less_induct)
  case (less n)
  then have sub: "hangs n' rfuel flt os" if "n = Suc n'" for n' using that by simp
  show ?case unfolding hangs_def
  proof (intro allI impI)
    fix d ts dirpath docs dt mi m
    assume "entry_names d = map fst ts" "quiet d" and path: "dirpath \<noteq> []"
      and "\<forall>x \<in> set ts. on_disk rfuel os (entry_path dirpath (fst x)) (snd x) \<and> all_open (snd x)"
      and "crawl_rep flt docs dt mi m" "reliable m" "retriable (errno m)"
      and "room_for docs (entry_docs flt dirpath ts)"
    then show "HandleDir n rfuel flt os dirpath d dt mi m = Inl OutOfFuel"
    proof (induction d arbitrary: ts docs dt mi m)
      case Nil
      then show ?case by (simp add: end_of_directory_hangs)
    next
      case (Cons e d)
      from Cons.prems(2) obtain d_name where e: "e = Entry d_name" "quiet d"
        by (auto simp: quiet_Cons)
      show ?case
      proof (cases "d_name = ''.'' \<or> d_name = ''..''")
        case True
        then have "HandleDir n rfuel flt os dirpath (e # d) dt mi m
            = HandleDir n rfuel flt os dirpath d dt mi m"
          and "entry_names d = map fst ts" using e(1) Cons.prems(1) by auto
        with Cons.IH [OF _ e(2) path Cons.prems(4-8)] show ?thesis by simp
      next
        case False
        with Cons.prems(1) e obtain t ts' where ts: "ts = (d_name, t) # ts'" "entry_names d = map fst ts'"
          by (cases ts) auto
        let ?path = "entry_path dirpath d_name"
        have room: "room_for docs (docs_under flt ?path t)"
          "room_for (docs @ docs_under flt ?path t) (entry_docs flt dirpath ts')"
          using room_for_append [of docs "docs_under flt ?path t"] Cons.prems(8) ts(1) by simp_all
        have t: "on_disk rfuel os ?path t" "all_open t" using Cons.prems(4) ts(1) by simp_all
        have name: "d_name \<noteq> ''.''" "d_name \<noteq> ''..''" using False by simp_all
        show ?thesis
        proof (cases t)
          case (RegularFile f)
          with t(1) have f: "stat_mode os ?path = Some S_REG" "readable rfuel (file_at os ?path) f"
            by simp_all
          have rf: "room_for docs (indexable flt ?path f)" using room(1) RegularFile by simp
          from walk_file [OF name path refl f Cons.prems(5,6) rf, of n d] obtain dt1 mi1 m1 where
            h: "HandleDir n rfuel flt os dirpath (Entry d_name # d) dt mi m
               = HandleDir n rfuel flt os dirpath d dt1 mi1 m1" "later m m1"
              "crawl_rep flt (docs @ indexable flt ?path f) dt1 mi1 m1" .
          have m1: "reliable m1" "retriable (errno m1)"
            using later_reliable [OF h(2) Cons.prems(6)] later_errno [OF h(2) Cons.prems(6)]
              Cons.prems(7) by simp_all
          have "room_for (docs @ indexable flt ?path f) (entry_docs flt dirpath ts')"
            using room(2) RegularFile by simp
          with Cons.IH [OF ts(2) e(2) path _ h(3) m1] Cons.prems(4) ts(1) h(1) e(1) show ?thesis by simp
        next
          case (Directory us)
          then have u: "on_disk rfuel os ?path (Directory us)" "all_open (Directory us)"
            "room_for docs (entry_docs flt ?path us)" using t room(1) by simp_all
          from hangs_subdirectory [OF sub name path refl u(1,2) Cons.prems(5,6,7) u(3)] e(1)
          show ?thesis by simp
        next
          case Skipped
          with t(2) show ?thesis by simp
        qed
      qed
    qed
  qed
qed

text \<open>A small tree for the witnesses: a text, a directory with a second text, and a socket.\<close>

definition text_file :: "string \<Rightarrow> file_os" where
  "text_file f = \<lparr>os_stat = Some (length f, True), os_open = True, os_errno = ENOENT,
     os_read = (\<lambda>i left. ReadBytes (drop (length f - left) f))\<rparr>"

definition demo_disk :: crawl_os where
  "demo_disk = \<lparr>stat_mode = [''d'' \<mapsto> S_DIR, ''d/a'' \<mapsto> S_REG, ''d/e'' \<mapsto> S_DIR, ''d/e/b'' \<mapsto> S_REG,
                              ''d/s'' \<mapsto> S_OTHER],
     path_errno = (\<lambda>_. ENOENT),
     open_dir = [''d'' \<mapsto> [Entry ''.'', Entry ''a'', Entry ''e'', Entry ''s''],
                 ''d/e'' \<mapsto> [Entry ''b'', Entry ''..'']],
     close_dir = (\<lambda>_. True),
     file_at = (\<lambda>p. if p = ''d/a'' then text_file ''The cat'' else text_file ''cat, Dog cat'')\<rparr>"

definition demo_entries :: "(string \<times> tree) list" where
  "demo_entries = [(''a'', RegularFile ''The cat''), (''e'', Directory [(''b'', RegularFile ''cat, Dog cat'')]),
     (''s'', Skipped)]"

lemma text_file_readable:
  assumes "length f < 2 ^ 32" "length f < rfuel"
  shows "readable rfuel (text_file f) f"
  using assms by (auto simp: readable_def has_file_def text_file_def reads_file_def)

lemma demo_on_disk: "on_disk 100 demo_disk ''d'' (Directory demo_entries)"
  by (simp add: demo_entries_def demo_disk_def entry_path_def text_file_readable)

lemma demo_docs: "docs_under False ''d'' (Directory demo_entries)
    = [(''d/a'', ''The cat''), (''d/e/b'', ''cat, Dog cat'')]"
  by code_simp

lemma demo_height: "height (Directory demo_entries) \<le> Suc 1"
  by (simp add: demo_entries_def)

lemma demo_room: "room_for [] (docs_under False ''d'' (Directory demo_entries))"
  unfolding demo_docs by (simp add: room_for_def hash_evals)

text \<open>
  C4: Crawling a directory tree registers the regular files that are plain text with a word, in the
  order of the walk and with the ids 1, 2, and so on, and fills the index: for every hash and every
  document it holds the offsets of the words with this hash in the text, and it has no other
  postings. Sockets, devices, paths that \<^verbatim>\<open>stat\<close> refuses and directories that cannot be opened are
  skipped. This holds when no system call is interrupted and \<^verbatim>\<open>errno\<close> is neither \<^verbatim>\<open>EINTR\<close> nor \<^verbatim>\<open>EAGAIN\<close> at
  the start, every file and the entries of every opened directory can be read, no two paths of
  documents have the same hash, and memory does not run out.
\<close>

theorem CrawlFileTree_correct:
  assumes "on_disk rfuel os rootdir (Directory ts)" "close_dir os rootdir"
    and "height (Directory ts) \<le> Suc n" "reliable m" "\<not> retriable (errno m)"
    and "docs = docs_under flt rootdir (Directory ts)"
    and "distinct (map (\<lambda>doc. hash_string (fst doc)) docs)" "length docs < 2 ^ 64"
  shows "\<exists>dt mi m'. CrawlFileTree n rfuel flt os rootdir m = Inr (Some (dt, mi), m') \<and>
     dt_rep dt (map fst docs) m' \<and> mi_inv mi m' \<and>
     (\<forall>key d. posting (mi_view mi) key d =
        (if 0 < unat d \<and> unat d \<le> length docs
         then map_option snd (noted (words_of flt (snd (docs ! (unat d - 1)))) key) else None))"
proof -
  have "room_for [] (docs_under flt rootdir (Directory ts))"
    using assms(6-8) by (simp add: room_for_def)
  from CrawlFileTree_ok [OF assms(1-5) this] obtain dt mi m' where
    c: "CrawlFileTree n rfuel flt os rootdir m = Inr (Some (dt, mi), m')" "crawl_rep flt docs dt mi m'"
    unfolding assms(6) .
  from c(2) have "dt_rep dt (map fst docs) m'" "mi_inv mi m'" "mi_view mi = corpus flt docs"
    by (simp_all add: crawl_rep_def)
  with c(1) posting_corpus [OF assms(8)] show ?thesis by (intro exI conjI allI) auto
qed

lemma CrawlFileTree_correct_witness:
  "\<exists>dt mi m'. CrawlFileTree 1 100 False demo_disk ''d'' fresh_mem = Inr (Some (dt, mi), m') \<and>
     dt_rep dt [''d/a'', ''d/e/b''] m' \<and> posting (mi_view mi) (hash_string ''cat'') 2 = Some [0, 9]"
proof -
  have "distinct (map (\<lambda>doc. hash_string (fst doc)) (docs_under False ''d'' (Directory demo_entries)))"
    "length (docs_under False ''d'' (Directory demo_entries)) < 2 ^ 64" "close_dir demo_disk ''d''"
    "\<not> retriable (errno fresh_mem)"
    using demo_room by (simp_all add: room_for_def demo_disk_def)
  note C = CrawlFileTree_correct
    [OF demo_on_disk this(3) demo_height reliable_fresh_mem this(4) refl this(1,2)]
  have n: "map_option snd (noted (words_of False ''cat, Dog cat'') (hash_string ''cat'')) = Some [0, 9]"
    by code_simp
  from C obtain dt mi m' where
    c: "CrawlFileTree 1 100 False demo_disk ''d'' fresh_mem = Inr (Some (dt, mi), m')"
      "dt_rep dt (map fst (docs_under False ''d'' (Directory demo_entries))) m'"
    and p: "\<forall>key d. posting (mi_view mi) key d =
        (if 0 < unat d \<and> unat d \<le> length (docs_under False ''d'' (Directory demo_entries))
         then map_option snd (noted (words_of False
           (snd (docs_under False ''d'' (Directory demo_entries) ! (unat d - 1)))) key) else None)"
    by blast
  have "posting (mi_view mi) (hash_string ''cat'') 2 = Some [0, 9]"
    using p [rule_format, of "hash_string ''cat''" 2] n unfolding demo_docs by simp
  with c show ?thesis unfolding demo_docs by auto
qed

text \<open>
  C29: One interrupted \<^verbatim>\<open>readdir\<close> makes the crawler hang: the loop tries again and gets the other entries,
  but \<^verbatim>\<open>errno\<close> keeps \<^verbatim>\<open>EINTR\<close> or \<^verbatim>\<open>EAGAIN\<close>, so the end of the directory (or of the first subdirectory
  after it) is taken for another interruption, and \<^verbatim>\<open>CrawlFileTree\<close> does not return however often the loop
  may turn. The interruption is anywhere in the listing of the root; the paths after it can be read,
  so that no failing call puts another value into \<^verbatim>\<open>errno\<close>.
\<close>

theorem CrawlFileTree_interrupted:
  assumes "stat_mode os rootdir = Some S_DIR" "rootdir \<noteq> []"
    and "open_dir os rootdir = Some (d @ DirError e # d')" "e = EINTR \<or> e = EAGAIN"
    and "quiet d" "entry_names d = map fst ts" "quiet d'" "entry_names d' = map fst ts'"
    and "\<forall>x \<in> set (ts @ ts'). on_disk rfuel os (entry_path rootdir (fst x)) (snd x)"
    and "\<forall>x \<in> set ts. height (snd x) \<le> n" "\<forall>x \<in> set ts'. all_open (snd x)"
    and "reliable m" "\<not> retriable (errno m)"
    and "docs = concat (map (\<lambda>x. docs_under flt (entry_path rootdir (fst x)) (snd x)) (ts @ ts'))"
    and "distinct (map (\<lambda>doc. hash_string (fst doc)) docs)" "length docs < 2 ^ 64"
  shows "CrawlFileTree n rfuel flt os rootdir m = Inl OutOfFuel"
proof -
  obtain dt m1 mi m2 where start: "AllocateDocTable m = Inr (dt, m1)" "AllocateMemIndex m1 = Inr (mi, m2)"
    "later m m2" "crawl_rep flt [] dt mi m2" by (rule crawl_start [OF assms(12)])
  have rel: "reliable m2" using start(3) assms(12) by (rule later_reliable)
  have err: "\<not> retriable (errno m2)" using assms(13) later_errno [OF start(3) assms(12)] by simp
  let ?docs = "entry_docs flt rootdir ts"
  have "room_for [] (?docs @ entry_docs flt rootdir ts')"
    using assms(14-16) by (simp add: room_for_def)
  from room_for_append [OF this] have room: "room_for [] ?docs" "room_for ?docs (entry_docs flt rootdir ts')"
    by simp_all
  have sub: "\<forall>x \<in> set ts. on_disk rfuel os (entry_path rootdir (fst x)) (snd x) \<and> height (snd x) \<le> n"
    and sub': "\<forall>x \<in> set ts'. on_disk rfuel os (entry_path rootdir (fst x)) (snd x) \<and> all_open (snd x)"
    using assms(9-11) by simp_all
  obtain dt1 mi1 m3 where w: "HandleDir n rfuel flt os rootdir (d @ DirError e # d') dt mi m2
      = HandleDir n rfuel flt os rootdir (DirError e # d') dt1 mi1 m3" "crawled m2 m3"
      "crawl_rep flt ([] @ ?docs) dt1 mi1 m3"
    using HandleDir_walk [of n rfuel flt os] assms(2,5,6) sub start(4) rel err room(1)
    unfolding walk_ok_def by blast
  let ?m = "m3\<lparr>errno := e\<rparr>"
  have m: "reliable ?m" "retriable (errno ?m)"
    using crawled_reliable [OF w(2) rel] assms(4) by (auto simp: retriable_def)
  have "crawl_rep flt ?docs dt1 mi1 ?m" using crawl_rep_errno [OF w(3)] by simp
  with HandleDir_hangs [of n rfuel flt os] assms(2,7,8) sub' m room(2)
  have "HandleDir n rfuel flt os rootdir d' dt1 mi1 ?m = Inl OutOfFuel" unfolding hangs_def by blast
  with w(1) m(2) have "HandleDir n rfuel flt os rootdir (d @ DirError e # d') dt mi m2 = Inl OutOfFuel"
    by simp
  with assms(1,3) start(1,2) show ?thesis by (simp add: CrawlFileTree_def)
qed

text \<open>The small tree again, with an interrupted \<^verbatim>\<open>readdir\<close> between a socket and a directory.\<close>

definition interrupted_disk :: crawl_os where
  "interrupted_disk = demo_disk\<lparr>open_dir :=
     [''d'' \<mapsto> [Entry ''a'', Entry ''s'', DirError EINTR, Entry ''..'', Entry ''e''],
      ''d/e'' \<mapsto> [Entry ''b'', Entry ''..'']]\<rparr>"

lemma CrawlFileTree_interrupted_witness:
  "CrawlFileTree 1 100 False interrupted_disk ''d'' fresh_mem = Inl OutOfFuel"
proof -
  let ?ts = "[(''a'', RegularFile ''The cat''), (''s'', Skipped)]"
  let ?ts' = "[(''e'', Directory [(''b'', RegularFile ''cat, Dog cat'')])]"
  have docs: "concat (map (\<lambda>x. docs_under False (entry_path ''d'' (fst x)) (snd x)) (?ts @ ?ts'))
      = [(''d/a'', ''The cat''), (''d/e/b'', ''cat, Dog cat'')]"
    by code_simp
  show ?thesis
  proof (rule CrawlFileTree_interrupted [where e = EINTR and ts = ?ts and ts' = ?ts' and
        d = "[Entry ''a'', Entry ''s'']" and d' = "[Entry ''..'', Entry ''e'']", OF _ _ _ _ _ _ _ _ _ _ _ _ _ docs [symmetric]])
    show "distinct (map (\<lambda>doc. hash_string (fst doc)) [(''d/a'', ''The cat''), (''d/e/b'', ''cat, Dog cat'')])"
      using demo_room unfolding demo_docs by (simp add: room_for_def)
  qed (simp_all add: interrupted_disk_def demo_disk_def entry_path_def text_file_readable)
qed

end
