(* ===== verification/SearchShell.thy ===== *)
theory SearchShell
  imports FileCrawlerThms
begin

text \<open>
  The interactive shell of \<^verbatim>\<open>hw2/searchshell.c\<close>: it crawls a directory, reads queries from the
  standard input, splits them at blanks and prints the matching documents.

  The standard input is the list of characters still to be read, the output a list of strings in
  the order of the calls that print them. Strings that the C library sees end at the first \<^verbatim>\<open>NUL\<close>.
\<close>

section \<open>The C library\<close>

text \<open>\<^verbatim>\<open>fgets(buf, n, stdin)\<close>: at most \<open>n - 1\<close> characters, up to and with the end of the line.\<close>

fun line_upto :: "nat \<Rightarrow> string \<Rightarrow> string \<times> string" where
  "line_upto 0 input = ([], input)"
| "line_upto (Suc n) [] = ([], [])"
| "line_upto (Suc n) (c # input) =
     (if c = CHR 0x0A then ([c], input)
      else case line_upto n input of (l, rest) \<Rightarrow> (c # l, rest))"

definition fgets :: "nat \<Rightarrow> string \<Rightarrow> (string \<times> string) option" where
  "fgets n input = (if input = [] then None else Some (line_upto (n - 1) input))"

text \<open>\<^verbatim>\<open>strtok_r(str, " ", &rest)\<close>: the token and what is left behind its delimiter.\<close>

definition strtok_r :: "string \<Rightarrow> (string \<times> string) option" where
  "strtok_r str =
     (let s = dropWhile (\<lambda>c. c = CHR '' '') str in
      if s = [] then None
      else Some (takeWhile (\<lambda>c. c \<noteq> CHR '' '') s, tl (dropWhile (\<lambda>c. c \<noteq> CHR '' '') s)))"

text \<open>The conversion \<^verbatim>\<open>%d\<close>.\<close>

fun decimal :: "nat \<Rightarrow> string" where
  "decimal n = (if n < 10 then [char_of (48 + n)] else decimal (n div 10) @ [char_of (48 + n mod 10)])"

declare decimal.simps [simp del]

definition format_d :: "int \<Rightarrow> string" where
  "format_d i = (if i < 0 then CHR ''-'' # decimal (nat (- i)) else decimal (nat i))"

section \<open>Splitting a query\<close>

function ParseQuery_loop :: "bool \<Rightarrow> string \<Rightarrow> string list" where
  "ParseQuery_loop flt p =
     (case strtok_r p of
        None \<Rightarrow> []
      | Some (token, rest) \<Rightarrow>
          (if Unfiltered flt token then [token] else []) @ ParseQuery_loop flt rest)"
  by pat_completeness auto

lemma strtok_r_shorter: "strtok_r p = Some (token, rest) \<Longrightarrow> length rest < length p"
proof -
  let ?s = "dropWhile (\<lambda>c. c = CHR '' '') p"
  assume "strtok_r p = Some (token, rest)"
  then have s: "?s \<noteq> []" "rest = tl (dropWhile (\<lambda>c. c \<noteq> CHR '' '') ?s)"
    by (simp_all add: strtok_r_def Let_def split: if_splits)
  have "length (dropWhile (\<lambda>c. c \<noteq> CHR '' '') ?s) \<le> length ?s" "length ?s \<le> length p"
    by (simp_all add: length_dropWhile_le)
  moreover have "0 < length ?s" using s(1) by (simp only: length_greater_0_conv not_False_eq_True)
  ultimately show ?thesis unfolding s(2) length_tl by linarith
qed

termination ParseQuery_loop
  by (relation "measure (\<lambda>(flt, p). length p)") (auto intro: strtok_r_shorter)

declare ParseQuery_loop.simps [simp del]

text \<open>The last character of the buffer is cut off; an empty buffer has none.\<close>

definition ParseQuery :: "bool \<Rightarrow> string \<Rightarrow> string list res" where
  "ParseQuery flt buf =
     (let s = takeWhile (\<lambda>c. c \<noteq> NUL) buf in
      if s = [] then Inl MemFault else Inr (ParseQuery_loop flt (butlast s)))"

section \<open>Answering queries\<close>

definition BUFSIZE :: nat where
  "BUFSIZE = 128"

definition prompt :: string where
  "prompt = ''enter query:'' @ [CHR 0x0A]"

definition result_line :: "string \<Rightarrow> u32 \<Rightarrow> string" where
  "result_line filename r = filename @ '' ('' @ format_d (sint r) @ '')'' @ [CHR 0x0A]"

text \<open>The loop that prints the results and deletes them through the iterator.\<close>

primrec print_results ::
  "nat \<Rightarrow> doc_table \<Rightarrow> results \<Rightarrow> ptr \<Rightarrow> mem \<Rightarrow> (string list \<times> results \<times> mem) res" where
  "print_results 0 dt rs llit m = Inl OutOfFuel"
| "print_results (Suc n) dt rs llit m =
     (case rs of (retlist, srs) \<Rightarrow>
        andThen (cl_payload retlist llit) (\<lambda>sr.
          load srs sr (\<lambda>r.
            andThen (DTLookupDocID dt (docid r) m) (\<lambda>(filename, m).
              case filename of
                None \<Rightarrow> Inl MemFault
              | Some filename \<Rightarrow>
                  andThen (cl_delete retlist llit) (\<lambda>(more_left, sr, llit, retlist).
                    let line = result_line filename (rank r); rs = (retlist, srs(sr := None)) in
                    if more_left then
                      andThen (print_results n dt rs llit m) (\<lambda>(out, rs, m). Inr (line # out, rs, m))
                    else Inr ([line], rs, m))))))"

text \<open>One turn of the loop of \<^verbatim>\<open>ProcessQuery\<close>: what is printed for one buffer.\<close>

definition answer_query ::
  "bool \<Rightarrow> doc_table \<Rightarrow> mem_index \<Rightarrow> string \<Rightarrow> mem \<Rightarrow> (string list \<times> mem) res" where
  "answer_query flt dt mi buf m =
     andThen (ParseQuery flt buf) (\<lambda>query.
       andThen (MIProcessQuery mi query (of_nat (length query)) m) (\<lambda>(retlist, m).
         case retlist of
           None \<Rightarrow> Inr ([prompt], m)
         | Some rs \<Rightarrow>
             if cl_count (fst rs) = 0 then Inr ([prompt], m)
             else case cl_make_iterator (fst rs) 0 m of
               (None, m) \<Rightarrow> Inl VerificationFailure
             | (Some llit, m) \<Rightarrow>
                 andThen (print_results (Suc (length (fst rs))) dt rs llit m) (\<lambda>(out, rs, m).
                   Inr (out @ [prompt], m))))"

function ProcessQuery_loop ::
  "bool \<Rightarrow> doc_table \<Rightarrow> mem_index \<Rightarrow> string \<Rightarrow> mem \<Rightarrow> (string list \<times> mem) res" where
  "ProcessQuery_loop flt dt mi input m =
     (case fgets BUFSIZE input of
        None \<Rightarrow> Inr ([], m)
      | Some (buf, input) \<Rightarrow>
          (case answer_query flt dt mi buf m of
             Inl e \<Rightarrow> Inl e
           | Inr (out, m) \<Rightarrow>
               andThen (ProcessQuery_loop flt dt mi input m) (\<lambda>(out', m). Inr (out @ out', m))))"
  by pat_completeness auto

lemma line_upto_append: "line_upto n input = (l, rest) \<Longrightarrow> input = l @ rest"
  by (induction n input arbitrary: l rest rule: line_upto.induct) (auto split: if_splits prod.splits)

lemma line_upto_nonempty: "line_upto (Suc n) (c # input) = (l, rest) \<Longrightarrow> l \<noteq> []"
  by (auto split: if_splits prod.splits)

lemma fgets_shorter:
  assumes "fgets BUFSIZE input = Some (buf, rest)"
  shows "length rest < length input"
proof -
  from assms obtain c cs where c: "input = c # cs" by (cases input) (auto simp: fgets_def)
  with assms have l: "line_upto (Suc 126) (c # cs) = (buf, rest)" by (simp add: fgets_def BUFSIZE_def)
  from line_upto_append [OF l] line_upto_nonempty [OF l] c show ?thesis by simp
qed

termination ProcessQuery_loop
  by (relation "measure (\<lambda>(flt, dt, mi, input, m). length input)") (auto intro: fgets_shorter)

declare ProcessQuery_loop.simps [simp del]

definition ProcessQuery ::
  "bool \<Rightarrow> doc_table \<Rightarrow> mem_index \<Rightarrow> string \<Rightarrow> mem \<Rightarrow> (string list \<times> mem) res" where
  "ProcessQuery flt dt mi input m =
     andThen (ProcessQuery_loop flt dt mi input m) (\<lambda>(out, m). Inr (prompt # out, m))"

section \<open>The program\<close>

datatype exit_code = EXIT_SUCCESS | EXIT_FAILURE

text \<open>
  \<^verbatim>\<open>main\<close>: the arguments, with the name of the program, give the directory and the filter. \<^verbatim>\<open>Usage\<close>
  ends the program; its message goes to the standard error and is left out.
\<close>

definition searchshell_main ::
  "nat \<Rightarrow> nat \<Rightarrow> crawl_os \<Rightarrow> string list \<Rightarrow> string \<Rightarrow> mem \<Rightarrow> (exit_code \<times> string list) res" where
  "searchshell_main n rfuel os argv input m =
     (let argc = length argv in
      if argc \<noteq> 2 \<and> argc \<noteq> 3 then Inr (EXIT_FAILURE, [])
      else if argc = 3 \<and> argv ! 2 \<noteq> ''-s'' then Inr (EXIT_FAILURE, [])
      else
        let flt = (argc = 3); start = ''Indexing '' @ [CHR 0x27] @ argv ! 1 @ [CHR 0x27, CHR 0x0A] in
        andThen (CrawlFileTree n rfuel flt os (argv ! 1) m) (\<lambda>(r, m).
          case r of
            None \<Rightarrow> Inr (EXIT_FAILURE, [start])
          | Some (dt, mi) \<Rightarrow>
              andThen (ProcessQuery flt dt mi input m) (\<lambda>(out, m).
                andThen (FreeMemIndex mi) (\<lambda>_.
                  andThen (FreeDocTable dt) (\<lambda>_.
                    Inr (EXIT_SUCCESS, start # out @ [''Shut down...'' @ [CHR 0x0A]]))))))"

end
