(* ===== verification/QueryProcessor.thy ===== *)
theory QueryProcessor
  imports IndexReader
begin

text \<open>
  Answering queries from index files: \<^verbatim>\<open>hw3/QueryProcessor.cc\<close>, the shell \<^verbatim>\<open>hw3/filesearchshell.cc\<close>.
  \<^verbatim>\<open>std::sort\<close> leaves the order of equal elements open, so it is a parameter \<open>std_sort\<close> of which only
  its contract is known. The file system \<open>fs\<close> gives the bytes of the files that can be opened.
\<close>

section \<open>The query processor\<close>

record QueryResult =
  document_name :: string
  result_rank :: u32

text \<open>\<^verbatim>\<open>operator<\<close> puts the higher rank first.\<close>

definition QueryResult_less :: "QueryResult \<Rightarrow> QueryResult \<Rightarrow> bool" where
  "QueryResult_less lhs rhs \<longleftrightarrow> result_rank lhs > result_rank rhs"

record QueryProcessor =
  arraylen :: u32
  dtr_array :: "HashTableReader list"
  itr_array :: "HashTableReader list"

text \<open>The loop of the constructor over the names; the readers are copied from temporary ones.\<close>

primrec open_indices ::
  "(string \<Rightarrow> u8 list option) \<Rightarrow> bool \<Rightarrow> string list \<Rightarrow> (HashTableReader \<times> HashTableReader) list res" where
  "open_indices fs validate [] = Inr []"
| "open_indices fs validate (idx # idxs) =
     andThen (new_FileIndexReader (fs idx) validate) (\<lambda>fir.
       andThen (GetDocTableReader fir) (\<lambda>dtr.
         andThen (GetIndexTableReader fir) (\<lambda>itr.
           andThen (open_indices fs validate idxs) (\<lambda>rs.
             Inr ((copy_HashTableReader dtr, copy_HashTableReader itr) # rs)))))"

definition new_QueryProcessor ::
  "(string \<Rightarrow> u8 list option) \<Rightarrow> string list \<Rightarrow> bool \<Rightarrow> QueryProcessor res" where
  "new_QueryProcessor fs indexlist validate =
     (let len = of_nat (length indexlist) in
      Verify333 (0 < len)
        (andThen (open_indices fs validate (take (unat len) indexlist)) (\<lambda>rs.
           Inr \<lparr>arraylen = len, dtr_array = map fst rs, itr_array = map snd rs\<rparr>)))"

text \<open>
  The inner loop of \<^verbatim>\<open>ProcessQuerySingleIndex\<close>: documents without the word are erased, the others
  get the number of its positions added.
\<close>

primrec narrow_docids ::
  "HashTableReader \<Rightarrow> docid_element_header list \<Rightarrow> docid_element_header list res" where
  "narrow_docids docidtable [] = Inr []"
| "narrow_docids docidtable (it # docidlist) =
     andThen (DocIDTableReader_LookupDocID docidtable (del_docid it)) (\<lambda>ret_list.
       andThen (narrow_docids docidtable docidlist) (\<lambda>ds.
         case ret_list of
           None \<Rightarrow> Inr ds
         | Some ret_list \<Rightarrow>
             Inr (it\<lparr>num_positions := num_positions it + of_nat (length ret_list)\<rparr> # ds)))"

text \<open>The loop over the other words; \<open>None\<close> is the early return of an empty result.\<close>

primrec narrow_words ::
  "HashTableReader \<Rightarrow> string list \<Rightarrow> docid_element_header list \<Rightarrow> docid_element_header list option res" where
  "narrow_words indextable [] docidlist = Inr (Some docidlist)"
| "narrow_words indextable (w # query) docidlist =
     andThen (LookupWord indextable w) (\<lambda>docidtable.
       case docidtable of
         None \<Rightarrow> Inr None
       | Some docidtable \<Rightarrow>
           andThen (narrow_docids docidtable docidlist) (narrow_words indextable query))"

primrec result_names ::
  "HashTableReader \<Rightarrow> docid_element_header list \<Rightarrow> QueryResult list res" where
  "result_names doctable [] = Inr []"
| "result_names doctable (it # docidlist) =
     andThen (DocTableReader_LookupDocID doctable (del_docid it)) (\<lambda>filename.
       case filename of
         None \<Rightarrow> Inl VerificationFailure
       | Some filename \<Rightarrow>
           andThen (result_names doctable docidlist) (\<lambda>result.
             Inr (\<lparr>document_name = filename, result_rank = num_positions it\<rparr> # result)))"

definition ProcessQuerySingleIndex ::
  "string list \<Rightarrow> HashTableReader \<Rightarrow> HashTableReader \<Rightarrow> QueryResult list res" where
  "ProcessQuerySingleIndex query doctable indextable =
     (case query of
        [] \<Rightarrow> Inl MemFault
      | w # ws \<Rightarrow>
          andThen (LookupWord indextable w) (\<lambda>docidtable.
            case docidtable of
              None \<Rightarrow> Inr []
            | Some docidtable \<Rightarrow>
                andThen (GetDocIDList docidtable) (\<lambda>docidlist.
                  andThen (narrow_words indextable ws docidlist) (\<lambda>docidlist.
                    case docidlist of
                      None \<Rightarrow> Inr []
                    | Some docidlist \<Rightarrow> result_names doctable docidlist))))"

text \<open>The loop over the indices and the sorting.\<close>

primrec query_indices ::
  "string list \<Rightarrow> (HashTableReader \<times> HashTableReader) list \<Rightarrow> QueryResult list res" where
  "query_indices query [] = Inr []"
| "query_indices query (r # rs) =
     andThen (ProcessQuerySingleIndex query (fst r) (snd r)) (\<lambda>result.
       andThen (query_indices query rs) (\<lambda>finalresult. Inr (result @ finalresult)))"

definition QP_ProcessQuery ::
  "(QueryResult list \<Rightarrow> QueryResult list) \<Rightarrow> QueryProcessor \<Rightarrow> string list \<Rightarrow> QueryResult list res" where
  "QP_ProcessQuery std_sort qp query =
     Verify333 (0 < length query)
       (andThen (query_indices query (take (unat (arraylen qp)) (zip (dtr_array qp) (itr_array qp)))) (\<lambda>finalresult.
          Inr (std_sort finalresult)))"

section \<open>The shell\<close>

text \<open>\<^verbatim>\<open>std::getline\<close>: the line, and whether the end of the input came before the end of the line.\<close>

fun getline :: "string \<Rightarrow> string \<times> bool \<times> string" where
  "getline [] = ([], True, [])"
| "getline (c # cs) =
     (if c = CHR 0x0A then ([], False, cs)
      else case getline cs of (line, eof, rest) \<Rightarrow> (c # line, eof, rest))"

definition isspace :: "char \<Rightarrow> bool" where
  "isspace c \<longleftrightarrow> c \<in> {CHR '' '', CHR 0x09, CHR 0x0A, CHR 0x0B, CHR 0x0C, CHR 0x0D}"

text \<open>The words that \<^verbatim>\<open>iss >> word\<close> yields one after the other.\<close>

function stream_words :: "string \<Rightarrow> string list" where
  "stream_words s =
     (let s = dropWhile isspace s in
      if s = [] then []
      else takeWhile (\<lambda>c. \<not> isspace c) s # stream_words (dropWhile (\<lambda>c. \<not> isspace c) s))"
  by pat_completeness auto

lemma stream_words_shorter:
  assumes "dropWhile isspace s \<noteq> []"
  shows "length (dropWhile (\<lambda>c. \<not> isspace c) (dropWhile isspace s)) < length s"
proof -
  obtain c cs where c: "dropWhile isspace s = c # cs" using assms by (cases "dropWhile isspace s") auto
  then have "\<not> isspace c" using hd_dropWhile [OF assms] by simp
  then have "length (dropWhile (\<lambda>c. \<not> isspace c) (c # cs)) \<le> length cs" by (simp add: length_dropWhile_le)
  moreover have "length (c # cs) \<le> length s" using length_dropWhile_le [of isspace s] c by simp
  ultimately show ?thesis unfolding c by simp
qed

termination stream_words
  by (relation "measure length") (auto intro: stream_words_shorter)

declare stream_words.simps [simp del]

lemma getline_shorter: "getline s = (line, False, rest) \<Longrightarrow> length rest < length s"
proof (induction s arbitrary: line rest rule: getline.induct)
  case (2 c cs)
  then show ?case by (cases "getline cs") (auto split: if_splits simp: less_SucI)
qed simp

end
