(* ===== verification/IndexWriter.thy ===== *)
theory IndexWriter
  imports FileLayout Crc32 DocTable MemIndexInv
begin

text \<open>
  Writing the index file: \<^verbatim>\<open>hw3/fileindexwriter.cc\<close>. A stream is a file with a position; which of
  its operations fail, by their number, is a parameter, and a failed operation leaves the file as it
  was. An item of zero bytes counts as not written, as in the C library. Offsets are 32-bit words
  and wrap as in the code; \<^verbatim>\<open>long\<close> arguments of \<^verbatim>\<open>fseek\<close> do not.

  A function that returns \<open>0\<close> on an error returns it in the first component of its result.
\<close>

section \<open>Streams\<close>

record stream =
  file_bytes :: "u8 list"
  file_pos :: nat
  io_count :: nat
  io_fails :: "nat \<Rightarrow> bool"

definition io_step :: "(stream \<Rightarrow> stream) \<Rightarrow> stream \<Rightarrow> bool \<times> stream" where
  "io_step f s =
     (let s' = s\<lparr>io_count := Suc (io_count s)\<rparr>
      in if io_fails s (io_count s) then (False, s') else (True, f s'))"

definition fseek :: "nat \<Rightarrow> stream \<Rightarrow> bool \<times> stream" where
  "fseek off = io_step (\<lambda>s. s\<lparr>file_pos := off\<rparr>)"

text \<open>Bytes put at a position; a gap behind the end of the file is filled with zeros.\<close>

definition overwrite :: "u8 list \<Rightarrow> nat \<Rightarrow> u8 list \<Rightarrow> u8 list" where
  "overwrite file p bs =
     take p (file @ replicate (p - length file) 0) @ bs @ drop (p + length bs) file"

text \<open>\<^verbatim>\<open>fwrite(ptr, size, 1, f) == 1\<close>\<close>

definition fwrite :: "u8 list \<Rightarrow> stream \<Rightarrow> bool \<times> stream" where
  "fwrite bs s =
     (if bs = [] then (False, s)
      else io_step (\<lambda>s. s\<lparr>file_bytes := overwrite (file_bytes s) (file_pos s) bs,
                           file_pos := file_pos s + length bs\<rparr>) s)"

text \<open>\<^verbatim>\<open>fread(ptr, size, 1, f) == 1\<close>\<close>

definition fread :: "nat \<Rightarrow> stream \<Rightarrow> u8 list option \<times> stream" where
  "fread n s =
     (if length (file_bytes s) < file_pos s + n then (None, s\<lparr>io_count := Suc (io_count s)\<rparr>)
      else case io_step (\<lambda>s. s\<lparr>file_pos := file_pos s + n\<rparr>) s of
        (ok, s') \<Rightarrow> (if ok then Some (take n (drop (file_pos s) (file_bytes s))) else None, s'))"

definition fsync :: "stream \<Rightarrow> bool \<times> stream" where
  "fsync = io_step (\<lambda>s. s)"

section \<open>Writing a hash table\<close>

type_synonym written = "(u32 \<times> stream \<times> mem) res"

type_synonym 'v write_element_fn = "'v HTKeyValue \<Rightarrow> u32 \<Rightarrow> stream \<Rightarrow> mem \<Rightarrow> written"

text \<open>Going on after a successful operation; otherwise the result is \<open>0\<close>.\<close>

definition if_ok :: "bool \<times> stream \<Rightarrow> mem \<Rightarrow> (stream \<Rightarrow> written) \<Rightarrow> written" where
  "if_ok r m k = (case r of (ok, s) \<Rightarrow> if ok then k s else Inr (0, s, m))"

definition WriteBucketRecord :: "ptr cells \<Rightarrow> u32 \<Rightarrow> u32 \<Rightarrow> stream \<Rightarrow> mem \<Rightarrow> written" where
  "WriteBucketRecord li br_offset b_offset s m =
     (let br = \<lparr>chain_len = cl_count li, bucket_position = b_offset\<rparr> in
      if_ok (fseek (unat br_offset) s) m (\<lambda>s.
        if_ok (fwrite (bucket_rec_image (bucket_rec_toDiskFormat br)) s) m (\<lambda>s.
          Inr (8, s, m))))"

text \<open>The loop over a chain; \<open>j\<close> counts the elements written.\<close>

primrec WriteBucket_loop ::
  "'v write_element_fn \<Rightarrow> (ptr \<rightharpoonup> 'v HTKeyValue) \<Rightarrow> u32 \<Rightarrow> ptr cells \<Rightarrow> nat \<Rightarrow> u32 \<Rightarrow> u32
     \<Rightarrow> stream \<Rightarrow> mem \<Rightarrow> written" where
  "WriteBucket_loop fn boxes offset [] j bucketlen nextelpos s m = Inr (bucketlen, s, m)"
| "WriteBucket_loop fn boxes offset (c # li) j bucketlen nextelpos s m =
     if_ok (fseek (unat offset + j * 4) s) m (\<lambda>s.
       if_ok (fwrite (le_bytes 4 (htonl nextelpos)) s) m (\<lambda>s.
         load boxes (snd c) (\<lambda>kv.
           andThen (fn kv nextelpos s m) (\<lambda>(ellen, s, m).
             if ellen = 0 then Inr (0, s, m)
             else WriteBucket_loop fn boxes offset li (Suc j) (bucketlen + ellen) (nextelpos + ellen)
                    s m))))"

definition WriteBucket ::
  "'v write_element_fn \<Rightarrow> (ptr \<rightharpoonup> 'v HTKeyValue) \<Rightarrow> ptr cells \<Rightarrow> u32 \<Rightarrow> stream \<Rightarrow> mem \<Rightarrow> written" where
  "WriteBucket fn boxes li offset s m =
     (let chainlen_ho = cl_count li; bucketlen = 4 * chainlen_ho; nextelpos = offset + bucketlen in
      if 0 < chainlen_ho then
        (case cl_make_iterator li 0 m of
           (None, m) \<Rightarrow> Inl VerificationFailure
         | (Some it, m) \<Rightarrow> WriteBucket_loop fn boxes offset (take (unat chainlen_ho) li) 0 bucketlen nextelpos s m)
      else Inr (bucketlen, s, m))"

text \<open>The loop over the buckets with the numbers \<open>is\<close>.\<close>

primrec WriteHashTable_loop ::
  "'v write_element_fn \<Rightarrow> 'v hash_table \<Rightarrow> u32 \<Rightarrow> nat list \<Rightarrow> u32 \<Rightarrow> u32 \<Rightarrow> stream \<Rightarrow> mem \<Rightarrow> written" where
  "WriteHashTable_loop fn ht offset [] next_bucket_rec_offset next_bucket_offset s m =
     Inr (next_bucket_offset - offset, s, m)"
| "WriteHashTable_loop fn ht offset (i # is) next_bucket_rec_offset next_bucket_offset s m =
     bucket_at ht i (\<lambda>li.
       andThen (WriteBucketRecord li next_bucket_rec_offset next_bucket_offset s m) (\<lambda>(r, s, m).
         if r = 0 then Inr (0, s, m)
         else let next_bucket_rec_offset = next_bucket_rec_offset + r in
           if cl_count li = 0 then
             WriteHashTable_loop fn ht offset is next_bucket_rec_offset next_bucket_offset s m
           else andThen (WriteBucket fn (kvs ht) li next_bucket_offset s m) (\<lambda>(r, s, m).
             if r = 0 then Inr (0, s, m)
             else WriteHashTable_loop fn ht offset is next_bucket_rec_offset (next_bucket_offset + r)
                    s m)))"

definition WriteHashTable ::
  "'v write_element_fn \<Rightarrow> 'v hash_table \<Rightarrow> u32 \<Rightarrow> stream \<Rightarrow> mem \<Rightarrow> written" where
  "WriteHashTable fn ht offset s m =
     (let next_bucket_rec_offset = offset + 4; header = \<lparr>bl_num_buckets = num_buckets ht\<rparr> in
      if_ok (fseek (unat offset) s) m (\<lambda>s.
        if_ok (fwrite (BucketListHeader_image (BucketListHeader_toDiskFormat header)) s) m (\<lambda>s.
          WriteHashTable_loop fn ht offset [0..<unat (num_buckets ht)]
            next_bucket_rec_offset (next_bucket_rec_offset + num_buckets ht * 8) s m)))"

section \<open>The elements\<close>

definition WriteDocidDocnameFn :: "string write_element_fn" where
  "WriteDocidDocnameFn kv offset s m =
     (let filename = kv_value kv; slen_ho = of_nat (length filename);
          header = \<lparr>de_docid = kv_key kv, filename_len = slen_ho\<rparr> in
      if_ok (fseek (unat offset) s) m (\<lambda>s.
        if_ok (fwrite (doctable_element_header_image (doctable_element_header_toDiskFormat header)) s) m (\<lambda>s.
          if_ok (fwrite (take (unat slen_ho) (bytes_of filename)) s) m (\<lambda>s.
            Inr (10 + ucast slen_ho, s, m)))))"

text \<open>
  \<^verbatim>\<open>LLIteratorGetPayload(it, reinterpret_cast<LLPayload_t *>(&position.position))\<close>: the eight bytes of a
  payload are stored at the local variable \<^verbatim>\<open>position\<close>, which has four. The low four become the
  position; the others go to the four bytes behind the variable, which is a fault unless the
  compiler has left that many unused.
\<close>

definition store_payload :: "nat \<Rightarrow> u64 \<Rightarrow> (u32 \<Rightarrow> 'a res) \<Rightarrow> 'a res" where
  "store_payload slack payload_ptr k = (if slack < 8 - 4 then Inl MemFault else k (ucast payload_ptr))"

primrec write_positions :: "u32 list \<Rightarrow> u32 \<Rightarrow> stream \<Rightarrow> mem \<Rightarrow> written" where
  "write_positions [] r s m = Inr (r, s, m)"
| "write_positions (pos # ps) r s m =
     store_payload (frame_slack m) (ucast pos) (\<lambda>pos.
       if_ok (fwrite (docid_element_position_image
                        (docid_element_position_toDiskFormat \<lparr>dep_position = pos\<rparr>)) s) m
         (\<lambda>s. write_positions ps r s m))"

definition WriteDocPositionListFn :: "u32 cells write_element_fn" where
  "WriteDocPositionListFn kv offset s m =
     (let num_pos_ho = cl_count (kv_value kv);
          header = \<lparr>del_docid = kv_key kv, num_positions = num_pos_ho\<rparr> in
      if_ok (fseek (unat offset) s) m (\<lambda>s.
        if_ok (fwrite (docid_element_header_image (docid_element_header_toDiskFormat header)) s) m (\<lambda>s.
          case cl_make_iterator (kv_value kv) 0 m of
            (None, m) \<Rightarrow> Inl VerificationFailure
          | (Some it, m) \<Rightarrow>
              write_positions (take (unat num_pos_ho) (map snd (kv_value kv)))
                (12 + num_pos_ho * 4) s m)))"

text \<open>The result \<open>0\<close> of writing the nested table is not looked at, as in the code.\<close>

definition WriteWordDocSetFn :: "(ptr \<rightharpoonup> WordDocSet) \<Rightarrow> ptr write_element_fn" where
  "WriteWordDocSetFn store kv offset s m =
     Verify333 (kv_value kv \<noteq> NULL) (load store (kv_value kv) (\<lambda>wds.
       let wordlen_ho = of_nat (length (word wds)) :: u16 in
       andThen (WriteHashTable WriteDocPositionListFn (docIDs wds) (offset + 6 + ucast wordlen_ho) s m)
         (\<lambda>(htlen_ho, s, m).
            let header = \<lparr>word_len = wordlen_ho, doctable_len = htlen_ho\<rparr> in
            if_ok (fseek (unat offset) s) m (\<lambda>s.
              if_ok (fwrite (worddocset_header_image (worddocset_header_toDiskFormat header)) s) m (\<lambda>s.
                if_ok (fwrite (take (unat wordlen_ho) (bytes_of (word wds))) s) m (\<lambda>s.
                  Inr (6 + ucast wordlen_ho + htlen_ho, s, m)))))))"

section \<open>The file\<close>

definition WriteDocTable :: "doc_table \<Rightarrow> u32 \<Rightarrow> stream \<Rightarrow> mem \<Rightarrow> written" where
  "WriteDocTable dt offset = WriteHashTable WriteDocidDocnameFn (DTGetDocidTable dt) offset"

definition WriteMemIndex :: "mem_index \<Rightarrow> u32 \<Rightarrow> stream \<Rightarrow> mem \<Rightarrow> written" where
  "WriteMemIndex mi offset = WriteHashTable (WriteWordDocSetFn (wdss mi)) (index mi) offset"

text \<open>The loop that feeds \<open>n\<close> bytes of the file to the checksum; \<open>None\<close> when a byte cannot be read.\<close>

primrec checksum_loop :: "nat \<Rightarrow> CRC32 \<Rightarrow> stream \<Rightarrow> (CRC32 option \<times> stream) res" where
  "checksum_loop 0 crcobj s = Inr (Some crcobj, s)"
| "checksum_loop (Suc n) crcobj s =
     (case fread 1 s of
        (None, s) \<Rightarrow> Inr (None, s)
      | (Some data, s) \<Rightarrow>
          andThen (FoldByteIntoCRC (hd data) crcobj) (\<lambda>crcobj. checksum_loop n crcobj s))"

definition WriteHeader :: "u32 \<Rightarrow> u32 \<Rightarrow> stream \<Rightarrow> mem \<Rightarrow> written" where
  "WriteHeader doct_size memidx_size s m =
     if_ok (fseek 16 s) m (\<lambda>s.
       andThen (checksum_loop (unat (doct_size + memidx_size)) new_CRC32 s) (\<lambda>(crcobj, s).
         case crcobj of
           None \<Rightarrow> Inr (0, s, m)
         | Some crcobj \<Rightarrow>
             let header = \<lparr>magic_number = MAGIC_NUMBER, checksum = fst (GetFinalCRC crcobj),
                           doctable_size = doct_size, index_size = memidx_size\<rparr> in
             if_ok (fseek 0 s) m (\<lambda>s.
               if_ok (fwrite (IndexFileHeader_image (IndexFileHeader_toDiskFormat header)) s) m (\<lambda>s.
                 case fsync s of (ok, s) \<Rightarrow> Verify333 ok (Inr (16, s, m))))))"

text \<open>
  \<^verbatim>\<open>WriteIndex\<close>: the stream is the one \<^verbatim>\<open>fopen\<close> gives, if any. The second component is the
  contents of the file afterwards, if it exists: after an error it is unlinked.
\<close>

definition WriteIndex ::
  "mem_index \<Rightarrow> doc_table \<Rightarrow> stream option \<Rightarrow> mem \<Rightarrow> (u32 \<times> u8 list option \<times> mem) res" where
  "WriteIndex mi dt f m =
     (case f of
        None \<Rightarrow> Inr (0, None, m)
      | Some s \<Rightarrow>
          andThen (WriteDocTable dt 16 s m) (\<lambda>(dtres, s, m).
            if dtres = 0 then Inr (0, None, m)
            else andThen (WriteMemIndex mi (16 + dtres) s m) (\<lambda>(mires, s, m).
              if mires = 0 then Inr (0, None, m)
              else andThen (WriteHeader dtres mires s m) (\<lambda>(hdres, s, m).
                if hdres = 0 then Inr (0, None, m)
                else Inr (dtres + mires + hdres, Some (file_bytes s), m)))))"

end
