(* ===== verification/FileSearchShell.thy ===== *)
theory FileSearchShell
  imports QueryProcessor IndexWriter SearchShell
begin

text \<open>
  The two programs of \<^verbatim>\<open>hw3\<close>: \<^verbatim>\<open>filesearchshell.cc\<close> answers queries from index files and
  \<^verbatim>\<open>buildfileindex.cc\<close> crawls a directory and writes its index. The output is the list of lines sent
  to \<^verbatim>\<open>std::cout\<close>; the messages of \<^verbatim>\<open>Usage\<close> go to the standard error and are left out. The shell writes
  every line with \<^verbatim>\<open>std::endl\<close>, so what it has printed stays printed when it ends abnormally: its
  result is the lines together with the way it ended.
\<close>

definition newline_char :: char where
  "newline_char = CHR 0x0A"

definition enter_query :: string where
  "enter_query = ''Enter query:'' @ [newline_char]"

definition QueryResult_line :: "QueryResult \<Rightarrow> string" where
  "QueryResult_line it =
     ''  '' @ document_name it @ '' ('' @ decimal (unat (result_rank it)) @ '')'' @ [newline_char]"

definition result_lines :: "QueryResult list \<Rightarrow> string list" where
  "result_lines result =
     (if result = [] then [''  [no results]'' @ [newline_char]] else map QueryResult_line result)"

text \<open>
  The loop of \<^verbatim>\<open>main\<close>: it ends at the first line that the end of the input cuts off, or abnormally in
  \<^verbatim>\<open>ProcessQuery\<close>.
\<close>

function filesearchshell_loop ::
  "(QueryResult list \<Rightarrow> QueryResult list) \<Rightarrow> QueryProcessor \<Rightarrow> string \<Rightarrow> string list \<times> unit res" where
  "filesearchshell_loop std_sort processor input =
     (case getline input of (line, eof, rest) \<Rightarrow>
        if eof then ([enter_query], Inr ())
        else case QP_ProcessQuery std_sort processor (map (map tolower) (stream_words line)) of
          Inl e \<Rightarrow> ([enter_query], Inl e)
        | Inr result \<Rightarrow>
            (case filesearchshell_loop std_sort processor rest of (out, outcome) \<Rightarrow>
               (enter_query # result_lines result @ out, outcome)))"
  by pat_completeness auto
termination
proof (relation "measure (\<lambda>(f, qp, input). length input)", goal_cases)
  case (2 std_sort processor input x1 x2 eof rest result)
  then have "getline input = (x1, False, rest)" by simp
  from getline_shorter [OF this] show ?case by simp
qed simp

declare filesearchshell_loop.simps [simp del]

definition filesearchshell_main ::
  "(QueryResult list \<Rightarrow> QueryResult list) \<Rightarrow> (string \<Rightarrow> u8 list option) \<Rightarrow> string list \<Rightarrow> string
     \<Rightarrow> string list \<times> exit_code res" where
  "filesearchshell_main std_sort fs argv input =
     (if length argv < 2 then ([], Inr EXIT_FAILURE)
      else case new_QueryProcessor fs (tl argv) True of
        Inl e \<Rightarrow> ([], Inl e)
      | Inr processor \<Rightarrow>
          (case filesearchshell_loop std_sort processor input of (out, outcome) \<Rightarrow>
             (out, andThen outcome (\<lambda>_. Inr EXIT_SUCCESS))))"

text \<open>
  \<^verbatim>\<open>buildfileindex\<close>: \<open>open_index\<close> is the stream that \<^verbatim>\<open>fopen\<close> gives for the index file. The result has
  the contents of that file at the end, if it exists.
\<close>

definition buildfileindex_main ::
  "nat \<Rightarrow> nat \<Rightarrow> crawl_os \<Rightarrow> (string \<Rightarrow> stream option) \<Rightarrow> string list \<Rightarrow> mem
     \<Rightarrow> (exit_code \<times> string list \<times> u8 list option) res" where
  "buildfileindex_main n rfuel os open_index argv m =
     (if length argv \<noteq> 3 then Inr (EXIT_FAILURE, [], None)
      else
        let crawling = ''Crawling '' @ argv ! 1 @ ''...'' @ [newline_char];
            writing = ''Writing index to '' @ argv ! 2 @ ''...'' @ [newline_char] in
        andThen (CrawlFileTree n rfuel False os (argv ! 1) m) (\<lambda>(r, m).
          case r of
            None \<Rightarrow> Inr (EXIT_FAILURE, [crawling], None)
          | Some (dt, idx) \<Rightarrow>
              andThen (WriteIndex idx dt (open_index (argv ! 2)) m) (\<lambda>(idxlen, file, m).
                andThen (FreeDocTable dt) (\<lambda>_.
                  andThen (FreeMemIndex idx) (\<lambda>_.
                    if idxlen = 0 then Inr (EXIT_FAILURE, [crawling, writing], file)
                    else Inr (EXIT_SUCCESS,
                      [crawling, writing, ''Done. Cleaning up memory.'' @ [newline_char]], file))))))"

end
