(* ===== verification/IndexChecker.thy ===== *)
theory IndexChecker
  imports IndexReader FileParser SearchShell FileSearchShell
begin

text \<open>
  The checker of index files, \<^verbatim>\<open>hw3/hw3fsck\<close>. It reads the format a second time, prints a complaint for
  every field that is not as expected and goes on; a failed \<^verbatim>\<open>assert\<close> (here: a failed read) aborts. The
  state has the three global strings that say where the checker is and the pieces of text printed so
  far. Every function seeks before it reads, so the position in the file is a local value, as in
  \<open>IndexReader\<close>; the position that \<^verbatim>\<open>curbucket + j*4\<close> gives wraps at 32 bits. The results of the
  functions \<^verbatim>\<open>Check...\<close> are not used by their callers.
\<close>

section \<open>Complaints\<close>

record fsck =
  globals :: "string \<times> string \<times> string"
  printed :: "string list"

definition print_on :: "string \<Rightarrow> fsck \<Rightarrow> fsck" where
  "print_on s st = st\<lparr>printed := printed st @ [s]\<rparr>"

definition UpdateGlobals :: "string \<Rightarrow> string \<Rightarrow> string \<Rightarrow> fsck \<Rightarrow> fsck" where
  "UpdateGlobals s1 s2 s3 st = st\<lparr>globals := (s1, s2, s3)\<rparr>"

definition PrintContext :: "fsck \<Rightarrow> fsck" where
  "PrintContext st =
     (case globals st of (c1, c2, c3) \<Rightarrow>
        print_on (c1 @ c2 @ c3 @ (if c1 \<noteq> [] then [newline_char] else [])) st)"

text \<open>Numbers after \<^verbatim>\<open>cout << hex\<close>.\<close>

definition hex_char :: "nat \<Rightarrow> char" where
  "hex_char d = (if d < 10 then char_of (48 + d) else char_of (87 + d))"

fun hexadecimal :: "nat \<Rightarrow> string" where
  "hexadecimal n = (if n < 16 then [hex_char n] else hexadecimal (n div 16) @ [hex_char (n mod 16)])"

declare hexadecimal.simps [simp del]

definition mismatch :: "nat \<Rightarrow> nat \<Rightarrow> string \<Rightarrow> bool \<Rightarrow> string \<Rightarrow> fsck \<Rightarrow> fsck" where
  "mismatch expected actual fieldname swapped swap st =
     print_on (fieldname @ '': expected '' @ hexadecimal expected
         @ '', but actually is '' @ hexadecimal actual @ ''.''
         @ (if swapped then ''  Note: you likely forgot an endianness conversion, since ''
                              @ swap @ ''(actual) == expected.'' else [])
         @ [newline_char])
       (PrintContext st)"

definition Check16 :: "u16 \<Rightarrow> u16 \<Rightarrow> string \<Rightarrow> fsck \<Rightarrow> bool \<times> fsck" where
  "Check16 expected actual fieldname st =
     (if expected = actual then (True, st)
      else (False, mismatch (unat expected) (unat actual) fieldname (htons actual = expected) ''ntohs'' st))"

definition Check32 :: "u32 \<Rightarrow> u32 \<Rightarrow> string \<Rightarrow> fsck \<Rightarrow> bool \<times> fsck" where
  "Check32 expected actual fieldname st =
     (if expected = actual then (True, st)
      else (False, mismatch (unat expected) (unat actual) fieldname (htonl actual = expected) ''ntohl'' st))"

definition Check64 :: "u64 \<Rightarrow> u64 \<Rightarrow> string \<Rightarrow> fsck \<Rightarrow> bool \<times> fsck" where
  "Check64 expected actual fieldname st =
     (if expected = actual then (True, st)
      else (False, mismatch (unat expected) (unat actual) fieldname (ntohll actual = expected) ''ntohll'' st))"

definition not_less :: "nat \<Rightarrow> nat \<Rightarrow> string \<Rightarrow> string \<Rightarrow> fsck \<Rightarrow> fsck" where
  "not_less smaller bigger fieldname note st =
     print_on (fieldname @ '': expected '' @ hexadecimal smaller @ '' < '' @ hexadecimal bigger @ ''.''
         @ note @ [newline_char])
       (PrintContext st)"

definition CheckLT16 :: "u16 \<Rightarrow> u16 \<Rightarrow> string \<Rightarrow> fsck \<Rightarrow> bool \<times> fsck" where
  "CheckLT16 smaller bigger fieldname st =
     (if smaller < bigger then (True, st)
      else (False, not_less (unat smaller) (unat bigger) fieldname
        (if htons smaller = bigger
         then ''  Note: there is a chance that you forgot an endianness conversion, since ntohs(''
           @ hexadecimal (unat smaller) @ '') = '' @ hexadecimal (unat (htons smaller))
           @ '' < '' @ hexadecimal (unat bigger) @ ''.'' else []) st))"

definition CheckLT32 :: "u32 \<Rightarrow> u32 \<Rightarrow> string \<Rightarrow> fsck \<Rightarrow> bool \<times> fsck" where
  "CheckLT32 smaller bigger fieldname st =
     (if smaller < bigger then (True, st)
      else (False, not_less (unat smaller) (unat bigger) fieldname
        (if htonl smaller = bigger
         then ''  Note: it's possible that you forgot an endianness conversion, since ntohl(''
           @ hexadecimal (unat smaller) @ '') = '' @ hexadecimal (unat (htonl smaller))
           @ '' < '' @ hexadecimal (unat bigger) @ ''.'' else []) st))"

definition CheckLT64 :: "u64 \<Rightarrow> u64 \<Rightarrow> string \<Rightarrow> fsck \<Rightarrow> bool \<times> fsck" where
  "CheckLT64 smaller bigger fieldname st =
     (if smaller < bigger then (True, st)
      else (False, not_less (unat smaller) (unat bigger) fieldname
        (if ntohll smaller = bigger
         then ''  Note: it's possible that you forgot an endianness conversion, since ntohl(''
           @ hexadecimal (unat smaller) @ '') = '' @ hexadecimal (unat (ntohll smaller))
           @ '' < '' @ hexadecimal (unat bigger) @ ''.'' else []) st))"

section \<open>Hash tables\<close>

text \<open>
  \<^verbatim>\<open>CheckElement\<close> as it is called from \<^verbatim>\<open>Check\<close>: the number of buckets, the offset of the element and
  the number of its bucket.
\<close>

type_synonym check_element = "u32 \<Rightarrow> u32 \<Rightarrow> u32 \<Rightarrow> fsck \<Rightarrow> fsck res"

text \<open>The inner loop of \<^verbatim>\<open>Check\<close>, over the elements of bucket \<open>i\<close> with the numbers \<open>js\<close>.\<close>

primrec check_chain ::
  "check_element \<Rightarrow> u8 list \<Rightarrow> u32 \<Rightarrow> u32 \<Rightarrow> nat \<Rightarrow> u32 \<Rightarrow> nat list \<Rightarrow> fsck \<Rightarrow> fsck res" where
  "check_chain CheckElement f table_end nb i curbucket [] st = Inr st"
| "check_chain CheckElement f table_end nb i curbucket (j # js) st =
     (let st = UpdateGlobals ''[bucket_num,element_num]='' (''['' @ decimal i @ '','' @ decimal j @ '']'') [] st in
      fread_verified f (unat (curbucket + of_nat j * 4)) 4 (\<lambda>bs.
        let elementpos = htonl (of_le_bytes bs);
            st = snd (CheckLT32 elementpos (table_end + 1) ''element position < table end+1'' st) in
        andThen (CheckElement nb elementpos (of_nat i) st)
          (check_chain CheckElement f table_end nb i curbucket js)))"

text \<open>
  The loop over the buckets; \<open>prevbucket\<close> is \<open>None\<close> as long as no bucket with elements has been found.
  (\<^verbatim>\<open>prevchainlen\<close> is never used.)
\<close>

primrec check_buckets ::
  "check_element \<Rightarrow> u8 list \<Rightarrow> u32 \<Rightarrow> u32 \<Rightarrow> u32 \<Rightarrow> nat list \<Rightarrow> u32 option \<Rightarrow> fsck \<Rightarrow> fsck res" where
  "check_buckets CheckElement f offset table_end nb [] prevbucket st = Inr st"
| "check_buckets CheckElement f offset table_end nb (i # is) prevbucket st =
     (let st = UpdateGlobals ''bucket_rec['' (decimal i) '']'' st;
          pos = unat (offset + 4 + 8 * of_nat i) in
      fread_verified f pos 4 (\<lambda>bs. fread_verified f (pos + 4) 4 (\<lambda>bs'.
        let curchainlen = htonl (of_le_bytes bs); curbucket = htonl (of_le_bytes bs') in
        andThen
          (if 0 < curchainlen then
             (case prevbucket of
                Some prevbucket \<Rightarrow>
                  Inr (Some curbucket, snd (CheckLT32 prevbucket curbucket
                    ''bucket_rec[i].position < bucket_rec[i+1].position'' st))
              | None \<Rightarrow>
                  (let pos = unat (offset + 4) in
                   fread_verified f pos 4 (\<lambda>_. fread_verified f (pos + 4) 4 (\<lambda>bs.
                     let prevbucket = htonl (of_le_bytes bs) in
                     Inr (Some prevbucket, snd (Check32 (offset + 4 + 8 * nb) prevbucket
                       ''position of the first bucket (expected to be (table start) + (4) + (8*num_buckets))'' st))))))
           else Inr (prevbucket, st))
          (\<lambda>(prevbucket, st).
             let st = snd (CheckLT32 curbucket (table_end + 1) ''bucket position < table end+1'' st) in
             andThen (check_chain CheckElement f table_end nb i curbucket [0..<unat curchainlen] st)
               (check_buckets CheckElement f offset table_end nb is prevbucket)))))"

text \<open>\<^verbatim>\<open>Check\<close> is called with the offset and the length that the object holds already.\<close>

definition HashTableChecker_Check :: "check_element \<Rightarrow> u8 list \<Rightarrow> u32 \<Rightarrow> u32 \<Rightarrow> fsck \<Rightarrow> fsck res" where
  "HashTableChecker_Check CheckElement f offset len st =
     fread_verified f (unat offset) 4 (\<lambda>bs.
       let st = UpdateGlobals ''num_buckets'' [] [] st;
           nb = htonl (of_le_bytes bs);
           st = snd (CheckLT32 (nb * 8) len ''num_buckets < len(table)'' st) in
       check_buckets CheckElement f offset (offset + len) nb [0..<unat nb] None st)"

section \<open>The three kinds of elements\<close>

definition isascii :: "char \<Rightarrow> bool" where
  "isascii c \<longleftrightarrow> (of_char c :: nat) < 128"

definition islower :: "char \<Rightarrow> bool" where
  "islower c \<longleftrightarrow> (97 :: nat) \<le> of_char c \<and> (of_char c :: nat) \<le> 122"

text \<open>Reading \<open>n\<close> characters with one \<^verbatim>\<open>fread\<close>, which gives 0 for \<open>n = 0\<close>.\<close>

definition fread_chars :: "u8 list \<Rightarrow> nat \<Rightarrow> nat \<Rightarrow> (string \<Rightarrow> 'a res) \<Rightarrow> 'a res" where
  "fread_chars f pos n k =
     Verify333 (n \<noteq> 0) (fread_verified f pos n (\<lambda>bs. k (map (\<lambda>b. char_of (unat b)) bs)))"

definition bool16 :: "bool \<Rightarrow> u16" where
  "bool16 b = (if b then 1 else 0)"

primrec check_filename :: "nat \<Rightarrow> string \<Rightarrow> fsck \<Rightarrow> fsck" where
  "check_filename i [] st = st"
| "check_filename i (c # cs) st =
     check_filename (Suc i) cs
       (snd (Check16 1 (bool16 (isascii c)) (''[DocTable] isascii(filename)['' @ decimal i @ '']'') st))"

definition DocTableChecker_CheckElement :: "u8 list \<Rightarrow> check_element" where
  "DocTableChecker_CheckElement f nb element_offset bucket_number st =
     (let pos = unat element_offset in
      fread_verified f pos 8 (\<lambda>bs.
        let docID = ntohll (of_le_bytes bs) in
        if nb = 0 then Inl MemFault
        else
          let st = snd (Check32 bucket_number (ucast (docID mod ucast nb))
                    ''[DocTable] DocID % num_buckets_ == bucket_number'' st) in
          fread_verified f (pos + 8) 2 (\<lambda>bs.
            let fnlen = htons (of_le_bytes bs);
                st = snd (CheckLT16 fnlen 1024 ''[DocTable] filename length'' st) in
            fread_chars f (pos + 10) (unat fnlen) (\<lambda>filename. Inr (check_filename 0 filename st)))))"

primrec check_positions :: "nat \<Rightarrow> u8 list \<Rightarrow> nat \<Rightarrow> u32 option \<Rightarrow> fsck \<Rightarrow> fsck res" where
  "check_positions 0 f pos prevposn st = Inr st"
| "check_positions (Suc n) f pos prevposn st =
     fread_verified f pos 4 (\<lambda>bs.
       let curposn = htonl (of_le_bytes bs);
           st = (case prevposn of None \<Rightarrow> st
                 | Some prevposn \<Rightarrow> snd (CheckLT32 prevposn curposn ''word position[i] < word position[i+1]'' st)) in
       check_positions n f (pos + 4) (Some curposn) st)"

definition DocIDTableChecker_CheckElement :: "u8 list \<Rightarrow> check_element" where
  "DocIDTableChecker_CheckElement f nb element_offset bucket_number st =
     (let pos = unat element_offset in
      fread_verified f pos 8 (\<lambda>bs.
        let docid = ntohll (of_le_bytes bs) in
        if nb = 0 then Inl MemFault
        else
          let st = snd (Check64 (ucast bucket_number) (ucast (ucast (docid mod ucast nb) :: u32))
                    ''[DocID table] DocID % num_buckets == bucket_number'' st) in
          fread_verified f (pos + 8) 4 (\<lambda>bs.
            let numposn = htonl (of_le_bytes bs);
                st = snd (CheckLT32 numposn 1000000 ''[DocID table] num_positions'' st) in
            check_positions (unat numposn) f (pos + 12) None st)))"

primrec check_word :: "nat \<Rightarrow> string \<Rightarrow> fsck \<Rightarrow> fsck" where
  "check_word i [] st = st"
| "check_word i (c # cs) st =
     (let st = snd (Check16 1 (bool16 (isascii c)) (''[IndexTable] isascii(word)['' @ decimal i @ '']'') st) in
      check_word (Suc i) cs
        (if \<not> isalpha c then st
         else snd (Check16 1 (bool16 (islower c)) (''[IndexTable] islower(word)['' @ decimal i @ '']'') st)))"

text \<open>\<open>offset\<close> and \<open>len\<close> are those of the index table. The word stops at its first NUL when printed.\<close>

definition IndexTableChecker_CheckElement :: "u8 list \<Rightarrow> u32 \<Rightarrow> u32 \<Rightarrow> check_element" where
  "IndexTableChecker_CheckElement f offset len nb element_offset bucket_number st =
     (let st = UpdateGlobals ''bucket_rec['' (decimal (unat bucket_number)) '']'' st;
          pos = unat element_offset in
      fread_verified f pos 2 (\<lambda>bs.
        let wordlen = htons (of_le_bytes bs);
            st = snd (CheckLT16 wordlen 8192 ''[IndexTable] word length'' st) in
        fread_verified f (pos + 2) 4 (\<lambda>bs.
          let docidlen = htonl (of_le_bytes bs);
              st = snd (CheckLT32 (element_offset + 2 + 4 + ucast wordlen) (offset + len)
                    ''[IndexTable] element end < indextable end'' st) in
          fread_chars f (pos + 6) (unat wordlen) (\<lambda>wrd.
            let st = UpdateGlobals
                  (''DocIDtable for word '' @ takeWhile (\<lambda>c. c \<noteq> CHR 0x00) wrd @ '', embedded in bucket_rec['')
                  (decimal (unat bucket_number)) '']'' (check_word 0 wrd st) in
            HashTableChecker_Check (DocIDTableChecker_CheckElement f) f
              (element_offset + 2 + 4 + ucast wordlen) docidlen st))))"

section \<open>The file\<close>

text \<open>The checksum over the rest of the file, at most 512 bytes at a time.\<close>

function fsck_checksum :: "u8 list \<Rightarrow> nat \<Rightarrow> u32 \<Rightarrow> CRC32 \<Rightarrow> CRC32 res" where
  "fsck_checksum f pos left_to_read crcobj =
     (if 0 < left_to_read then
        let buf = take 512 (drop pos f) in
        if buf = [] then Inl VerificationFailure
        else andThen (FoldBytes buf crcobj)
          (fsck_checksum f (pos + length buf) (left_to_read - of_nat (length buf)))
      else Inr crcobj)"
  by pat_completeness auto
termination
  by (relation "measure (\<lambda>(f, pos, left, crc). length f - pos)") auto

declare fsck_checksum.simps [simp del]

definition line_of_text :: "string \<Rightarrow> fsck \<Rightarrow> fsck" where
  "line_of_text s st = print_on (s @ [newline_char]) st"

text \<open>The constructor of \<^verbatim>\<open>FileIndexChecker\<close>, which does all the work.\<close>

definition FileIndexChecker :: "(string \<Rightarrow> u8 list option) \<Rightarrow> string \<Rightarrow> fsck \<Rightarrow> fsck res" where
  "FileIndexChecker fs filename st =
     (let st = line_of_text (''hw3fsck'ing '' @ filename) st in
      case fs filename of
        None \<Rightarrow> Inl VerificationFailure
      | Some f \<Rightarrow>
          let st = line_of_text ''  checking the header...'' st;
              st = UpdateGlobals ''header'' [] [] st;
              st = line_of_text ''    checking the magic number...'' st;
              st = UpdateGlobals ''magic number'' [] [] st in
          fread_verified f 0 4 (\<lambda>bs.
            let st = snd (Check32 MAGIC_NUMBER (htonl (of_le_bytes bs)) ''magic number'' st) in
            fread_verified f 4 4 (\<lambda>bs. let checksum = htonl (of_le_bytes bs) in
            fread_verified f 8 4 (\<lambda>bs. let doctable_size = htonl (of_le_bytes bs) in
            fread_verified f 12 4 (\<lambda>bs. let index_size = htonl (of_le_bytes bs) in
              let st = line_of_text ''    checking file size against table offsets...'' st;
                  st_size = of_nat (length f) :: u32;
                  st = snd (Check32 (st_size - 16) (doctable_size + index_size) ''doctable_size + index_size'' st);
                  st = (if htonl doctable_size + htonl index_size = st_size - 16
                        then line_of_text (''Note: you likely forgot an endianness conversion, ''
                          @ ''since ntohl(doctable_size_) + ntohl(index_size_) == filesize - 16'') st
                        else st);
                  st = line_of_text ''    recalculating the checksum...'' st in
              andThen (fsck_checksum f 16 (st_size - 16) new_CRC32) (\<lambda>crcobj.
                let st = snd (Check32 (fst (GetFinalCRC crcobj)) checksum ''checksum'' st);
                    st = line_of_text ''  checking the doctable...'' st in
                andThen (HashTableChecker_Check (DocTableChecker_CheckElement f) f 16 doctable_size st) (\<lambda>st.
                  let st = line_of_text ''  checking the index table...'' st in
                  andThen (HashTableChecker_Check (IndexTableChecker_CheckElement f (16 + doctable_size) index_size) f
                             (16 + doctable_size) index_size st) (\<lambda>st.
                    Inr (line_of_text ''  done'' st)))))))))"

definition hw3fsck_main :: "(string \<Rightarrow> u8 list option) \<Rightarrow> string list \<Rightarrow> (exit_code \<times> string list) res" where
  "hw3fsck_main fs argv =
     (if length argv < 2 then Inr (EXIT_FAILURE, [])
      else andThen (FileIndexChecker fs (argv ! 1) \<lparr>globals = ([], [], []), printed = []\<rparr>) (\<lambda>st.
        Inr (EXIT_SUCCESS, printed st)))"

end
