(* ===== verification/IndexFormat.thy ===== *)
theory IndexFormat
  imports IndexWriter
begin

text \<open>
  The layout of an index file as a function of its contents, and the algebra of writing pieces of a
  file in any order: a piece is a finite map from positions to bytes.
\<close>

section \<open>The layout\<close>

type_synonym 'v encoder = "'v HTKeyValue \<Rightarrow> nat \<Rightarrow> u8 list"

definition be32 :: "nat \<Rightarrow> u8 list" where
  "be32 n = be_bytes 4 (of_nat n :: u32)"

lemma length_be32 [simp]: "length (be32 n) = 4"
  by (simp add: be32_def)

text \<open>The elements of a chain from an offset on: their positions and their bytes.\<close>

primrec enc_chain :: "'v encoder \<Rightarrow> nat \<Rightarrow> 'v HTKeyValue list \<Rightarrow> nat list \<times> u8 list" where
  "enc_chain enc off [] = ([], [])"
| "enc_chain enc off (kv # items) =
     (off # fst (enc_chain enc (off + length (enc kv off)) items),
      enc kv off @ snd (enc_chain enc (off + length (enc kv off)) items))"

definition enc_bucket :: "'v encoder \<Rightarrow> nat \<Rightarrow> 'v HTKeyValue list \<Rightarrow> u8 list" where
  "enc_bucket enc off items =
     (case enc_chain enc (off + 4 * length items) items of (ps, bs) \<Rightarrow> concat (map be32 ps) @ bs)"

text \<open>The bucket records (length and offset) and the buckets, from an offset on.\<close>

primrec enc_buckets :: "'v encoder \<Rightarrow> nat \<Rightarrow> 'v HTKeyValue list list \<Rightarrow> (nat \<times> nat) list \<times> u8 list" where
  "enc_buckets enc off [] = ([], [])"
| "enc_buckets enc off (c # cs) =
     ((length c, off) # fst (enc_buckets enc (off + length (enc_bucket enc off c)) cs),
      enc_bucket enc off c @ snd (enc_buckets enc (off + length (enc_bucket enc off c)) cs))"

definition enc_rec :: "nat \<times> nat \<Rightarrow> u8 list" where
  "enc_rec r = be32 (fst r) @ be32 (snd r)"

definition enc_table :: "'v encoder \<Rightarrow> nat \<Rightarrow> 'v HTKeyValue list list \<Rightarrow> u8 list" where
  "enc_table enc off cs =
     (case enc_buckets enc (off + 4 + 8 * length cs) cs of
        (rs, bs) \<Rightarrow> be32 (length cs) @ concat (map enc_rec rs) @ bs)"

definition chains_of :: "'v hash_table \<Rightarrow> 'v HTKeyValue list list" where
  "chains_of ht = map (items_of (kvs ht)) (buckets ht)"

text \<open>The three kinds of elements.\<close>

definition enc_docname :: "string encoder" where
  "enc_docname kv off =
     be_bytes 8 (kv_key kv) @ be_bytes 2 (of_nat (length (kv_value kv)) :: u16) @ bytes_of (kv_value kv)"

definition enc_positions :: "u32 cells encoder" where
  "enc_positions kv off =
     be_bytes 8 (kv_key kv) @ be32 (length (kv_value kv)) @ concat (map (be_bytes 4) (map snd (kv_value kv)))"

definition enc_word :: "(ptr \<rightharpoonup> WordDocSet) \<Rightarrow> ptr encoder" where
  "enc_word store kv off =
     (let wds = the (store (kv_value kv));
          tab = enc_table enc_positions (off + 6 + length (word wds)) (chains_of (docIDs wds))
      in be_bytes 2 (of_nat (length (word wds)) :: u16) @ be32 (length tab) @ bytes_of (word wds) @ tab)"

lemma length_enc_positions: "length (enc_positions kv off) = 12 + 4 * length (kv_value kv)"
proof -
  have "length (concat (map (be_bytes 4) ps)) = 4 * length ps" for ps :: "u32 list"
    by (induction ps) simp_all
  then show ?thesis by (simp add: enc_positions_def del: map_map)
qed

lemma length_enc_recs [simp]: "length (concat (map enc_rec rs)) = 8 * length rs"
  by (induction rs) (simp_all add: enc_rec_def)

lemma length_be32s [simp]: "length (concat (map be32 ps)) = 4 * length ps"
  by (induction ps) simp_all

lemma length_enc_chain [simp]: "length (fst (enc_chain enc off items)) = length items"
  by (induction items arbitrary: off) simp_all

lemma length_enc_buckets [simp]: "length (fst (enc_buckets enc off cs)) = length cs"
  by (induction cs arbitrary: off) simp_all

lemma enc_bucket_Nil [simp]: "enc_bucket enc off [] = []"
  by (simp add: enc_bucket_def)

lemma length_enc_bucket:
  "length (enc_bucket enc off items)
     = 4 * length items + length (snd (enc_chain enc (off + 4 * length items) items))"
  by (simp add: enc_bucket_def split: prod.splits) (metis length_be32s length_enc_chain fst_conv)

lemma length_enc_table:
  "length (enc_table enc off cs)
     = 4 + 8 * length cs + length (snd (enc_buckets enc (off + 4 + 8 * length cs) cs))"
  by (simp add: enc_table_def split: prod.splits) (metis length_enc_buckets fst_conv)

section \<open>Pieces of a file\<close>

definition chunk :: "nat \<Rightarrow> u8 list \<Rightarrow> nat \<rightharpoonup> u8" where
  "chunk off bs i = (if off \<le> i \<and> i < off + length bs then Some (bs ! (i - off)) else None)"

lemma chunk_Nil [simp]: "chunk off [] = Map.empty"
  by (simp add: chunk_def fun_eq_iff)

lemma chunk_append: "chunk off (a @ b) = chunk off a ++ chunk (off + length a) b"
  by (auto simp: chunk_def fun_eq_iff map_add_def nth_append)

lemma chunk_commute:
  "off + length a \<le> off' \<Longrightarrow> chunk off a ++ chunk off' b = chunk off' b ++ chunk off a"
  by (rule map_add_comm) (auto simp: chunk_def dom_def)

text \<open>\<open>P\<close> has been written, nothing else has changed, and the file ends at \<open>e\<close> at most.\<close>

definition wrote :: "(nat \<rightharpoonup> u8) \<Rightarrow> nat \<Rightarrow> stream \<Rightarrow> stream \<Rightarrow> bool" where
  "wrote P e s s' \<longleftrightarrow>
     io_fails s' = io_fails s \<and> io_count s \<le> io_count s' \<and> chunk 0 (file_bytes s) ++ P \<subseteq>\<^sub>m chunk 0 (file_bytes s') \<and>
     length (file_bytes s') \<le> max (length (file_bytes s)) e"

text \<open>No operation fails from now on.\<close>

definition sound :: "stream \<Rightarrow> bool" where
  "sound s \<longleftrightarrow> (\<forall>i \<ge> io_count s. \<not> io_fails s i)"

lemma wrote_sound: "wrote P e s s' \<Longrightarrow> sound s \<Longrightarrow> sound s'"
  by (simp add: wrote_def sound_def)

lemma wrote_refl [simp]: "wrote Map.empty e s s"
  by (simp add: wrote_def)

lemma map_add_mono: "A \<subseteq>\<^sub>m B \<Longrightarrow> A ++ Q \<subseteq>\<^sub>m B ++ Q"
  by (auto simp: map_le_def map_add_def dom_def split: option.splits)

lemma wrote_trans:
  assumes "wrote P e s s1" "wrote Q e' s1 s2"
  shows "wrote (P ++ Q) (max e e') s s2"
proof -
  have "(chunk 0 (file_bytes s) ++ P) ++ Q \<subseteq>\<^sub>m chunk 0 (file_bytes s1) ++ Q"
    using assms(1) by (intro map_add_mono) (simp add: wrote_def)
  also have "\<dots> \<subseteq>\<^sub>m chunk 0 (file_bytes s2)" using assms(2) by (simp add: wrote_def)
  finally show ?thesis using assms by (auto simp: wrote_def)
qed

lemma wrote_le: "wrote P e s s' \<Longrightarrow> e \<le> e' \<Longrightarrow> wrote P e' s s'"
  by (auto simp: wrote_def)

lemma wrote_join:
  assumes "wrote P e s s1" "wrote Q e' s1 s2" "e \<le> e'" "R = P ++ Q"
  shows "wrote R e' s s2"
  using wrote_trans [OF assms(1,2)] assms(3,4) by (simp add: max_absorb2)

lemma length_overwrite: "length (overwrite f p bs) = max (length f) (p + length bs)"
  by (auto simp: overwrite_def)

lemma nth_overwrite:
  assumes "i < length (overwrite f p bs)"
  shows "overwrite f p bs ! i =
     (if p \<le> i \<and> i < p + length bs then bs ! (i - p) else if i < length f then f ! i else 0)"
proof -
  define pre where "pre = take p (f @ replicate (p - length f) (0 :: u8))"
  have len: "length pre = p" by (simp add: pre_def)
  have pre: "pre ! i = (if i < length f then f ! i else 0)" if "i < p"
    using that by (auto simp: pre_def nth_append)
  have ov: "overwrite f p bs = pre @ bs @ drop (p + length bs) f" by (simp add: overwrite_def pre_def)
  consider "i < p" | "p \<le> i" "i < p + length bs" | "p + length bs \<le> i" by linarith
  then show ?thesis
  proof cases
    case 1
    then show ?thesis using len pre by (simp add: ov nth_append)
  next
    case 2
    then have "i - p < length bs" by linarith
    with 2 show ?thesis using len by (simp add: ov nth_append)
  next
    case 3
    then have "i < length f" "\<not> i - p < length bs" using assms by (auto simp: length_overwrite)
    then show ?thesis using 3 len by (simp add: ov nth_append)
  qed
qed

lemma overwrite_chunk: "chunk 0 f ++ chunk p bs \<subseteq>\<^sub>m chunk 0 (overwrite f p bs)"
  unfolding map_le_def
proof
  fix i assume "i \<in> dom (chunk 0 f ++ chunk p bs)"
  then have "i < length f \<or> p \<le> i \<and> i < p + length bs"
    by (auto simp: chunk_def split: if_splits)
  moreover from this have "i < length (overwrite f p bs)" by (auto simp: length_overwrite)
  ultimately show "(chunk 0 f ++ chunk p bs) i = chunk 0 (overwrite f p bs) i"
    by (auto simp: chunk_def map_add_def nth_overwrite)
qed

text \<open>Seeking and writing on a sound stream.\<close>

lemma fseek_sound: "sound s \<Longrightarrow> \<exists>s'. fseek off s = (True, s') \<and> wrote Map.empty e s s' \<and> file_pos s' = off"
  by (auto simp: fseek_def io_step_def sound_def wrote_def Let_def)

lemma fwrite_sound:
  assumes "sound s" "bs \<noteq> []" "file_pos s = off"
  shows "\<exists>s'. fwrite bs s = (True, s') \<and> wrote (chunk off bs) (off + length bs) s s' \<and>
     file_pos s' = off + length bs"
  using assms overwrite_chunk [of "file_bytes s" off bs]
  by (auto simp: fwrite_def io_step_def sound_def wrote_def Let_def length_overwrite)

lemma if_ok_seek_write:
  assumes "sound s" "bs \<noteq> []"
  obtains s' where "\<And>k. if_ok (fseek off s) m (\<lambda>s. if_ok (fwrite bs s) m k) = k s'"
    "wrote (chunk off bs) (off + length bs) s s'" "file_pos s' = off + length bs"
proof -
  obtain s1 where s1: "fseek off s = (True, s1)" "wrote Map.empty 0 s s1" "file_pos s1 = off"
    using fseek_sound [OF assms(1)] by blast
  obtain s2 where s2: "fwrite bs s1 = (True, s2)" "wrote (chunk off bs) (off + length bs) s1 s2"
    "file_pos s2 = off + length bs"
    using fwrite_sound [OF wrote_sound [OF s1(2) assms(1)] assms(2) s1(3)] by blast
  have "wrote (chunk off bs) (off + length bs) s s2"
    by (rule wrote_join [OF s1(2) s2(2)]) simp_all
  with that s1(1) s2(1,3) show thesis by (simp add: if_ok_def)
qed

lemma if_ok_write:
  assumes "sound s" "bs \<noteq> []" "file_pos s = off"
  obtains s' where "\<And>k. if_ok (fwrite bs s) m k = k s'"
    "wrote (chunk off bs) (off + length bs) s s'" "file_pos s' = off + length bs"
  using fwrite_sound [OF assms] that by (auto simp: if_ok_def)

end
