(* ===== verification/IndexWriterProps.thy ===== *)
theory IndexWriterProps
  imports IndexFormat
begin

text \<open>
  Writing a hash table with any function for its elements: the interface of an element writer as a
  locale, and the layout that \<^verbatim>\<open>WriteHashTable\<close> produces with it. The three element functions of
  the code are its interpretations; the one for words uses the result for the nested tables.
\<close>

section \<open>Tables of elements\<close>

locale element_writer =
  fixes fn :: "'v write_element_fn" and enc :: "'v encoder" and good :: "mem \<Rightarrow> 'v HTKeyValue \<Rightarrow> bool"
  assumes enc_nonempty: "enc kv off \<noteq> []"
    and good_later: "good m kv \<Longrightarrow> later m m' \<Longrightarrow> good m' kv"
    and fn_writes: "\<lbrakk>good m kv; sound s; reliable m; off + length (enc kv off) < 2 ^ 32\<rbrakk> \<Longrightarrow>
      \<exists>s' m'. fn kv (of_nat off) s m = Inr (of_nat (length (enc kv off)), s', m') \<and> later m m' \<and>
        wrote (chunk off (enc kv off)) (off + length (enc kv off)) s s'"
begin

text \<open>The loop over a chain: positions go to \<open>off + 4 * j\<close> on, elements to \<open>next\<close> on.\<close>

lemma WriteBucket_loop_layout:
  assumes "enc_chain enc nxt (items_of boxes li) = (ps, bs)"
    and "snd ` set li \<subseteq> dom boxes" "\<forall>kv \<in> set (items_of boxes li). good m kv"
    and "off + 4 * (j + length li) \<le> nxt" "nxt + length bs < 2 ^ 32" "sound s" "reliable m"
  shows "\<exists>s' m'. WriteBucket_loop fn boxes (of_nat off) li j bl (of_nat nxt) s m
       = Inr (bl + of_nat (length bs), s', m') \<and> later m m' \<and>
     wrote (chunk (off + 4 * j) (concat (map be32 ps)) ++ chunk nxt bs) (nxt + length bs) s s'"
  using assms
proof (induction li arbitrary: nxt j bl ps bs s m)
  case Nil
  then show ?case by auto
next
  case (Cons c li)
  obtain kv where kv: "boxes (snd c) = Some kv" using Cons.prems(2) by auto
  then have items: "items_of boxes (c # li) = kv # items_of boxes li" by simp
  let ?e = "enc kv nxt"
  obtain ps' bs' where r: "enc_chain enc (nxt + length ?e) (items_of boxes li) = (ps', bs')"
    by fastforce
  then have eq: "ps = nxt # ps'" "bs = ?e @ bs'" using Cons.prems(1) items by simp_all
  have u: "unat (of_nat off :: u32) = off"
    using Cons.prems(4,5) by (intro unat_of_nat_u32) simp
  have good: "good m kv" using Cons.prems(3) items by simp
  have p4: "le_bytes 4 (htonl (of_nat nxt)) = be32 nxt" by (simp add: htonl_bytes be32_def)
  have "be32 nxt \<noteq> []" by (metis length_be32 list.size(3) zero_neq_numeral)
  then obtain s1 where s1: "\<And>k. if_ok (fseek (off + j * 4) s) m (\<lambda>s. if_ok (fwrite (be32 nxt) s) m k) = k s1"
    "wrote (chunk (off + j * 4) (be32 nxt)) (off + j * 4 + length (be32 nxt)) s s1"
    using if_ok_seek_write [OF Cons.prems(6)] by metis
  have sd1: "sound s1" using s1(2) Cons.prems(6) by (rule wrote_sound)
  have room: "nxt + length ?e < 2 ^ 32" using Cons.prems(5) eq(2) by simp
  from fn_writes [OF good sd1 Cons.prems(7) room] obtain s2 m2 where
    f: "fn kv (of_nat nxt) s1 m = Inr (of_nat (length ?e), s2, m2)" "later m m2"
      "wrote (chunk nxt ?e) (nxt + length ?e) s1 s2" by blast
  have "0 < length ?e" using enc_nonempty by blast
  then have ne: "(of_nat (length ?e) :: u32) \<noteq> 0" using of_nat_u32_eq_0_iff [of "length ?e"] room by simp
  have good2: "\<forall>kv \<in> set (items_of boxes li). good m2 kv"
    using Cons.prems(3) items good_later [OF _ f(2)] by simp
  have "\<exists>s' m'. WriteBucket_loop fn boxes (of_nat off) li (Suc j) (bl + of_nat (length ?e))
       (of_nat (nxt + length ?e)) s2 m2 = Inr (bl + of_nat (length ?e) + of_nat (length bs'), s', m') \<and>
     later m2 m' \<and>
     wrote (chunk (off + 4 * Suc j) (concat (map be32 ps')) ++ chunk (nxt + length ?e) bs')
       (nxt + length ?e + length bs') s2 s'"
    by (rule Cons.IH [OF r _ good2])
      (use Cons.prems(2,4,5) eq(2) wrote_sound [OF f(3) sd1] later_reliable [OF f(2) Cons.prems(7)] in auto)
  then obtain s' m' where ih: "WriteBucket_loop fn boxes (of_nat off) li (Suc j) (bl + of_nat (length ?e))
       (of_nat (nxt + length ?e)) s2 m2 = Inr (bl + of_nat (length ?e) + of_nat (length bs'), s', m')"
    "later m2 m'"
    "wrote (chunk (off + 4 * Suc j) (concat (map be32 ps')) ++ chunk (nxt + length ?e) bs')
       (nxt + length ?e + length bs') s2 s'" by blast
  have "WriteBucket_loop fn boxes (of_nat off) (c # li) j bl (of_nat nxt) s m
      = Inr (bl + of_nat (length bs), s', m')"
    using kv s1(1) f(1) ne ih(1) by (simp add: u p4 eq(2) add.assoc)
  moreover have "later m m'" using f(2) ih(2) by (rule later_trans)
  moreover have "wrote (chunk (off + 4 * j) (concat (map be32 ps)) ++ chunk nxt bs) (nxt + length bs) s s'"
  proof -
    let ?P = "chunk (off + j * 4) (be32 nxt)" and ?E = "chunk nxt ?e"
    let ?P' = "chunk (off + 4 * Suc j) (concat (map be32 ps'))" and ?E' = "chunk (nxt + length ?e) bs'"
    have len: "length ps' = length li"
      using r length_enc_chain [of enc "nxt + length ?e" "items_of boxes li"] by simp
    have "?E ++ ?P' = ?P' ++ ?E"
      using Cons.prems(4) len by (intro chunk_commute [symmetric]) simp
    then have "?P ++ ?E ++ (?P' ++ ?E') = (?P ++ ?P') ++ (?E ++ ?E')"
      by (metis map_add_assoc)
    also have "?P ++ ?P' = chunk (off + 4 * j) (concat (map be32 ps))"
      by (simp add: eq(1) chunk_append ac_simps)
    also have "?E ++ ?E' = chunk nxt bs" by (simp add: eq(2) chunk_append)
    finally have all: "?P ++ ?E ++ (?P' ++ ?E') = chunk (off + 4 * j) (concat (map be32 ps)) ++ chunk nxt bs" .
    have "wrote (?P ++ ?E) (nxt + length ?e) s s2"
      by (rule wrote_join [OF s1(2) f(3) _ refl]) (use Cons.prems(4) in simp)
    from wrote_join [OF this ih(3) _ all [symmetric]] show ?thesis by (simp add: eq(2) add.assoc)
  qed
  ultimately show ?case by blast
qed

lemma WriteBucket_layout:
  assumes "snd ` set li \<subseteq> dom boxes" "\<forall>kv \<in> set (items_of boxes li). good m kv" "li \<noteq> []"
    and "off + length (enc_bucket enc off (items_of boxes li)) < 2 ^ 32" "sound s" "reliable m"
  shows "\<exists>s' m'. WriteBucket fn boxes li (of_nat off) s m
       = Inr (of_nat (length (enc_bucket enc off (items_of boxes li))), s', m') \<and> later m m' \<and>
     wrote (chunk off (enc_bucket enc off (items_of boxes li)))
       (off + length (enc_bucket enc off (items_of boxes li))) s s'"
proof -
  let ?items = "items_of boxes li" and ?n = "length li"
  obtain ps bs where e: "enc_chain enc (off + 4 * ?n) ?items = (ps, bs)" by fastforce
  have eb: "enc_bucket enc off ?items = concat (map be32 ps) @ bs" using e by (simp add: enc_bucket_def)
  have lps: "length ps = ?n" using e length_enc_chain [of enc "off + 4 * ?n" ?items] by simp
  have room: "off + 4 * ?n + length bs < 2 ^ 32" using assms(4) eb lps by simp
  then have n: "?n < 2 ^ 32" by simp
  have u: "unat (cl_count li) = ?n" using n by (simp add: cl_count_def unat_of_nat_u32)
  have pos: "0 < cl_count li" using cl_count_pos [OF n] assms(3) by simp
  let ?m = "m\<lparr>clock := Suc (clock m)\<rparr>"
  have it: "cl_make_iterator li 0 m = (Some (first_addr li NULL), ?m)"
    using assms(3,6) by (simp add: cl_make_iterator_def malloc_reliable)
  have "later m ?m" "reliable ?m" using assms(6) by simp_all
  then have good: "\<forall>kv \<in> set ?items. good ?m kv" using assms(2) good_later by blast
  from WriteBucket_loop_layout [OF e assms(1) good _ room assms(5) \<open>reliable ?m\<close>,
      of off 0 "4 * of_nat ?n"]
  obtain s' m' where l: "WriteBucket_loop fn boxes (of_nat off) li 0 (4 * of_nat ?n)
      (of_nat (off + 4 * ?n)) s ?m = Inr (4 * of_nat ?n + of_nat (length bs), s', m')" "later ?m m'"
    "wrote (chunk off (concat (map be32 ps)) ++ chunk (off + 4 * ?n) bs) (off + 4 * ?n + length bs) s s'"
    by auto
  have "WriteBucket fn boxes li (of_nat off) s m = Inr (of_nat (length (enc_bucket enc off ?items)), s', m')"
    using pos it l(1) u by (simp add: WriteBucket_def Let_def cl_count_def eb lps)
  moreover have "wrote (chunk off (enc_bucket enc off ?items)) (off + length (enc_bucket enc off ?items)) s s'"
    using l(3) by (simp add: eb lps chunk_append add.assoc)
  moreover have "later m m'" using \<open>later m ?m\<close> l(2) by (rule later_trans)
  ultimately show ?thesis by blast
qed

text \<open>One bucket: its record and, if it is not empty, the bucket itself.\<close>

lemma WriteBucketRecord_layout:
  assumes "sound s" "roff < 2 ^ 32" "length li < 2 ^ 32"
  shows "\<exists>s'. WriteBucketRecord li (of_nat roff) (of_nat boff) s m = Inr (8, s', m) \<and>
     wrote (chunk roff (enc_rec (length li, boff))) (roff + 8) s s'"
proof -
  have img: "bucket_rec_image (bucket_rec_toDiskFormat \<lparr>chain_len = cl_count li, bucket_position = of_nat boff\<rparr>)
      = enc_rec (length li, boff)"
    by (simp add: bucket_rec_disk enc_rec_def be32_def cl_count_def)
  have len: "length (enc_rec (length li, boff)) = 8" by (simp add: enc_rec_def)
  then have "enc_rec (length li, boff) \<noteq> []" by auto
  then obtain s' where
    "\<And>k. if_ok (fseek roff s) m (\<lambda>s. if_ok (fwrite (enc_rec (length li, boff)) s) m k) = k s'"
    "wrote (chunk roff (enc_rec (length li, boff))) (roff + 8) s s'"
    using if_ok_seek_write [OF assms(1), of "enc_rec (length li, boff)" roff m] unfolding len by metis
  then show ?thesis
    using unat_of_nat_u32 [OF assms(2)] by (simp add: WriteBucketRecord_def Let_def img)
qed

lemma length_enc_bucket_ge: "4 * length items \<le> length (enc_bucket enc off items)"
  by (simp add: length_enc_bucket)

lemma enc_bucket_nonempty: "items \<noteq> [] \<Longrightarrow> enc_bucket enc off items \<noteq> []"
  using length_enc_bucket_ge [of items off] by auto

lemma WriteHashTable_loop_layout:
  assumes "is = [i..<length (buckets ht)]" "i \<le> length (buckets ht)"
    and "enc_buckets enc boff (drop i (chains_of ht)) = (rs, bs)"
    and "snd ` set (concat (buckets ht)) \<subseteq> dom (kvs ht)"
    and "\<forall>kv \<in> set (ht_items ht). good m kv"
    and "roff + 8 * length is \<le> boff" "boff + length bs < 2 ^ 32" "sound s" "reliable m"
  shows "\<exists>s' m'. WriteHashTable_loop fn ht (of_nat off) is (of_nat roff) (of_nat boff) s m
       = Inr (of_nat (boff + length bs) - of_nat off, s', m') \<and> later m m' \<and>
     wrote (chunk roff (concat (map enc_rec rs)) ++ chunk boff bs) (boff + length bs) s s'"
  using assms
proof (induction "is" arbitrary: i roff boff rs bs s m)
  case Nil
  then have "length (buckets ht) \<le> i" by (metis le0 le_zero_eq upt_eq_Nil_conv)
  then have "drop i (chains_of ht) = []" by (simp add: chains_of_def)
  with Nil show ?case by auto
next
  case (Cons x "is")
  have i: "x = i" "i < length (buckets ht)" "is = [Suc i..<length (buckets ht)]"
    using Cons.prems(1) by (cases "i < length (buckets ht)"; simp add: upt_rec)+
  let ?li = "buckets ht ! i"
  let ?items = "items_of (kvs ht) ?li"
  let ?b = "enc_bucket enc boff ?items"
  have d: "drop i (chains_of ht) = ?items # drop (Suc i) (chains_of ht)"
    using Cons_nth_drop_Suc [of i "chains_of ht"] i(2) by (simp add: chains_of_def)
  obtain rs' bs' where r: "enc_buckets enc (boff + length ?b) (drop (Suc i) (chains_of ht)) = (rs', bs')"
    by fastforce
  then have eq: "rs = (length ?li, boff) # rs'" "bs = ?b @ bs'"
    using Cons.prems(3) d by simp_all
  have li: "?li \<in> set (buckets ht)" using i(2) by simp
  have sub: "snd ` set ?li \<subseteq> dom (kvs ht)" using Cons.prems(4) li by auto
  have mem: "set ?items \<subseteq> set (ht_items ht)" using li by (auto simp: ht_items_def items_of_def)
  have room: "boff + length ?b < 2 ^ 32" using Cons.prems(7) eq(2) by simp
  have "4 * length ?li \<le> length ?b" using length_enc_bucket_ge [of ?items boff] by simp
  then have n: "length ?li < 2 ^ 32" using room by simp
  have ro: "roff < 2 ^ 32" using Cons.prems(6,7) by simp
  obtain s1 where s1: "WriteBucketRecord ?li (of_nat roff) (of_nat boff) s m = Inr (8, s1, m)"
    "wrote (chunk roff (enc_rec (length ?li, boff))) (roff + 8) s s1"
    using WriteBucketRecord_layout [OF Cons.prems(8) ro n] by blast
  have sd1: "sound s1" using s1(2) Cons.prems(8) by (rule wrote_sound)
  obtain s2 m2 where b: "(if cl_count ?li = 0 then Inr (0, s1, m)
        else WriteBucket fn (kvs ht) ?li (of_nat boff) s1 m) = Inr (of_nat (length ?b), s2, m2)"
    "later m m2" "wrote (chunk boff ?b) (boff + length ?b) s1 s2"
  proof (cases "?li = []")
    case True
    then show thesis using that [of s1 m] by (simp add: cl_count_def)
  next
    case False
    have "\<forall>kv \<in> set ?items. good m kv" using Cons.prems(5) mem by blast
    from WriteBucket_layout [OF sub this False room sd1 Cons.prems(9)] that False n show thesis by auto
  qed
  have good2: "\<forall>kv \<in> set (ht_items ht). good m2 kv" using Cons.prems(5) good_later b(2) by blast
  have "\<exists>s' m'. WriteHashTable_loop fn ht (of_nat off) is (of_nat (roff + 8)) (of_nat (boff + length ?b)) s2 m2
       = Inr (of_nat (boff + length ?b + length bs') - of_nat off, s', m') \<and> later m2 m' \<and>
     wrote (chunk (roff + 8) (concat (map enc_rec rs')) ++ chunk (boff + length ?b) bs')
       (boff + length ?b + length bs') s2 s'"
    by (rule Cons.IH [OF i(3) _ r Cons.prems(4) good2])
      (use Cons.prems(6,7) eq(2) i(2) wrote_sound [OF b(3) sd1] later_reliable [OF b(2) Cons.prems(9)] in auto)
  then obtain s' m' where ih: "WriteHashTable_loop fn ht (of_nat off) is (of_nat (roff + 8))
       (of_nat (boff + length ?b)) s2 m2 = Inr (of_nat (boff + length ?b + length bs') - of_nat off, s', m')"
    "later m2 m'" "wrote (chunk (roff + 8) (concat (map enc_rec rs')) ++ chunk (boff + length ?b) bs')
       (boff + length ?b + length bs') s2 s'" by blast
  have lb: "of_nat (length ?b) \<noteq> (0 :: u32)" if "?li \<noteq> []"
  proof -
    have "?b \<noteq> []" using that by (intro enc_bucket_nonempty) (simp add: items_of_def)
    then show ?thesis using of_nat_u32_eq_0_iff [of "length ?b"] room by simp
  qed
  have len: "boff + length ?b + length bs' = boff + length bs" by (simp add: eq(2))
  have "WriteHashTable_loop fn ht (of_nat off) (x # is) (of_nat roff) (of_nat boff) s m
      = Inr (of_nat (boff + length bs) - of_nat off, s', m')"
  proof (cases "?li = []")
    case True
    then have "s2 = s1" "m2 = m" using b(1) by (simp_all add: cl_count_def)
    then show ?thesis using i(1,2) s1(1) ih(1) True by (simp add: bucket_at_def eq(2) cl_count_def Let_def)
  next
    case False
    then have "cl_count ?li \<noteq> 0" using n by simp
    then show ?thesis using i(1,2) s1(1) ih(1) [unfolded len] b(1) lb [OF False]
      by (simp add: bucket_at_def Let_def)
  qed
  moreover have "later m m'" using b(2) ih(2) by (rule later_trans)
  moreover have "wrote (chunk roff (concat (map enc_rec rs)) ++ chunk boff bs) (boff + length bs) s s'"
  proof -
    let ?R = "chunk roff (enc_rec (length ?li, boff))" and ?B = "chunk boff ?b"
    let ?R' = "chunk (roff + 8) (concat (map enc_rec rs'))" and ?B' = "chunk (boff + length ?b) bs'"
    have len: "length rs' = length is"
      using r length_enc_buckets [of enc "boff + length ?b" "drop (Suc i) (chains_of ht)"] i(3)
      by (simp add: chains_of_def)
    have er: "length (enc_rec (length ?li, boff)) = 8" by (simp add: enc_rec_def)
    have "?B ++ ?R' = ?R' ++ ?B"
      using Cons.prems(6) len by (intro chunk_commute [symmetric]) simp
    then have "?R ++ ?B ++ (?R' ++ ?B') = (?R ++ ?R') ++ (?B ++ ?B')"
      by (metis map_add_assoc)
    also have "?R ++ ?R' = chunk roff (concat (map enc_rec rs))"
      by (simp add: eq(1) chunk_append er)
    also have "?B ++ ?B' = chunk boff bs" by (simp add: eq(2) chunk_append)
    finally have all: "?R ++ ?B ++ (?R' ++ ?B') = chunk roff (concat (map enc_rec rs)) ++ chunk boff bs" .
    have "wrote (?R ++ ?B) (boff + length ?b) s s2"
      by (rule wrote_join [OF s1(2) b(3) _ refl]) (use Cons.prems(6) in simp)
    from wrote_join [OF this ih(3) _ all [symmetric]] show ?thesis by (simp add: eq(2) add.assoc)
  qed
  ultimately show ?case by blast
qed

lemma WriteHashTable_layout:
  assumes inv: "ht_inv ht m" and good: "\<forall>kv \<in> set (ht_items ht). good m kv"
    and room: "off + length (enc_table enc off (chains_of ht)) < 2 ^ 32" and s: "sound s" and rel: "reliable m"
  shows "\<exists>s' m'. WriteHashTable fn ht (of_nat off) s m
       = Inr (of_nat (length (enc_table enc off (chains_of ht))), s', m') \<and> later m m' \<and>
     wrote (chunk off (enc_table enc off (chains_of ht)))
       (off + length (enc_table enc off (chains_of ht))) s s'"
proof -
  let ?n = "length (buckets ht)"
  let ?boff = "off + 4 + 8 * ?n"
  obtain rs bs where e: "enc_buckets enc ?boff (chains_of ht) = (rs, bs)" by fastforce
  have n: "?n = unat (num_buckets ht)" "length (chains_of ht) = ?n"
    using inv by (simp_all add: ht_inv_def chains_of_def)
  have et: "enc_table enc off (chains_of ht) = be32 ?n @ concat (map enc_rec rs) @ bs"
    using e n(2) by (simp add: enc_table_def)
  have lrs: "length rs = ?n" using e length_enc_buckets [of enc ?boff "chains_of ht"] n(2) by simp
  have room': "?boff + length bs < 2 ^ 32" using room et lrs by simp
  have img: "BucketListHeader_image (BucketListHeader_toDiskFormat \<lparr>bl_num_buckets = num_buckets ht\<rparr>) = be32 ?n"
    by (simp add: BucketListHeader_disk be32_def n(1))
  have "be32 ?n \<noteq> []" by (metis length_be32 list.size(3) zero_neq_numeral)
  from if_ok_seek_write [OF s this, of off m] obtain s1 where
    s1: "\<And>k. if_ok (fseek off s) m (\<lambda>s. if_ok (fwrite (be32 ?n) s) m k) = k s1"
      "wrote (chunk off (be32 ?n)) (off + 4) s s1" by auto
  have dom: "snd ` set (concat (buckets ht)) \<subseteq> dom (kvs ht)" using inv by (simp add: ht_inv_def)
  have e0: "enc_buckets enc ?boff (drop 0 (chains_of ht)) = (rs, bs)" using e by simp
  have "off + 4 + 8 * length [0..<?n] \<le> ?boff" by simp
  from WriteHashTable_loop_layout [OF refl le0 e0 dom good this room' wrote_sound [OF s1(2) s] rel, of off]
  obtain s' m' where l: "WriteHashTable_loop fn ht (of_nat off) [0..<?n] (of_nat (off + 4)) (of_nat ?boff) s1 m
      = Inr (of_nat (?boff + length bs) - of_nat off, s', m')" "later m m'"
    "wrote (chunk (off + 4) (concat (map enc_rec rs)) ++ chunk ?boff bs) (?boff + length bs) s1 s'" by blast
  have uo: "unat (of_nat off :: u32) = off" using room by (intro unat_of_nat_u32) simp
  have nb: "num_buckets ht = of_nat ?n" by (simp add: n(1))
  then have nbs: "of_nat off + 4 + num_buckets ht * 8 = (of_nat ?boff :: u32)" by simp
  have "WriteHashTable fn ht (of_nat off) s m
      = WriteHashTable_loop fn ht (of_nat off) [0..<?n] (of_nat (off + 4)) (of_nat ?boff) s1 m"
    unfolding WriteHashTable_def Let_def uo img s1(1) by (simp add: nbs n(1))
  also have "\<dots> = Inr (of_nat (length (enc_table enc off (chains_of ht))), s', m')"
    unfolding l(1) by (simp add: et lrs)
  finally have "WriteHashTable fn ht (of_nat off) s m
      = Inr (of_nat (length (enc_table enc off (chains_of ht))), s', m')" .
  moreover have "wrote (chunk off (enc_table enc off (chains_of ht)))
      (off + length (enc_table enc off (chains_of ht))) s s'"
  proof -
    have len: "off + length (enc_table enc off (chains_of ht)) = ?boff + length bs"
      by (simp add: et lrs)
    have "chunk off (enc_table enc off (chains_of ht))
        = chunk off (be32 ?n) ++ (chunk (off + 4) (concat (map enc_rec rs)) ++ chunk ?boff bs)"
      by (simp only: et chunk_append length_be32 length_enc_recs lrs)
    from wrote_join [OF s1(2) l(3) _ this] show ?thesis unfolding len by simp
  qed
  ultimately show ?thesis using l(2) by blast
qed

end

end
