(* ===== verification/IndexWriterThms.thy ===== *)
theory IndexWriterThms
  imports IndexWriterProps
begin

text \<open>
  The element functions of the index writer are element writers, so the tables that use them have the
  layout of \<open>IndexFormat\<close>; and the file that \<^verbatim>\<open>WriteIndex\<close> leaves, byte for byte.
\<close>

section \<open>The element functions\<close>

lemma bytes_of_Nil_iff [simp]: "bytes_of s = [] \<longleftrightarrow> s = []"
  by (simp add: bytes_of_def)

lemma length_bytes_of [simp]: "length (bytes_of s) = length s"
  by (simp add: bytes_of_def)

lemma be_bytes_Nil_iff [simp]: "be_bytes n x = [] \<longleftrightarrow> n = 0"
  by (metis length_be_bytes length_0_conv)

lemma unat_of_nat_u16: "n < 2 ^ 16 \<Longrightarrow> unat (of_nat n :: u16) = n"
  by (simp add: unat_of_nat take_bit_nat_eq_self)

lemma ucast_of_nat_u16: "n < 2 ^ 16 \<Longrightarrow> ucast (of_nat n :: u16) = (of_nat n :: u32)"
  by (metis of_nat_unat unat_of_nat_u16)

text \<open>The lengths that the 16-bit fields can hold; no item of zero bytes can be written.\<close>

definition storable :: "string \<Rightarrow> bool" where
  "storable s \<longleftrightarrow> s \<noteq> [] \<and> length s < 2 ^ 16"

definition good_name :: "mem \<Rightarrow> string HTKeyValue \<Rightarrow> bool" where
  "good_name m kv \<longleftrightarrow> storable (kv_value kv)"

lemma if_ok_seek_write_of:
  assumes "sound s" "length bs = n" "0 < n"
  obtains s' where "\<And>k. if_ok (fseek off s) m (\<lambda>s. if_ok (fwrite bs s) m k) = k s'"
    "wrote (chunk off bs) (off + n) s s'" "file_pos s' = off + n"
proof -
  have "bs \<noteq> []" using assms(2,3) by auto
  from if_ok_seek_write [OF assms(1) this, of off m] show thesis using that unfolding assms(2) .
qed

lemma if_ok_write_on:
  assumes "wrote P e s0 s" "sound s0" "bs \<noteq> []" "file_pos s = off" "e \<le> off + length bs" "R = P ++ chunk off bs"
  obtains s' where "\<And>k. if_ok (fwrite bs s) m k = k s'" "wrote R (off + length bs) s0 s'"
    "file_pos s' = off + length bs"
proof -
  have "sound s" using assms(1,2) by (rule wrote_sound)
  then obtain s' where s': "\<And>k. if_ok (fwrite bs s) m k = k s'"
    "wrote (chunk off bs) (off + length bs) s s'" "file_pos s' = off + length bs"
    using if_ok_write [OF _ assms(3,4), of m] by blast
  from wrote_join [OF assms(1) s'(2) assms(5,6)] s'(1,3) show thesis using that by blast
qed

interpretation names: element_writer WriteDocidDocnameFn enc_docname good_name
proof
  show "enc_docname kv off \<noteq> []" for kv off
    by (simp add: enc_docname_def)
  show "good_name m kv \<Longrightarrow> later m m' \<Longrightarrow> good_name m' kv" for m m' kv
    by (simp add: good_name_def)
next
  fix m kv s off
  assume a: "good_name m kv" "sound s" "reliable m" "off + length (enc_docname kv off) < 2 ^ 32"
  let ?name = "kv_value kv"
  let ?h = "be_bytes 8 (kv_key kv) @ be_bytes 2 (of_nat (length ?name) :: u16)"
  have name: "bytes_of ?name \<noteq> []" "length ?name < 2 ^ 16" using a(1) by (simp_all add: good_name_def storable_def)
  have e: "enc_docname kv off = ?h @ bytes_of ?name" by (simp add: enc_docname_def)
  have u: "unat (of_nat off :: u32) = off" using a(4) by (intro unat_of_nat_u32) simp
  have len: "length ?h = 10" by simp
  obtain s1 where s1: "\<And>k. if_ok (fseek off s) m (\<lambda>s. if_ok (fwrite ?h s) m k) = k s1"
    "wrote (chunk off ?h) (off + 10) s s1" "file_pos s1 = off + 10"
    using if_ok_seek_write_of [OF a(2) len, of off m] by auto
  have c: "chunk off (enc_docname kv off) = chunk off ?h ++ chunk (off + 10) (bytes_of ?name)"
    unfolding e chunk_append [of off ?h] len ..
  obtain s2 where s2: "\<And>k. if_ok (fwrite (bytes_of ?name) s1) m k = k s2"
    "wrote (chunk off (enc_docname kv off)) (off + 10 + length (bytes_of ?name)) s s2"
    by (rule if_ok_write_on [OF s1(2) a(2) name(1) s1(3) _ c, where m = m]) auto
  have "WriteDocidDocnameFn kv (of_nat off) s m = Inr (10 + of_nat (length ?name), s2, m)"
    unfolding WriteDocidDocnameFn_def Let_def u doctable_element_header_disk doctable_element_header.simps
      s1(1) unat_of_nat_u16 [OF name(2)] ucast_of_nat_u16 [OF name(2)]
    using s2(1) by simp
  moreover have "length (enc_docname kv off) = 10 + length ?name" by (simp add: enc_docname_def)
  ultimately show "\<exists>s' m'. WriteDocidDocnameFn kv (of_nat off) s m
       = Inr (of_nat (length (enc_docname kv off)), s', m') \<and> later m m' \<and>
     wrote (chunk off (enc_docname kv off)) (off + length (enc_docname kv off)) s s'"
    using s2(2) by (auto simp: add.assoc)
qed

definition good_positions :: "mem \<Rightarrow> u32 cells HTKeyValue \<Rightarrow> bool" where
  "good_positions m kv \<longleftrightarrow> kv_value kv \<noteq> [] \<and> spare_frame m"

lemma payload_low: "ucast (ucast pos :: u64) = (pos :: u32)"
  by (rule bit_word_eqI) (simp add: bit_ucast_iff)

lemma store_payload_spare:
  "spare_frame m \<Longrightarrow> store_payload (frame_slack m) (ucast (pos :: u32)) k = k pos"
  by (simp add: store_payload_def spare_frame_def payload_low)

text \<open>Without unused bytes behind the local variable the first position is a fault.\<close>

lemma write_positions_overrun:
  "\<not> spare_frame m \<Longrightarrow> ps \<noteq> [] \<Longrightarrow> write_positions ps r s m = Inl MemFault"
  by (cases ps) (simp_all add: store_payload_def spare_frame_def)

lemma write_positions_layout:
  assumes "sound s" "file_pos s = off" and spare: "spare_frame m"
  shows "\<exists>s'. write_positions ps r s m = Inr (r, s', m) \<and>
    wrote (chunk off (concat (map (be_bytes 4) ps))) (off + 4 * length ps) s s'"
  using assms(1,2)
proof (induction ps arbitrary: s off)
  case (Cons p ps)
  have "be_bytes 4 p \<noteq> []" by (metis length_be_bytes list.size(3) zero_neq_numeral)
  from if_ok_write [OF Cons.prems(1) this Cons.prems(2)] obtain s1 where
    s1: "\<And>k. if_ok (fwrite (be_bytes 4 p) s) m k = k s1"
      "wrote (chunk off (be_bytes 4 p)) (off + 4) s s1" "file_pos s1 = off + 4"
    by (metis length_be_bytes)
  from Cons.IH [OF wrote_sound [OF s1(2) Cons.prems(1)] s1(3)] obtain s' where
    s': "write_positions ps r s1 m = Inr (r, s', m)"
      "wrote (chunk (off + 4) (concat (map (be_bytes 4) ps))) (off + 4 + 4 * length ps) s1 s'" by blast
  have "wrote (chunk off (concat (map (be_bytes 4) (p # ps)))) (off + 4 + 4 * length ps) s s'"
    by (rule wrote_join [OF s1(2) s'(2)]) (simp_all add: chunk_append)
  with s'(1) s1(1) show ?case
    by (simp add: docid_element_position_disk store_payload_spare [OF spare] add.assoc)
qed simp

interpretation positions: element_writer WriteDocPositionListFn enc_positions good_positions
proof
  show "enc_positions kv off \<noteq> []" for kv off
    using length_enc_positions [of kv off] by auto
  show "good_positions m kv \<Longrightarrow> later m m' \<Longrightarrow> good_positions m' kv" for m m' kv
    by (simp add: good_positions_def later_spare)
next
  fix m kv s off
  assume a: "good_positions m kv" "sound s" "reliable m" "off + length (enc_positions kv off) < 2 ^ 32"
  let ?ps = "map snd (kv_value kv)" and ?n = "length (kv_value kv)"
  let ?h = "be_bytes 8 (kv_key kv) @ be32 ?n"
  have n: "?n < 2 ^ 32" using a(4) by (simp add: length_enc_positions)
  have e: "enc_positions kv off = ?h @ concat (map (be_bytes 4) ?ps)" by (simp add: enc_positions_def)
  have u: "unat (of_nat off :: u32) = off" using a(4) by (intro unat_of_nat_u32) simp
  have len: "length ?h = 12" by simp
  obtain s1 where s1: "\<And>k. if_ok (fseek off s) m (\<lambda>s. if_ok (fwrite ?h s) m k) = k s1"
    "wrote (chunk off ?h) (off + 12) s s1" "file_pos s1 = off + 12"
    using if_ok_seek_write_of [OF a(2) len, of off m] by auto
  let ?m = "m\<lparr>clock := Suc (clock m)\<rparr>"
  have it: "cl_make_iterator (kv_value kv) 0 m = (Some (first_addr (kv_value kv) NULL), ?m)"
    using a(1,3) by (simp add: cl_make_iterator_def malloc_reliable good_positions_def)
  obtain s2 where s2: "write_positions ?ps (12 + of_nat ?n * 4) s1 ?m = Inr (12 + of_nat ?n * 4, s2, ?m)"
    "wrote (chunk (off + 12) (concat (map (be_bytes 4) ?ps))) (off + 12 + 4 * ?n) s1 s2"
    using write_positions_layout [OF wrote_sound [OF s1(2) a(2)] s1(3), of ?m] a(1)
    by (fastforce simp: good_positions_def)
  have h: "be_bytes 8 (kv_key kv) @ be_bytes 4 (cl_count (kv_value kv)) = ?h"
    by (simp add: be32_def cl_count_def)
  have "unat (cl_count (kv_value kv)) = ?n" using n by (simp add: cl_count_def unat_of_nat_u32)
  then have t: "take (unat (cl_count (kv_value kv))) ?ps = ?ps" by simp
  have "WriteDocPositionListFn kv (of_nat off) s m = Inr (12 + of_nat ?n * 4, s2, ?m)"
    unfolding WriteDocPositionListFn_def Let_def u docid_element_header_disk docid_element_header.simps
      h s1(1) it t using s2(1) by (simp add: cl_count_def)
  moreover have "wrote (chunk off (enc_positions kv off)) (off + 12 + 4 * ?n) s s2"
  proof (rule wrote_join [OF s1(2) s2(2)])
    show "chunk off (enc_positions kv off) = chunk off ?h ++ chunk (off + 12) (concat (map (be_bytes 4) ?ps))"
      unfolding e chunk_append [of off ?h] len ..
  qed simp
  ultimately show "\<exists>s' m'. WriteDocPositionListFn kv (of_nat off) s m
       = Inr (of_nat (length (enc_positions kv off)), s', m') \<and> later m m' \<and>
     wrote (chunk off (enc_positions kv off)) (off + length (enc_positions kv off)) s s'"
    by (intro exI [of _ s2] exI [of _ ?m]) (simp add: length_enc_positions add.assoc mult.commute)
qed

text \<open>
  The element of a word: the nested table is written first, behind the place of the header and the
  word. Its size, the word and its positions have to fit their fields.
\<close>

definition good_word :: "(ptr \<rightharpoonup> WordDocSet) \<Rightarrow> mem \<Rightarrow> ptr HTKeyValue \<Rightarrow> bool" where
  "good_word store m kv \<longleftrightarrow> kv_value kv \<noteq> NULL \<and>
     (case store (kv_value kv) of
        None \<Rightarrow> False
      | Some wds \<Rightarrow> storable (word wds) \<and> ht_inv (docIDs wds) m \<and>
          (\<forall>kv \<in> set (ht_items (docIDs wds)). kv_value kv \<noteq> []))"

lemma length_enc_word:
  "length (enc_word store kv off) = 6 + length (word (the (store (kv_value kv))))
     + length (enc_table enc_positions (off + 6 + length (word (the (store (kv_value kv)))))
                 (chains_of (docIDs (the (store (kv_value kv))))))"
  by (simp add: enc_word_def Let_def)

interpretation words: element_writer "WriteWordDocSetFn store" "enc_word store"
  "\<lambda>m kv. good_word store m kv \<and> spare_frame m" for store
proof
  show "enc_word store kv off \<noteq> []" for kv off
    by (simp add: enc_word_def Let_def)
  show "good_word store m kv \<and> spare_frame m \<Longrightarrow> later m m' \<Longrightarrow> good_word store m' kv \<and> spare_frame m'"
    for m m' kv
    by (auto simp: good_word_def ht_inv_later later_spare split: option.splits)
next
  fix m kv s off
  assume a: "good_word store m kv \<and> spare_frame m" "sound s" "reliable m" "off + length (enc_word store kv off) < 2 ^ 32"
  then obtain wds where nn: "(kv_value kv \<noteq> NULL) = True" and w: "store (kv_value kv) = Some wds"
    "storable (word wds)" "ht_inv (docIDs wds) m" "\<forall>kv \<in> set (ht_items (docIDs wds)). good_positions m kv"
    by (auto simp: good_word_def good_positions_def split: option.splits)
  let ?w = "word wds"
  let ?toff = "off + 6 + length ?w"
  let ?tab = "enc_table enc_positions ?toff (chains_of (docIDs wds))"
  have len: "length (enc_word store kv off) = 6 + length ?w + length ?tab"
    using w(1) by (simp add: length_enc_word)
  have wlen: "bytes_of ?w \<noteq> []" "length ?w < 2 ^ 16" using w(2) by (simp_all add: storable_def)
  have room: "?toff + length ?tab < 2 ^ 32" using a(4) len by simp
  obtain s1 m1 where t: "WriteHashTable WriteDocPositionListFn (docIDs wds) (of_nat ?toff) s m
      = Inr (of_nat (length ?tab), s1, m1)" "later m m1"
    "wrote (chunk ?toff ?tab) (?toff + length ?tab) s s1"
    using positions.WriteHashTable_layout [OF w(3,4) room a(2,3)] by blast
  let ?h = "be_bytes 2 (of_nat (length ?w) :: u16) @ be32 (length ?tab)"
  have lh: "length ?h = 6" by simp
  have sd1: "sound s1" using t(3) a(2) by (rule wrote_sound)
  have u: "unat (of_nat off :: u32) = off" using a(4) by (intro unat_of_nat_u32) simp
  obtain s2 where s2: "\<And>k. if_ok (fseek off s1) m1 (\<lambda>s. if_ok (fwrite ?h s) m1 k) = k s2"
    "wrote (chunk off ?h) (off + 6) s1 s2" "file_pos s2 = off + 6"
    using if_ok_seek_write_of [OF sd1 lh, of off m1] by auto
  have c: "chunk off (?h @ bytes_of ?w) = chunk off ?h ++ chunk (off + 6) (bytes_of ?w)"
    unfolding chunk_append [of off ?h] lh ..
  obtain s3 where s3: "\<And>k. if_ok (fwrite (bytes_of ?w) s2) m1 k = k s3"
    "wrote (chunk off (?h @ bytes_of ?w)) (off + 6 + length (bytes_of ?w)) s1 s3"
    by (rule if_ok_write_on [OF s2(2) sd1 wlen(1) s2(3) _ c, where m = m1]) auto
  have o: "of_nat off + 6 + ucast (of_nat (length ?w) :: u16) = (of_nat ?toff :: u32)"
    using ucast_of_nat_u16 [OF wlen(2)] by simp
  have h: "be_bytes 2 (of_nat (length ?w) :: u16) @ be_bytes 4 (of_nat (length ?tab) :: u32) = ?h"
    by (simp add: be32_def)
  have "WriteWordDocSetFn store kv (of_nat off) s m = Inr (of_nat (length (enc_word store kv off)), s3, m1)"
    unfolding WriteWordDocSetFn_def nn Verify333_simps load_Some [where m = store and p = "kv_value kv", OF w(1)] Let_def o t(1) andThen_simps prod.case u
      worddocset_header_disk worddocset_header.simps h s2(1) unat_of_nat_u16 [OF wlen(2)] len
    unfolding ucast_of_nat_u16 [OF wlen(2)] using s3(1) by simp
  moreover have "wrote (chunk off (enc_word store kv off)) (off + length (enc_word store kv off)) s s3"
  proof -
    have e: "enc_word store kv off = (?h @ bytes_of ?w) @ ?tab"
      using w(1) by (simp add: enc_word_def Let_def)
    have "length (?h @ bytes_of ?w) = 6 + length ?w" by simp
    then have "chunk off (enc_word store kv off) = chunk off (?h @ bytes_of ?w) ++ chunk ?toff ?tab"
      unfolding e chunk_append by (simp add: add.assoc)
    also have "\<dots> = chunk ?toff ?tab ++ chunk off (?h @ bytes_of ?w)"
      by (rule chunk_commute) simp
    finally show ?thesis
      using wrote_trans [OF t(3) s3(2)] by (simp add: len add.assoc max_absorb1)
  qed
  ultimately show "\<exists>s' m'. WriteWordDocSetFn store kv (of_nat off) s m
       = Inr (of_nat (length (enc_word store kv off)), s', m') \<and> later m m' \<and>
     wrote (chunk off (enc_word store kv off)) (off + length (enc_word store kv off)) s s'"
    using t(2) by blast
qed

section \<open>The file\<close>

lemma chunk_le:
  assumes "chunk off bs \<subseteq>\<^sub>m chunk 0 f" "bs \<noteq> []"
  shows "take (length bs) (drop off f) = bs" "off + length bs \<le> length f"
proof -
  have *: "off + i < length f \<and> f ! (off + i) = bs ! i" if "i < length bs" for i
  proof -
    have "off + i \<in> dom (chunk off bs)" using that by (simp add: chunk_def dom_def)
    then have "chunk 0 f (off + i) = chunk off bs (off + i)" using assms(1) by (simp add: map_le_def)
    then show ?thesis using that by (simp add: chunk_def split: if_splits)
  qed
  have "length bs - 1 < length bs" using assms(2) by simp
  from * [OF this] show "off + length bs \<le> length f" using assms(2) by (cases bs) auto
  with * show "take (length bs) (drop off f) = bs" by (intro nth_equalityI) auto
qed

lemma chunk_eq_drop:
  assumes "chunk off bs \<subseteq>\<^sub>m chunk 0 f" "bs \<noteq> []" "length f \<le> off + length bs"
  shows "drop off f = bs"
  using chunk_le [OF assms(1,2)] assms(3) by simp

lemma checksum_loop_reads:
  assumes "sound s" "file_pos s + n \<le> length (file_bytes s)" "\<not> finalized c"
  shows "\<exists>s'. checksum_loop n c s =
      Inr (Some (c\<lparr>crc_state := foldl crc_byte (crc_state c) (take n (drop (file_pos s) (file_bytes s)))\<rparr>), s') \<and>
    file_bytes s' = file_bytes s \<and> io_fails s' = io_fails s \<and> io_count s \<le> io_count s'"
  using assms
proof (induction n arbitrary: c s)
  case (Suc n)
  let ?s = "s\<lparr>io_count := Suc (io_count s), file_pos := Suc (file_pos s)\<rparr>"
  let ?b = "file_bytes s ! file_pos s"
  have lt: "file_pos s < length (file_bytes s)" using Suc.prems(2) by simp
  have d: "drop (file_pos s) (file_bytes s) = ?b # drop (Suc (file_pos s)) (file_bytes s)"
    by (rule Cons_nth_drop_Suc [OF lt, symmetric])
  have r: "fread (Suc 0) s = (Some [?b], ?s)"
    using Suc.prems(1) lt by (simp add: fread_def io_step_def sound_def Let_def d)
  have sd: "sound ?s" using Suc.prems(1) by (simp add: sound_def)
  have f: "FoldByteIntoCRC ?b c = Inr (c\<lparr>crc_state := crc_byte (crc_state c) ?b\<rparr>)"
    using FoldBytes_reference [of c "[?b]"] Suc.prems(3) by (simp add: andThen_Inr_iff)
  have "\<exists>s'. checksum_loop n (c\<lparr>crc_state := crc_byte (crc_state c) ?b\<rparr>) ?s =
      Inr (Some (c\<lparr>crc_state := foldl crc_byte (crc_byte (crc_state c) ?b)
                                  (take n (drop (file_pos ?s) (file_bytes ?s)))\<rparr>), s') \<and>
    file_bytes s' = file_bytes ?s \<and> io_fails s' = io_fails ?s \<and> io_count ?s \<le> io_count s'"
    using Suc.IH [of ?s "c\<lparr>crc_state := crc_byte (crc_state c) ?b\<rparr>"] Suc.prems(2,3) sd by simp
  then show ?case using Suc_leD by (auto simp: r f d)
qed auto

text \<open>The bytes of an index file.\<close>

definition doctable_bytes :: "doc_table \<Rightarrow> u8 list" where
  "doctable_bytes dt = enc_table enc_docname 16 (chains_of (docid_to_docname dt))"

definition memindex_bytes :: "mem_index \<Rightarrow> nat \<Rightarrow> u8 list" where
  "memindex_bytes mi off = enc_table (enc_word (wdss mi)) off (chains_of (index mi))"

definition index_file :: "mem_index \<Rightarrow> doc_table \<Rightarrow> u8 list" where
  "index_file mi dt =
     (let d = doctable_bytes dt; w = memindex_bytes mi (16 + length d) in
      be_bytes 4 MAGIC_NUMBER @ be_bytes 4 (crc32_reference (d @ w)) @
      be32 (length d) @ be32 (length w) @ d @ w)"

text \<open>What can be written: a well-formed index and document table with names and words that fit.\<close>

definition writable :: "mem_index \<Rightarrow> doc_table \<Rightarrow> mem \<Rightarrow> bool" where
  "writable mi dt m \<longleftrightarrow>
     ht_inv (docid_to_docname dt) m \<and> (\<forall>kv \<in> set (ht_items (docid_to_docname dt)). good_name m kv) \<and>
     ht_inv (index mi) m \<and> (\<forall>kv \<in> set (ht_items (index mi)). good_word (wdss mi) m kv) \<and>
     length (index_file mi dt) < 2 ^ 32"

lemma enc_table_nonempty [simp]: "enc_table enc off cs \<noteq> []"
  by (simp add: enc_table_def be32_def split: prod.splits)

lemma length_index_file:
  "length (index_file mi dt)
     = 16 + length (doctable_bytes dt) + length (memindex_bytes mi (16 + length (doctable_bytes dt)))"
  by (simp add: index_file_def Let_def)

lemma WriteHeader_layout:
  assumes d: "drop 16 (file_bytes s) = body" and len: "length (file_bytes s) = 16 + length body"
    and room: "length body < 2 ^ 32" "length body = a + b" and s: "sound s"
  shows "\<exists>s'. WriteHeader (of_nat a) (of_nat b) s m = Inr (16, s', m) \<and>
    file_bytes s' = be_bytes 4 MAGIC_NUMBER @ be_bytes 4 (crc32_reference body) @
      be32 a @ be32 b @ body"
proof -
  let ?h = "be_bytes 4 MAGIC_NUMBER @ be_bytes 4 (crc32_reference body) @ be32 a @ be32 b"
  let ?s1 = "s\<lparr>io_count := Suc (io_count s), file_pos := 16\<rparr>"
  have s1: "fseek 16 s = (True, ?s1)" "sound ?s1"
    using s by (simp_all add: fseek_def io_step_def sound_def Let_def)
  have n: "unat (of_nat a + of_nat b :: u32) = length body"
    using room unat_of_nat_u32 [of "a + b"] by simp
  obtain s2 where s2: "checksum_loop (length body) new_CRC32 ?s1
      = Inr (Some (new_CRC32\<lparr>crc_state := foldl crc_byte 0xFFFFFFFF body\<rparr>), s2)"
    "file_bytes s2 = file_bytes s" "sound s2"
  proof -
    have "take (length body) (drop (file_pos ?s1) (file_bytes ?s1)) = body" using d by simp
    moreover have "file_pos ?s1 + length body \<le> length (file_bytes ?s1)" using len by simp
    moreover have "\<not> finalized new_CRC32" "crc_state new_CRC32 = 0xFFFFFFFF" by (simp_all add: new_CRC32_def)
    moreover have "file_bytes ?s1 = file_bytes s" by simp
    ultimately obtain s' where "checksum_loop (length body) new_CRC32 ?s1
      = Inr (Some (new_CRC32\<lparr>crc_state := foldl crc_byte 0xFFFFFFFF body\<rparr>), s')"
      "file_bytes s' = file_bytes s" "io_fails s' = io_fails ?s1" "io_count ?s1 \<le> io_count s'"
      using checksum_loop_reads [OF s1(2)] by metis
    then show thesis using that s1(2) by (simp add: sound_def)
  qed
  let ?s3 = "s2\<lparr>io_count := Suc (io_count s2), file_pos := 0\<rparr>"
  have s3: "fseek 0 s2 = (True, ?s3)" using s2(3) by (simp add: fseek_def io_step_def sound_def Let_def)
  have lh: "length ?h = 16" by simp
  have crc: "fst (GetFinalCRC (new_CRC32\<lparr>crc_state := foldl crc_byte 0xFFFFFFFF body\<rparr>)) = crc32_reference body"
    by (simp add: GetFinalCRC_def new_CRC32_def crc32_reference_def)
  have h: "IndexFileHeader_image (IndexFileHeader_toDiskFormat
      \<lparr>magic_number = MAGIC_NUMBER, checksum = crc32_reference body,
       doctable_size = of_nat a, index_size = of_nat b\<rparr>) = ?h"
    by (simp add: IndexFileHeader_disk be32_def)
  define s4 where "s4 = ?s3\<lparr>io_count := Suc (io_count ?s3),
    file_bytes := overwrite (file_bytes s2) 0 ?h, file_pos := 16\<rparr>"
  have s4: "fwrite ?h ?s3 = (True, s4)"
    using s2(3) lh unfolding fwrite_def io_step_def sound_def s4_def by (simp add: Let_def)
  let ?s5 = "s4\<lparr>io_count := Suc (io_count s4)\<rparr>"
  have s5: "fsync s4 = (True, ?s5)"
    using s2(3) by (simp add: fsync_def io_step_def sound_def s4_def Let_def)
  have "WriteHeader (of_nat a) (of_nat b) s m = Inr (16, ?s5, m)"
    unfolding WriteHeader_def if_ok_def s1 prod.case n
    by (simp only: s2(1) andThen_simps prod.case option.case crc Let_def s3 if_True h s4 s5 Verify333_simps)
  moreover have "file_bytes ?s5 = ?h @ body"
    using d s2(2) lh by (simp add: s4_def overwrite_def)
  ultimately show ?thesis by auto
qed

lemma WriteIndex_layout:
  assumes "writable mi dt m" "reliable m" "sound s" "file_bytes s = []" "spare_frame m"
  shows "\<exists>m'. WriteIndex mi dt (Some s) m
    = Inr (of_nat (length (index_file mi dt)), Some (index_file mi dt), m') \<and> later m m'"
proof -
  let ?d = "doctable_bytes dt"
  let ?o = "16 + length ?d"
  let ?w = "memindex_bytes mi ?o"
  have room: "?o + length ?w < 2 ^ 32" using assms(1) by (simp add: writable_def length_index_file)
  have dnames: "ht_inv (docid_to_docname dt) m" "\<forall>kv \<in> set (ht_items (docid_to_docname dt)). good_name m kv"
    using assms(1) by (simp_all add: writable_def)
  have "16 + length (enc_table enc_docname 16 (chains_of (docid_to_docname dt))) < 2 ^ 32"
    using room by (simp add: doctable_bytes_def)
  from names.WriteHashTable_layout [OF dnames this assms(3,2)] obtain s1 m1 where
    w1: "WriteDocTable dt 16 s m = Inr (of_nat (length ?d), s1, m1)" "later m m1"
      "wrote (chunk 16 ?d) ?o s s1"
    by (auto simp: WriteDocTable_def DTGetDocidTable_def doctable_bytes_def)
  have sd1: "sound s1" using w1(3) assms(3) by (rule wrote_sound)
  have iwords: "ht_inv (index mi) m1"
    "\<forall>kv \<in> set (ht_items (index mi)). good_word (wdss mi) m1 kv \<and> spare_frame m1"
    using assms(1,5) w1(2) words.good_later [OF _ w1(2), of "wdss mi"]
    by (auto simp: writable_def intro: ht_inv_later)
  have "?o + length (enc_table (enc_word (wdss mi)) ?o (chains_of (index mi))) < 2 ^ 32"
    using room by (simp add: memindex_bytes_def)
  from words.WriteHashTable_layout [OF iwords this sd1 later_reliable [OF w1(2) assms(2)]] obtain s2 m2 where
    w2: "WriteMemIndex mi (16 + of_nat (length ?d)) s1 m1 = Inr (of_nat (length ?w), s2, m2)" "later m1 m2"
      "wrote (chunk ?o ?w) (?o + length ?w) s1 s2"
    by (auto simp: WriteMemIndex_def memindex_bytes_def)
  have sd2: "sound s2" using w2(3) sd1 by (rule wrote_sound)
  have "wrote (chunk 16 (?d @ ?w)) (?o + length ?w) s s2"
    by (rule wrote_join [OF w1(3) w2(3)]) (simp_all add: chunk_append)
  then have c: "chunk 16 (?d @ ?w) \<subseteq>\<^sub>m chunk 0 (file_bytes s2)" "length (file_bytes s2) \<le> 16 + length (?d @ ?w)"
    using assms(4) by (simp_all add: wrote_def)
  have ne: "?d @ ?w \<noteq> []" by (simp add: doctable_bytes_def)
  have b: "drop 16 (file_bytes s2) = ?d @ ?w" using c ne by (intro chunk_eq_drop)
  have l: "length (file_bytes s2) = 16 + length (?d @ ?w)" using c(2) chunk_le(2) [OF c(1) ne] by simp
  have r: "length (?d @ ?w) < 2 ^ 32" using room by simp
  obtain s3 where w3: "WriteHeader (of_nat (length ?d)) (of_nat (length ?w)) s2 m2 = Inr (16, s3, m2)"
    "file_bytes s3 = index_file mi dt"
    using WriteHeader_layout [OF b l r _ sd2, of "length ?d" "length ?w" m2]
    by (auto simp: index_file_def Let_def)
  have nz: "(of_nat (length ?d) :: u32) \<noteq> 0" "(of_nat (length ?w) :: u32) \<noteq> 0"
    using room of_nat_u32_eq_0_iff [of "length ?d"] of_nat_u32_eq_0_iff [of "length ?w"]
    by (simp_all add: doctable_bytes_def memindex_bytes_def)
  have "WriteIndex mi dt (Some s) m = Inr (of_nat (length ?d) + of_nat (length ?w) + 16, Some (index_file mi dt), m2)"
    using nz w1(1) w2(1) w3 by (simp add: WriteIndex_def)
  moreover have "of_nat (length ?d) + of_nat (length ?w) + 16 = (of_nat (length (index_file mi dt)) :: u32)"
    by (simp add: length_index_file)
  moreover have "later m m2" using w1(2) w2(2) by (rule later_trans)
  ultimately show ?thesis by auto
qed

end
