(* ===== verification/IndexReaderProps.thy ===== *)
theory IndexReaderProps
  imports IndexReader IndexWriterThms
begin

text \<open>
  The readers on a file that holds the layout of \<open>IndexFormat\<close>: what each of them finds there, in terms
  of the table that was written.
\<close>

section \<open>Pieces of the file\<close>

definition holds :: "u8 list \<Rightarrow> nat \<Rightarrow> u8 list \<Rightarrow> bool" where
  "holds f off bs \<longleftrightarrow> (\<exists>pre post. f = pre @ bs @ post \<and> length pre = off)"

lemma holds_append:
  assumes "holds f off (a @ b)"
  shows "holds f off a" "holds f (off + length a) b"
proof -
  from assms obtain pre post where f: "f = pre @ (a @ b) @ post" "length pre = off"
    by (auto simp: holds_def)
  then have "f = pre @ a @ (b @ post)" "f = (pre @ a) @ b @ post" "length (pre @ a) = off + length a"
    by simp_all
  with f(2) show "holds f off a" "holds f (off + length a) b" unfolding holds_def by blast+
qed

lemma holds_bound: "holds f off bs \<Longrightarrow> off + length bs \<le> length f"
  by (auto simp: holds_def)

lemma read_at_holds: "holds f off bs \<Longrightarrow> length bs = n \<Longrightarrow> read_at f off n = Some bs"
  by (auto simp: holds_def read_at_def)

lemma fread_verified_holds: "holds f off bs \<Longrightarrow> length bs = n \<Longrightarrow> fread_verified f off n k = k bs"
  by (simp add: fread_verified_def read_at_holds)

lemma fread_unchecked_holds: "holds f off bs \<Longrightarrow> length bs = n \<Longrightarrow> fread_unchecked f off n k = k bs"
  by (simp add: fread_unchecked_def read_at_holds)

lemma holds_concat_nth:
  assumes "\<And>x. length (g x) = n"
  shows "holds f off (concat (map g xs)) \<Longrightarrow> i < length xs \<Longrightarrow> holds f (off + n * i) (g (xs ! i))"
proof (induction xs arbitrary: off i)
  case (Cons x xs)
  then have h: "holds f off (g x)" "holds f (off + n) (concat (map g xs))"
    using holds_append [of f off "g x"] assms by simp_all
  show ?case
  proof (cases i)
    case (Suc j)
    then show ?thesis using Cons.IH [OF h(2), of j] Cons.prems(2) by (simp add: add.assoc)
  qed (simp add: h(1))
qed simp

lemma read_u32s_holds:
  "holds f pos (concat (map (be_bytes 4) xs)) \<Longrightarrow> read_u32s (length xs) f pos = Inr xs"
proof (induction xs arbitrary: pos)
  case (Cons x xs)
  then have h: "holds f pos (be_bytes 4 x)" "holds f (pos + 4) (concat (map (be_bytes 4) xs))"
    using holds_append [of f pos "be_bytes 4 x"] by simp_all
  then show ?case using Cons.IH [OF h(2)] by (simp add: fread_verified_holds [OF h(1)] of_be_bytes)
qed simp

lemma unat_of_char_u8: "unat (of_char c :: u8) = of_char c"
proof -
  have "(of_char c :: u8) = of_nat (of_char c)" by (simp only: of_nat_of_char)
  moreover have "(of_char c :: nat) < 256" by (rule nat_of_char_less_256)
  ultimately show ?thesis by (simp add: unat_of_nat take_bit_nat_eq_self del: of_nat_of_char)
qed

lemma read_chars_holds:
  "holds f pos (bytes_of s) \<Longrightarrow> read_chars (length s) f pos = Inr s"
proof (induction s arbitrary: pos)
  case (Cons c s)
  then have h: "holds f pos [of_char c]" "holds f (Suc pos) (bytes_of s)"
    using holds_append [of f pos "[of_char c]" "bytes_of s"] by (simp_all add: bytes_of_def)
  have "char_of (unat (of_char c :: u8)) = c"
    by (simp add: unat_of_char_u8)
  then show ?case using Cons.IH [OF h(2)] by (simp add: fread_verified_holds [OF h(1)])
qed simp

section \<open>The parts of a table\<close>

definition elements_at :: "u8 list \<Rightarrow> 'v encoder \<Rightarrow> nat list \<Rightarrow> 'v HTKeyValue list \<Rightarrow> bool" where
  "elements_at f enc ps items \<longleftrightarrow> list_all2 (\<lambda>p kv. holds f p (enc kv p)) ps items"

lemma holds_chain:
  "holds f off (snd (enc_chain enc off items)) \<Longrightarrow> elements_at f enc (fst (enc_chain enc off items)) items"
proof (induction items arbitrary: off)
  case (Cons kv items)
  then show ?case using holds_append [of f off "enc kv off"] by (simp add: elements_at_def)
qed (simp add: elements_at_def)

lemma holds_bucket:
  assumes "holds f off (enc_bucket enc off items)"
  obtains ps where "holds f off (concat (map be32 ps))" "elements_at f enc ps items" "length ps = length items"
proof -
  obtain ps bs where e: "enc_chain enc (off + 4 * length items) items = (ps, bs)" by fastforce
  have len: "length ps = length items" using e length_enc_chain [of enc _ items] by (metis fst_conv)
  have h: "holds f off (concat (map be32 ps) @ bs)" using assms e by (simp add: enc_bucket_def)
  have "holds f (off + 4 * length items) bs" using holds_append(2) [OF h] len by simp
  then have "elements_at f enc ps items" using holds_chain [of f "off + 4 * length items" enc items] e by simp
  with holds_append(1) [OF h] len show thesis using that by blast
qed

definition bucket_at_rec :: "u8 list \<Rightarrow> 'v encoder \<Rightarrow> nat \<times> nat \<Rightarrow> 'v HTKeyValue list \<Rightarrow> bool" where
  "bucket_at_rec f enc r c \<longleftrightarrow> fst r = length c \<and> holds f (snd r) (enc_bucket enc (snd r) c)"

lemma holds_buckets:
  "holds f off (snd (enc_buckets enc off cs)) \<Longrightarrow>
     list_all2 (bucket_at_rec f enc) (fst (enc_buckets enc off cs)) cs"
proof (induction cs arbitrary: off)
  case (Cons c cs)
  then show ?case using holds_append [of f off "enc_bucket enc off c"] by (simp add: bucket_at_rec_def)
qed simp

lemma holds_table:
  assumes "holds f off (enc_table enc off cs)"
  obtains rs where "holds f off (be32 (length cs))" "holds f (off + 4) (concat (map enc_rec rs))"
    "list_all2 (bucket_at_rec f enc) rs cs"
proof -
  let ?boff = "off + 4 + 8 * length cs"
  obtain rs bs where e: "enc_buckets enc ?boff cs = (rs, bs)" by fastforce
  have len: "length rs = length cs" using e length_enc_buckets [of enc _ cs] by (metis fst_conv)
  have h: "holds f off (be32 (length cs) @ concat (map enc_rec rs) @ bs)"
    using assms e by (simp add: enc_table_def)
  note h2 = holds_append(2) [OF h, unfolded length_be32]
  have "holds f ?boff bs" using holds_append(2) [OF h2] len by (simp add: add.assoc)
  then have "list_all2 (bucket_at_rec f enc) rs cs" using holds_buckets [of f ?boff enc cs] e by simp
  with holds_append(1) [OF h] holds_append(1) [OF h2] show thesis by (rule that)
qed

section \<open>Readers of a table\<close>

text \<open>A reader that stands on a table with these chains, in a file of less than 4 GB.\<close>

definition reads :: "HashTableReader \<Rightarrow> 'v encoder \<Rightarrow> 'v HTKeyValue list list \<Rightarrow> bool" where
  "reads r enc cs \<longleftrightarrow>
     cs \<noteq> [] \<and> length (htr_file r) < 2 ^ 32 \<and> bl_num_buckets (htr_header r) = of_nat (length cs) \<and>
     holds (htr_file r) (unat (htr_offset r)) (enc_table enc (unat (htr_offset r)) cs)"

lemma new_HashTableReader_reads:
  assumes "holds f off (enc_table enc off cs)" "length f < 2 ^ 32" "cs \<noteq> []"
  shows "\<exists>r. new_HashTableReader f (of_nat off) = Inr r \<and> htr_file r = f \<and> reads r enc cs"
proof -
  from assms(1) obtain rs where h: "holds f off (be32 (length cs))" by (rule holds_table)
  have u: "unat (of_nat off :: u32) = off"
    using holds_bound [OF assms(1)] assms(2) by (intro unat_of_nat_u32) linarith
  show ?thesis
    using assms by (auto simp: new_HashTableReader_def u fread_verified_holds [OF h] reads_def
        BucketListHeader_host [of "of_nat (length cs)", folded be32_def])
qed

lemma reads_size:
  assumes "reads r enc cs"
  shows "4 + 8 * length cs \<le> length (htr_file r)" "length cs < 2 ^ 32"
proof -
  have "length (enc_table enc (unat (htr_offset r)) cs) \<le> length (htr_file r)"
    using assms holds_bound by (fastforce simp: reads_def)
  then show "4 + 8 * length cs \<le> length (htr_file r)" by (simp add: length_enc_table)
  then show "length cs < 2 ^ 32" using assms by (simp add: reads_def)
qed

text \<open>The record of bucket \<open>i\<close> and what it leads to.\<close>

lemma reads_bucket:
  assumes "reads r enc cs" "i < length cs"
  obtains boff where
    "read_at (htr_file r) (unat (htr_offset r) + 4 + i * 8) 8
       = Some (be_bytes 4 (of_nat (length (cs ! i)) :: u32) @ be_bytes 4 (of_nat boff :: u32))"
    "holds (htr_file r) boff (enc_bucket enc boff (cs ! i))" "unat (of_nat boff :: u32) = boff"
    "unat (of_nat (length (cs ! i)) :: u32) = length (cs ! i)"
    "unat (htr_offset r) + 4 + i * 8 < 2 ^ 32"
proof -
  let ?f = "htr_file r" and ?off = "unat (htr_offset r)"
  have f: "length ?f < 2 ^ 32" and t: "holds ?f ?off (enc_table enc ?off cs)"
    using assms(1) by (simp_all add: reads_def)
  from t obtain rs where h: "holds ?f (?off + 4) (concat (map enc_rec rs))"
    "list_all2 (bucket_at_rec ?f enc) rs cs" by (rule holds_table)
  then have i: "i < length rs" using assms(2) by (simp add: list_all2_lengthD)
  obtain n boff where rec: "rs ! i = (n, boff)" by fastforce
  then have b: "n = length (cs ! i)" "holds ?f boff (enc_bucket enc boff (cs ! i))"
    using list_all2_nthD [OF h(2) i] by (simp_all add: bucket_at_rec_def)
  have "length (enc_rec x) = 8" for x by (simp add: enc_rec_def)
  from holds_concat_nth [where g = enc_rec, OF this h(1) i]
  have hr: "holds ?f (?off + 4 + i * 8) (be_bytes 4 (of_nat (length (cs ! i)) :: u32) @ be_bytes 4 (of_nat boff :: u32))"
    by (simp add: rec b(1) enc_rec_def be32_def mult.commute)
  have hb: "boff + length (enc_bucket enc boff (cs ! i)) \<le> length ?f" using b(2) by (rule holds_bound)
  then have "length (cs ! i) < 2 ^ 32" using f by (simp add: length_enc_bucket)
  moreover have "boff < 2 ^ 32" using hb f by linarith
  moreover have "?off + 4 + i * 8 < 2 ^ 32" using holds_bound [OF hr] f by simp
  ultimately show thesis
    by (intro that [OF read_at_holds [OF hr] b(2)]) (simp_all add: unat_of_nat_u32)
qed

lemma LookupElementPositions_reads:
  assumes "reads r enc cs"
  obtains ps where "LookupElementPositions r k = Inr (map of_nat ps)"
    "elements_at (htr_file r) enc ps (cs ! bucket_of (of_nat (length cs)) k)"
proof -
  let ?n = "of_nat (length cs) :: u32"
  let ?i = "bucket_of ?n k"
  have cs: "length cs < 2 ^ 32" "cs \<noteq> []" using reads_size [OF assms] assms by (simp_all add: reads_def)
  have n0: "?n \<noteq> 0" using of_nat_u32_eq_0_iff [OF cs(1)] cs(2) by simp
  have i: "?i < length cs" using n0 unat_of_nat_u32 [OF cs(1)] cs(2) by (simp add: bucket_of_def)
  have bn: "bl_num_buckets (htr_header r) = ?n" using assms by (simp add: reads_def)
  have ib: "unat (ucast (k mod ucast ?n) :: u32) = ?i"
    using unat_HashKeyToBucketNum [of "\<lparr>num_buckets = ?n, ht_num_elements = 0, buckets = [], kvs = Map.empty\<rparr>" k] n0
    by (simp add: HashKeyToBucketNum_def)
  obtain boff where b: "read_at (htr_file r) (unat (htr_offset r) + 4 + ?i * 8) 8
       = Some (be_bytes 4 (of_nat (length (cs ! ?i)) :: u32) @ be_bytes 4 (of_nat boff :: u32))"
    "holds (htr_file r) boff (enc_bucket enc boff (cs ! ?i))" "unat (of_nat boff :: u32) = boff"
    "unat (of_nat (length (cs ! ?i)) :: u32) = length (cs ! ?i)"
    "unat (htr_offset r) + 4 + ?i * 8 < 2 ^ 32"
    by (rule reads_bucket [OF assms i])
  have "htr_offset r + 4 + 8 * ucast (k mod ucast ?n) = of_nat (unat (htr_offset r) + 4 + ?i * 8)"
    by (simp flip: ib)
  then have u: "unat (htr_offset r + 4 + 8 * ucast (k mod ucast ?n)) = unat (htr_offset r) + 4 + ?i * 8"
    using unat_of_nat_u32 [OF b(5)] by simp
  obtain ps where p: "holds (htr_file r) boff (concat (map be32 ps))"
    "elements_at (htr_file r) enc ps (cs ! ?i)" "length ps = length (cs ! ?i)"
    using b(2) by (rule holds_bucket)
  have "be32 = be_bytes 4 \<circ> (of_nat :: nat \<Rightarrow> u32)" by (simp add: be32_def fun_eq_iff)
  then have rd: "read_u32s (length ps) (htr_file r) boff = Inr (map of_nat ps)"
    using read_u32s_holds [of "htr_file r" boff "map of_nat ps"] p(1) by simp
  have "LookupElementPositions r k = Inr (map of_nat ps)"
    unfolding LookupElementPositions_def Let_def bn u fread_verified_def b(1) option.case bucket_rec_host
    using n0 b(3,4) rd p(3) by (auto simp: unat_eq_zero [symmetric] simp del: unat_eq_zero)
  with p(2) show thesis using that by blast
qed

section \<open>Looking up\<close>

lemma elements_at_Cons:
  assumes "elements_at f enc ps (kv # items)"
  obtains p ps' where "ps = p # ps'" "holds f p (enc kv p)" "elements_at f enc ps' items"
  using assms by (cases ps) (auto simp: elements_at_def)

lemma holds_unat:
  assumes "holds f p bs" "length f < 2 ^ 32"
  shows "unat (of_nat p :: u32) = p"
  using holds_bound [OF assms(1)] assms(2) by (intro unat_of_nat_u32) linarith

lemma DocTable_LookupDocID_loop_finds:
  assumes "elements_at f enc_docname ps items" "\<forall>kv \<in> set items. storable (kv_value kv)" "length f < 2 ^ 32"
  shows "DocTable_LookupDocID_loop f k (map of_nat ps)
    = Inr (map_option kv_value (find (\<lambda>kv. kv_key kv = k) items))"
  using assms
proof (induction items arbitrary: ps)
  case Nil
  then show ?case by (simp add: elements_at_def)
next
  case (Cons kv items)
  from Cons.prems(1) obtain p ps' where p: "ps = p # ps'" "holds f p (enc_docname kv p)"
    "elements_at f enc_docname ps' items" by (rule elements_at_Cons)
  let ?h = "be_bytes 8 (kv_key kv) @ be_bytes 2 (of_nat (length (kv_value kv)) :: u16)"
  have h: "holds f p ?h" "holds f (p + 10) (bytes_of (kv_value kv))"
    using holds_append [of f p ?h "bytes_of (kv_value kv)"] p(2) by (simp_all add: enc_docname_def)
  have u: "unat (of_nat p :: u32) = p" by (rule holds_unat [OF p(2) Cons.prems(3)])
  have n: "unat (of_nat (length (kv_value kv)) :: u16) = length (kv_value kv)"
    using Cons.prems(2) by (intro unat_of_nat_u16) (simp add: storable_def)
  have ih: "DocTable_LookupDocID_loop f k (map of_nat ps')
    = Inr (map_option kv_value (find (\<lambda>kv. kv_key kv = k) items))"
    using Cons.IH [OF p(3)] Cons.prems(2,3) by simp
  have "length ?h = 10" by simp
  note rd = fread_unchecked_holds [OF h(1) this]
  show ?case
    unfolding p(1) list.map DocTable_LookupDocID_loop.simps u rd doctable_element_header_host Let_def
    using ih read_chars_holds [OF h(2)] by (simp add: n)
qed

lemma DocIDTable_LookupDocID_loop_finds:
  assumes "elements_at f enc_positions ps items" "length f < 2 ^ 32"
  shows "DocIDTable_LookupDocID_loop f k (map of_nat ps)
    = Inr (map_option (\<lambda>kv. map snd (kv_value kv)) (find (\<lambda>kv. kv_key kv = k) items))"
  using assms
proof (induction items arbitrary: ps)
  case Nil
  then show ?case by (simp add: elements_at_def)
next
  case (Cons kv items)
  from Cons.prems(1) obtain p ps' where p: "ps = p # ps'" "holds f p (enc_positions kv p)"
    "elements_at f enc_positions ps' items" by (rule elements_at_Cons)
  let ?h = "be_bytes 8 (kv_key kv) @ be_bytes 4 (of_nat (length (kv_value kv)) :: u32)"
  have h: "holds f p ?h" "holds f (p + 12) (concat (map (be_bytes 4) (map snd (kv_value kv))))"
    using holds_append [of f p ?h] p(2) by (simp_all add: enc_positions_def be32_def)
  have u: "unat (of_nat p :: u32) = p" by (rule holds_unat [OF p(2) Cons.prems(2)])
  have n: "unat (of_nat (length (kv_value kv)) :: u32) = length (map snd (kv_value kv))"
    using holds_bound [OF p(2)] Cons.prems(2) by (simp add: length_enc_positions unat_of_nat_u32)
  have ih: "DocIDTable_LookupDocID_loop f k (map of_nat ps')
    = Inr (map_option (\<lambda>kv. map snd (kv_value kv)) (find (\<lambda>kv. kv_key kv = k) items))"
    using Cons.IH [OF p(3)] Cons.prems(2) by simp
  have "length ?h = 12" by simp
  note rd = fread_unchecked_holds [OF h(1) this]
  show ?case
    unfolding p(1) list.map DocIDTable_LookupDocID_loop.simps u rd docid_element_header_host Let_def
      docid_element_header.simps n read_u32s_holds [OF h(2)]
    using ih by simp
qed

lemma LookupWord_loop_finds:
  assumes "elements_at f (enc_word store) ps items" "\<forall>kv \<in> set items. good_word store m kv" "length f < 2 ^ 32"
  shows "\<exists>r. LookupWord_loop f w (map of_nat ps) = Inr r \<and>
    (case find (\<lambda>kv. word (the (store (kv_value kv))) = w) items of
       None \<Rightarrow> r = None
     | Some kv \<Rightarrow> (\<exists>r'. r = Some r' \<and> htr_file r' = f \<and>
         reads r' enc_positions (chains_of (docIDs (the (store (kv_value kv)))))))"
  using assms
proof (induction items arbitrary: ps)
  case Nil
  then show ?case by (simp add: elements_at_def)
next
  case (Cons kv items)
  from Cons.prems(1) obtain p ps' where p: "ps = p # ps'" "holds f p (enc_word store kv p)"
    "elements_at f (enc_word store) ps' items" by (rule elements_at_Cons)
  have "good_word store m kv" using Cons.prems(2) by simp
  then obtain wds where w: "store (kv_value kv) = Some wds" "storable (word wds)" "ht_inv (docIDs wds) m"
    by (auto simp: good_word_def split: option.splits)
  let ?toff = "p + 6 + length (word wds)"
  let ?tab = "enc_table enc_positions ?toff (chains_of (docIDs wds))"
  let ?h = "be_bytes 2 (of_nat (length (word wds)) :: u16) @ be_bytes 4 (of_nat (length ?tab) :: u32)"
  have e: "enc_word store kv p = ?h @ bytes_of (word wds) @ ?tab"
    using w(1) by (simp add: enc_word_def Let_def be32_def)
  have lh: "length ?h = 6" by simp
  have h: "holds f p ?h" "holds f (p + 6) (bytes_of (word wds) @ ?tab)"
    using holds_append [of f p ?h] p(2) lh unfolding e by simp_all
  have h2: "holds f (p + 6) (bytes_of (word wds))" "holds f ?toff ?tab"
    using holds_append [OF h(2)] by simp_all
  have u: "unat (of_nat p :: u32) = p" by (rule holds_unat [OF p(2) Cons.prems(3)])
  have n: "length (word wds) < 2 ^ 16" using w(2) by (simp add: storable_def)
  have ih: "\<exists>r. LookupWord_loop f w (map of_nat ps') = Inr r \<and>
    (case find (\<lambda>kv. word (the (store (kv_value kv))) = w) items of
       None \<Rightarrow> r = None
     | Some kv \<Rightarrow> (\<exists>r'. r = Some r' \<and> htr_file r' = f \<and>
         reads r' enc_positions (chains_of (docIDs (the (store (kv_value kv)))))))"
    using Cons.IH [OF p(3)] Cons.prems(2,3) by simp
  have "chains_of (docIDs wds) \<noteq> []"
    using ht_invD(1,2) [OF w(3)] by (auto simp: chains_of_def unat_eq_zero)
  then obtain r' where r': "new_HashTableReader f (of_nat ?toff) = Inr r'" "htr_file r' = f"
    "reads r' enc_positions (chains_of (docIDs wds))"
    using new_HashTableReader_reads [OF h2(2) Cons.prems(3)] by blast
  have o: "of_nat p + 6 + ucast (of_nat (length (word wds)) :: u16) = (of_nat ?toff :: u32)"
    using ucast_of_nat_u16 [OF n] by simp
  have loop: "LookupWord_loop f w (map of_nat ps) =
      (if length (word wds) \<noteq> length w then LookupWord_loop f w (map of_nat ps')
       else if w = word wds then Inr (Some r')
       else LookupWord_loop f w (map of_nat ps'))"
    unfolding p(1) list.map LookupWord_loop.simps u fread_unchecked_holds [OF h(1) lh]
      worddocset_header_host Let_def worddocset_header.simps unat_of_nat_u16 [OF n] o
      read_chars_holds [OF h2(1)] r'(1) andThen_simps ..
  show ?case
  proof (cases "word wds = w")
    case True
    with loop w(1) r' show ?thesis by simp
  next
    case False
    with loop w(1) ih show ?thesis by auto
  qed
qed

section \<open>Tables as maps\<close>

lemma length_chains_of: "ht_inv ht m \<Longrightarrow> of_nat (length (chains_of ht)) = num_buckets ht"
  by (simp add: ht_inv_def chains_of_def)

lemma chains_of_nonempty: "ht_inv ht m \<Longrightarrow> chains_of ht \<noteq> []"
  by (auto simp: ht_inv_def chains_of_def unat_eq_zero)

lemma concat_chains_of: "concat (chains_of ht) = ht_items ht"
proof -
  have "concat (map (items_of boxes) bs) = items_of boxes (concat bs)" for boxes :: "ptr \<rightharpoonup> 'a HTKeyValue" and bs
    by (induction bs) simp_all
  then show ?thesis by (simp add: chains_of_def ht_items_def)
qed

lemma chain_finds:
  assumes "ht_inv ht m"
  shows "map_option kv_value (find (\<lambda>kv. kv_key kv = k) (chains_of ht ! bucket_of (num_buckets ht) k)) = ht_map ht k"
proof -
  obtain pre chain post where b: "buckets ht = pre @ chain # post" "length pre = bucket_of (num_buckets ht) k"
    using bucket_splitE [OF assms] by metis
  have c: "chains_of ht ! bucket_of (num_buckets ht) k = items_of (kvs ht) chain"
    by (simp add: chains_of_def b(1) nth_append flip: b(2))
  have sub: "set (items_of (kvs ht) chain) \<subseteq> set (ht_items ht)" by (auto simp: items_split [OF b(1)])
  show ?thesis
  proof (cases "find (\<lambda>kv. kv_key kv = k) (items_of (kvs ht) chain)")
    case None
    then have "ht_map ht k \<noteq> Some v" for v
      using key_in_bucket [OF assms b] by (auto simp: ht_map_Some_iff [OF assms] find_None_iff)
    then have "ht_map ht k = None" by (metis option.exhaust)
    with None show ?thesis by (simp add: c)
  next
    case (Some kv)
    then have "kv \<in> set (items_of (kvs ht) chain)" "kv_key kv = k" by (auto simp: find_Some_iff)
    with sub have "ht_map ht k = Some (kv_value kv)" by (auto simp: ht_map_Some_iff [OF assms])
    with Some show ?thesis by (simp add: c)
  qed
qed

lemma chain_items:
  assumes "ht_inv ht m" "kv \<in> set (chains_of ht ! bucket_of (num_buckets ht) k)"
  shows "kv \<in> set (ht_items ht)"
proof -
  have "bucket_of (num_buckets ht) k < length (chains_of ht)"
    using ht_invD(1,2) [OF assms(1)] by (simp add: chains_of_def bucket_of_less)
  with assms(2) show ?thesis by (auto simp flip: concat_chains_of)
qed

text \<open>What the readers find is what the tables hold.\<close>

lemma DocTableReader_LookupDocID_ok:
  assumes "reads r enc_docname (chains_of ht)" "ht_inv ht m" "\<forall>kv \<in> set (ht_items ht). good_name m kv"
  shows "DocTableReader_LookupDocID r k = Inr (ht_map ht k)"
proof -
  obtain ps where ps: "LookupElementPositions r k = Inr (map of_nat ps)"
    "elements_at (htr_file r) enc_docname ps (chains_of ht ! bucket_of (of_nat (length (chains_of ht))) k)"
    by (rule LookupElementPositions_reads [OF assms(1)])
  have "\<forall>kv \<in> set (chains_of ht ! bucket_of (num_buckets ht) k). storable (kv_value kv)"
    using assms(3) chain_items [OF assms(2)] by (auto simp: good_name_def)
  with ps show ?thesis
    using DocTable_LookupDocID_loop_finds [of "htr_file r" ps] assms(1) chain_finds [OF assms(2)]
    by (simp add: DocTableReader_LookupDocID_def length_chains_of [OF assms(2)] reads_def)
qed

lemma DocIDTableReader_LookupDocID_ok:
  assumes "reads r enc_positions (chains_of ht)" "ht_inv ht m"
  shows "DocIDTableReader_LookupDocID r k = Inr (map_option (map snd) (ht_map ht k))"
proof -
  obtain ps where ps: "LookupElementPositions r k = Inr (map of_nat ps)"
    "elements_at (htr_file r) enc_positions ps (chains_of ht ! bucket_of (of_nat (length (chains_of ht))) k)"
    by (rule LookupElementPositions_reads [OF assms(1)])
  have "map_option (\<lambda>kv. map snd (kv_value kv)) x = map_option (map snd) (map_option kv_value x)"
    for x :: "u32 cells HTKeyValue option" by (cases x) simp_all
  with ps show ?thesis
    using DocIDTable_LookupDocID_loop_finds [of "htr_file r" ps] assms(1) chain_finds [OF assms(2), of k]
    by (simp add: DocIDTableReader_LookupDocID_def length_chains_of [OF assms(2)] reads_def del: option.map_comp)
qed

section \<open>All documents of a word\<close>

definition docid_entry :: "u32 cells HTKeyValue \<Rightarrow> docid_element_header" where
  "docid_entry kv = \<lparr>del_docid = kv_key kv, num_positions = of_nat (length (kv_value kv))\<rparr>"

lemma GetDocIDList_chain_reads:
  assumes "holds f boff (concat (map be32 ps))" "elements_at f enc_positions ps items" "length f < 2 ^ 32"
  shows "set js \<subseteq> {..<length items} \<Longrightarrow>
    GetDocIDList_chain f (of_nat boff) js = Inr (map (\<lambda>j. docid_entry (items ! j)) js)"
proof (induction js)
  case (Cons j js)
  have len: "length ps = length items" using assms(2) by (simp add: elements_at_def list_all2_lengthD)
  have j: "j < length ps" using Cons.prems len by simp
  have hp: "holds f (ps ! j) (enc_positions (items ! j) (ps ! j))"
    using list_all2_nthD [OF assms(2) [unfolded elements_at_def] j] .
  have he: "holds f (boff + j * 4) (be_bytes 4 (of_nat (ps ! j) :: u32))"
    using holds_concat_nth [of be32 4 f boff ps j] assms(1) j by (simp add: mult.commute be32_def)
  have u: "unat (of_nat (ps ! j) :: u32) = ps ! j" by (rule holds_unat [OF hp assms(3)])
  have "boff + j * 4 < 2 ^ 32" using holds_bound [OF he] assms(3) by simp
  then have ub: "unat (of_nat boff :: u32) = boff" by (intro unat_of_nat_u32) linarith
  let ?h = "be_bytes 8 (kv_key (items ! j)) @ be_bytes 4 (of_nat (length (kv_value (items ! j))) :: u32)"
  have h: "holds f (ps ! j) ?h"
    using holds_append(1) [of f "ps ! j" ?h] hp by (simp add: enc_positions_def be32_def)
  have "length ?h = 12" by simp
  note rd = fread_verified_holds [OF h this]
  have rd4: "fread_verified f (boff + j * 4) 4 k = k (be_bytes 4 (of_nat (ps ! j) :: u32))"
    for k :: "u8 list \<Rightarrow> docid_element_header list res"
    by (rule fread_verified_holds [OF he]) simp
  show ?case
    unfolding GetDocIDList_chain.simps ub rd4 element_position_rec_host Let_def element_position_rec.simps u rd
      docid_element_header_host
    using Cons by (simp add: docid_entry_def)
qed simp

lemma GetDocIDList_loop_reads:
  assumes "reads r enc_positions cs"
  shows "set is \<subseteq> {..<length cs} \<Longrightarrow>
    GetDocIDList_loop r is = Inr (map docid_entry (concat (map (nth cs) is)))"
proof (induction "is")
  case (Cons i "is")
  then have "i < length cs" by simp
  from reads_bucket [OF assms this] obtain boff where b:
    "read_at (htr_file r) (unat (htr_offset r) + 4 + i * 8) 8
       = Some (be_bytes 4 (of_nat (length (cs ! i)) :: u32) @ be_bytes 4 (of_nat boff :: u32))"
    "holds (htr_file r) boff (enc_bucket enc_positions boff (cs ! i))"
    "unat (of_nat (length (cs ! i)) :: u32) = length (cs ! i)" by blast
  from b(2) obtain ps where ps: "holds (htr_file r) boff (concat (map be32 ps))"
    "elements_at (htr_file r) enc_positions ps (cs ! i)" by (rule holds_bucket)
  have f: "length (htr_file r) < 2 ^ 32" using assms by (simp add: reads_def)
  have "map (\<lambda>j. docid_entry (cs ! i ! j)) [0..<length (cs ! i)] = map docid_entry (cs ! i)"
    by (rule nth_equalityI) simp_all
  then have c: "GetDocIDList_chain (htr_file r) (of_nat boff) [0..<length (cs ! i)] = Inr (map docid_entry (cs ! i))"
    using GetDocIDList_chain_reads [OF ps f, of "[0..<length (cs ! i)]"] by (simp add: atLeast0LessThan)
  show ?case
    unfolding GetDocIDList_loop.simps fread_verified_def b(1) option.case bucket_rec_host Let_def bucket_rec.simps b(3) c
    using Cons by simp
qed simp

lemma GetDocIDList_ok:
  assumes "reads r enc_positions (chains_of ht)"
  shows "GetDocIDList r = Inr (map docid_entry (ht_items ht))"
proof -
  have n: "unat (bl_num_buckets (htr_header r)) = length (chains_of ht)"
    using reads_size(2) [OF assms] assms unat_of_nat_u32 by (simp add: reads_def)
  have "GetDocIDList r = Inr (map docid_entry (concat (map (nth (chains_of ht)) [0..<length (chains_of ht)])))"
    unfolding GetDocIDList_def n by (rule GetDocIDList_loop_reads [OF assms]) auto
  then show ?thesis by (simp only: map_nth concat_chains_of)
qed

end
