(* ===== verification/IndexCheckerProps.thy ===== *)
theory IndexCheckerProps
  imports IndexChecker IndexReaderProps
begin

text \<open>
  The checker on a file that holds the layout of \<open>IndexFormat\<close>: it complains exactly when an element
  breaks one of its limits.
\<close>

section \<open>What a run of the checker prints\<close>

text \<open>A run from \<open>st\<close> ends normally, and it adds nothing to the output exactly if \<open>ok\<close>.\<close>

definition checked :: "bool \<Rightarrow> fsck \<Rightarrow> fsck res \<Rightarrow> bool" where
  "checked ok st r \<longleftrightarrow>
     (\<exists>st' ws. r = Inr st' \<and> printed st' = printed st @ ws \<and> (ws = [] \<longleftrightarrow> ok))"

named_theorems check_rules

lemma checked_Inr [check_rules]: "checked True st (Inr st)"
  by (simp add: checked_def)

lemma checked_trans:
  assumes "checked P st (Inr st1)" "checked Q st1 r"
  shows "checked (P \<and> Q) st r"
  using assms by (auto simp: checked_def)

lemma checked_andThen:
  assumes "checked P st r" "\<And>st'. checked Q st' (k st')"
  shows "checked (P \<and> Q) st (andThen r k)"
proof -
  obtain st' where "r = Inr st'" using assms(1) by (auto simp: checked_def)
  with assms(1) assms(2) [of st'] show ?thesis by (auto intro: checked_trans)
qed

lemma checked_cong: "checked P st r \<Longrightarrow> P = Q \<Longrightarrow> checked Q st r"
  by simp

lemma checked_UpdateGlobals [check_rules]:
  "checked P st (Inr s) \<Longrightarrow> checked P st (Inr (UpdateGlobals a b c s))"
  by (auto simp: checked_def UpdateGlobals_def)

lemma printed_complaint:
  "printed (mismatch a b n sw t s) \<noteq> printed s \<and> (\<exists>ws. printed (mismatch a b n sw t s) = printed s @ ws)"
  "printed (not_less a b n t s) \<noteq> printed s \<and> (\<exists>ws. printed (not_less a b n t s) = printed s @ ws)"
  by (simp_all add: mismatch_def not_less_def PrintContext_def print_on_def split: prod.splits)

lemma checked_if:
  assumes "checked P st (Inr s)" "\<exists>ws. printed s' = printed s @ ws" "printed s' \<noteq> printed s"
  shows "checked (P \<and> b) st (Inr (snd (if b then (True, s) else (False, s'))))"
  using assms by (auto simp: checked_def)

lemma checked_Check [check_rules]:
  "checked P st (Inr s) \<Longrightarrow> checked (P \<and> e16 = a16) st (Inr (snd (Check16 e16 a16 n s)))"
  "checked P st (Inr s) \<Longrightarrow> checked (P \<and> e32 = a32) st (Inr (snd (Check32 e32 a32 n s)))"
  "checked P st (Inr s) \<Longrightarrow> checked (P \<and> e64 = a64) st (Inr (snd (Check64 e64 a64 n s)))"
  "checked P st (Inr s) \<Longrightarrow> checked (P \<and> e16 < a16) st (Inr (snd (CheckLT16 e16 a16 n s)))"
  "checked P st (Inr s) \<Longrightarrow> checked (P \<and> e32 < a32) st (Inr (snd (CheckLT32 e32 a32 n s)))"
  unfolding Check16_def Check32_def Check64_def CheckLT16_def CheckLT32_def
  using printed_complaint by (blast intro: checked_if)+

section \<open>Elements\<close>

lemma fread_chars_holds:
  assumes "holds f pos (bytes_of s)" "s \<noteq> []"
  shows "fread_chars f pos (length s) k = k s"
proof -
  have "map (\<lambda>b. char_of (unat b)) (bytes_of s) = s" for s :: string
    by (induction s) (simp_all add: bytes_of_def unat_of_char_u8)
  moreover have "length (bytes_of s) = length s" by (simp add: bytes_of_def)
  ultimately show ?thesis using assms by (simp add: fread_chars_def fread_verified_holds [OF assms(1)])
qed

lemma bool16_eq [simp]: "1 = bool16 b \<longleftrightarrow> b"
  by (simp add: bool16_def)

lemma check_filename_checked:
  "checked P st (Inr s) \<Longrightarrow> checked (P \<and> (\<forall>c \<in> set cs. isascii c)) st (Inr (check_filename i cs s))"
proof (induction cs arbitrary: i s P)
  case (Cons c cs)
  show ?case unfolding check_filename.simps
    by (rule checked_cong [OF Cons.IH [OF checked_Check(1) [OF Cons.prems]]]) simp
qed simp

lemma check_word_checked:
  "checked P st (Inr s) \<Longrightarrow>
     checked (P \<and> (\<forall>c \<in> set cs. isascii c \<and> (isalpha c \<longrightarrow> islower c))) st (Inr (check_word i cs s))"
proof (induction cs arbitrary: i s P)
  case (Cons c cs)
  show ?case
  proof (cases "isalpha c")
    case True
    then show ?thesis unfolding check_word.simps Let_def
      by (simp only: if_False simp_thms)
        (rule checked_cong [OF Cons.IH [OF checked_Check(1) [OF checked_Check(1) [OF Cons.prems]]]], auto)
  next
    case False
    then show ?thesis unfolding check_word.simps Let_def
      by (simp only: if_True simp_thms)
        (rule checked_cong [OF Cons.IH [OF checked_Check(1) [OF Cons.prems]]], auto)
  qed
qed simp

text \<open>The positions of a word in a document.\<close>

definition rising :: "u32 list \<Rightarrow> bool" where
  "rising ps \<longleftrightarrow> sorted_wrt (<) ps"

lemma rising_Cons: "rising (p # q # ps) \<longleftrightarrow> p < q \<and> rising (q # ps)"
  unfolding rising_def by (auto dest: order_less_trans)

lemma check_positions_checked:
  assumes "holds f pos (concat (map (be_bytes 4) ps))"
  shows "checked P st (Inr s) \<Longrightarrow> checked (P \<and> rising ps) st (check_positions (length ps) f pos None s)"
    "checked P st (Inr s) \<Longrightarrow> checked (P \<and> rising (p # ps)) st (check_positions (length ps) f pos (Some p) s)"
proof -
  have next_pos: "checked P st (Inr s) \<Longrightarrow> checked (P \<and> rising (p # ps)) st (check_positions (length ps) f pos (Some p) s)"
    if "holds f pos (concat (map (be_bytes 4) ps))" for p ps pos P s
    using that
  proof (induction ps arbitrary: p pos P s)
    case (Cons q ps)
    have h: "holds f pos (be_bytes 4 q)" "holds f (pos + 4) (concat (map (be_bytes 4) ps))"
      using holds_append [of f pos "be_bytes 4 q"] Cons.prems(2) by simp_all
    from checked_cong [OF Cons.IH [OF checked_Check(5) [OF Cons.prems(1)] h(2)]] show ?case
      by (simp add: fread_verified_holds [OF h(1)] of_be_bytes rising_Cons)
  qed (simp add: rising_def)
  show "checked P st (Inr s) \<Longrightarrow> checked (P \<and> rising (p # ps)) st (check_positions (length ps) f pos (Some p) s)"
    using next_pos [OF assms] .
  show "checked P st (Inr s) \<Longrightarrow> checked (P \<and> rising ps) st (check_positions (length ps) f pos None s)"
  proof (cases ps)
    case (Cons q qs)
    have h: "holds f pos (be_bytes 4 q)" "holds f (pos + 4) (concat (map (be_bytes 4) qs))"
      using holds_append [of f pos "be_bytes 4 q"] assms Cons by simp_all
    show "checked P st (Inr s) \<Longrightarrow> ?thesis"
      using next_pos [OF h(2), of P s q] Cons by (simp add: fread_verified_holds [OF h(1)] of_be_bytes)
  qed (simp add: rising_def)
qed

text \<open>The bucket that the checker computes from an identifier.\<close>

lemma checked_bucket:
  assumes "nb \<noteq> 0" "bucket_of nb key = i" "i < unat nb"
  shows "(ucast (key mod ucast nb) :: u32) = of_nat i"
proof -
  have n: "unat (ucast nb :: u64) = unat nb"
    using unsigned_less [of nb, where 'a = nat] by (simp add: unsigned_ucast_eq take_bit_nat_eq_self)
  have "unat (key mod ucast nb) = i" using assms(2) by (simp only: unat_mod n bucket_of_def)
  moreover have i: "i < 2 ^ 32" using assms(3) unsigned_less [of nb, where 'a = nat] by simp
  ultimately have "unat (ucast (key mod ucast nb) :: u32) = i"
    by (simp add: unsigned_ucast_eq take_bit_nat_eq_self)
  then show ?thesis by (simp only: word_unat_eq_iff unat_of_nat_u32 [OF i])
qed

section \<open>Tables\<close>

text \<open>
  An element checker: on an element that is well formed and in its bucket it ends, and complains
  exactly if the element is not \<open>fine\<close>.
\<close>

definition kv_placed :: "u32 \<Rightarrow> nat \<Rightarrow> 'v HTKeyValue \<Rightarrow> bool" where
  "kv_placed nb i kv \<longleftrightarrow> bucket_of nb (kv_key kv) = i"

lemma offset_word:
  assumes "length f < 2 ^ 31" "p \<le> length (f :: u8 list)"
  shows "unat (of_nat p :: u32) = p"
  using assms by (intro unat_of_nat_u32) simp

lemma end_word:
  assumes "length f < 2 ^ 31" "table_end \<le> length (f :: u8 list)" "p \<le> table_end"
  shows "(of_nat p :: u32) < of_nat table_end + 1"
proof -
  have "of_nat table_end + 1 = (of_nat (Suc table_end) :: u32)" by (simp add: add.commute)
  moreover have "unat (of_nat (Suc table_end) :: u32) = Suc table_end"
    using assms by (intro unat_of_nat_u32) simp
  moreover have "unat (of_nat p :: u32) = p" using assms by (intro unat_of_nat_u32) simp
  ultimately show ?thesis using assms(3) by (simp only: word_less_nat_alt)
qed

locale element_checker =
  fixes check :: "u8 list \<Rightarrow> u32 \<Rightarrow> check_element" and enc :: "'v encoder"
    and wf fine :: "'v HTKeyValue \<Rightarrow> bool"
  assumes element: "length f < 2 ^ 31 \<Longrightarrow> table_end \<le> length f \<Longrightarrow> holds f p (enc kv p) \<Longrightarrow>
      p + length (enc kv p) \<le> table_end \<Longrightarrow> wf kv \<Longrightarrow> nb \<noteq> 0 \<Longrightarrow> i < unat nb \<Longrightarrow> kv_placed nb i kv \<Longrightarrow>
      checked (fine kv) st (check f (of_nat table_end) nb (of_nat p) (of_nat i) st)"
begin

lemma check_chain_checked:
  assumes small: "length f < 2 ^ 31" and te: "table_end \<le> length f"
    and "holds f (b + 4 * j) (concat (map be32 (fst (enc_chain enc o' items))))"
    and "holds f o' (snd (enc_chain enc o' items))" "o' + length (snd (enc_chain enc o' items)) \<le> table_end"
    and "\<forall>kv \<in> set items. wf kv \<and> kv_placed nb i kv" "nb \<noteq> 0" "i < unat nb"
  shows "checked (\<forall>kv \<in> set items. fine kv) st
     (check_chain (check f (of_nat table_end)) f (of_nat table_end) nb i (of_nat b) [j..<j + length items] st)"
  using assms(3-)
proof (induction items arbitrary: j o' st)
  case (Cons kv items)
  let ?o = "o' + length (enc kv o')"
  have pos: "holds f (b + 4 * j) (be32 o')" "holds f (b + 4 * Suc j) (concat (map be32 (fst (enc_chain enc ?o items))))"
    using holds_append [of f "b + 4 * j" "be32 o'"] Cons.prems(1) by (simp_all add: algebra_simps)
  have el: "holds f o' (enc kv o')" "holds f ?o (snd (enc_chain enc ?o items))"
    using holds_append [of f o' "enc kv o'"] Cons.prems(2) by simp_all
  have le: "o' + length (enc kv o') \<le> table_end" "?o + length (snd (enc_chain enc ?o items)) \<le> table_end"
    using Cons.prems(3) by simp_all
  have "b + 4 * j \<le> length f" using holds_bound [OF pos(1)] by simp
  then have u: "unat (of_nat b + of_nat j * 4 :: u32) = b + 4 * j"
    using offset_word [OF small, of "b + 4 * j"] by (simp add: mult.commute)
  have lt: "(of_nat o' :: u32) < of_nat table_end + 1" using le(1) by (intro end_word [OF small te]) simp
  let ?st = "snd (CheckLT32 (of_nat o') (of_nat table_end + 1) ''element position < table end+1''
      (UpdateGlobals ''[bucket_num,element_num]='' (''['' @ decimal i @ '','' @ decimal j @ '']'') [] st))"
  have st: "checked True st (Inr ?st)"
    by (rule checked_cong [OF checked_Check(5) [OF checked_UpdateGlobals [OF checked_Inr]]]) (simp add: lt)
  have "checked (fine kv \<and> (\<forall>kv \<in> set items. fine kv)) ?st
      (andThen (check f (of_nat table_end) nb (of_nat o') (of_nat i) ?st)
        (check_chain (check f (of_nat table_end)) f (of_nat table_end) nb i (of_nat b) [Suc j..<Suc j + length items]))"
    by (rule checked_andThen [OF element [OF small te el(1) le(1)] Cons.IH [OF pos(2) el(2) le(2)]])
      (use Cons.prems(4-6) in simp_all)
  from checked_trans [OF st this] show ?case
    by (simp add: upt_conv_Cons u fread_verified_holds [OF pos(1)] be32_def of_be_bytes Let_def del: upt_Suc)
qed (simp add: checked_Inr)

lemma check_bucket_checked:
  assumes small: "length f < 2 ^ 31" and te: "table_end \<le> length f"
    and "holds f b (enc_bucket enc b c)" "b + length (enc_bucket enc b c) \<le> table_end"
    and "\<forall>kv \<in> set c. wf kv \<and> kv_placed nb i kv" "nb \<noteq> 0" "i < unat nb"
  shows "checked (\<forall>kv \<in> set c. fine kv) st (check_chain (check f (of_nat table_end)) f (of_nat table_end) nb i (of_nat b) [0..<length c] st)"
proof -
  obtain ps bs where e: "enc_chain enc (b + 4 * length c) c = (ps, bs)" by fastforce
  have len: "length ps = length c" using e length_enc_chain [of enc _ c] by (metis fst_conv)
  have h: "holds f b (concat (map be32 ps) @ bs)" using assms(3) e by (simp add: enc_bucket_def)
  have "holds f (b + 4 * length c) bs" using holds_append(2) [OF h] len by simp
  moreover have "b + 4 * length c + length bs \<le> table_end"
    using assms(4) e by (simp add: length_enc_bucket)
  ultimately show ?thesis
    using check_chain_checked [OF small te, of b 0 "b + 4 * length c" c nb i st] holds_append(1) [OF h] assms(5-7) e by simp
qed

lemma check_buckets_checked:
  assumes small: "length f < 2 ^ 31" and te: "table_end \<le> length f"
    and "holds f (off + 4 + 8 * i) (concat (map enc_rec (fst (enc_buckets enc b cs))))"
    and "holds f b (snd (enc_buckets enc b cs))" "b + length (snd (enc_buckets enc b cs)) \<le> table_end"
    and "\<forall>k < length cs. \<forall>kv \<in> set (cs ! k). wf kv \<and> kv_placed nb (i + k) kv"
    and "unat nb = i + length cs" "holds f (off + 4) (be32 n0 @ be32 start)"
    and "start = off + 4 + 8 * unat nb" "start \<le> length f"
    and "case prev of None \<Rightarrow> b = start | Some p \<Rightarrow> p < of_nat b"
  shows "checked (\<forall>kv \<in> set (concat cs). fine kv) st
     (check_buckets (check f (of_nat table_end)) f (of_nat off) (of_nat table_end) nb [i..<i + length cs] prev st)"
  using assms(3-)
proof (induction cs arbitrary: i b prev st)
  case (Cons c cs)
  let ?b = "b + length (enc_bucket enc b c)"
  let ?cond = "(\<forall>kv \<in> set c. fine kv) \<and> (\<forall>kv \<in> set (concat cs). fine kv)"
  have lr: "length (enc_rec r) = 8" for r by (simp add: enc_rec_def)
  have rec: "holds f (off + 4 + 8 * i) (enc_rec (length c, b))"
    "holds f (off + 4 + 8 * Suc i) (concat (map enc_rec (fst (enc_buckets enc ?b cs))))"
    using holds_append [of f "off + 4 + 8 * i" "enc_rec (length c, b)"] Cons.prems(1)
    by (simp_all add: lr algebra_simps)
  have recs: "holds f (off + 4 + 8 * i) (be32 (length c))" "holds f (off + 4 + 8 * i + 4) (be32 b)"
    using holds_append [of f "off + 4 + 8 * i" "be32 (length c)" "be32 b"] rec(1) by (simp_all add: enc_rec_def)
  have h: "holds f b (enc_bucket enc b c)" "holds f ?b (snd (enc_buckets enc ?b cs))"
    using holds_append [of f b "enc_bucket enc b c"] Cons.prems(2) by simp_all
  have le: "?b \<le> table_end" "?b + length (snd (enc_buckets enc ?b cs)) \<le> table_end"
    using Cons.prems(3) by simp_all
  have lenc: "4 * length c \<le> length (enc_bucket enc b c)" by (simp add: length_enc_bucket)
  then have lc: "length c \<le> length f" using le(1) te by linarith
  have u: "unat (of_nat off + 4 + 8 * of_nat i :: u32) = off + 4 + 8 * i"
    using offset_word [OF small, of "off + 4 + 8 * i"] holds_bound [OF recs(1)] by simp
  have uf: "unat (of_nat off + 4 :: u32) = off + 4"
    using offset_word [OF small, of "off + 4"] holds_bound [OF Cons.prems(6)] by simp
  have nb: "nb \<noteq> 0" "i < unat nb" using Cons.prems(5) by auto
  have c: "\<forall>kv \<in> set c. wf kv \<and> kv_placed nb i kv" using Cons.prems(4) by auto
  have cs: "\<forall>k < length cs. \<forall>kv \<in> set (cs ! k). wf kv \<and> kv_placed nb (Suc i + k) kv"
    using Cons.prems(4) by (metis Suc_less_eq add_Suc_shift length_Cons nth_Cons_Suc)
  have lt: "(of_nat b :: u32) < of_nat table_end + 1" using le(1) by (intro end_word [OF small te]) simp
  let ?st = "UpdateGlobals ''bucket_rec['' (decimal i) '']'' st"
  let ?lt = "\<lambda>s. snd (CheckLT32 (of_nat b) (of_nat table_end + 1) ''bucket position < table end+1'' s)"
  let ?rest = "\<lambda>prev s. andThen (check_chain (check f (of_nat table_end)) f (of_nat table_end) nb i (of_nat b) [0..<length c] (?lt s))
      (check_buckets (check f (of_nat table_end)) f (of_nat off) (of_nat table_end) nb [Suc i..<Suc i + length cs] prev)"
  have rest: "checked ?cond st (?rest prev' s)"
    if s: "checked True st (Inr s)" and p: "case prev' of None \<Rightarrow> ?b = start | Some p \<Rightarrow> p < of_nat ?b" for prev' s
  proof -
    have "checked True st (Inr (?lt s))"
      by (rule checked_cong [OF checked_Check(5) [OF s]]) (simp add: lt)
    moreover have "checked ?cond (?lt s) (?rest prev' s)"
      by (rule checked_andThen [OF check_bucket_checked [OF small te h(1) le(1) c nb]
            Cons.IH [OF rec(2) h(2) le(2) cs _ Cons.prems(6-8) p]])
        (use Cons.prems(5) in simp)
    ultimately show ?thesis using checked_trans by fastforce
  qed
  have step: "check_buckets (check f (of_nat table_end)) f (of_nat off) (of_nat table_end) nb [i..<i + length (c # cs)] prev st
      = andThen (if c \<noteq> [] then
             (case prev of
                Some p \<Rightarrow> Inr (Some (of_nat b), snd (CheckLT32 p (of_nat b)
                    ''bucket_rec[i].position < bucket_rec[i+1].position'' ?st))
              | None \<Rightarrow> Inr (Some (of_nat start), snd (Check32 (of_nat off + 4 + 8 * nb) (of_nat start)
                       ''position of the first bucket (expected to be (table start) + (4) + (8*num_buckets))'' ?st)))
           else Inr (prev, ?st)) (\<lambda>(prev, s). ?rest prev s)"
  proof -
    have pos: "0 < (of_nat (length c) :: u32) \<longleftrightarrow> c \<noteq> []"
      using lc small by (simp add: word_less_nat_alt unat_of_nat_u32)
    have first: "holds f (off + 4) (be32 n0)" "holds f (off + 4 + 4) (be32 start)"
      using holds_append [OF Cons.prems(6)] by simp_all
    have rd: "fread_verified f (off + 4) 4 (\<lambda>_. fread_verified f (off + 4 + 4) 4 k) = k (be32 start)"
      for k :: "u8 list \<Rightarrow> (u32 option \<times> fsck) res"
      by (simp only: fread_verified_holds [OF first(1) length_be32] fread_verified_holds [OF first(2) length_be32])
    have w: "htonl (of_le_bytes (be32 n)) = of_nat n" for n by (simp add: be32_def of_be_bytes)
    have ul: "unat (of_nat (length c) :: u32) = length c" using lc by (rule offset_word [OF small])
    have "[i..<i + length (c # cs)] = i # [Suc i..<Suc i + length cs]" by (simp add: upt_conv_Cons del: upt_Suc)
    then show ?thesis
      by (simp only: check_buckets.simps Let_def u uf fread_verified_holds [OF recs(1) length_be32]
          fread_verified_holds [OF recs(2) length_be32] w pos ul rd cong: option.case_cong)
  qed
  show ?case
  proof (cases "c = []")
    case True
    have "checked True st (Inr ?st)" by (intro check_rules)
    moreover have "case prev of None \<Rightarrow> ?b = start | Some p \<Rightarrow> p < of_nat ?b"
      using True Cons.prems(9) by (cases prev) simp_all
    ultimately show ?thesis using rest [of ?st prev] True unfolding step by (simp del: upt_Suc)
  next
    case False
    then have "b < ?b" using lenc by (cases c) auto
    then have bb: "(of_nat b :: u32) < of_nat ?b"
      using le(1) te offset_word [OF small, of b] offset_word [OF small, of ?b] by (simp add: word_less_nat_alt)
    show ?thesis
    proof (cases prev)
      case None
      have "(of_nat off + 4 + 8 * nb :: u32) = of_nat start"
        unfolding Cons.prems(7) by simp
      then have "checked True st (Inr (snd (Check32 (of_nat off + 4 + 8 * nb) (of_nat start) n ?st)))" for n
        by (intro checked_cong [OF checked_Check(2) [OF checked_UpdateGlobals [OF checked_Inr]]]) simp
      from rest [OF this, of "Some (of_nat start)"] bb None False Cons.prems(9) show ?thesis
        unfolding step by (simp add: ball_Un del: upt_Suc)
    next
      case (Some p)
      then have "checked True st (Inr (snd (CheckLT32 p (of_nat b) n ?st)))" for n
        using Cons.prems(9)
        by (intro checked_cong [OF checked_Check(5) [OF checked_UpdateGlobals [OF checked_Inr]]]) simp
      from rest [OF this, of "Some (of_nat b)"] bb Some False show ?thesis
        unfolding step by (simp add: ball_Un del: upt_Suc)
    qed
  qed
qed (simp add: checked_Inr)

text \<open>A whole table.\<close>

lemma HashTableChecker_Check_checked:
  assumes small: "length f < 2 ^ 31" and te: "table_end \<le> length f"
    and "holds f off (enc_table enc off cs)" "off + length (enc_table enc off cs) = table_end" "cs \<noteq> []"
    and "nb = of_nat (length cs)" "\<forall>k < length cs. \<forall>kv \<in> set (cs ! k). wf kv \<and> kv_placed nb k kv"
    and "checked P st0 (Inr st)"
  shows "checked (P \<and> (\<forall>kv \<in> set (concat cs). fine kv)) st0
     (HashTableChecker_Check (check f (of_nat table_end)) f (of_nat off) (of_nat (length (enc_table enc off cs))) st)"
proof -
  let ?start = "off + 4 + 8 * length cs" and ?len = "length (enc_table enc off cs)"
  obtain rs bs where e: "enc_buckets enc ?start cs = (rs, bs)" by fastforce
  have len: "length rs = length cs" using e length_enc_buckets [of enc _ cs] by (metis fst_conv)
  have h: "holds f off (be32 (length cs) @ concat (map enc_rec rs) @ bs)"
    using assms(3) e by (simp add: enc_table_def)
  note h2 = holds_append(2) [OF h, unfolded length_be32]
  have bs: "holds f ?start bs" using holds_append(2) [OF h2] len by (simp add: add.assoc)
  have tl: "?len = 4 + 8 * length cs + length bs" using e by (simp add: length_enc_table)
  have le: "?start \<le> table_end" using assms(4) tl by simp
  have nb: "unat nb = length cs" using le te offset_word [OF small, of "length cs"] by (simp add: assms(6))
  have uo: "unat (of_nat off :: u32) = off" using le te offset_word [OF small, of off] by simp
  obtain c cs' where cs: "cs = c # cs'" using assms(5) by (cases cs) auto
  obtain n0 rs' where "rs = (n0, ?start) # rs'" using e cs by auto
  then have "holds f (off + 4) ((be32 n0 @ be32 ?start) @ concat (map enc_rec rs'))"
    using holds_append(1) [OF h2] by (simp add: enc_rec_def)
  note first = holds_append(1) [OF this]
  have len8: "unat (nb * 8) = 8 * length cs"
  proof -
    have "nb * 8 = (of_nat (8 * length cs) :: u32)" using assms(6) by (simp add: mult.commute)
    then show ?thesis using offset_word [OF small, of "8 * length cs"] le te by simp
  qed
  have "unat (of_nat ?len :: u32) = ?len" using assms(4) te offset_word [OF small, of ?len] by simp
  then have lt: "nb * 8 < of_nat ?len" using len8 tl by (simp add: word_less_nat_alt)
  have stop: "of_nat off + of_nat ?len = (of_nat table_end :: u32)" by (simp flip: assms(4))
  let ?st = "snd (CheckLT32 (nb * 8) (of_nat ?len) ''num_buckets < len(table)'' (UpdateGlobals ''num_buckets'' [] [] st))"
  have st: "checked P st0 (Inr ?st)"
    by (rule checked_cong [OF checked_Check(5) [OF checked_UpdateGlobals [OF assms(8)]]]) (simp add: lt)
  have "checked (\<forall>kv \<in> set (concat cs). fine kv) ?st
      (check_buckets (check f (of_nat table_end)) f (of_nat off) (of_nat table_end) nb [0..<0 + length cs] None ?st)"
    by (rule check_buckets_checked [OF small te, where b = ?start and ?n0.0 = n0 and start = ?start])
      (use e h2 bs assms(4,7) tl nb first le te in \<open>auto dest: holds_append(1)\<close>)
  from checked_trans [OF st this] show ?thesis
    by (simp add: HashTableChecker_Check_def uo fread_verified_holds [OF holds_append(1) [OF h]] be32_def
        of_be_bytes Let_def stop nb flip: assms(6))
qed

end

end
