(* ===== verification/SearchShellThms.thy ===== *)
theory SearchShellThms
  imports SearchShell
begin

text \<open>
  What the shell prints: splitting a query gives its words, and an answer lists the names of the
  documents that contain all of them, with their ranks.
\<close>

section \<open>Splitting a query\<close>

abbreviation blank :: char where
  "blank \<equiv> CHR '' ''"

lemma ParseQuery_loop_blanks [simp]:
  "ParseQuery_loop flt (replicate k blank @ s) = ParseQuery_loop flt s"
proof -
  have "dropWhile (\<lambda>c. c = blank) (replicate k blank @ s) = dropWhile (\<lambda>c. c = blank) s"
    by (induction k) simp_all
  then show ?thesis
    by (simp add: ParseQuery_loop.simps [of flt "replicate k blank @ s"] ParseQuery_loop.simps [of flt s] strtok_r_def)
qed

lemma strtok_r_word:
  assumes "w \<noteq> []" "blank \<notin> set w"
  shows "strtok_r w = Some (w, [])" "strtok_r (w @ blank # s) = Some (w, s)"
proof -
  have d: "dropWhile (\<lambda>c. c = blank) (w @ s') = w @ s'" for s'
    using assms by (cases w) auto
  have all: "\<And>c. c \<in> set w \<Longrightarrow> c \<noteq> blank" using assms(2) by blast
  have t: "takeWhile (\<lambda>c. c \<noteq> blank) (w @ blank # s) = w" "takeWhile (\<lambda>c. c \<noteq> blank) w = w"
    "dropWhile (\<lambda>c. c \<noteq> blank) (w @ blank # s) = blank # s" "dropWhile (\<lambda>c. c \<noteq> blank) w = []"
    using all by (simp_all add: takeWhile_append2 dropWhile_append2 takeWhile_eq_all_conv)
  show "strtok_r w = Some (w, [])" "strtok_r (w @ blank # s) = Some (w, s)"
    using assms(1) by (simp_all only: strtok_r_def Let_def d d [of "[]", unfolded append_Nil2] t) simp_all
qed

text \<open>Words with blanks around them: at least one behind every word but the last.\<close>

fun spaced :: "nat \<Rightarrow> (string \<times> nat) list \<Rightarrow> string" where
  "spaced k [] = replicate k blank"
| "spaced k ((w, j) # ws) = replicate k blank @ w @ (if ws = [] then replicate j blank else blank # spaced j ws)"

definition is_word :: "string \<Rightarrow> bool" where
  "is_word w \<longleftrightarrow> w \<noteq> [] \<and> list_all (\<lambda>c. c \<noteq> blank \<and> c \<noteq> NUL) w"

lemma ParseQuery_loop_Nil [simp]: "ParseQuery_loop flt [] = []"
  by (simp add: ParseQuery_loop.simps strtok_r_def)

lemma ParseQuery_loop_all_blank [simp]: "ParseQuery_loop flt (replicate k blank) = []"
  using ParseQuery_loop_blanks [of flt k "[]"] by simp

lemma ParseQuery_loop_word:
  assumes "is_word w"
  shows "ParseQuery_loop flt w = filter (Unfiltered flt) [w]"
    "ParseQuery_loop flt (w @ blank # s) = filter (Unfiltered flt) [w] @ ParseQuery_loop flt s"
proof -
  have w: "w \<noteq> []" "blank \<notin> set w" using assms by (auto simp: is_word_def list_all_iff)
  show "ParseQuery_loop flt w = filter (Unfiltered flt) [w]"
    "ParseQuery_loop flt (w @ blank # s) = filter (Unfiltered flt) [w] @ ParseQuery_loop flt s"
    using strtok_r_word [OF w] by (simp_all add: ParseQuery_loop.simps [of flt w]
        ParseQuery_loop.simps [of flt "w @ blank # s"])
qed

lemma ParseQuery_loop_spaced:
  assumes "\<forall>x \<in> set ws. is_word (fst x)"
  shows "ParseQuery_loop flt (spaced k ws) = filter (Unfiltered flt) (map fst ws)"
  using assms
proof (induction k ws rule: spaced.induct)
  case (2 k w j ws)
  then have w: "is_word w" by simp
  show ?case
  proof (cases "ws = []")
    case True
    show ?thesis
    proof (cases j)
      case 0
      with True ParseQuery_loop_word(1) [OF w, of flt] show ?thesis by simp
    next
      case (Suc i)
      with True ParseQuery_loop_word(2) [OF w, of flt "replicate i blank"] show ?thesis by simp
    qed
  next
    case False
    with 2 ParseQuery_loop_word(2) [OF w, of flt "spaced j ws"] show ?thesis by simp
  qed
qed simp

lemma length_strtok: "strtok_r p = Some (token, rest) \<Longrightarrow> Suc (length rest) \<le> length p"
  using strtok_r_shorter by (simp add: Suc_leI)

lemma length_ParseQuery_loop: "length (ParseQuery_loop flt p) \<le> length p"
proof (induction flt p rule: ParseQuery_loop.induct)
  case (1 flt p)
  show ?case
  proof (cases "strtok_r p")
    case (Some x)
    with 1 length_strtok [of p "fst x" "snd x"] show ?thesis
      by (cases x) (force simp: ParseQuery_loop.simps [of flt p])
  qed (simp add: ParseQuery_loop.simps [of flt p])
qed

section \<open>The index of the crawled documents\<close>

definition text_words :: "bool \<Rightarrow> string \<times> string \<Rightarrow> string set" where
  "text_words flt doc = fst ` set (words_of flt (snd doc))"

text \<open>No two words of the documents or of the query share a hash.\<close>

definition no_collision :: "bool \<Rightarrow> (string \<times> string) list \<Rightarrow> string list \<Rightarrow> bool" where
  "no_collision flt docs ws \<longleftrightarrow> inj_on hash_string (\<Union> (text_words flt ` set docs) \<union> set ws)"

definition count_words :: "bool \<Rightarrow> string list \<Rightarrow> string \<times> string \<Rightarrow> nat" where
  "count_words flt ws doc =
     sum_list (map (\<lambda>w. length (filter (\<lambda>x. fst x = w) (words_of flt (snd doc)))) ws)"

lemma posting_docs_of: "posting (mi_view mi) (hash_string w) d = map_option (map snd) (docs_of mi w d)"
  by (simp add: posting_def mi_view_def docs_of_def split: option.splits prod.splits)

lemma occurrences_word:
  assumes "no_collision flt docs ws" "doc \<in> set docs" "w \<in> set ws"
  shows "occurrences (words_of flt (snd doc)) (hash_string w)
     = filter (\<lambda>x. fst x = w) (words_of flt (snd doc))"
proof -
  have "hash_string (fst x) = hash_string w \<longleftrightarrow> fst x = w" if "x \<in> set (words_of flt (snd doc))" for x
    using assms that by (auto simp: no_collision_def text_words_def inj_on_def)
  then show ?thesis unfolding occurrences_def case_prod_beta by (intro filter_cong) auto
qed

text \<open>The postings of a word in the index, in terms of the texts.\<close>

lemma docs_of_corpus:
  assumes rep: "crawl_rep flt docs dt mi m" and col: "no_collision flt docs ws" and w: "w \<in> set ws"
    and len: "length docs < 2 ^ 64"
  shows "docs_of mi w d \<noteq> None \<longleftrightarrow>
       0 < unat d \<and> unat d \<le> length docs \<and> w \<in> text_words flt (docs ! (unat d - 1))"
    "docs_of mi w d \<noteq> None \<Longrightarrow> cl_count (the (docs_of mi w d))
       = of_nat (length (filter (\<lambda>x. fst x = w) (words_of flt (snd (docs ! (unat d - 1))))))"
proof -
  let ?doc = "docs ! (unat d - 1)"
  have P: "map_option (map snd) (docs_of mi w d) = (if 0 < unat d \<and> unat d \<le> length docs
      then map_option snd (noted (words_of flt (snd ?doc)) (hash_string w)) else None)"
    using rep posting_corpus [OF len] by (simp add: crawl_rep_def flip: posting_docs_of)
  have occ: "occurrences (words_of flt (snd ?doc)) (hash_string w)
     = filter (\<lambda>x. fst x = w) (words_of flt (snd ?doc))" if "0 < unat d" "unat d \<le> length docs"
    by (rule occurrences_word [OF col _ w]) (use that in simp)
  have n: "noted (words_of flt (snd ?doc)) (hash_string w) \<noteq> None \<longleftrightarrow> w \<in> text_words flt ?doc"
    if "0 < unat d" "unat d \<le> length docs"
  proof -
    have "noted xs k \<noteq> None \<longleftrightarrow> occurrences xs k \<noteq> []" for xs k
      by (simp add: noted_def split: list.splits)
    with occ [OF that] show ?thesis by (force simp: text_words_def filter_empty_conv)
  qed
  show "docs_of mi w d \<noteq> None \<longleftrightarrow>
       0 < unat d \<and> unat d \<le> length docs \<and> w \<in> text_words flt ?doc"
    using P n by (metis map_option_is_None)
  assume some: "docs_of mi w d \<noteq> None"
  then have r: "0 < unat d" "unat d \<le> length docs" using P by (metis option.map_disc_iff)+
  then have "map_option (length \<circ> map snd) (docs_of mi w d)
      = map_option (length \<circ> snd) (noted (words_of flt (snd ?doc)) (hash_string w))"
    using P by (metis option.map_comp)
  moreover have "map_option (length \<circ> snd) (noted xs k) = (if occurrences xs k = [] then None
      else Some (length (occurrences xs k)))" for xs k
    by (simp add: noted_def split: list.splits)
  ultimately have "length (the (docs_of mi w d)) = length (occurrences (words_of flt (snd ?doc)) (hash_string w))"
    using some by (auto split: if_splits)
  with occ [OF r] show "cl_count (the (docs_of mi w d))
       = of_nat (length (filter (\<lambda>x. fst x = w) (words_of flt (snd ?doc))))"
    by (simp add: cl_count_def)
qed

text \<open>There are at most \<open>n\<close> document ids up to \<open>n\<close>.\<close>

lemma card_ids:
  assumes "\<And>d. d \<in> D \<Longrightarrow> 0 < unat d \<and> unat d \<le> n"
  shows "card (D :: u64 set) \<le> n"
proof -
  have "card D = card (unat ` D)" by (intro card_image [symmetric] inj_onI) (simp add: word_unat_eq_iff)
  also have "\<dots> \<le> card {1..n}" by (rule card_mono) (use assms in fastforce)+
  finally show ?thesis by simp
qed

lemma crawl_small:
  assumes rep: "crawl_rep flt docs dt mi m" and len: "length docs < 2 ^ 31"
  shows "mi_small mi"
  unfolding mi_small_def
proof
  fix wd assume wd: "wd \<in> ran (wdss mi)"
  have ok: "mi_ok mi m" using rep by (simp add: crawl_rep_def mi_inv_ok)
  then have own: "own_ok (index mi) (wdss mi) m" and inv: "ht_inv (docIDs wd) m"
    using wd by (simp_all add: mi_ok_def)
  have "wd \<in> ran (own_map (index mi) (wdss mi))" using wd ran_own_map [OF own] by simp
  then obtain k where "own_map (index mi) (wdss mi) k = Some wd" by (auto simp: ran_def)
  then have k: "mi_abs mi k = Some (word wd, ht_map (docIDs wd))"
    by (simp add: mi_abs_def wds_abs_def)
  have "0 < unat d \<and> unat d \<le> length docs" if "d \<in> dom (ht_map (docIDs wd))" for d
  proof -
    have "posting (mi_view mi) k d \<noteq> None" using k that by (auto simp: posting_def mi_view_def)
    then show ?thesis
      using rep posting_corpus [of docs flt k d] len by (auto simp: crawl_rep_def split: if_splits)
  qed
  then have "card (dom (ht_map (docIDs wd))) \<le> length docs" by (rule card_ids)
  then show "total (docIDs wd) < 2 ^ 31" using total_card [OF inv] len by simp
qed

section \<open>Printing the results\<close>

definition result_name :: "(string \<times> string) list \<Rightarrow> SearchResult \<Rightarrow> string" where
  "result_name docs r = fst (docs ! (unat (docid r) - 1))"

lemma print_results_ok:
  assumes "rs_ok rs m0" "fst rs \<noteq> []" "dt_rep dt (map fst docs) m" "reliable m"
    and "\<forall>r \<in> set (result_list rs). 0 < unat (docid r) \<and> unat (docid r) \<le> length docs"
    and "length (fst rs) < n"
  shows "\<exists>rs' m'. print_results n dt rs (first_addr (fst rs) NULL) m
     = Inr (map (\<lambda>r. result_line (result_name docs r) (rank r)) (result_list rs), rs', m') \<and>
     later m m'"
  using assms
proof (induction n arbitrary: rs m)
  case (Suc n)
  obtain a p cs srs where rs: "rs = ((a, p) # cs, srs)"
    using Suc.prems(2) by (cases rs) (metis fst_conv neq_Nil_conv surj_pair)
  have "p \<in> dom srs" using Suc.prems(1) rs by (simp add: rs_ok_def)
  then obtain r where r: "srs p = Some r" by auto
  have L: "result_list rs = r # result_list (cs, srs(p := None))"
    using Suc.prems(1) r by (auto simp: rs result_list_def rs_ok_def)
  have d: "0 < unat (docid r)" "unat (docid r) \<le> length docs" using Suc.prems(5) L by simp_all
  then have d0: "docid r \<noteq> 0" by auto
  obtain m1 where lk: "later m m1" "DTLookupDocID dt (docid r) m
      = Inr (name_of_id (map fst docs) (docid r), m1)"
    using DTLookupDocID_rep [OF Suc.prems(3,4) d0] .
  have name: "name_of_id (map fst docs) (docid r) = Some (result_name docs r)"
    using d by (simp add: name_of_id_def result_name_def)
  have a0: "a \<noteq> NULL" using Suc.prems(1) rs by (auto simp: rs_ok_def)
  then have del: "cl_payload ((a, p) # cs) a = Inr p"
    "cl_delete ((a, p) # cs) a = Inr (cs \<noteq> [], p, first_addr cs NULL, cs)"
    by (simp_all add: cl_payload_def cl_delete_def cl_pop_def)
  show ?case
  proof (cases "cs = []")
    case True
    then show ?thesis using r lk name del L by (simp add: rs result_list_def)
  next
    case False
    have "rs_ok (cs, srs(p := None)) m0" using Suc.prems(1) rs by (auto simp: rs_ok_def)
    from Suc.IH [OF this _ dt_rep_later [OF Suc.prems(3) lk(1)] later_reliable [OF lk(1) Suc.prems(4)]]
    obtain rs' m' where ih: "print_results n dt (cs, srs(p := None)) (first_addr cs NULL) m1
       = Inr (map (\<lambda>r. result_line (result_name docs r) (rank r)) (result_list (cs, srs(p := None))), rs', m')"
       "later m1 m'"
      using False L Suc.prems(5,6) rs by auto
    have "print_results (Suc n) dt rs (first_addr (fst rs) NULL) m
       = Inr (map (\<lambda>r. result_line (result_name docs r) (rank r)) (result_list rs), rs', m')"
      using r lk(2) name del False ih(1) by (simp add: rs L [unfolded rs])
    with lk(1) ih(2) show ?thesis by (meson later_trans)
  qed
qed simp

text \<open>The lines that answer the query \<open>ws\<close> over the documents.\<close>

definition answer_lines :: "bool \<Rightarrow> (string \<times> string) list \<Rightarrow> string list \<Rightarrow> string list \<Rightarrow> bool" where
  "answer_lines flt docs ws out \<longleftrightarrow>
     (\<exists>hits. out = map (\<lambda>doc. result_line (fst doc) (of_nat (count_words flt ws doc))) hits \<and>
        distinct hits \<and>
        set hits = {doc \<in> set docs. ws \<noteq> [] \<and> (\<forall>w \<in> set ws. w \<in> text_words flt doc)} \<and>
        sorted_wrt (\<lambda>a b. (of_nat (count_words flt ws b) :: u32) \<le> of_nat (count_words flt ws a)) hits)"

lemma contains_all_corpus:
  assumes "crawl_rep flt docs dt mi m" "no_collision flt docs ws" "length docs < 2 ^ 64" "ws \<noteq> []"
  shows "contains_all mi ws d \<longleftrightarrow> 0 < unat d \<and> unat d \<le> length docs \<and>
     (\<forall>w \<in> set ws. w \<in> text_words flt (docs ! (unat d - 1)))"
  using docs_of_corpus(1) [OF assms(1,2) _ assms(3)] assms(4)
  by (auto simp: contains_all_def) (metis last_in_set)+

lemma of_nat_sum_list: "of_nat (sum_list xs) = sum_list (map of_nat xs)"
  by (induction xs) simp_all

lemma score_corpus:
  assumes "crawl_rep flt docs dt mi m" "no_collision flt docs ws" "length docs < 2 ^ 64"
    and "contains_all mi ws d"
  shows "score mi ws d = of_nat (count_words flt ws (docs ! (unat d - 1)))"
proof -
  have "cl_count (the (docs_of mi w d))
      = of_nat (length (filter (\<lambda>x. fst x = w) (words_of flt (snd (docs ! (unat d - 1))))))"
    if "w \<in> set ws" for w
    using docs_of_corpus(2) [OF assms(1,2) that assms(3)] assms(4) that by (simp add: contains_all_def)
  then have "score mi ws d = sum_list (map (\<lambda>w. of_nat (length
      (filter (\<lambda>x. fst x = w) (words_of flt (snd (docs ! (unat d - 1))))))) ws)"
    unfolding score_def by (intro arg_cong [where f = sum_list] map_cong) auto
  then show ?thesis by (simp add: count_words_def of_nat_sum_list comp_def)
qed

lemma answer_query_ok:
  assumes parse: "ParseQuery flt buf = Inr ws" "length ws < 2 ^ 8"
    and rep: "crawl_rep flt docs dt mi m" and rel: "reliable m" and len: "length docs < 2 ^ 31"
    and dis: "distinct docs" and col: "no_collision flt docs ws"
  shows "\<exists>out m'. answer_query flt dt mi buf m = Inr (out @ [prompt], m') \<and> later m m' \<and>
     answer_lines flt docs ws out"
proof -
  have u: "unat (of_nat (length ws) :: u8) = length ws"
    using parse(2) by (simp add: unat_of_nat take_bit_nat_eq_self)
  have len64: "length docs < 2 ^ 64" using len by simp
  have inv: "mi_inv mi m" using rep by (simp add: crawl_rep_def)
  from MIProcessQuery_answer [OF inv rel crawl_small [OF rep len], of "of_nat (length ws)" ws] u
  obtain r m1 where q: "MIProcessQuery mi ws (of_nat (length ws)) m = Inr (r, m1)" "later m m1"
    "query_answer mi ws r m1" by auto
  show ?thesis
  proof (cases r)
    case None
    have "{doc \<in> set docs. ws \<noteq> [] \<and> (\<forall>w \<in> set ws. w \<in> text_words flt doc)} = {}"
    proof (cases "ws = []")
      case False
      then have "\<not> contains_all mi ws (of_nat (Suc i))" for i
        using q(3) None by (simp add: query_answer_def)
      then have no: "\<not> (\<forall>w \<in> set ws. w \<in> text_words flt (docs ! i))" if "i < length docs" for i
        using contains_all_corpus [OF rep col len64 False, of "of_nat (Suc i)"] that len64
          unat_of_nat_u64 [of "Suc i"] by (simp del: of_nat_Suc)
      have "\<not> (\<forall>w \<in> set ws. w \<in> text_words flt doc)" if "doc \<in> set docs" for doc
        using no that by (metis in_set_conv_nth)
      then show ?thesis by blast
    qed simp
    then have "answer_lines flt docs ws []" unfolding answer_lines_def by (intro exI [of _ "[]"]) simp
    moreover have "answer_query flt dt mi buf m = Inr ([] @ [prompt], m1)"
      using parse(1) q(1) None by (simp add: answer_query_def)
    ultimately show ?thesis using q(2) by blast
  next
    case (Some rs)
    with q(3) have A: "ws \<noteq> []" "fst rs \<noteq> []" "rs_ok rs m1" "distinct (map docid (result_list rs))"
      "docid ` set (result_list rs) = {d. contains_all mi ws d}"
      "\<forall>r \<in> set (result_list rs). rank r = score mi ws (docid r)"
      "sorted_wrt (\<lambda>a b. rank b \<le> rank a) (result_list rs)"
      by (simp_all add: query_answer_def)
    note C = contains_all_corpus [OF rep col len64 A(1)]
    have all: "contains_all mi ws (docid r)" if "r \<in> set (result_list rs)" for r
      using A(5) that by blast
    let ?doc = "\<lambda>r. docs ! (unat (docid r) - 1)" and ?L = "result_list rs"
    have rk: "rank r = of_nat (count_words flt ws (?doc r))" if "r \<in> set ?L" for r
      using A(6) that score_corpus [OF rep col len64 all [OF that]] by simp
    have "length (fst rs) < 2 ^ 32"
    proof -
      have "card (docid ` set ?L) \<le> length docs"
        by (rule card_ids) (use all C in blast)
      moreover have "card (docid ` set ?L) = length (fst rs)"
        using distinct_card [OF A(4)] by simp
      ultimately show ?thesis using len by simp
    qed
    then have n0: "cl_count (fst rs) \<noteq> 0" using A(2) by simp
    have rel1: "reliable m1" using q(2) rel by (rule later_reliable)
    let ?m = "m1\<lparr>clock := Suc (clock m1)\<rparr>"
    have it: "cl_make_iterator (fst rs) 0 m1 = (Some (first_addr (fst rs) NULL), ?m)"
      using A(2) rel1 by (simp add: cl_make_iterator_def malloc_reliable)
    have lat: "later m ?m" "later m1 ?m" using q(2) by (auto simp: later_def)
    have dt: "dt_rep dt (map fst docs) ?m" using crawl_rep_later [OF rep lat(1)] by (simp add: crawl_rep_def)
    have rng: "\<forall>r \<in> set ?L. 0 < unat (docid r) \<and> unat (docid r) \<le> length docs"
      using all C by blast
    obtain rs' m2 where pr: "print_results (Suc (length (fst rs))) dt rs (first_addr (fst rs) NULL) ?m
        = Inr (map (\<lambda>r. result_line (result_name docs r) (rank r)) ?L, rs', m2)" "later ?m m2"
      using print_results_ok [OF A(3,2) dt _ rng lessI] rel1 by (auto simp del: print_results.simps)
    have "map (\<lambda>r. result_line (result_name docs r) (rank r)) ?L
        = map (\<lambda>doc. result_line (fst doc) (of_nat (count_words flt ws doc))) (map ?doc ?L)"
      using rk by (simp add: result_name_def)
    moreover have "distinct (map ?doc ?L)"
    proof -
      have "inj_on ?doc (set ?L)"
      proof (rule inj_onI)
        fix x y assume xy: "x \<in> set ?L" "y \<in> set ?L" "?doc x = ?doc y"
        then have "unat (docid x) = unat (docid y)"
          using rng dis by (metis One_nat_def Suc_le_lessD Suc_pred nth_eq_iff_index_eq)
        then have "docid x = docid y" by (simp add: word_unat_eq_iff)
        with A(4) xy(1,2) show "x = y" by (simp add: distinct_map inj_on_def)
      qed
      moreover have "distinct ?L" using A(4) by (simp add: distinct_map)
      ultimately show ?thesis by (simp add: distinct_map)
    qed
    moreover have "set (map ?doc ?L) = {doc \<in> set docs. ws \<noteq> [] \<and> (\<forall>w \<in> set ws. w \<in> text_words flt doc)}"
      (is "_ = ?hits")
    proof (intro equalityI subsetI)
      fix doc assume "doc \<in> set (map ?doc ?L)"
      then obtain r where "r \<in> set ?L" "doc = ?doc r" by auto
      with all [of r] C rng A(1) show "doc \<in> ?hits" by auto
    next
      fix doc assume doc: "doc \<in> ?hits"
      then obtain i where i: "i < length docs" "doc = docs ! i" by (auto simp: in_set_conv_nth)
      then have ui: "unat (of_nat (Suc i) :: u64) = Suc i" using len64 by (intro unat_of_nat_u64) simp
      have "\<forall>w \<in> set ws. w \<in> text_words flt (docs ! i)" using doc i(2) by blast
      then have "of_nat (Suc i) \<in> {d. contains_all mi ws d}"
        unfolding mem_Collect_eq C ui using i(1) by simp
      then obtain r where r: "r \<in> set ?L" "docid r = of_nat (Suc i)" unfolding A(5) [symmetric] by auto
      then have "doc = ?doc r" using ui i(2) by (simp del: of_nat_Suc)
      then show "doc \<in> set (map ?doc ?L)" using r(1) unfolding set_map by (rule image_eqI)
    qed
    moreover have "sorted_wrt (\<lambda>a b. (of_nat (count_words flt ws b) :: u32)
        \<le> of_nat (count_words flt ws a)) (map ?doc ?L)"
      unfolding sorted_wrt_map by (rule sorted_wrt_mono_rel [OF _ A(7)]) (use rk in simp)
    ultimately have "answer_lines flt docs ws (map (\<lambda>r. result_line (result_name docs r) (rank r)) ?L)"
      unfolding answer_lines_def by (intro exI [of _ "map ?doc ?L"]) simp
    moreover have "answer_query flt dt mi buf m
        = Inr (map (\<lambda>r. result_line (result_name docs r) (rank r)) ?L @ [prompt], m2)"
      using parse(1) q(1) Some n0 it pr(1) by (simp add: answer_query_def del: print_results.simps)
    moreover have "later m m2" using lat(1) pr(2) by (rule later_trans)
    ultimately show ?thesis by blast
  qed
qed

section \<open>Lines of input\<close>

text \<open>
  A line of input: a number of blanks, and words with the number of blanks behind each (one more
  than the number, except at the end of the line). It fits into the buffer of the shell.
\<close>

type_synonym query_line = "nat \<times> (string \<times> nat) list"

definition line_of :: "query_line \<Rightarrow> string" where
  "line_of q = spaced (fst q) (snd q)"

definition query_words :: "bool \<Rightarrow> query_line \<Rightarrow> string list" where
  "query_words flt q = filter (Unfiltered flt) (map fst (snd q))"

definition newline :: char where
  "newline = CHR 0x0A"

definition line_ok :: "query_line \<Rightarrow> bool" where
  "line_ok q \<longleftrightarrow> (\<forall>x \<in> set (snd q). is_word (fst x) \<and> newline \<notin> set (fst x)) \<and> length (line_of q) \<le> 126"

lemma spaced_chars: "set (spaced k ws) \<subseteq> insert blank (\<Union> (set ` fst ` set ws))"
  by (induction k ws rule: spaced.induct) auto

lemma spaced_newline: "\<forall>x \<in> set ws. newline \<notin> set (fst x) \<Longrightarrow> newline \<notin> set (spaced k ws)"
  using spaced_chars [of k ws] by (auto simp: newline_def)

lemma spaced_NUL:
  assumes "\<forall>x \<in> set ws. is_word (fst x)" "c \<in> set (spaced k ws)"
  shows "c \<noteq> NUL"
proof -
  have "c = blank \<or> (\<exists>x \<in> set ws. c \<in> set (fst x))" using assms(2) spaced_chars [of k ws] by blast
  then show ?thesis using assms(1) by (auto simp: is_word_def list_all_iff)
qed

lemma ParseQuery_line:
  assumes "line_ok q"
  shows "ParseQuery flt (line_of q @ [newline]) = Inr (query_words flt q)"
proof -
  have ok: "\<forall>x \<in> set (snd q). is_word (fst x) \<and> newline \<notin> set (fst x)" using assms by (simp add: line_ok_def)
  have all: "\<And>c. c \<in> set (line_of q) \<Longrightarrow> c \<noteq> NUL"
    using spaced_NUL [of "snd q"] ok unfolding line_of_def by blast
  have "takeWhile (\<lambda>c. c \<noteq> NUL) (line_of q @ [newline]) = line_of q @ [newline]"
    using all by (simp add: takeWhile_append2 newline_def)
  then show ?thesis
    using ParseQuery_loop_spaced [of "snd q" flt "fst q"] ok
    by (simp add: ParseQuery_def line_of_def query_words_def)
qed

lemma line_upto_line:
  assumes "newline \<notin> set l" "length l < n"
  shows "line_upto n (l @ newline # input) = (l @ [newline], input)"
  using assms
proof (induction l arbitrary: n)
  case Nil
  then show ?case by (cases n) (simp_all add: newline_def)
next
  case (Cons c l)
  then show ?case by (cases n) (auto simp: newline_def)
qed

lemma fgets_line:
  assumes "line_ok q"
  shows "fgets BUFSIZE (line_of q @ newline # input) = Some (line_of q @ [newline], input)"
proof -
  have "newline \<notin> set (line_of q)" "length (line_of q) < 127"
    using assms spaced_newline [of "snd q"] by (simp_all add: line_ok_def line_of_def)
  from line_upto_line [OF this] show ?thesis by (simp add: fgets_def BUFSIZE_def)
qed

lemma length_query_words:
  assumes "line_ok q"
  shows "length (query_words flt q) < 2 ^ 8"
proof -
  have "query_words flt q = ParseQuery_loop flt (line_of q)"
    using assms ParseQuery_loop_spaced [of "snd q" flt "fst q"]
    by (simp add: line_ok_def line_of_def query_words_def)
  then show ?thesis using length_ParseQuery_loop [of flt "line_of q"] assms by (simp add: line_ok_def)
qed

lemma no_collision_mono:
  "no_collision flt docs ws \<Longrightarrow> set ws' \<subseteq> set ws \<Longrightarrow> no_collision flt docs ws'"
  unfolding no_collision_def by (rule inj_on_subset) auto

abbreviation input_of :: "query_line list \<Rightarrow> string" where
  "input_of qs \<equiv> concat (map (\<lambda>q. line_of q @ [newline]) qs)"

lemma ProcessQuery_loop_ok:
  assumes "crawl_rep flt docs dt mi m" "reliable m" "length docs < 2 ^ 31" "distinct docs"
    and "\<forall>q \<in> set qs. line_ok q" "no_collision flt docs (concat (map (query_words flt) qs))"
  shows "\<exists>outs m'. ProcessQuery_loop flt dt mi (input_of qs) m
      = Inr (concat (map (\<lambda>out. out @ [prompt]) outs), m') \<and>
     list_all2 (\<lambda>q. answer_lines flt docs (query_words flt q)) qs outs"
  using assms
proof (induction qs arbitrary: m)
  case Nil
  show ?case by (intro exI [of _ "[]"] exI [of _ m]) (simp add: ProcessQuery_loop.simps fgets_def)
next
  case (Cons q qs)
  have q: "line_ok q" "\<forall>q \<in> set qs. line_ok q" using Cons.prems(5) by simp_all
  have col: "no_collision flt docs (query_words flt q)"
    "no_collision flt docs (concat (map (query_words flt) qs))"
    by (rule no_collision_mono [OF Cons.prems(6)]; simp)+
  from answer_query_ok [OF ParseQuery_line [OF q(1)] length_query_words [OF q(1)] Cons.prems(1-4) col(1)]
  obtain out m1 where a: "answer_query flt dt mi (line_of q @ [newline]) m = Inr (out @ [prompt], m1)"
    "later m m1" "answer_lines flt docs (query_words flt q) out" by blast
  obtain outs m' where ih: "ProcessQuery_loop flt dt mi (input_of qs) m1
      = Inr (concat (map (\<lambda>out. out @ [prompt]) outs), m')"
    "list_all2 (\<lambda>q. answer_lines flt docs (query_words flt q)) qs outs"
    using Cons.IH [OF crawl_rep_later [OF Cons.prems(1) a(2)] later_reliable [OF a(2) Cons.prems(2)]
        Cons.prems(3,4) q(2) col(2)] by blast
  have "ProcessQuery_loop flt dt mi (input_of (q # qs)) m
      = Inr (concat (map (\<lambda>out. out @ [prompt]) (out # outs)), m')"
    using fgets_line [OF q(1), of "input_of qs"] a(1) ih(1)
    by (simp add: ProcessQuery_loop.simps [of flt dt mi "line_of q @ newline # input_of qs"])
  moreover have "list_all2 (\<lambda>q. answer_lines flt docs (query_words flt q)) (q # qs) (out # outs)"
    using a(3) ih(2) by simp
  ultimately show ?case by blast
qed

lemma FreeDocTable_ok: "dt_rep dt ns m \<Longrightarrow> \<exists>r. FreeDocTable dt = Inr r"
  by (auto simp: dt_rep_def FreeDocTable_def FreeHashTable_ok)

text \<open>
  C30: Splitting a query at its blanks is a round trip: however many blanks stand before, between and
  behind the words of a line, \<^verbatim>\<open>ParseQuery\<close> gives the words that the stop-word filter keeps, in order.
\<close>

theorem ParseQuery_roundtrip:
  assumes "\<forall>x \<in> set ws. is_word (fst x)"
  shows "ParseQuery flt (spaced k ws @ [newline]) = Inr (filter (Unfiltered flt) (map fst ws))"
proof -
  have "\<And>c. c \<in> set (spaced k ws) \<Longrightarrow> c \<noteq> NUL"
    using spaced_NUL [OF assms] .
  then have "takeWhile (\<lambda>c. c \<noteq> NUL) (spaced k ws @ [newline]) = spaced k ws @ [newline]"
    by (simp add: takeWhile_append2 newline_def)
  with ParseQuery_loop_spaced [OF assms] show ?thesis by (simp add: ParseQuery_def)
qed

lemma ParseQuery_roundtrip_witness:
  "ParseQuery True (''  the  cat '' @ [newline]) = Inr [''cat'']"
  using ParseQuery_roundtrip [of "[(''the'', 1), (''cat'', 1)]" True 2]
  by (simp add: is_word_def Unfiltered_def IsStopWord_def STOPWORDS_def numeral_2_eq_2)

text \<open>
  \<^verbatim>\<open>ParseQuery\<close> takes the last character of the buffer for the end of the line without looking at it. The
  end of the input without a newline, and a line that is longer than the buffer, are treated as if the
  last character in the buffer were the end of the line; a line that begins with a zero byte makes it
  write before the buffer.
\<close>

lemma ParseQuery_cuts:
  assumes "NUL \<notin> set buf" "buf \<noteq> []"
  shows "ParseQuery flt buf = ParseQuery flt (butlast buf @ [newline])"
proof -
  have b: "takeWhile (\<lambda>c. c \<noteq> NUL) buf = buf" unfolding takeWhile_eq_all_conv using assms(1) by blast
  have n: "takeWhile (\<lambda>c. c \<noteq> NUL) (butlast buf @ [newline]) = butlast buf @ [newline]"
    unfolding takeWhile_eq_all_conv using assms(1) by (auto simp: newline_def dest: in_set_butlastD)
  show ?thesis unfolding ParseQuery_def b n using assms(2) by simp
qed

lemma ParseQuery_zero_byte: "ParseQuery flt (NUL # s) = Inl MemFault"
  by (simp add: ParseQuery_def)

lemma fgets_long_line:
  assumes "newline \<notin> set l" "127 \<le> length l"
  shows "fgets BUFSIZE (l @ rest) = Some (take 127 l, drop 127 l @ rest)"
proof -
  have lines: "line_upto n (l @ rest) = (take n l, drop n l @ rest)" if "n \<le> length l" for n
    using that assms(1)
  proof (induction n arbitrary: l)
    case (Suc n)
    then obtain c l' where l: "l = c # l'" by (cases l) auto
    with Suc.prems(2) have "c \<noteq> CHR 0x0A" by (auto simp: newline_def)
    with Suc l show ?case by simp
  qed simp
  have "l @ rest \<noteq> []" using assms(2) by auto
  with lines [OF assms(2)] show ?thesis by (simp add: fgets_def BUFSIZE_def)
qed

end
