(* ===== verification/IndexReaderThms.thy ===== *)
theory IndexReaderThms
  imports IndexReaderProps
begin

text \<open>
  The index file as a whole: the reader accepts what the writer has written and finds in it the
  document table and the words of the in-memory index; it rejects files that are damaged.
\<close>

section \<open>Validating\<close>

lemma validate_loop_ok:
  assumes "pos + left = length f" "left < 2 ^ 32" "\<not> finalized c" "left < n"
  shows "validate_loop n f pos (of_nat left) c = Inr (c\<lparr>crc_state := foldl crc_byte (crc_state c) (drop pos f)\<rparr>)"
  using assms
proof (induction n arbitrary: pos left c)
  case (Suc n)
  let ?buf = "take 512 (drop pos f)"
  let ?c = "c\<lparr>crc_state := foldl crc_byte (crc_state c) ?buf\<rparr>"
  have fold: "FoldBytes ?buf c = Inr ?c" using Suc.prems(3) by (rule FoldBytes_reference)
  show ?case
  proof (cases "left = 0")
    case True
    then show ?thesis using Suc.prems(1) by simp
  next
    case False
    have pos: "0 < (of_nat left :: u32)" using of_nat_u32_eq_0_iff [OF Suc.prems(2)] False by (simp add: word_neq_0_conv [symmetric])
    have lb: "length ?buf = min 512 left" using Suc.prems(1) by simp
    have left: "of_nat left - of_nat (length ?buf) = (of_nat (left - length ?buf) :: u32)"
      using lb by (simp add: of_nat_diff)
    have "validate_loop n f (pos + length ?buf) (of_nat (left - length ?buf)) ?c
        = Inr (?c\<lparr>crc_state := foldl crc_byte (crc_state ?c) (drop (pos + length ?buf) f)\<rparr>)"
      by (rule Suc.IH) (use Suc.prems False lb in auto)
    moreover have "drop (pos + length ?buf) f = drop 512 (drop pos f)"
      using lb Suc.prems(1) by (cases "left \<le> 512") (simp_all add: min_def add.commute)
    then have "drop pos f = ?buf @ drop (pos + length ?buf) f" by (simp only: append_take_drop_id)
    then have "foldl crc_byte (crc_state c) (drop pos f)
        = foldl crc_byte (foldl crc_byte (crc_state c) ?buf) (drop (pos + length ?buf) f)"
      by (simp flip: foldl_append)
    then have "foldl crc_byte (crc_state ?c) (drop (pos + length ?buf) f) = foldl crc_byte (crc_state c) (drop pos f)"
      by simp
    ultimately show ?thesis
      using pos by (simp only: validate_loop.simps if_True Let_def fold andThen_simps left) simp
  qed
qed simp

text \<open>What the constructor does with a file of less than 4 GB.\<close>

lemma new_FileIndexReader_small:
  assumes "length f < 2 ^ 32"
  shows "new_FileIndexReader (Some f) validate =
    (if length f < 16 then Inl VerificationFailure
     else let header = IndexFileHeader_toHostFormat (IndexFileHeader_of_image (take 16 f)) in
       if magic_number header = MAGIC_NUMBER \<and> of_nat (length f) = 16 + doctable_size header + index_size header
         \<and> (validate \<longrightarrow> crc32_reference (drop 16 f) = checksum header)
       then Inr \<lparr>fir_file = f, fir_header = header\<rparr> else Inl VerificationFailure)"
proof (cases "length f < 16")
  case True
  then show ?thesis by (simp add: new_FileIndexReader_def fread_verified_def read_at_def)
next
  case False
  define h where "h = IndexFileHeader_toHostFormat (IndexFileHeader_of_image (take 16 f))"
  have rd: "fread_verified f 0 16 k = k (take 16 f)" for k :: "u8 list \<Rightarrow> FileIndexReader res"
    using False by (simp add: fread_verified_def read_at_def)
  show ?thesis
  proof (cases "of_nat (length f) = 16 + doctable_size h + index_size h")
    case True
    let ?left = "length f - 16"
    have "(of_nat ?left :: u32) = of_nat (length f) - 16" using False by (simp add: of_nat_diff)
    also have "\<dots> = doctable_size h + index_size h" unfolding True by simp
    finally have left: "doctable_size h + index_size h = of_nat ?left" by simp
    have "validate_loop (length f + 2) f 16 (of_nat ?left) new_CRC32
        = Inr (new_CRC32\<lparr>crc_state := foldl crc_byte (crc_state new_CRC32) (drop 16 f)\<rparr>)"
      by (rule validate_loop_ok) (use False assms in \<open>auto simp: new_CRC32_def\<close>)
    then have "andThen (validate_loop (length f + 2) f 16 (doctable_size h + index_size h) new_CRC32)
         (\<lambda>crcobj. Verify333 (fst (GetFinalCRC crcobj) = checksum h) (Inr \<lparr>fir_file = f, fir_header = h\<rparr>))
        = Verify333 (crc32_reference (drop 16 f) = checksum h) (Inr \<lparr>fir_file = f, fir_header = h\<rparr>)"
      unfolding left by (simp add: GetFinalCRC_def new_CRC32_def crc32_reference_def)
    then show ?thesis using False True
      by (simp add: new_FileIndexReader_def rd Let_def Verify333_def flip: h_def)
  next
    case wrong: False
    then show ?thesis using False
      by (simp add: new_FileIndexReader_def rd Let_def Verify333_def flip: h_def)
  qed
qed

section \<open>The file that was written\<close>

definition index_header :: "mem_index \<Rightarrow> doc_table \<Rightarrow> IndexFileHeader" where
  "index_header mi dt =
     (let d = doctable_bytes dt; w = memindex_bytes mi (16 + length d) in
      \<lparr>magic_number = MAGIC_NUMBER, checksum = crc32_reference (d @ w),
       doctable_size = of_nat (length d), index_size = of_nat (length w)\<rparr>)"

lemma index_file_opens:
  assumes "length (index_file mi dt) < 2 ^ 32"
  shows "new_FileIndexReader (Some (index_file mi dt)) validate
    = Inr \<lparr>fir_file = index_file mi dt, fir_header = index_header mi dt\<rparr>"
proof -
  let ?d = "doctable_bytes dt"
  let ?w = "memindex_bytes mi (16 + length ?d)"
  let ?h = "be_bytes 4 MAGIC_NUMBER @ be_bytes 4 (crc32_reference (?d @ ?w)) @
    be_bytes 4 (of_nat (length ?d) :: u32) @ be_bytes 4 (of_nat (length ?w) :: u32)"
  have f: "index_file mi dt = ?h @ ?d @ ?w" by (simp add: index_file_def be32_def Let_def)
  have lh: "length ?h = 16" by simp
  have parts: "take 16 (index_file mi dt) = ?h" "drop 16 (index_file mi dt) = ?d @ ?w"
    unfolding f using lh by (simp_all only: take_append drop_append) simp_all
  have hd: "IndexFileHeader_toHostFormat (IndexFileHeader_of_image ?h) = index_header mi dt"
    unfolding IndexFileHeader_host by (simp add: index_header_def Let_def)
  have "\<not> length (index_file mi dt) < 16" by (simp add: length_index_file)
  then show ?thesis
    unfolding new_FileIndexReader_small [OF assms] parts hd
    by (simp add: index_header_def Let_def length_index_file)
qed

lemma index_file_tables:
  "holds (index_file mi dt) 16 (doctable_bytes dt)"
  "holds (index_file mi dt) (16 + length (doctable_bytes dt)) (memindex_bytes mi (16 + length (doctable_bytes dt)))"
proof -
  let ?d = "doctable_bytes dt"
  let ?w = "memindex_bytes mi (16 + length ?d)"
  let ?h = "be_bytes 4 MAGIC_NUMBER @ be_bytes 4 (crc32_reference (?d @ ?w)) @ be32 (length ?d) @ be32 (length ?w)"
  have "index_file mi dt = ?h @ ?d @ ?w" "index_file mi dt = (?h @ ?d) @ ?w @ []"
    by (simp_all add: index_file_def Let_def)
  moreover have "length ?h = 16" "length (?h @ ?d) = 16 + length ?d" by simp_all
  ultimately show "holds (index_file mi dt) 16 ?d" "holds (index_file mi dt) (16 + length ?d) ?w"
    unfolding holds_def by blast+
qed

text \<open>The readers of its two tables.\<close>

lemma index_file_readers:
  assumes "writable mi dt m"
  obtains fir dtr itr where "new_FileIndexReader (Some (index_file mi dt)) validate = Inr fir"
    "GetDocTableReader fir = Inr dtr" "GetIndexTableReader fir = Inr itr"
    "reads dtr enc_docname (chains_of (docid_to_docname dt))" "reads itr (enc_word (wdss mi)) (chains_of (index mi))"
proof -
  let ?f = "index_file mi dt"
  let ?d = "doctable_bytes dt"
  have f: "length ?f < 2 ^ 32" and inv: "ht_inv (docid_to_docname dt) m" "ht_inv (index mi) m"
    using assms(1) by (simp_all add: writable_def)
  obtain dtr where d: "new_HashTableReader ?f (of_nat 16) = Inr dtr"
    "reads dtr enc_docname (chains_of (docid_to_docname dt))"
    using new_HashTableReader_reads [OF index_file_tables(1) [unfolded doctable_bytes_def] f chains_of_nonempty [OF inv(1)]]
    by blast
  obtain itr where i: "new_HashTableReader ?f (of_nat (16 + length ?d)) = Inr itr"
    "reads itr (enc_word (wdss mi)) (chains_of (index mi))"
    using new_HashTableReader_reads [OF index_file_tables(2) [unfolded memindex_bytes_def] f chains_of_nonempty [OF inv(2)]]
    by blast
  let ?fir = "\<lparr>fir_file = ?f, fir_header = index_header mi dt\<rparr>"
  have "GetDocTableReader ?fir = Inr dtr" using d(1) by (simp add: GetDocTableReader_def)
  moreover have "GetIndexTableReader ?fir = Inr itr"
    using i(1) by (simp add: GetIndexTableReader_def index_header_def Let_def)
  ultimately show thesis using that index_file_opens [OF f] d(2) i(2) by blast
qed

text \<open>The documents of a word in the index in memory, as the file sees them.\<close>

definition word_docs :: "mem_index \<Rightarrow> string \<Rightarrow> u32 cells hash_table option" where
  "word_docs mi w =
     (case own_map (index mi) (wdss mi) (hash_string w) of
        None \<Rightarrow> None
      | Some wds \<Rightarrow> if word wds = w then Some (docIDs wds) else None)"

definition hashed :: "mem_index \<Rightarrow> bool" where
  "hashed mi \<longleftrightarrow> (\<forall>k wds. own_map (index mi) (wdss mi) k = Some wds \<longrightarrow> k = hash_string (word wds))"

lemma LookupWord_reads:
  assumes r: "reads r (enc_word (wdss mi)) (chains_of (index mi))" and inv: "ht_inv (index mi) m"
    and good: "\<forall>kv \<in> set (ht_items (index mi)). good_word (wdss mi) m kv" and h: "hashed mi"
  shows "\<exists>t. LookupWord r w = Inr t \<and>
    (case word_docs mi w of
       None \<Rightarrow> t = None
     | Some tab \<Rightarrow> (\<exists>t'. t = Some t' \<and> reads t' enc_positions (chains_of tab) \<and> ht_inv tab m))"
proof -
  let ?chain = "chains_of (index mi) ! bucket_of (num_buckets (index mi)) (hash_string w)"
  let ?P = "\<lambda>kv. word (the (wdss mi (kv_value kv))) = w"
  obtain ps where ps: "LookupElementPositions r (hash_string w) = Inr (map of_nat ps)"
    "elements_at (htr_file r) (enc_word (wdss mi)) ps ?chain"
    using LookupElementPositions_reads [OF r] by (metis length_chains_of [OF inv])
  have gc: "\<forall>kv \<in> set ?chain. good_word (wdss mi) m kv" using good chain_items [OF inv] by blast
  have "length (htr_file r) < 2 ^ 32" using r by (simp add: reads_def)
  from LookupWord_loop_finds [OF ps(2) gc this, of w] obtain t where
    t: "LookupWord r w = Inr t" "case find ?P ?chain of
       None \<Rightarrow> t = None
     | Some kv \<Rightarrow> (\<exists>r'. t = Some r' \<and> htr_file r' = htr_file r \<and>
         reads r' enc_positions (chains_of (docIDs (the (wdss mi (kv_value kv))))))"
    by (auto simp: LookupWord_def ps(1))
  have at: "own_map (index mi) (wdss mi) (kv_key kv) = wdss mi (kv_value kv) \<and> wdss mi (kv_value kv) \<noteq> None"
    if "kv \<in> set ?chain" for kv
  proof -
    have "ht_map (index mi) (kv_key kv) = Some (kv_value kv)"
      using chain_items [OF inv that] by (auto simp: ht_map_Some_iff [OF inv])
    with gc that show ?thesis by (auto simp: own_map_def good_word_def split: option.splits)
  qed
  show ?thesis
  proof (cases "find ?P ?chain")
    case (Some kv)
    then have kv: "kv \<in> set ?chain" "?P kv" by (auto simp: find_Some_iff)
    from at [OF kv(1)] obtain wds where w: "wdss mi (kv_value kv) = Some wds"
      "own_map (index mi) (wdss mi) (kv_key kv) = Some wds" by auto
    then have "kv_key kv = hash_string w" using h kv(2) by (auto simp: hashed_def)
    moreover have "ht_inv (docIDs wds) m" using gc kv(1) w(1) by (auto simp: good_word_def)
    ultimately show ?thesis using t Some w kv(2) by (auto simp: word_docs_def)
  next
    case None
    have "word_docs mi w = None"
    proof (rule ccontr)
      assume "word_docs mi w \<noteq> None"
      then obtain wds where w: "own_map (index mi) (wdss mi) (hash_string w) = Some wds" "word wds = w"
        by (auto simp: word_docs_def split: option.splits if_splits)
      then obtain p where p: "ht_map (index mi) (hash_string w) = Some p" "wdss mi p = Some wds"
        by (auto simp: own_map_def split: option.splits)
      with chain_finds [OF inv, of "hash_string w"] obtain kv where
        "find (\<lambda>kv. kv_key kv = hash_string w) ?chain = Some kv" "kv_value kv = p" by auto
      then have "kv \<in> set ?chain" "?P kv" using p(2) w(2) by (auto simp: find_Some_iff)
      with None show False by (auto simp: find_None_iff)
    qed
    with t None show ?thesis by simp
  qed
qed

end
