(* ===== verification/QueryProcessorProps.thy ===== *)
theory QueryProcessorProps
  imports QueryProcessor IndexReaderThms
begin

text \<open>
  Queries on the file of an index: the documents that match, with their ranks, in terms of the tables
  in memory from which the file was written.
\<close>

section \<open>The answer\<close>

text \<open>The positions of a word in a document, and the documents that contain all words.\<close>

definition word_count :: "mem_index \<Rightarrow> u64 \<Rightarrow> string \<Rightarrow> nat option" where
  "word_count mi d w =
     (case word_docs mi w of None \<Rightarrow> None | Some t \<Rightarrow> map_option length (ht_map t d))"

definition matches :: "mem_index \<Rightarrow> string list \<Rightarrow> u64 \<Rightarrow> bool" where
  "matches mi query d \<longleftrightarrow> (\<forall>w \<in> set query. word_count mi d w \<noteq> None)"

definition query_rank :: "mem_index \<Rightarrow> string list \<Rightarrow> u64 \<Rightarrow> nat" where
  "query_rank mi query d = (\<Sum>w\<leftarrow>query. the (word_count mi d w))"

definition answers :: "mem_index \<Rightarrow> doc_table \<Rightarrow> string list \<Rightarrow> QueryResult list \<Rightarrow> bool" where
  "answers mi dt query result \<longleftrightarrow>
     (\<exists>ds. distinct ds \<and> set ds = {d. matches mi query d} \<and>
        result = map (\<lambda>d. \<lparr>document_name = the (ht_map (docid_to_docname dt) d),
                            result_rank = of_nat (query_rank mi query d)\<rparr>) ds)"

text \<open>Every document of the index is in the document table.\<close>

definition registered :: "mem_index \<Rightarrow> doc_table \<Rightarrow> bool" where
  "registered mi dt \<longleftrightarrow>
     (\<forall>w t d. word_docs mi w = Some t \<longrightarrow> ht_map t d \<noteq> None \<longrightarrow> ht_map (docid_to_docname dt) d \<noteq> None)"

text \<open>The two readers of the file of an index.\<close>

definition serves :: "mem_index \<Rightarrow> doc_table \<Rightarrow> mem \<Rightarrow> HashTableReader \<times> HashTableReader \<Rightarrow> bool" where
  "serves mi dt m r \<longleftrightarrow>
     writable mi dt m \<and> hashed mi \<and> registered mi dt \<and>
     reads (fst r) enc_docname (chains_of (docid_to_docname dt)) \<and>
     reads (snd r) (enc_word (wdss mi)) (chains_of (index mi))"

lemma serves_LookupDocID:
  "serves mi dt m r \<Longrightarrow> DocTableReader_LookupDocID (fst r) d = Inr (ht_map (docid_to_docname dt) d)"
  by (rule DocTableReader_LookupDocID_ok) (auto simp: serves_def writable_def)

lemma serves_LookupWord:
  assumes "serves mi dt m r"
  obtains t where "LookupWord (snd r) w = Inr t"
    "case word_docs mi w of None \<Rightarrow> t = None
     | Some tab \<Rightarrow> (\<exists>t'. t = Some t' \<and> reads t' enc_positions (chains_of tab) \<and> ht_inv tab m)"
  using LookupWord_reads [of "snd r" mi m w] assms by (auto simp: serves_def writable_def)

section \<open>Narrowing down\<close>

text \<open>The documents found so far, with the rank for the words seen.\<close>

definition entries :: "mem_index \<Rightarrow> string list \<Rightarrow> u64 list \<Rightarrow> docid_element_header list" where
  "entries mi query ds = map (\<lambda>d. \<lparr>del_docid = d, num_positions = of_nat (query_rank mi query d)\<rparr>) ds"

lemma narrow_docids_ok:
  assumes "word_docs mi w = Some tab" "reads t enc_positions (chains_of tab)" "ht_inv tab m"
  shows "narrow_docids t (entries mi query ds)
    = Inr (entries mi (query @ [w]) (filter (\<lambda>d. word_count mi d w \<noteq> None) ds))"
proof (induction ds)
  case Nil
  then show ?case by (simp add: entries_def)
next
  case (Cons d ds)
  have l: "DocIDTableReader_LookupDocID t d = Inr (map_option (map snd) (ht_map tab d))"
    by (rule DocIDTableReader_LookupDocID_ok [OF assms(2,3)])
  show ?case
  proof (cases "ht_map tab d")
    case None
    then have "word_count mi d w = None" by (simp add: word_count_def assms(1))
    with Cons None show ?thesis by (simp add: entries_def l)
  next
    case (Some ps)
    then have "word_count mi d w = Some (length ps)" by (simp add: word_count_def assms(1))
    with Cons Some show ?thesis by (simp add: entries_def l query_rank_def)
  qed
qed

lemma narrow_words_ok:
  assumes "serves mi dt m r"
  shows "\<exists>res. narrow_words (snd r) ws (entries mi query ds) = Inr res \<and>
    (if \<forall>w \<in> set ws. word_docs mi w \<noteq> None
     then res = Some (entries mi (query @ ws) (filter (matches mi ws) ds))
     else res = None)"
proof (induction ws arbitrary: query ds)
  case Nil
  then show ?case by (simp add: matches_def)
next
  case (Cons w ws)
  obtain t where t: "LookupWord (snd r) w = Inr t"
    "case word_docs mi w of None \<Rightarrow> t = None
     | Some tab \<Rightarrow> (\<exists>t'. t = Some t' \<and> reads t' enc_positions (chains_of tab) \<and> ht_inv tab m)"
    by (rule serves_LookupWord [OF assms])
  show ?case
  proof (cases "word_docs mi w")
    case None
    with t show ?thesis by simp
  next
    case (Some tab)
    with t(2) obtain t' where t': "t = Some t'" "reads t' enc_positions (chains_of tab)" "ht_inv tab m" by auto
    let ?ds = "filter (\<lambda>d. word_count mi d w \<noteq> None) ds"
    have f: "filter (matches mi ws) ?ds = filter (matches mi (w # ws)) ds"
      by (simp add: matches_def fun_eq_iff cong: filter_cong)
    from Cons.IH [of "query @ [w]" ?ds] obtain res where
      "narrow_words (snd r) ws (entries mi (query @ [w]) ?ds) = Inr res"
      "if \<forall>w \<in> set ws. word_docs mi w \<noteq> None
       then res = Some (entries mi (query @ w # ws) (filter (matches mi (w # ws)) ds)) else res = None"
      unfolding f by auto
    then show ?thesis
      using Some by (intro exI [of _ res]) (simp add: t(1) t'(1) narrow_docids_ok [OF Some t'(2,3)])
  qed
qed

lemma result_names_ok:
  assumes "serves mi dt m r" "\<forall>d \<in> set ds. ht_map (docid_to_docname dt) d \<noteq> None"
  shows "result_names (fst r) (entries mi query ds)
    = Inr (map (\<lambda>d. \<lparr>document_name = the (ht_map (docid_to_docname dt) d),
                      result_rank = of_nat (query_rank mi query d)\<rparr>) ds)"
  using assms(2) by (induction ds) (auto simp: entries_def serves_LookupDocID [OF assms(1)])

lemma ProcessQuerySingleIndex_ok:
  assumes s: "serves mi dt m r" and q: "query \<noteq> []"
  shows "\<exists>result. ProcessQuerySingleIndex query (fst r) (snd r) = Inr result \<and> answers mi dt query result"
proof -
  obtain w ws where query: "query = w # ws" using q by (cases query) auto
  obtain t where t: "LookupWord (snd r) w = Inr t"
    "case word_docs mi w of None \<Rightarrow> t = None
     | Some tab \<Rightarrow> (\<exists>t'. t = Some t' \<and> reads t' enc_positions (chains_of tab) \<and> ht_inv tab m)"
    by (rule serves_LookupWord [OF s])
  have none: "answers mi dt query []" if "\<exists>w \<in> set query. word_docs mi w = None"
  proof -
    have "\<not> matches mi query d" for d using that by (force simp: matches_def word_count_def)
    then show ?thesis by (simp add: answers_def)
  qed
  show ?thesis
  proof (cases "word_docs mi w")
    case None
    then show ?thesis using t none query by (auto simp: ProcessQuerySingleIndex_def)
  next
    case (Some tab)
    with t(2) obtain t' where t': "t = Some t'" "reads t' enc_positions (chains_of tab)" "ht_inv tab m" by auto
    let ?ds = "map kv_key (ht_items tab)"
    have mem: "d \<in> set ?ds \<longleftrightarrow> ht_map tab d \<noteq> None" for d
      using ht_map_Some_iff [OF t'(3)] by (auto simp: image_iff)
    have wc: "word_count mi d w \<noteq> None \<longleftrightarrow> d \<in> set ?ds" for d
      using mem by (simp add: word_count_def Some)
    have "docid_entry kv = \<lparr>del_docid = kv_key kv, num_positions = of_nat (query_rank mi [w] (kv_key kv))\<rparr>"
      if "kv \<in> set (ht_items tab)" for kv
    proof -
      have "ht_map tab (kv_key kv) = Some (kv_value kv)" using that by (auto simp: ht_map_Some_iff [OF t'(3)])
      then show ?thesis by (simp add: docid_entry_def query_rank_def word_count_def Some)
    qed
    then have l: "GetDocIDList t' = Inr (entries mi [w] ?ds)"
      by (simp add: GetDocIDList_ok [OF t'(2)] entries_def)
    obtain res where res: "narrow_words (snd r) ws (entries mi [w] ?ds) = Inr res"
      "if \<forall>w \<in> set ws. word_docs mi w \<noteq> None
       then res = Some (entries mi query (filter (matches mi ws) ?ds)) else res = None"
      using narrow_words_ok [OF s, of ws "[w]" ?ds] query by auto
    show ?thesis
    proof (cases "\<forall>w \<in> set ws. word_docs mi w \<noteq> None")
      case True
      let ?fs = "filter (matches mi ws) ?ds"
      have "set ?fs = {d. matches mi query d}" using wc by (auto simp: matches_def query)
      moreover have "distinct ?fs" using ht_invD(7) [OF t'(3)] by simp
      moreover have "\<forall>d \<in> set ?fs. ht_map (docid_to_docname dt) d \<noteq> None"
        using s mem Some by (simp add: serves_def registered_def)
      then have "result_names (fst r) (entries mi query ?fs)
        = Inr (map (\<lambda>d. \<lparr>document_name = the (ht_map (docid_to_docname dt) d),
                      result_rank = of_nat (query_rank mi query d)\<rparr>) ?fs)"
        by (rule result_names_ok [OF s])
      ultimately show ?thesis
        using t(1) t'(1) l res True unfolding answers_def query
        by (auto simp: ProcessQuerySingleIndex_def)
    next
      case False
      then have "\<exists>w \<in> set query. word_docs mi w = None" by (auto simp: query)
      with none False t(1) t'(1) l res show ?thesis by (auto simp: ProcessQuerySingleIndex_def query)
    qed
  qed
qed

section \<open>Several indices\<close>

text \<open>What \<^verbatim>\<open>std::sort\<close> promises for \<^verbatim>\<open>operator<\<close> of the results.\<close>

definition sorts :: "(QueryResult list \<Rightarrow> QueryResult list) \<Rightarrow> bool" where
  "sorts f \<longleftrightarrow> (\<forall>rs. mset (f rs) = mset rs \<and> sorted_wrt (\<lambda>x y. \<not> QueryResult_less y x) (f rs))"

definition index_ok :: "(string \<Rightarrow> u8 list option) \<Rightarrow> mem \<Rightarrow> string \<Rightarrow> mem_index \<times> doc_table \<Rightarrow> bool" where
  "index_ok fs m idx x \<longleftrightarrow>
     (case x of (mi, dt) \<Rightarrow> fs idx = Some (index_file mi dt) \<and> writable mi dt m \<and> hashed mi \<and> registered mi dt)"

lemma index_readers:
  assumes "writable mi dt m" "hashed mi" "registered mi dt"
  obtains fir dtr itr where "new_FileIndexReader (Some (index_file mi dt)) validate = Inr fir"
    "GetDocTableReader fir = Inr dtr" "GetIndexTableReader fir = Inr itr" "serves mi dt m (dtr, itr)"
proof -
  obtain fir dtr itr where "new_FileIndexReader (Some (index_file mi dt)) validate = Inr fir"
    "GetDocTableReader fir = Inr dtr" "GetIndexTableReader fir = Inr itr"
    "reads dtr enc_docname (chains_of (docid_to_docname dt))" "reads itr (enc_word (wdss mi)) (chains_of (index mi))"
    using index_file_readers [OF assms(1)] .
  with assms that show thesis by (simp add: serves_def)
qed

lemma copy_HashTableReader_same [simp]: "copy_HashTableReader r = r"
  by (simp add: copy_HashTableReader_def)

lemma open_indices_ok:
  "list_all2 (index_ok fs m) idxs xs \<Longrightarrow>
     \<exists>rs. open_indices fs validate idxs = Inr rs \<and> list_all2 (\<lambda>x r. serves (fst x) (snd x) m r) xs rs"
proof (induction idxs xs rule: list_all2_induct)
  case (Cons idx idxs x xs)
  obtain mi dt where x: "x = (mi, dt)" by (cases x)
  with Cons.hyps(1) have "fs idx = Some (index_file mi dt)" "writable mi dt m" "hashed mi" "registered mi dt"
    by (simp_all add: index_ok_def)
  moreover obtain fir dtr itr where "new_FileIndexReader (Some (index_file mi dt)) validate = Inr fir"
    "GetDocTableReader fir = Inr dtr" "GetIndexTableReader fir = Inr itr" "serves mi dt m (dtr, itr)"
    using index_readers [OF calculation(2-4)] .
  ultimately show ?case using Cons.IH x by auto
qed simp

lemma query_indices_ok:
  assumes "list_all2 (\<lambda>x r. serves (fst x) (snd x) m r) xs rs" "query \<noteq> []"
  shows "\<exists>results. query_indices query rs = Inr (concat results) \<and>
    list_all2 (\<lambda>x result. answers (fst x) (snd x) query result) xs results"
  using assms(1)
proof (induction xs rs rule: list_all2_induct)
  case Nil
  then show ?case by (auto intro: exI [of _ "[]"])
next
  case (Cons x xs r rs)
  from ProcessQuerySingleIndex_ok [OF Cons.hyps(1) assms(2)] obtain result where
    r: "ProcessQuerySingleIndex query (fst r) (snd r) = Inr result" "answers (fst x) (snd x) query result" by blast
  from Cons.IH obtain results where "query_indices query rs = Inr (concat results)"
    "list_all2 (\<lambda>x result. answers (fst x) (snd x) query result) xs results" by blast
  with r show ?case by (intro exI [of _ "result # results"]) simp
qed

text \<open>The results of a query: those of every index, best first.\<close>

definition all_answers :: "(mem_index \<times> doc_table) list \<Rightarrow> string list \<Rightarrow> QueryResult list \<Rightarrow> bool" where
  "all_answers xs query result \<longleftrightarrow>
     sorted_wrt (\<lambda>x y. result_rank x \<ge> result_rank y) result \<and>
     (\<exists>results. list_all2 (\<lambda>x r. answers (fst x) (snd x) query r) xs results \<and> mset result = mset (concat results))"

definition processes :: "(mem_index \<times> doc_table) list \<Rightarrow> mem \<Rightarrow> QueryProcessor \<Rightarrow> bool" where
  "processes xs m qp \<longleftrightarrow>
     arraylen qp = of_nat (length xs) \<and> length xs < 2 ^ 32 \<and> length (dtr_array qp) = length (itr_array qp) \<and>
     list_all2 (\<lambda>x r. serves (fst x) (snd x) m r) xs (zip (dtr_array qp) (itr_array qp))"

lemma new_QueryProcessor_ok:
  assumes "list_all2 (index_ok fs m) idxs xs" "idxs \<noteq> []" "length idxs < 2 ^ 32"
  shows "\<exists>qp. new_QueryProcessor fs idxs validate = Inr qp \<and> processes xs m qp"
proof -
  obtain rs where rs: "open_indices fs validate idxs = Inr rs" "list_all2 (\<lambda>x r. serves (fst x) (snd x) m r) xs rs"
    using open_indices_ok [OF assms(1)] by blast
  have len: "length xs = length idxs" using assms(1) by (simp add: list_all2_lengthD)
  have "(of_nat (length idxs) :: u32) \<noteq> 0" using of_nat_u32_eq_0_iff [OF assms(3)] assms(2) by simp
  then have pos: "0 < (of_nat (length idxs) :: u32)" by (simp only: word_neq_0_conv)
  have "new_QueryProcessor fs idxs validate
      = Inr \<lparr>arraylen = of_nat (length idxs), dtr_array = map fst rs, itr_array = map snd rs\<rparr>"
    using pos rs(1) unat_of_nat_u32 [OF assms(3)] by (simp add: new_QueryProcessor_def Let_def)
  then show ?thesis using rs(2) len assms(3) by (simp add: processes_def zip_map_fst_snd)
qed

lemma QP_ProcessQuery_ok:
  assumes "processes xs m qp" "query \<noteq> []" "sorts std_sort"
  shows "\<exists>result. QP_ProcessQuery std_sort qp query = Inr result \<and> all_answers xs query result"
proof -
  let ?rs = "zip (dtr_array qp) (itr_array qp)"
  have p: "list_all2 (\<lambda>x r. serves (fst x) (snd x) m r) xs ?rs" "arraylen qp = of_nat (length xs)" "length xs < 2 ^ 32"
    using assms(1) by (simp_all add: processes_def)
  have "length ?rs = length xs" using p(1) by (simp add: list_all2_lengthD)
  then have t: "take (unat (arraylen qp)) ?rs = ?rs" using unat_of_nat_u32 [OF p(3)] by (simp add: p(2))
  obtain results where r: "query_indices query ?rs = Inr (concat results)"
    "list_all2 (\<lambda>x result. answers (fst x) (snd x) query result) xs results"
    using query_indices_ok [OF p(1) assms(2)] by blast
  have "QP_ProcessQuery std_sort qp query = Inr (std_sort (concat results))"
    using assms(2) r(1) unfolding QP_ProcessQuery_def t by simp
  moreover have "mset (std_sort (concat results)) = mset (concat results)"
    "sorted_wrt (\<lambda>x y. result_rank x \<ge> result_rank y) (std_sort (concat results))"
    using assms(3) by (simp_all add: sorts_def QueryResult_less_def not_less)
  ultimately show ?thesis using r(2) by (auto simp: all_answers_def)
qed

end
