(* ===== verification/IndexThms.thy ===== *)
theory IndexThms
  imports QueryProcessorProps FileSearchShell MemIndexProps
begin

text \<open>
  The properties of the index files: what is written can be read back, damaged files are rejected,
  queries over several files are answered from the tables they were written from, and the shell.
\<close>

section \<open>An index for the witnesses\<close>

definition demo_names :: "string hash_table" where
  "demo_names = \<lparr>num_buckets = 1, ht_num_elements = 2, buckets = [[(40, 41), (42, 43)]],
     kvs = [41 \<mapsto> kv_of 1 ''a.txt'', 43 \<mapsto> kv_of 2 ''b.txt'']\<rparr>"

definition demo_dt :: doc_table where
  "demo_dt = \<lparr>docid_to_docname = demo_names, docname_to_docid = empty_table 1, max_id = 2\<rparr>"

lemma demo_names_inv: "ht_inv demo_names demo_mem50"
  by (simp_all add: ht_inv_def demo_names_def demo_mem50_def total_def ht_items_def insert_commute)

lemma demo_names_map: "ht_map demo_names = [1 \<mapsto> ''a.txt'', 2 \<mapsto> ''b.txt'']"
  by (auto simp: demo_names_def ht_map_def ht_items_def fun_eq_iff)

lemma demo_top_items: "ht_items (demo_top k k') = [kv_of k 10, kv_of k' 11]"
  by (simp add: demo_top_def ht_items_def)

lemma demo_chains:
  "chains_of demo_names = [[kv_of 1 ''a.txt'', kv_of 2 ''b.txt'']]"
  "chains_of (demo_top k k') = [[kv_of k 10, kv_of k' 11]]"
  "chains_of demo_cat = [[kv_of 1 [(30, 0), (31, 8)], kv_of 2 [(32, 4)]]]"
  "chains_of demo_dog = [[kv_of 2 [(33, 0), (34, 9)]]]"
  by (simp_all add: chains_of_def demo_names_def demo_top_def demo_cat_def demo_dog_def)

lemma demo_length: "length (index_file demo_index demo_dt) = 196"
  by (simp add: length_index_file doctable_bytes_def memindex_bytes_def length_enc_table length_enc_bucket
      demo_dt_def demo_index_def demo_chains enc_docname_def length_enc_word length_enc_positions kv_of_def)

lemma demo_writable: "writable demo_index demo_dt demo_mem50"
proof -
  have "\<forall>kv \<in> set (ht_items (docid_to_docname demo_dt)). good_name demo_mem50 kv"
    by (auto simp: demo_dt_def demo_names_def ht_items_def good_name_def storable_def kv_of_def)
  moreover have "\<forall>kv \<in> set (ht_items (index demo_index)). good_word (wdss demo_index) demo_mem50 kv"
    using demo_docs_inv
    by (auto simp: demo_index_def demo_top_items good_word_def storable_def kv_of_def)
      (auto simp: demo_cat_def demo_dog_def ht_items_def kv_of_def)
  ultimately show ?thesis
    using demo_names_inv demo_top_inv [OF cat_dog(1)] demo_length by (simp add: writable_def) (simp add: demo_dt_def demo_index_def)
qed

lemma demo_own:
  "own_map (index demo_index) (wdss demo_index)
     = [hash_string ''cat'' \<mapsto> \<lparr>word = ''cat'', docIDs = demo_cat\<rparr>,
        hash_string ''dog'' \<mapsto> \<lparr>word = ''dog'', docIDs = demo_dog\<rparr>]"
  using cat_dog unfolding own_map_def demo_index_map by (auto simp: demo_index_def fun_eq_iff)

lemma demo_hashed: "hashed demo_index"
  unfolding hashed_def demo_own using cat_dog by auto

lemma demo_word_docs:
  "word_docs demo_index w = (if w = ''cat'' then Some demo_cat else if w = ''dog'' then Some demo_dog else None)"
  using cat_dog unfolding word_docs_def demo_own by auto

lemma demo_registered: "registered demo_index demo_dt"
  unfolding registered_def demo_word_docs
  by (auto simp: demo_dt_def demo_names_map demo_docs_map split: if_splits)

lemma demo_mem50_spare: "spare_frame demo_mem50"
  by (simp add: demo_mem50_def)

definition empty_stream :: stream where
  "empty_stream = \<lparr>file_bytes = [], file_pos = 0, io_count = 0, io_fails = (\<lambda>_. False)\<rparr>"

lemma empty_stream_sound: "sound empty_stream" "file_bytes empty_stream = []"
  by (simp_all add: sound_def empty_stream_def)

section \<open>Writing and reading\<close>

text \<open>
  C5: What \<^verbatim>\<open>WriteIndex\<close> writes can be read back: if no operation on the file fails, memory does not run
  out, the names, words and tables fit their fields, and the four bytes behind the local variable
  into which the writer stores a pointer (a variable of four bytes) are unused, it returns the length of the file, \<^verbatim>\<open>FileIndexReader\<close> accepts the
  file, its document table gives the name of every document id, and its index gives for every word the
  documents with their numbers of positions and, for every document, the positions in their order.
\<close>

theorem WriteIndex_then_read:
  assumes "writable mi dt m" "hashed mi" "reliable m" "sound s" "file_bytes s = []" "spare_frame m"
  shows "\<exists>f m' fir dtr itr. WriteIndex mi dt (Some s) m = Inr (of_nat (length f), Some f, m') \<and>
     new_FileIndexReader (Some f) True = Inr fir \<and>
     GetDocTableReader fir = Inr dtr \<and> GetIndexTableReader fir = Inr itr \<and>
     (\<forall>d. DocTableReader_LookupDocID dtr d = Inr (ht_map (docid_to_docname dt) d)) \<and>
     (\<forall>w. case word_docs mi w of
        None \<Rightarrow> LookupWord itr w = Inr None
      | Some t \<Rightarrow> \<exists>r. LookupWord itr w = Inr (Some r) \<and>
          GetDocIDList r = Inr (map docid_entry (ht_items t)) \<and>
          (\<forall>d. DocIDTableReader_LookupDocID r d = Inr (map_option (map snd) (ht_map t d))))"
proof -
  obtain m' where w: "WriteIndex mi dt (Some s) m
      = Inr (of_nat (length (index_file mi dt)), Some (index_file mi dt), m')"
    using WriteIndex_layout [OF assms(1,3,4,5,6)] by blast
  obtain fir dtr itr where r: "new_FileIndexReader (Some (index_file mi dt)) True = Inr fir"
    "GetDocTableReader fir = Inr dtr" "GetIndexTableReader fir = Inr itr"
    "reads dtr enc_docname (chains_of (docid_to_docname dt))" "reads itr (enc_word (wdss mi)) (chains_of (index mi))"
    using index_file_readers [OF assms(1)] .
  have "DocTableReader_LookupDocID dtr d = Inr (ht_map (docid_to_docname dt) d)" for d
    using assms(1) by (intro DocTableReader_LookupDocID_ok [OF r(4)]) (auto simp: writable_def)
  moreover have "case word_docs mi w of
        None \<Rightarrow> LookupWord itr w = Inr None
      | Some t \<Rightarrow> \<exists>r. LookupWord itr w = Inr (Some r) \<and>
          GetDocIDList r = Inr (map docid_entry (ht_items t)) \<and>
          (\<forall>d. DocIDTableReader_LookupDocID r d = Inr (map_option (map snd) (ht_map t d)))" for w
    using LookupWord_reads [OF r(5) _ _ assms(2), of m w] assms(1) GetDocIDList_ok DocIDTableReader_LookupDocID_ok
    by (auto simp: writable_def split: option.splits)
  ultimately show ?thesis using w r(1-3) by blast
qed

lemma WriteIndex_then_read_witness:
  "\<exists>f m' fir dtr itr r. WriteIndex demo_index demo_dt (Some empty_stream) demo_mem50 = Inr (of_nat (length f), Some f, m') \<and>
     new_FileIndexReader (Some f) True = Inr fir \<and>
     GetDocTableReader fir = Inr dtr \<and> GetIndexTableReader fir = Inr itr \<and>
     DocTableReader_LookupDocID dtr 2 = Inr (Some ''b.txt'') \<and> LookupWord itr ''cow'' = Inr None \<and>
     LookupWord itr ''dog'' = Inr (Some r) \<and> DocIDTableReader_LookupDocID r 2 = Inr (Some [0, 9])"
proof -
  from WriteIndex_then_read [OF demo_writable demo_hashed demo_mem50_reliable empty_stream_sound demo_mem50_spare]
  obtain f m' fir dtr itr where w: "WriteIndex demo_index demo_dt (Some empty_stream) demo_mem50
      = Inr (of_nat (length f), Some f, m')"
    "new_FileIndexReader (Some f) True = Inr fir" "GetDocTableReader fir = Inr dtr" "GetIndexTableReader fir = Inr itr"
    and d: "\<forall>d. DocTableReader_LookupDocID dtr d = Inr (ht_map (docid_to_docname demo_dt) d)"
    and i: "\<forall>w. case word_docs demo_index w of
        None \<Rightarrow> LookupWord itr w = Inr None
      | Some t \<Rightarrow> \<exists>r. LookupWord itr w = Inr (Some r) \<and>
          GetDocIDList r = Inr (map docid_entry (ht_items t)) \<and>
          (\<forall>d. DocIDTableReader_LookupDocID r d = Inr (map_option (map snd) (ht_map t d)))" by blast
  have "DocTableReader_LookupDocID dtr 2 = Inr (Some ''b.txt'')"
    using d [rule_format, of 2] by (simp add: demo_dt_def demo_names_map)
  moreover have "LookupWord itr ''cow'' = Inr None"
    using i [rule_format, of "''cow''"] by (simp add: demo_word_docs)
  moreover obtain r where "LookupWord itr ''dog'' = Inr (Some r)" "DocIDTableReader_LookupDocID r 2 = Inr (Some [0, 9])"
    using i [rule_format, of "''dog''"] by (auto simp: demo_word_docs demo_docs_map)
  ultimately show ?thesis using w by blast
qed

text \<open>
  C31: A damaged index file does not get past the constructor of \<^verbatim>\<open>FileIndexReader\<close>: a file with the
  right header but another length is rejected with and without validation, and with validation a file
  in which any one byte behind the header is wrong is rejected, too.
\<close>

theorem damaged_index_rejected:
  assumes "length (index_file mi dt) < 2 ^ 32"
  shows "(\<forall>f validate. take 16 f = take 16 (index_file mi dt) \<and> length f < 2 ^ 32 \<and>
       length f \<noteq> length (index_file mi dt) \<longrightarrow>
       new_FileIndexReader (Some f) validate = Inl VerificationFailure) \<and>
     (\<forall>i b. 16 \<le> i \<and> i < length (index_file mi dt) \<and> b \<noteq> index_file mi dt ! i \<longrightarrow>
       new_FileIndexReader (Some ((index_file mi dt)[i := b])) True = Inl VerificationFailure)"
proof (intro conjI allI impI; elim conjE)
  let ?g = "index_file mi dt"
  let ?h = "IndexFileHeader_toHostFormat (IndexFileHeader_of_image (take 16 ?g))"
  have g: "16 \<le> length ?g" by (simp add: length_index_file)
  have ok: "of_nat (length ?g) = 16 + doctable_size ?h + index_size ?h" "crc32_reference (drop 16 ?g) = checksum ?h"
    using index_file_opens [OF assms, of True] g unfolding new_FileIndexReader_small [OF assms]
    by (auto simp: Let_def split: if_splits)
  {
    fix f validate assume f: "take 16 f = take 16 ?g" "length f < 2 ^ 32" "length f \<noteq> length ?g"
    have "(of_nat (length f) :: u32) \<noteq> of_nat (length ?g)" using f(2,3) assms by (simp add: of_nat_u32_inj)
    then show "new_FileIndexReader (Some f) validate = Inl VerificationFailure"
      unfolding new_FileIndexReader_small [OF f(2)] f(1) ok(1) by (simp add: Let_def)
  next
    fix i b assume i: "16 \<le> i" "i < length ?g" "b \<noteq> ?g ! i"
    let ?f = "?g[i := b]"
    have len: "length ?f < 2 ^ 32" using assms by simp
    have t: "take 16 ?f = take 16 ?g" using i(1) by simp
    have "drop 16 ?g = take (i - 16) (drop 16 ?g) @ ?g ! i # drop (Suc i) ?g"
      using i(1,2) id_take_nth_drop [of "i - 16" "drop 16 ?g"] by simp
    moreover have "drop 16 ?f = take (i - 16) (drop 16 ?g) @ b # drop (Suc i) ?g"
      using i(1,2) upd_conv_take_nth_drop [of "i - 16" "drop 16 ?g" b] by (simp add: drop_update_swap)
    ultimately have "crc32_reference (drop 16 ?f) \<noteq> crc32_reference (drop 16 ?g)"
      using crc32_reference_change [OF i(3)] by metis
    then show "new_FileIndexReader (Some ?f) True = Inl VerificationFailure"
      unfolding new_FileIndexReader_small [OF len] t by (simp add: Let_def ok(2))
  }
qed

lemma damaged_index_rejected_witness:
  "new_FileIndexReader (Some (index_file demo_index demo_dt @ [0])) False = Inl VerificationFailure \<and>
   new_FileIndexReader (Some ((index_file demo_index demo_dt)[20 := index_file demo_index demo_dt ! 20 + 1])) True
     = Inl VerificationFailure"
proof -
  have len: "length (index_file demo_index demo_dt) < 2 ^ 32" by (simp add: demo_length)
  note D = damaged_index_rejected [OF len]
  have "take 16 (index_file demo_index demo_dt @ [0]) = take 16 (index_file demo_index demo_dt)"
    "length (index_file demo_index demo_dt @ [0]) < 2 ^ 32" by (simp_all add: demo_length)
  moreover have "(16 :: nat) \<le> 20" "20 < length (index_file demo_index demo_dt)" by (simp_all add: demo_length)
  moreover have "index_file demo_index demo_dt ! 20 + 1 \<noteq> index_file demo_index demo_dt ! 20" by simp
  ultimately show ?thesis using D by (metis append_eq_conv_conj length_append_singleton n_not_Suc_n)
qed

text \<open>
  A failure inside the table of a word is not reported. When writing the nested table fails and
  returns \<open>0\<close> while the operations after it work, \<^verbatim>\<open>WriteWordDocSetFn\<close> still returns a positive size,
  the one of the header and the word, and has recorded a table of \<open>0\<close> bytes.
\<close>

theorem WriteWordDocSetFn_ignores_failure:
  assumes "kv_value kv \<noteq> NULL" "store (kv_value kv) = Some wds" "storable (word wds)" "off + 6 + length (word wds) < 2 ^ 32"
    and "WriteHashTable WriteDocPositionListFn (docIDs wds) (of_nat (off + 6 + length (word wds))) s m
       = Inr (0, s1, m1)"
    and "sound s1"
  shows "\<exists>s'. WriteWordDocSetFn store kv (of_nat off) s m = Inr (of_nat (6 + length (word wds)), s', m1) \<and>
     read_at (file_bytes s') off (6 + length (word wds))
       = Some (be_bytes 2 (of_nat (length (word wds)) :: u16) @ be_bytes 4 (0 :: u32) @ bytes_of (word wds))"
proof -
  have nn: "(kv_value kv \<noteq> NULL) = True" using assms(1) by simp
  let ?w = "word wds"
  let ?h = "be_bytes 2 (of_nat (length ?w) :: u16) @ be_bytes 4 (0 :: u32)"
  have w: "bytes_of ?w \<noteq> []" "length ?w < 2 ^ 16" using assms(3) by (simp_all add: storable_def)
  have lh: "length ?h = 6" by simp
  have u: "unat (of_nat off :: u32) = off" using assms(4) by (intro unat_of_nat_u32) simp
  obtain s2 where s2: "\<And>k. if_ok (fseek off s1) m1 (\<lambda>s. if_ok (fwrite ?h s) m1 k) = k s2"
    "wrote (chunk off ?h) (off + 6) s1 s2" "file_pos s2 = off + 6"
    using if_ok_seek_write_of [OF assms(6) lh, of off m1] by auto
  have c: "chunk off (?h @ bytes_of ?w) = chunk off ?h ++ chunk (off + 6) (bytes_of ?w)"
    unfolding chunk_append [of off ?h] lh ..
  obtain s3 where s3: "\<And>k. if_ok (fwrite (bytes_of ?w) s2) m1 k = k s3"
    "wrote (chunk off (?h @ bytes_of ?w)) (off + 6 + length (bytes_of ?w)) s1 s3"
    by (rule if_ok_write_on [OF s2(2) assms(6) w(1) s2(3) _ c, where m = m1]) auto
  have o: "of_nat off + 6 + ucast (of_nat (length ?w) :: u16) = (of_nat (off + 6 + length ?w) :: u32)"
    using ucast_of_nat_u16 [OF w(2)] by simp
  have "WriteWordDocSetFn store kv (of_nat off) s m = Inr (6 + of_nat (length ?w) + 0, s3, m1)"
    unfolding WriteWordDocSetFn_def nn Verify333_simps load_Some [where m = store and p = "kv_value kv", OF assms(2)] Let_def o
      assms(5) andThen_simps prod.case u worddocset_header_disk worddocset_header.simps s2(1)
      unat_of_nat_u16 [OF w(2)]
    unfolding ucast_of_nat_u16 [OF w(2)] using s3(1) by simp
  moreover have "chunk off (?h @ bytes_of ?w) \<subseteq>\<^sub>m chunk 0 (file_bytes s3)"
    using s3(2) unfolding wrote_def by (meson map_le_map_add map_le_trans)
  from chunk_le [OF this] have "read_at (file_bytes s3) off (6 + length ?w) = Some (?h @ bytes_of ?w)"
    by (simp add: read_at_def)
  ultimately show ?thesis by simp
qed

text \<open>A stream whose first operation fails, and an index of one word.\<close>

definition broken_stream :: stream where
  "broken_stream = \<lparr>file_bytes = [], file_pos = 0, io_count = 0, io_fails = (\<lambda>i. i = 0)\<rparr>"

lemma le_bytes_few:
  "le_bytes 2 x = [ucast x, ucast (drop_bit 8 x)]"
  "le_bytes 4 x = [ucast x, ucast (drop_bit 8 x), ucast (drop_bit 8 (drop_bit 8 x)),
     ucast (drop_bit 8 (drop_bit 8 (drop_bit 8 x)))]"
proof -
  have n: "(2 :: nat) = Suc (Suc 0)" "(4 :: nat) = Suc (Suc (Suc (Suc 0)))" by simp_all
  show "le_bytes 2 x = [ucast x, ucast (drop_bit 8 x)]" by (simp only: n(1) le_bytes.simps)
  show "le_bytes 4 x = [ucast x, ucast (drop_bit 8 x), ucast (drop_bit 8 (drop_bit 8 x)),
     ucast (drop_bit 8 (drop_bit 8 (drop_bit 8 x)))]" by (simp only: n(2) le_bytes.simps)
qed

lemma WriteWordDocSetFn_ignores_failure_witness:
  "\<exists>s'. WriteWordDocSetFn (wdss demo_index) (kv_of 7 11) 100 broken_stream demo_mem50 = Inr (9, s', demo_mem50) \<and>
     read_at (file_bytes s') 100 9 = Some [0, 3, 0, 0, 0, 0, 100, 111, 103]"
proof -
  let ?s1 = "broken_stream\<lparr>io_count := 1\<rparr>"
  have st: "wdss demo_index (kv_value (kv_of 7 11)) = Some \<lparr>word = ''dog'', docIDs = demo_dog\<rparr>"
    by (simp add: demo_index_def kv_of_def)
  have f: "WriteHashTable WriteDocPositionListFn (docIDs \<lparr>word = ''dog'', docIDs = demo_dog\<rparr>)
      (of_nat (100 + 6 + length (word \<lparr>word = ''dog'', docIDs = demo_dog\<rparr>))) broken_stream demo_mem50
      = Inr (0, ?s1, demo_mem50)"
    by (simp add: WriteHashTable_def fseek_def io_step_def broken_stream_def if_ok_def Let_def)
  have demo_image: "be_bytes 2 (3 :: u16) = [0, 3]" "be_bytes 4 (0 :: u32) = [0, 0, 0, 0]"
    "bytes_of ''dog'' = [100, 111, 103]" by (simp_all add: be_bytes_def bytes_of_def le_bytes_few)
  from WriteWordDocSetFn_ignores_failure [where store = "wdss demo_index" and kv = "kv_of 7 11" and off = 100, OF _ st _ _ f] show ?thesis
    by (simp add: sound_def broken_stream_def storable_def demo_image kv_of_def)
qed

section \<open>Queries\<close>

text \<open>
  C7: A query processor over any number of index files answers a query with the documents of every
  file that contain all words of the query, each once with its name and with the number of
  occurrences of the words (modulo \<open>2 ^ 32\<close>) as its rank, the results of all files together in
  descending order of rank; the checksums may be validated or not. Nothing is assumed of
  \<^verbatim>\<open>std::sort\<close> but that it sorts.
\<close>

theorem ProcessQuery_over_files:
  assumes "list_all2 (index_ok fs m) idxs xs" "idxs \<noteq> []" "length idxs < 2 ^ 32"
    and "query \<noteq> []" "sorts std_sort"
  shows "\<exists>qp result. new_QueryProcessor fs idxs validate = Inr qp \<and>
     QP_ProcessQuery std_sort qp query = Inr result \<and> all_answers xs query result"
  using new_QueryProcessor_ok [OF assms(1-3), of validate] QP_ProcessQuery_ok [OF _ assms(4,5)] by blast

definition demo_fs :: "string \<Rightarrow> u8 list option" where
  "demo_fs = [''x.idx'' \<mapsto> index_file demo_index demo_dt]"

definition rank_sort :: "QueryResult list \<Rightarrow> QueryResult list" where
  "rank_sort = sort_key (\<lambda>r. - int (unat (result_rank r)))"

lemma sorts_rank_sort: "sorts rank_sort"
proof -
  have "sorted_wrt (\<lambda>x y. - int (unat (result_rank x)) \<le> - int (unat (result_rank y))) (rank_sort rs)" for rs
    using sorted_sort_key [of "\<lambda>r. - int (unat (result_rank r))" rs] by (simp add: rank_sort_def sorted_map)
  then show ?thesis
    by (simp add: sorts_def rank_sort_def QueryResult_less_def word_le_def not_less)
qed

lemma demo_index_ok: "list_all2 (index_ok demo_fs demo_mem50) [''x.idx'', ''x.idx''] [(demo_index, demo_dt), (demo_index, demo_dt)]"
  by (simp add: index_ok_def demo_fs_def demo_writable demo_hashed demo_registered)

lemma demo_matches: "matches demo_index [''cat'', ''dog''] d \<longleftrightarrow> d = 2"
  by (auto simp: matches_def word_count_def demo_word_docs demo_docs_map)

lemma ProcessQuery_over_files_witness:
  "\<exists>qp. new_QueryProcessor demo_fs [''x.idx'', ''x.idx''] True = Inr qp \<and>
     QP_ProcessQuery rank_sort qp [''cat'', ''dog''] =
       Inr (replicate 2 \<lparr>document_name = ''b.txt'', result_rank = 3\<rparr>)"
proof -
  let ?r = "\<lparr>document_name = ''b.txt'', result_rank = 3\<rparr>"
  let ?xs = "[(demo_index, demo_dt), (demo_index, demo_dt)]"
  from ProcessQuery_over_files [OF demo_index_ok, of "[''cat'', ''dog'']" rank_sort True] sorts_rank_sort
  obtain qp result where q: "new_QueryProcessor demo_fs [''x.idx'', ''x.idx''] True = Inr qp"
    "QP_ProcessQuery rank_sort qp [''cat'', ''dog''] = Inr result"
    and a: "all_answers ?xs [''cat'', ''dog''] result" by auto
  have one: "r = [?r]" if "answers demo_index demo_dt [''cat'', ''dog''] r" for r
  proof -
    from that obtain ds where ds: "distinct ds" "set ds = {2}"
      "r = map (\<lambda>d. \<lparr>document_name = the (ht_map (docid_to_docname demo_dt) d),
                     result_rank = of_nat (query_rank demo_index [''cat'', ''dog''] d)\<rparr>) ds"
      unfolding answers_def demo_matches by auto
    then have "length ds = 1" using distinct_card [OF ds(1)] by simp
    then have "ds = [2]" using ds(2) by (cases ds) auto
    then show ?thesis
      using ds(3) by (simp add: demo_dt_def demo_names_map query_rank_def word_count_def demo_word_docs demo_docs_map)
  qed
  from a obtain results where "list_all2 (\<lambda>x r. answers (fst x) (snd x) [''cat'', ''dog''] r) ?xs results"
    "mset result = mset (concat results)" unfolding all_answers_def by blast
  then obtain r1 r2 where "answers demo_index demo_dt [''cat'', ''dog''] r1"
    "answers demo_index demo_dt [''cat'', ''dog''] r2" "mset result = mset (r1 @ r2)" by (auto simp: list_all2_Cons1)
  then have "mset result = mset [?r, ?r]" using one [of r1] one [of r2] by simp
  from mset_eq_length [OF this] mset_eq_setD [OF this] have "length result = 2" "set result = {?r}" by simp_all
  then have "result = replicate 2 ?r" by (metis replicate_eqI singletonD)
  with q show ?thesis by blast
qed

section \<open>The shell\<close>

lemma getline_line: "newline_char \<notin> set l \<Longrightarrow> getline (l @ newline_char # rest) = (l, False, rest)"
  by (induction l) (auto simp: newline_char_def)

lemma getline_tail: "newline_char \<notin> set l \<Longrightarrow> getline l = (l, True, [])"
  by (induction l) (auto simp: newline_char_def)

definition input_lines :: "string list \<Rightarrow> string \<Rightarrow> string" where
  "input_lines lines rest = concat (map (\<lambda>l. l @ [newline_char]) lines) @ rest"

definition line_query :: "string \<Rightarrow> string list" where
  "line_query l = map (map tolower) (stream_words l)"

text \<open>The lines before the first one without a word.\<close>

definition answered :: "string list \<Rightarrow> string list" where
  "answered lines = takeWhile (\<lambda>l. stream_words l \<noteq> []) lines"

lemma answered_all: "(\<forall>l \<in> set lines. stream_words l \<noteq> []) \<Longrightarrow> answered lines = lines"
  by (simp add: answered_def)

lemma filesearchshell_loop_ok:
  assumes "processes xs m qp" "sorts std_sort" "newline_char \<notin> set rest"
  shows "\<forall>l \<in> set lines. newline_char \<notin> set l \<Longrightarrow>
     \<exists>results. filesearchshell_loop std_sort qp (input_lines lines rest)
          = (concat (map (\<lambda>r. enter_query # result_lines r) results) @ [enter_query],
             if \<exists>l \<in> set lines. stream_words l = [] then Inl VerificationFailure else Inr ()) \<and>
        list_all2 (\<lambda>l r. all_answers xs (line_query l) r) (answered lines) results"
proof (induction lines)
  case Nil
  then show ?case
    using getline_tail [OF assms(3)]
    by (simp add: input_lines_def answered_def filesearchshell_loop.simps [of _ _ rest])
next
  case (Cons l lines)
  let ?in = "input_lines lines rest"
  have g: "getline (input_lines (l # lines) rest) = (l, False, ?in)"
    using Cons.prems getline_line [of l ?in] by (simp add: input_lines_def)
  have step: "filesearchshell_loop std_sort qp (input_lines (l # lines) rest)
      = (case QP_ProcessQuery std_sort qp (line_query l) of
           Inl e \<Rightarrow> ([enter_query], Inl e)
         | Inr result \<Rightarrow> (case filesearchshell_loop std_sort qp ?in of (out, outcome) \<Rightarrow>
             (enter_query # result_lines result @ out, outcome)))"
    unfolding filesearchshell_loop.simps [of _ _ "input_lines (l # lines) rest"] g
    by (simp add: line_query_def)
  show ?case
  proof (cases "stream_words l = []")
    case True
    then show ?thesis unfolding step by (simp add: QP_ProcessQuery_def line_query_def answered_def)
  next
    case False
    then have "line_query l \<noteq> []" by (simp add: line_query_def)
    from QP_ProcessQuery_ok [OF assms(1) this assms(2)] obtain result where
      r: "QP_ProcessQuery std_sort qp (line_query l) = Inr result" "all_answers xs (line_query l) result" by blast
    from Cons obtain results where
      ih: "filesearchshell_loop std_sort qp ?in
          = (concat (map (\<lambda>r. enter_query # result_lines r) results) @ [enter_query],
             if \<exists>l \<in> set lines. stream_words l = [] then Inl VerificationFailure else Inr ())"
        "list_all2 (\<lambda>l r. all_answers xs (line_query l) r) (answered lines) results" by auto
    have "answered (l # lines) = l # answered lines" using False by (simp add: answered_def)
    with r(2) ih(2) have "list_all2 (\<lambda>l r. all_answers xs (line_query l) r) (answered (l # lines)) (result # results)"
      by simp
    moreover have "filesearchshell_loop std_sort qp (input_lines (l # lines) rest)
        = (concat (map (\<lambda>r. enter_query # result_lines r) (result # results)) @ [enter_query],
           if \<exists>l \<in> set (l # lines). stream_words l = [] then Inl VerificationFailure else Inr ())"
      unfolding step r(1) ih(1) using False by simp
    ultimately show ?thesis by blast
  qed
qed

lemma filesearchshell_main_ok:
  assumes "list_all2 (index_ok fs m) idxs xs" "idxs \<noteq> []" "length idxs < 2 ^ 32" "sorts std_sort"
    and "\<forall>l \<in> set lines. newline_char \<notin> set l" "newline_char \<notin> set rest"
  shows "\<exists>results. filesearchshell_main std_sort fs (prog # idxs) (input_lines lines rest)
         = (concat (map (\<lambda>r. enter_query # result_lines r) results) @ [enter_query],
            if \<exists>l \<in> set lines. stream_words l = [] then Inl VerificationFailure else Inr EXIT_SUCCESS) \<and>
       list_all2 (\<lambda>l r. all_answers xs (line_query l) r) (answered lines) results"
proof -
  obtain qp where qp: "new_QueryProcessor fs idxs True = Inr qp" "processes xs m qp"
    using new_QueryProcessor_ok [OF assms(1-3)] by blast
  have "\<not> length (prog # idxs) < 2" using assms(2) by (cases idxs) auto
  then have "filesearchshell_main std_sort fs (prog # idxs) inp
      = (case filesearchshell_loop std_sort qp inp of (out, outcome) \<Rightarrow>
           (out, andThen outcome (\<lambda>_. Inr EXIT_SUCCESS)))" for inp
    using qp(1) by (simp add: filesearchshell_main_def)
  with filesearchshell_loop_ok [OF qp(2) assms(4,6,5)] show ?thesis by (auto split: if_splits)
qed

text \<open>
  C8: A session with the shell of the index files: every complete line of input is answered with the
  documents of all files that contain all its words in lower case, best first, or with ``no results'';
  what stands behind the last end of line is ignored. At the first line without a word, however, the
  program ends with a failed verification instead of an answer: the lines before it have been answered
  on the screen, and no line after it is.
\<close>

theorem filesearchshell_session:
  assumes "list_all2 (index_ok fs m) idxs xs" "idxs \<noteq> []" "length idxs < 2 ^ 32" "sorts std_sort"
    and "\<forall>l \<in> set lines. newline_char \<notin> set l" "newline_char \<notin> set rest"
  shows "\<exists>results. filesearchshell_main std_sort fs (prog # idxs) (input_lines lines rest)
         = (concat (map (\<lambda>r. enter_query # result_lines r) results) @ [enter_query],
            if \<exists>l \<in> set lines. stream_words l = [] then Inl VerificationFailure else Inr EXIT_SUCCESS) \<and>
       list_all2 (\<lambda>l r. all_answers xs (line_query l) r)
         (takeWhile (\<lambda>l. stream_words l \<noteq> []) lines) results"
  using filesearchshell_main_ok [OF assms, of prog] unfolding answered_def .

lemma filesearchshell_session_witness:
  "(\<exists>result. filesearchshell_main rank_sort demo_fs [''shell'', ''x.idx''] (input_lines [''Cat dog'', '' '', ''cat''] ''do'')
     = ([enter_query] @ result_lines result @ [enter_query], Inl VerificationFailure) \<and>
      all_answers [(demo_index, demo_dt)] [''cat'', ''dog''] result) \<and>
   (\<exists>result. filesearchshell_main rank_sort demo_fs [''shell'', ''x.idx''] (input_lines [''Cat  DOG''] ''do'')
     = ([enter_query] @ result_lines result @ [enter_query], Inr EXIT_SUCCESS) \<and>
      all_answers [(demo_index, demo_dt)] [''cat'', ''dog''] result)"
proof -
  have ok: "list_all2 (index_ok demo_fs demo_mem50) [''x.idx''] [(demo_index, demo_dt)]"
    using demo_index_ok by simp
  have ns: "[''x.idx''] \<noteq> []" "length [''x.idx''] < 2 ^ 32" "newline_char \<notin> set ''do''" by (simp_all add: newline_char_def)
  note S = filesearchshell_session [OF ok ns(1,2) sorts_rank_sort _ ns(3)]
  have nl: "\<forall>l \<in> set [''Cat dog'', '' '', ''cat'']. newline_char \<notin> set l"
    "\<forall>l \<in> set [''Cat  DOG'']. newline_char \<notin> set l" by (simp_all add: newline_char_def)
  have sw: "stream_words '' '' = []" "stream_words ''Cat dog'' = [''Cat'', ''dog'']"
    "stream_words ''Cat  DOG'' = [''Cat'', ''DOG'']" by code_simp+
  have lq: "line_query ''Cat dog'' = [''cat'', ''dog'']" "line_query ''Cat  DOG'' = [''cat'', ''dog'']"
    unfolding line_query_def sw by code_simp+
  from S [OF nl(1), of "''shell''"] obtain r1 where
    "filesearchshell_main rank_sort demo_fs [''shell'', ''x.idx''] (input_lines [''Cat dog'', '' '', ''cat''] ''do'')
       = ([enter_query] @ result_lines r1 @ [enter_query], Inl VerificationFailure)"
    "all_answers [(demo_index, demo_dt)] [''cat'', ''dog''] r1"
    by (auto simp: sw lq list_all2_Cons1)
  moreover from S [OF nl(2), of "''shell''"] obtain r2 where
    "filesearchshell_main rank_sort demo_fs [''shell'', ''x.idx''] (input_lines [''Cat  DOG''] ''do'')
       = ([enter_query] @ result_lines r2 @ [enter_query], Inr EXIT_SUCCESS)"
    "all_answers [(demo_index, demo_dt)] [''cat'', ''dog''] r2"
    by (auto simp: sw lq list_all2_Cons1)
  ultimately show ?thesis by blast
qed

end
