(* ===== verification/IndexSize.thy ===== *)
theory IndexSize
  imports SearchShellThms IndexThms
begin

text \<open>
  How large the index file of a crawl can be: a bound in terms of the paths and the words of the
  documents. It uses the number of buckets of the tables, which grow by insertions only.
\<close>

section \<open>The length of a table\<close>

lemma length_enc_chain_size:
  assumes "\<And>kv off. kv \<in> set items \<Longrightarrow> length (enc kv off) \<le> size_of kv"
  shows "length (snd (enc_chain enc off items)) \<le> sum_list (map size_of items)"
  using assms by (induction items arbitrary: off) (auto intro!: add_mono)

lemma length_enc_buckets_size:
  assumes "\<And>kv off. kv \<in> set (concat cs) \<Longrightarrow> length (enc kv off) \<le> size_of kv"
  shows "length (snd (enc_buckets enc off cs)) \<le> sum_list (map (\<lambda>kv. 4 + size_of kv) (concat cs))"
  using assms
proof (induction cs arbitrary: off)
  case (Cons c cs)
  have four: "sum_list (map (\<lambda>kv. 4 + size_of kv) xs) = 4 * length xs + sum_list (map size_of xs)" for xs
    by (induction xs) simp_all
  have "length (enc_bucket enc off c) \<le> sum_list (map (\<lambda>kv. 4 + size_of kv) c)"
    using length_enc_chain_size [of c enc size_of "off + 4 * length c"] Cons.prems
    by (simp add: length_enc_bucket four)
  moreover have "length (snd (enc_buckets enc o' cs)) \<le> sum_list (map (\<lambda>kv. 4 + size_of kv) (concat cs))" for o'
    by (rule Cons.IH) (use Cons.prems in simp)
  ultimately show ?case by (simp add: add_mono)
qed simp

lemma length_enc_table_size:
  assumes "ht_inv ht m" "sized b ht" "card (dom (ht_map ht)) < 2 ^ 24"
    and "\<And>kv off. kv \<in> set (ht_items ht) \<Longrightarrow> length (enc kv off) \<le> size_of kv"
  shows "length (enc_table enc off (chains_of ht))
     \<le> 4 + 8 * b + sum_list (map (\<lambda>kv. 28 + size_of kv) (ht_items ht))"
proof -
  have "total ht < 2 ^ 24" using assms(3) total_card [OF assms(1)] by simp
  then have "length (chains_of ht) \<le> b + 3 * length (ht_items ht)"
    using assms(2) ht_invD(2) [OF assms(1)]
    by (simp add: sized_def chains_of_def total_def ht_items_def)
  moreover have "sum_list (map (\<lambda>kv. 28 + size_of kv) xs)
      = 24 * length xs + sum_list (map (\<lambda>kv. 4 + size_of kv) xs)" for xs :: "'a HTKeyValue list"
    by (induction xs) simp_all
  moreover have "length (snd (enc_buckets enc (off + 4 + 8 * length (chains_of ht)) (chains_of ht)))
      \<le> sum_list (map (\<lambda>kv. 4 + size_of kv) (ht_items ht))"
    using length_enc_buckets_size [of "chains_of ht" enc size_of] assms(4) unfolding concat_chains_of by simp
  ultimately show ?thesis unfolding length_enc_table by simp
qed

text \<open>Sums over the pairs of a table are sums over its map.\<close>

lemma sum_items:
  assumes "ht_inv ht m"
  shows "sum_list (map (\<lambda>kv. f (kv_key kv) (kv_value kv)) (ht_items ht))
     = (\<Sum>k \<in> dom (ht_map ht). f k (the (ht_map ht k)))"
proof -
  let ?ks = "map kv_key (ht_items ht)"
  have at: "ht_map ht (kv_key kv) = Some (kv_value kv)" if "kv \<in> set (ht_items ht)" for kv
    using that ht_map_Some_iff [OF assms] by blast
  have "dom (ht_map ht) = set ?ks" by (simp add: ht_map_def dom_map_of_conv_image_fst image_image)
  then have "(\<Sum>k \<in> dom (ht_map ht). f k (the (ht_map ht k))) = sum_list (map (\<lambda>k. f k (the (ht_map ht k))) ?ks)"
    using ht_invD(7) [OF assms] by (simp only: sum_list_distinct_conv_sum_set)
  also have "\<dots> = sum_list (map (\<lambda>kv. f (kv_key kv) (kv_value kv)) (ht_items ht))"
    unfolding map_map by (rule arg_cong [where f = sum_list], rule map_cong) (simp_all add: at)
  finally show ?thesis ..
qed

lemma finite_dom_ht_map [simp]: "finite (dom (ht_map ht))"
  by (simp add: ht_map_def finite_dom_map_of)

section \<open>The weight of a corpus\<close>

text \<open>The bytes that the entry of a word takes at most, and those of all entries.\<close>

definition entry_weight :: "string \<times> (u64 \<rightharpoonup> u32 list) \<Rightarrow> nat" where
  "entry_weight e = 222 + length (fst e) + (\<Sum>d \<in> dom (snd e). 128 + 4 * length (the (snd e d)))"

definition weight_at :: "index_view \<Rightarrow> u64 \<Rightarrow> nat" where
  "weight_at V key = (case V key of None \<Rightarrow> 0 | Some e \<Rightarrow> entry_weight e)"

definition word_weight :: "(string \<times> nat) list \<Rightarrow> nat" where
  "word_weight xs = sum_list (map (\<lambda>x. 354 + length (fst x)) xs)"

definition index_bound :: "bool \<Rightarrow> (string \<times> string) list \<Rightarrow> nat" where
  "index_bound flt docs = 9240 +
     sum_list (map (\<lambda>doc. 128 + length (fst doc) + word_weight (words_of flt (snd doc))) docs)"

definition finite_view :: "index_view \<Rightarrow> bool" where
  "finite_view V \<longleftrightarrow> finite (dom V) \<and> (\<forall>key w D. V key = Some (w, D) \<longrightarrow> finite (dom D))"

lemma noted_weight:
  "(case noted xs key of None \<Rightarrow> 0 | Some (w, ps) \<Rightarrow> 350 + length w + 4 * length ps)
     \<le> word_weight (occurrences xs key)"
proof -
  have "4 * length os \<le> word_weight os" for os
    by (induction os) (auto simp: word_weight_def)
  then show ?thesis
    by (auto simp: noted_def word_weight_def split: list.splits)
qed

lemma word_weight_keys:
  assumes "finite K"
  shows "(\<Sum>key \<in> K. word_weight (occurrences xs key)) \<le> word_weight xs"
proof (induction xs)
  case (Cons x xs)
  have "(\<Sum>key \<in> K. word_weight (occurrences (x # xs) key))
      = (\<Sum>key \<in> K. (if hash_string (fst x) = key then 354 + length (fst x) else 0)
           + word_weight (occurrences xs key))"
    by (intro sum.cong) (auto simp: occurrences_def word_weight_def split: prod.splits)
  also have "\<dots> \<le> 354 + length (fst x) + word_weight xs"
    unfolding sum.distrib using Cons.IH assms by (simp add: sum.delta)
  finally show ?case by (simp add: word_weight_def)
qed (simp add: occurrences_def word_weight_def)

lemma entry_weight_upd:
  assumes "finite (dom D)"
  shows "entry_weight (w, D(d \<mapsto> ps)) \<le> entry_weight (w, D) + 128 + 4 * length ps"
proof -
  let ?f = "\<lambda>D d. 128 + 4 * length (the (D d :: u32 list option))"
  let ?D = "D(d \<mapsto> ps)"
  have dom: "dom ?D = insert d (dom D)" by auto
  have "sum (?f ?D) (dom ?D) = ?f ?D d + sum (?f ?D) (dom D - {d})"
    unfolding dom using assms by (rule sum.insert_remove)
  also have "sum (?f ?D) (dom D - {d}) = sum (?f D) (dom D - {d})"
    by (intro sum.cong) auto
  also have "\<dots> \<le> sum (?f D) (dom D)"
    using assms by (intro sum_mono2) auto
  finally have le: "sum (?f ?D) (dom ?D) \<le> 128 + 4 * length ps + sum (?f D) (dom D)"
    by (simp only: fun_upd_same option.sel)
  have "entry_weight (w, ?D) = 222 + length w + sum (?f ?D) (dom ?D)"
    "entry_weight (w, D) = 222 + length w + sum (?f D) (dom D)"
    by (simp_all only: entry_weight_def fst_conv snd_conv)
  with le show ?thesis by (simp only:)
qed

lemma finite_noted: "finite (dom (noted xs))"
proof -
  have "dom (noted xs) \<subseteq> hash_string ` fst ` set xs"
  proof
    fix key assume "key \<in> dom (noted xs)"
    then have "occurrences xs key \<noteq> []" by (auto simp: noted_def split: list.splits)
    then show "key \<in> hash_string ` fst ` set xs"
      by (force simp: occurrences_def filter_empty_conv)
  qed
  then show ?thesis by (rule finite_subset) simp
qed

lemma finite_corpus: "finite_view (corpus flt docs)"
proof (induction docs rule: rev_induct)
  case (snoc doc docs)
  let ?T = "noted (words_of flt (snd doc))"
  have "dom (corpus flt (docs @ [doc])) \<subseteq> dom (corpus flt docs) \<union> dom ?T"
    by (auto simp: corpus_snoc add_table_def split: option.splits)
  then have "finite (dom (corpus flt (docs @ [doc])))"
    using snoc finite_noted finite_subset unfolding finite_view_def by blast
  then show ?case
    using snoc by (auto simp: finite_view_def corpus_snoc add_table_def split: option.splits)
qed (simp add: finite_view_def)

lemma weight_add_table:
  assumes "finite_view V"
  shows "weight_at (add_table d V (noted xs)) key \<le> weight_at V key + word_weight (occurrences xs key)"
proof (cases "noted xs key")
  case (Some x)
  obtain w ps where x: "x = (w, ps)" by (cases x)
  have n: "350 + length w + 4 * length ps \<le> word_weight (occurrences xs key)"
    using noted_weight [of xs key] Some x by simp
  show ?thesis
  proof (cases "V key")
    case None
    then show ?thesis using n Some x by (simp add: weight_at_def add_table_def entry_weight_def)
  next
    case (Some e)
    obtain w' D where e: "e = (w', D)" by (cases e)
    then have "finite (dom D)" using assms Some by (auto simp: finite_view_def)
    from entry_weight_upd [OF this, of w' d ps] show ?thesis
      using n Some \<open>noted xs key = Some x\<close> x e by (simp add: weight_at_def add_table_def)
  qed
qed (simp add: weight_at_def add_table_def)

lemma weight_corpus:
  assumes "finite K"
  shows "(\<Sum>key \<in> K. weight_at (corpus flt docs) key)
     \<le> sum_list (map (\<lambda>doc. word_weight (words_of flt (snd doc))) docs)"
proof (induction docs rule: rev_induct)
  case Nil
  then show ?case by (simp add: weight_at_def)
next
  case (snoc doc docs)
  have "(\<Sum>key \<in> K. weight_at (corpus flt (docs @ [doc])) key)
      \<le> (\<Sum>key \<in> K. weight_at (corpus flt docs) key + word_weight (occurrences (words_of flt (snd doc)) key))"
    unfolding corpus_snoc by (intro sum_mono weight_add_table finite_corpus)
  also have "\<dots> \<le> sum_list (map (\<lambda>doc. word_weight (words_of flt (snd doc))) docs)
      + word_weight (words_of flt (snd doc))"
    unfolding sum.distrib using snoc.IH word_weight_keys [OF assms] by (rule add_mono)
  finally show ?case by simp
qed

section \<open>The length of the file\<close>

lemma card_weight:
  assumes "finite A" "\<And>x. x \<in> A \<Longrightarrow> c \<le> f x" "sum f A < c * n"
  shows "card A < n"
proof -
  have "card A * c \<le> sum f A" using sum_bounded_below [of A c f] assms(2) by simp
  then have "c * card A < c * n" using assms(3) by (metis le_less_trans mult.commute)
  then show ?thesis by (rule mult_less_cancel1 [THEN iffD1, THEN conjunct2])
qed

lemma length_enc_word_size:
  assumes inv: "ht_inv (docIDs wds) m" "sized 23 (docIDs wds)" and wds: "store (kv_value kv) = Some wds"
    and small: "entry_weight (word wds, \<lambda>d. map_option (map snd) (ht_map (docIDs wds) d)) < 2 ^ 31"
  shows "28 + length (enc_word store kv off)
     \<le> entry_weight (word wds, \<lambda>d. map_option (map snd) (ht_map (docIDs wds) d))"
proof -
  let ?M = "ht_map (docIDs wds)"
  let ?f = "\<lambda>d. 128 + 4 * length (the (?M d))"
  have w: "entry_weight (word wds, \<lambda>d. map_option (map snd) (?M d)) = 222 + length (word wds) + sum ?f (dom ?M)"
  proof -
    have "dom (\<lambda>d. map_option (map snd) (?M d)) = dom ?M" by (auto simp: dom_def)
    moreover have "(\<Sum>d \<in> dom ?M. 128 + 4 * length (the (map_option (map snd) (?M d)))) = sum ?f (dom ?M)"
      by (intro sum.cong) auto
    ultimately show ?thesis by (simp add: entry_weight_def)
  qed
  have "card (dom ?M) < 2 ^ 24" by (rule card_weight [where c = 128 and f = ?f]) (use small w in simp_all)
  from length_enc_table_size [OF inv this, of enc_positions "\<lambda>kv. 12 + 4 * length (kv_value kv)" "off + 6 + length (word wds)"]
  have "length (enc_table enc_positions (off + 6 + length (word wds)) (chains_of (docIDs wds)))
      \<le> 4 + 8 * 23 + sum_list (map (\<lambda>kv. 40 + 4 * length (kv_value kv)) (ht_items (docIDs wds)))"
    by (simp add: length_enc_positions add.assoc [symmetric])
  also have "sum_list (map (\<lambda>kv. 40 + 4 * length (kv_value kv)) (ht_items (docIDs wds)))
      = (\<Sum>d \<in> dom ?M. 40 + 4 * length (the (?M d)))"
    using sum_items [OF inv(1), of "\<lambda>k v. 40 + 4 * length v"] .
  also have "\<dots> \<le> sum ?f (dom ?M)" by (intro sum_mono) simp
  finally show ?thesis using w wds by (simp add: length_enc_word)
qed

lemma docs_length:
  "(\<Sum>d \<in> dom (name_of_id ns). 128 + length (the (name_of_id ns d))) \<le> sum_list (map (\<lambda>n. 128 + length n) ns)"
proof -
  let ?i = "\<lambda>d :: u64. unat d - 1"
  have "inj_on ?i (dom (name_of_id ns))"
  proof (rule inj_onI)
    fix d e assume "d \<in> dom (name_of_id ns)" "e \<in> dom (name_of_id ns)" "?i d = ?i e"
    then have "unat d = unat e" by (auto simp: name_of_id_def split: if_splits)
    then show "d = e" by (simp add: word_unat_eq_iff)
  qed
  then have "(\<Sum>d \<in> dom (name_of_id ns). 128 + length (the (name_of_id ns d)))
      = (\<Sum>i \<in> ?i ` dom (name_of_id ns). 128 + length (ns ! i))"
    by (subst sum.reindex) (auto intro!: sum.cong simp: name_of_id_def split: if_splits)
  also have "\<dots> \<le> (\<Sum>i < length ns. 128 + length (ns ! i))"
    by (intro sum_mono2) (auto simp: name_of_id_def split: if_splits)
  finally show ?thesis by (simp add: sum_list_sum_nth atLeast0LessThan)
qed

lemma length_index_file_crawl:
  assumes rep: "crawl_rep flt docs dt mi m" and small: "index_bound flt docs < 2 ^ 31"
  shows "length (index_file mi dt) \<le> index_bound flt docs"
proof -
  let ?names = "sum_list (map (\<lambda>doc. 128 + length (fst doc)) docs)"
  let ?words = "sum_list (map (\<lambda>doc. word_weight (words_of flt (snd doc))) docs)"
  have bound: "index_bound flt docs = 9240 + ?names + ?words"
  proof -
    have "sum_list (map (\<lambda>doc. f doc + g doc) xs) = sum_list (map f xs) + sum_list (map g xs)"
      for f g :: "string \<times> string \<Rightarrow> nat" and xs by (rule sum_list_addf)
    then show ?thesis by (simp add: index_bound_def)
  qed
  have dt: "ht_inv (docid_to_docname dt) m" "sized 1024 (docid_to_docname dt)"
    "ht_map (docid_to_docname dt) = name_of_id (map fst docs)"
    and mi: "mi_ok mi m" and view: "mi_view mi = corpus flt docs"
    using rep by (simp_all add: crawl_rep_def dt_rep_def mi_inv_ok)
  have own: "own_ok (index mi) (wdss mi) m" and ix: "sized 128 (index mi)" using mi by (simp_all add: mi_ok_def)
  note inv = own_inv [OF own]
  let ?off = "16 + length (doctable_bytes dt)"
  let ?N = "ht_map (docid_to_docname dt)" and ?I = "ht_map (index mi)"
  have names: "(\<Sum>d \<in> dom ?N. 128 + length (the (?N d))) \<le> ?names"
    using docs_length [of "map fst docs"] dt(3) by (simp add: o_def)
  have "card (dom ?N) < 2 ^ 24"
    by (rule card_weight [where c = 128 and f = "\<lambda>d. 128 + length (the (?N d))"])
      (use names small bound in simp_all)
  from length_enc_table_size [OF dt(1,2) this, of enc_docname "\<lambda>kv. 10 + length (kv_value kv)" 16]
  have "length (doctable_bytes dt) \<le> 4 + 8 * 1024 + sum_list (map (\<lambda>kv. 38 + length (kv_value kv)) (ht_items (docid_to_docname dt)))"
    by (simp add: doctable_bytes_def enc_docname_def add.assoc [symmetric])
  also have "sum_list (map (\<lambda>kv. 38 + length (kv_value kv)) (ht_items (docid_to_docname dt)))
      = (\<Sum>d \<in> dom ?N. 38 + length (the (?N d)))"
    using sum_items [OF dt(1), of "\<lambda>k v. 38 + length v"] .
  also have "\<dots> \<le> (\<Sum>d \<in> dom ?N. 128 + length (the (?N d)))" by (intro sum_mono) simp
  finally have D: "length (doctable_bytes dt) \<le> 4 + 8 * 1024 + ?names" using names by simp
  let ?e = "weight_at (corpus flt docs)"
  have words: "sum ?e (dom ?I) \<le> ?words" by (rule weight_corpus) simp
  have entry: "28 + length (enc_word (wdss mi) kv off) \<le> ?e (kv_key kv)" if kv: "kv \<in> set (ht_items (index mi))" for kv off
  proof -
    have at: "?I (kv_key kv) = Some (kv_value kv)" using kv ht_map_Some_iff [OF inv] by blast
    from own_reach [OF own this] obtain wds where wds: "wdss mi (kv_value kv) = Some wds"
      "own_map (index mi) (wdss mi) (kv_key kv) = Some wds" .
    have "weight_at (mi_view mi) (kv_key kv)
        = entry_weight (word wds, \<lambda>d. map_option (map snd) (ht_map (docIDs wds) d))"
      using wds(2) by (simp add: weight_at_def mi_view_def mi_abs_def wds_abs_def)
    then have e: "?e (kv_key kv) = entry_weight (word wds, \<lambda>d. map_option (map snd) (ht_map (docIDs wds) d))"
      using view by simp
    have "?e (kv_key kv) \<le> sum ?e (dom ?I)" using at by (intro member_le_sum) auto
    then have "?e (kv_key kv) < 2 ^ 31" using words small bound by simp
    moreover have "ht_inv (docIDs wds) m" "sized 23 (docIDs wds)" using mi wds(1) by (auto simp: mi_ok_def intro: ranI)
    ultimately show ?thesis using length_enc_word_size [where store = "wdss mi", OF _ _ wds(1)] unfolding e by blast
  qed
  have "222 \<le> ?e k" if k: "k \<in> dom ?I" for k
  proof -
    have "mi_abs mi k \<noteq> None" using k mi_abs_None [OF mi] by auto
    then have "mi_view mi k \<noteq> None" by (simp add: mi_view_def)
    then show ?thesis unfolding view by (auto simp: weight_at_def entry_weight_def)
  qed
  then have "card (dom ?I) < 2 ^ 24"
    by (intro card_weight [where c = 222 and f = ?e]) (use words small bound in simp_all)
  from length_enc_table_size [OF inv ix this, of "enc_word (wdss mi)" "\<lambda>kv. ?e (kv_key kv) - 28"]
  have W: "length (memindex_bytes mi ?off)
      \<le> 4 + 8 * 128 + sum_list (map (\<lambda>kv. 28 + (?e (kv_key kv) - 28)) (ht_items (index mi)))"
    if "\<And>kv off. kv \<in> set (ht_items (index mi)) \<Longrightarrow> length (enc_word (wdss mi) kv off) \<le> ?e (kv_key kv) - 28" for off
    using that unfolding memindex_bytes_def by simp
  have "length (enc_word (wdss mi) kv off) \<le> ?e (kv_key kv) - 28" if "kv \<in> set (ht_items (index mi))" for kv off
    using entry [OF that, of off] by linarith
  note W [OF this]
  also have "sum_list (map (\<lambda>kv. 28 + (?e (kv_key kv) - 28)) (ht_items (index mi)))
      = sum_list (map (\<lambda>kv. ?e (kv_key kv)) (ht_items (index mi)))"
    using entry by (intro arg_cong [where f = sum_list] map_cong refl) (metis add_leD1 le_add_diff_inverse)
  also have "\<dots> = sum ?e (dom ?I)" using sum_items [OF inv, of "\<lambda>k v. ?e k"] .
  finally have "length (memindex_bytes mi ?off) \<le> 4 + 8 * 128 + ?words"
    using words by (meson add_left_mono le_trans)
  then show ?thesis using D bound unfolding length_index_file by linarith
qed

end
