(* ===== verification/EndToEnd.thy ===== *)
theory EndToEnd
  imports IndexSize
begin

text \<open>
  From the directory to the answer: the tables that the crawler builds can be written to an index file,
  and queries over this file are answered in terms of the texts in the directory.
\<close>

section \<open>What the crawler leaves\<close>

text \<open>Paths and words have to fit into the 16-bit length fields of the file.\<close>

definition storable_docs :: "bool \<Rightarrow> (string \<times> string) list \<Rightarrow> bool" where
  "storable_docs flt docs \<longleftrightarrow>
     (\<forall>doc \<in> set docs. storable (fst doc) \<and> (\<forall>w \<in> text_words flt doc. storable w))"

lemma noted_Some:
  assumes "noted xs key = Some (w, ps)"
  shows "hash_string w = key \<and> w \<in> fst ` set xs \<and> ps \<noteq> []"
proof -
  obtain x os where o: "occurrences xs key = x # os" "w = fst x" "ps \<noteq> []"
    using assms by (auto simp: noted_def split: list.splits)
  then have "x \<in> set (occurrences xs key)" by simp
  then show ?thesis using o(2,3) by (auto simp: occurrences_def)
qed

lemma corpus_word:
  "corpus flt docs key = Some (w, D) \<Longrightarrow> hash_string w = key \<and> (\<exists>doc \<in> set docs. w \<in> text_words flt doc)"
proof (induction docs arbitrary: w D rule: rev_induct)
  case (snoc doc docs)
  let ?T = "noted (words_of flt (snd doc))"
  show ?case
  proof (cases "corpus flt docs key")
    case None
    then obtain ps where "?T key = Some (w, ps)"
      using snoc.prems by (auto simp: corpus_snoc add_table_def split: option.splits)
    from noted_Some [OF this] show ?thesis by (auto simp: text_words_def)
  next
    case (Some x)
    then have "fst x = w" using snoc.prems
      by (auto simp: corpus_snoc add_table_def split: option.splits prod.splits)
    then show ?thesis using snoc.IH [of w "snd x"] Some by auto
  qed
qed simp

lemma crawl_word:
  assumes "crawl_rep flt docs dt mi m" "own_map (index mi) (wdss mi) key = Some wds"
  shows "hash_string (word wds) = key" "\<exists>doc \<in> set docs. word wds \<in> text_words flt doc"
proof -
  have "mi_view mi key \<noteq> None \<and> fst (the (mi_view mi key)) = word wds"
    using assms(2) by (simp add: mi_view_def mi_abs_def wds_abs_def)
  then obtain D where "corpus flt docs key = Some (word wds, D)"
    using assms(1) by (cases "mi_view mi key") (auto simp: crawl_rep_def)
  from corpus_word [OF this] show "hash_string (word wds) = key" "\<exists>doc \<in> set docs. word wds \<in> text_words flt doc"
    by simp_all
qed

lemma crawl_posting:
  assumes "crawl_rep flt docs dt mi m" "own_map (index mi) (wdss mi) key = Some wds"
    and "ht_map (docIDs wds) d = Some ps" "length docs < 2 ^ 64"
  shows "0 < unat d \<and> unat d \<le> length docs \<and> ps \<noteq> []"
proof -
  have "posting (mi_view mi) key d = Some (map snd ps)"
    using assms(2,3) by (simp add: posting_def mi_view_def mi_abs_def wds_abs_def)
  then have p: "posting (corpus flt docs) key d = Some (map snd ps)" using assms(1) by (simp add: crawl_rep_def)
  then have d: "0 < unat d" "unat d \<le> length docs"
    unfolding posting_corpus [OF assms(4)] by (simp_all split: if_splits)
  then obtain w where "noted (words_of flt (snd (docs ! (unat d - 1)))) key = Some (w, map snd ps)"
    using p unfolding posting_corpus [OF assms(4)] by auto
  from noted_Some [OF this] d show ?thesis by simp
qed

lemma crawl_writable:
  assumes rep: "crawl_rep flt docs dt mi m" and st: "storable_docs flt docs" and len: "length docs < 2 ^ 64"
    and fits: "index_bound flt docs < 2 ^ 31"
  shows "writable mi dt m"
  unfolding writable_def
proof (intro conjI ballI)
  have dt: "ht_inv (docid_to_docname dt) m" "ht_map (docid_to_docname dt) = name_of_id (map fst docs)"
    and mi: "mi_ok mi m" using rep by (simp_all add: crawl_rep_def dt_rep_def mi_inv_ok)
  then have own: "own_ok (index mi) (wdss mi) m" by (simp add: mi_ok_def)
  show "ht_inv (docid_to_docname dt) m" "ht_inv (index mi) m" "length (index_file mi dt) < 2 ^ 32"
    using dt(1) own_inv [OF own] length_index_file_crawl [OF rep fits] fits by simp_all
  show "good_name m kv" if "kv \<in> set (ht_items (docid_to_docname dt))" for kv
  proof -
    have "ht_map (docid_to_docname dt) (kv_key kv) = Some (kv_value kv)" using that ht_map_Some_iff [OF dt(1)] by blast
    then have "unat (kv_key kv) - 1 < length (map fst docs)" "kv_value kv = map fst docs ! (unat (kv_key kv) - 1)"
      unfolding dt(2) by (auto simp: name_of_id_def split: if_splits)
    then have "kv_value kv \<in> set (map fst docs)" by (metis nth_mem)
    then show ?thesis using st by (auto simp: good_name_def storable_docs_def)
  qed
  show "good_word (wdss mi) m kv" if "kv \<in> set (ht_items (index mi))" for kv
  proof -
    have at: "ht_map (index mi) (kv_key kv) = Some (kv_value kv)" using that ht_map_Some_iff [OF own_inv [OF own]] by blast
    from own_reach [OF own this] obtain wds where wds: "wdss mi (kv_value kv) = Some wds"
      "own_map (index mi) (wdss mi) (kv_key kv) = Some wds" .
    have "0 < kv_value kv" using own wds(1) unfolding own_ok_def by blast
    moreover have "storable (word wds)" using crawl_word(2) [OF rep wds(2)] st by (auto simp: storable_docs_def)
    moreover have inv: "ht_inv (docIDs wds) m" using mi wds(1) by (auto simp: mi_ok_def intro: ranI)
    moreover have "kv_value kv' \<noteq> []" if "kv' \<in> set (ht_items (docIDs wds))" for kv'
      using crawl_posting [OF rep wds(2) _ len, of "kv_key kv'"] that ht_map_Some_iff [OF inv] by blast
    ultimately show ?thesis using wds(1) by (auto simp: good_word_def)
  qed
qed

lemma crawl_hashed: "crawl_rep flt docs dt mi m \<Longrightarrow> hashed mi"
  using crawl_word(1) unfolding hashed_def by metis

lemma crawl_registered:
  assumes rep: "crawl_rep flt docs dt mi m" and len: "length docs < 2 ^ 64"
  shows "registered mi dt"
  unfolding registered_def
proof (intro allI impI)
  fix w t d assume "word_docs mi w = Some t" "ht_map t d \<noteq> None"
  then obtain wds ps where "own_map (index mi) (wdss mi) (hash_string w) = Some wds" "ht_map (docIDs wds) d = Some ps"
    by (auto simp: word_docs_def split: option.splits if_splits)
  from crawl_posting [OF rep this len] have "0 < unat d \<and> unat d \<le> length docs" by simp
  then show "ht_map (docid_to_docname dt) d \<noteq> None"
    using rep by (simp add: crawl_rep_def dt_rep_def name_of_id_def)
qed

section \<open>Answers in terms of the texts\<close>

lemma word_count_docs_of:
  assumes "crawl_rep flt docs dt mi m" "no_collision flt docs ws" "w \<in> set ws"
  shows "word_count mi d w = map_option length (docs_of mi w d)"
proof (cases "own_map (index mi) (wdss mi) (hash_string w)")
  case (Some wds)
  obtain doc where "doc \<in> set docs" "word wds \<in> text_words flt doc" using crawl_word(2) [OF assms(1) Some] by blast
  moreover have "hash_string (word wds) = hash_string w" using crawl_word(1) [OF assms(1) Some] .
  ultimately have "word wds = w" using assms(2,3) unfolding no_collision_def inj_on_def by blast
  then show ?thesis using Some by (simp add: word_count_def word_docs_def docs_of_def mi_abs_def wds_abs_def)
qed (simp add: word_count_def word_docs_def docs_of_def mi_abs_def)

lemma matches_docs:
  assumes "crawl_rep flt docs dt mi m" "no_collision flt docs ws" "length docs < 2 ^ 64" "ws \<noteq> []"
  shows "matches mi ws d \<longleftrightarrow> 0 < unat d \<and> unat d \<le> length docs \<and>
     (\<forall>w \<in> set ws. w \<in> text_words flt (docs ! (unat d - 1)))"
  using word_count_docs_of [OF assms(1,2)] contains_all_corpus [OF assms]
  by (simp add: matches_def contains_all_def)

lemma query_rank_docs:
  assumes "crawl_rep flt docs dt mi m" "no_collision flt docs ws" "length docs < 2 ^ 64" "matches mi ws d"
  shows "(of_nat (query_rank mi ws d) :: u32) = of_nat (count_words flt ws (docs ! (unat d - 1)))"
proof -
  have w: "word_count mi d w = map_option length (docs_of mi w d)" if "w \<in> set ws" for w
    using word_count_docs_of [OF assms(1,2) that] .
  then have all: "contains_all mi ws d" using assms(4) by (simp add: contains_all_def matches_def)
  have "of_nat (the (word_count mi d w)) = cl_count (the (docs_of mi w d))" if "w \<in> set ws" for w
    using w [OF that] all that by (auto simp: contains_all_def cl_count_def)
  then have "(of_nat (query_rank mi ws d) :: u32) = score mi ws d"
    unfolding query_rank_def score_def of_nat_sum_list by (simp add: o_def cong: map_cong)
  then show ?thesis using score_corpus [OF assms(1-3) all] by simp
qed

text \<open>The results that answer the query \<open>ws\<close> over the documents.\<close>

definition answer_results :: "bool \<Rightarrow> (string \<times> string) list \<Rightarrow> string list \<Rightarrow> QueryResult list \<Rightarrow> bool" where
  "answer_results flt docs ws result \<longleftrightarrow>
     (\<exists>hits. result = map (\<lambda>doc. \<lparr>document_name = fst doc, result_rank = of_nat (count_words flt ws doc)\<rparr>) hits \<and>
        distinct hits \<and> set hits = {doc \<in> set docs. \<forall>w \<in> set ws. w \<in> text_words flt doc} \<and>
        sorted_wrt (\<lambda>x y. result_rank y \<le> result_rank x) result)"

lemma permuted_map:
  "mset ys = mset (map f xs) \<Longrightarrow> \<exists>zs. mset zs = mset xs \<and> ys = map f zs"
proof (induction ys arbitrary: xs)
  case (Cons y ys)
  have "y \<in> set (map f xs)" using mset_eq_setD [OF Cons.prems] by (metis list.set_intros(1))
  then obtain x where x: "x \<in> set xs" "y = f x" by auto
  have "mset xs = mset (x # remove1 x xs)" using x(1) by simp
  then have "mset (map f xs) = mset (map f (x # remove1 x xs))" by (metis mset_map)
  with Cons.prems have "mset ys = mset (map f (remove1 x xs))" using x(2) by simp
  from Cons.IH [OF this] obtain zs where "mset zs = mset (remove1 x xs)" "ys = map f zs" by blast
  then show ?case using x by (intro exI [of _ "x # zs"]) simp
qed simp

lemma answers_docs:
  assumes rep: "crawl_rep flt docs dt mi m" and col: "no_collision flt docs ws" and len: "length docs < 2 ^ 64"
    and ws: "ws \<noteq> []" and dis: "distinct docs" and a: "all_answers [(mi, dt)] ws result"
  shows "answer_results flt docs ws result"
proof -
  let ?doc = "\<lambda>d :: u64. docs ! (unat d - 1)"
  let ?res = "\<lambda>doc. \<lparr>document_name = fst doc, result_rank = of_nat (count_words flt ws doc)\<rparr>"
  note M = matches_docs [OF rep col len ws]
  obtain ds where ds: "distinct ds" "set ds = {d. matches mi ws d}"
    "mset result = mset (map (\<lambda>d. \<lparr>document_name = the (ht_map (docid_to_docname dt) d),
                                   result_rank = of_nat (query_rank mi ws d)\<rparr>) ds)"
    and sorted: "sorted_wrt (\<lambda>x y. result_rank y \<le> result_rank x) result"
    using a by (auto simp: all_answers_def list_all2_Cons1 answers_def)
  have at: "0 < unat d \<and> unat d \<le> length docs" if "d \<in> set ds" for d using that ds(2) M by auto
  have "map (\<lambda>d. \<lparr>document_name = the (ht_map (docid_to_docname dt) d), result_rank = of_nat (query_rank mi ws d)\<rparr>) ds
      = map ?res (map ?doc ds)"
  proof (intro map_cong [OF refl, of ds, THEN trans [OF _ map_map [symmetric]]])
    fix d assume d: "d \<in> set ds"
    have "unat d - 1 < length docs" using at [OF d] by auto
    then have "map fst docs ! (unat d - 1) = fst (?doc d)" by (rule nth_map)
    then have name: "ht_map (docid_to_docname dt) d = Some (fst (?doc d))"
      using at [OF d] rep by (simp add: crawl_rep_def dt_rep_def name_of_id_def)
    have "matches mi ws d" using d ds(2) by simp
    note query_rank_docs [OF rep col len this]
    then show "\<lparr>document_name = the (ht_map (docid_to_docname dt) d), result_rank = of_nat (query_rank mi ws d)\<rparr>
        = (?res \<circ> ?doc) d"
      unfolding name o_apply option.sel by (simp only:)
  qed
  from ds(3) [unfolded this] obtain hits where hits: "mset hits = mset (map ?doc ds)" "result = map ?res hits"
    using permuted_map [of result ?res "map ?doc ds"] by blast
  have "inj_on ?doc (set ds)"
  proof (rule inj_onI)
    fix d e assume "d \<in> set ds" "e \<in> set ds" and eq: "?doc d = ?doc e"
    then have "unat d - 1 < length docs" "unat e - 1 < length docs" "0 < unat d" "0 < unat e"
      using at [of d] at [of e] by auto
    then have "unat d = unat e" using nth_eq_iff_index_eq [OF dis] eq by simp
    then show "d = e" by (simp add: word_unat_eq_iff)
  qed
  then have "distinct (map ?doc ds)" using ds(1) by (simp add: distinct_map)
  then have "distinct hits" using mset_eq_imp_distinct_iff [OF hits(1)] by simp
  moreover have "set hits = {doc \<in> set docs. \<forall>w \<in> set ws. w \<in> text_words flt doc}"
  proof -
    have "doc \<in> ?doc ` set ds" if d: "doc \<in> set docs" "\<forall>w \<in> set ws. w \<in> text_words flt doc" for doc
    proof -
      obtain i where i: "i < length docs" "docs ! i = doc" using d(1) by (auto simp: in_set_conv_nth)
      have u: "unat (of_nat (Suc i) :: u64) = Suc i" using i(1) len by (intro unat_of_nat_u64) simp
      then have "of_nat (Suc i) \<in> set ds" unfolding ds(2) using M i d(2) by (simp del: of_nat_Suc)
      moreover have "?doc (of_nat (Suc i)) = doc" using u i(2) by (simp del: of_nat_Suc)
      ultimately show ?thesis by (metis imageI)
    qed
    moreover have "?doc d \<in> set docs \<and> (\<forall>w \<in> set ws. w \<in> text_words flt (?doc d))" if "d \<in> set ds" for d
      using that ds(2) M at [OF that] by auto
    ultimately show ?thesis unfolding mset_eq_setD [OF hits(1)] set_map by blast
  qed
  ultimately show ?thesis using hits(2) sorted unfolding answer_results_def by blast
qed

section \<open>From the directory to the answers\<close>

lemma index_bound_docs: "index_bound flt docs < 2 ^ 31 \<Longrightarrow> length docs < 2 ^ 24"
proof -
  have "128 * length docs
      \<le> sum_list (map (\<lambda>doc. 128 + length (fst doc) + word_weight (words_of flt (snd doc))) docs)"
    by (induction docs) simp_all
  then show "index_bound flt docs < 2 ^ 31 \<Longrightarrow> length docs < 2 ^ 24" by (simp add: index_bound_def)
qed

lemma buildfileindex_ok:
  assumes "on_disk rfuel os root (Directory ts)" "close_dir os root"
    and "height (Directory ts) \<le> Suc n" "reliable m" "\<not> retriable (errno m)" "spare_frame m"
    and "docs = docs_under False root (Directory ts)"
    and "distinct (map (\<lambda>doc. hash_string (fst doc)) docs)"
    and "storable_docs False docs" "index_bound False docs < 2 ^ 31"
    and "open_index out = Some s" "sound s" "file_bytes s = []"
  obtains msgs dt mi m1 where
    "buildfileindex_main n rfuel os open_index [prog, root, out] m = Inr (EXIT_SUCCESS, msgs, Some (index_file mi dt))"
    "crawl_rep False docs dt mi m1" "index_ok [out \<mapsto> index_file mi dt] m1 out (mi, dt)"
proof -
  have len: "length docs < 2 ^ 64" using index_bound_docs [OF assms(10)] by simp
  then have room: "room_for [] (docs_under False root (Directory ts))"
    using assms(7,8) by (simp add: room_for_def)
  obtain dt mi m1 where c: "CrawlFileTree n rfuel False os root m = Inr (Some (dt, mi), m1)" "crawled m m1"
    "crawl_rep False docs dt mi m1"
    using CrawlFileTree_ok [OF assms(1-5) room] unfolding assms(7) .
  have rel1: "reliable m1" using c(2) assms(4) by (rule crawled_reliable)
  have spare: "spare_frame m1" using c(2) assms(6) by (rule crawled_spare)
  have w: "writable mi dt m1" using c(3) assms(9) len assms(10) by (rule crawl_writable)
  obtain m2 where wi: "WriteIndex mi dt (Some s) m1
      = Inr (of_nat (length (index_file mi dt)), Some (index_file mi dt), m2)"
    using WriteIndex_layout [OF w rel1 assms(12,13) spare] by blast
  obtain x y where f: "FreeMemIndex mi = Inr x" "FreeDocTable dt = Inr y"
    using c(3) FreeMemIndex_ok FreeDocTable_ok unfolding crawl_rep_def by blast
  have "length (index_file mi dt) < 2 ^ 32" using w by (simp add: writable_def)
  moreover have "length (index_file mi dt) \<noteq> 0" by (simp add: length_index_file)
  ultimately have nz: "(of_nat (length (index_file mi dt)) :: u32) \<noteq> 0" by (simp add: of_nat_u32_eq_0_iff)
  have "\<exists>msgs. buildfileindex_main n rfuel os open_index [prog, root, out] m
      = Inr (EXIT_SUCCESS, msgs, Some (index_file mi dt))"
    using c(1) wi f nz assms(11) by (auto simp: buildfileindex_main_def Let_def)
  moreover have "index_ok [out \<mapsto> index_file mi dt] m1 out (mi, dt)"
    using w crawl_hashed [OF c(3)] crawl_registered [OF c(3) len] by (simp add: index_ok_def)
  ultimately show thesis using that c(3) by blast
qed

text \<open>
  C2: From the directory to the answers on the screen: after \<^verbatim>\<open>buildfileindex\<close> has indexed a directory,
  \<^verbatim>\<open>filesearchshell\<close> on this index answers every line of words with exactly the documents of the
  directory that contain all words of the line, each once, with the number of occurrences as its rank
  and in the order of falling ranks, whatever order \<^verbatim>\<open>std::sort\<close> gives to equal ranks. The conditions: all
  files and directories below the root can be read without an interruption, \<^verbatim>\<open>errno\<close> does not ask for
  another try at the start, no operation on the index file fails and memory does not run out; no two
  paths of documents have the same hash, and none of the words of the texts and the queries; paths and
  words are shorter than 64 kilobytes, and \<open>index_bound\<close>, a bound of the size of the index, is below two
  gigabytes; and the four bytes behind the local variable that the writer of the index overruns are
  unused.
\<close>

theorem index_then_search:
  assumes "on_disk rfuel os root (Directory ts)" "close_dir os root"
    and "height (Directory ts) \<le> Suc n" "reliable m" "\<not> retriable (errno m)" "spare_frame m"
    and "docs = docs_under False root (Directory ts)"
    and "distinct (map (\<lambda>doc. hash_string (fst doc)) docs)"
    and "storable_docs False docs" "index_bound False docs < 2 ^ 31"
    and "open_index out = Some s" "sound s" "file_bytes s = []" "sorts std_sort"
    and "\<forall>l \<in> set lines. newline_char \<notin> set l \<and> stream_words l \<noteq> []" "newline_char \<notin> set rest"
    and "no_collision False docs (concat (map line_query lines))"
  shows "\<exists>msgs file results.
     buildfileindex_main n rfuel os open_index [prog, root, out] m = Inr (EXIT_SUCCESS, msgs, Some file) \<and>
     filesearchshell_main std_sort [out \<mapsto> file] [prog', out] (input_lines lines rest)
       = (concat (map (\<lambda>r. enter_query # result_lines r) results) @ [enter_query], Inr EXIT_SUCCESS) \<and>
     list_all2 (\<lambda>l. answer_results False docs (line_query l)) lines results"
proof -
  obtain msgs dt mi m1 where b:
    "buildfileindex_main n rfuel os open_index [prog, root, out] m = Inr (EXIT_SUCCESS, msgs, Some (index_file mi dt))"
    "crawl_rep False docs dt mi m1" "index_ok [out \<mapsto> index_file mi dt] m1 out (mi, dt)"
    by (rule buildfileindex_ok [where open_index = open_index and prog = prog, OF assms(1-13)])
  have len: "length docs < 2 ^ 64" using index_bound_docs [OF assms(10)] by simp
  have dis: "distinct docs" using assms(8) by (simp add: distinct_map)
  have "list_all2 (index_ok [out \<mapsto> index_file mi dt] m1) [out] [(mi, dt)]" using b(3) by simp
  from filesearchshell_main_ok [OF this _ _ assms(14) _ assms(16), of lines prog'] obtain results where r:
    "filesearchshell_main std_sort [out \<mapsto> index_file mi dt] [prog', out] (input_lines lines rest)
       = (concat (map (\<lambda>r. enter_query # result_lines r) results) @ [enter_query], Inr EXIT_SUCCESS)"
    "list_all2 (\<lambda>l r. all_answers [(mi, dt)] (line_query l) r) lines results"
    using assms(15) answered_all [of lines] by auto
  have "list_all2 (\<lambda>l. answer_results False docs (line_query l)) lines results"
    using r(2)
  proof (rule list.rel_mono_strong)
    fix l r assume l: "l \<in> set lines" and a: "all_answers [(mi, dt)] (line_query l) r"
    have "no_collision False docs (line_query l)"
      unfolding no_collision_def
      by (rule inj_on_subset [OF assms(17) [unfolded no_collision_def]]) (use l in auto)
    moreover have "line_query l \<noteq> []" using assms(15) l by (simp add: line_query_def)
    ultimately show "answer_results False docs (line_query l) r"
      using answers_docs [OF b(2) _ len _ dis a] by blast
  qed
  with b(1) r(1) show ?thesis by blast
qed

text \<open>The small directory of the crawler's example, with the queries ``Cat'' and ``cat DOG''.\<close>

definition demo_stream :: stream where
  "demo_stream = \<lparr>file_bytes = [], file_pos = 0, io_count = 0, io_fails = (\<lambda>_. False)\<rparr>"

lemma demo_stream_ok: "[''x.idx'' \<mapsto> demo_stream] ''x.idx'' = Some demo_stream" "sound demo_stream" "file_bytes demo_stream = []"
  by (simp_all add: demo_stream_def sound_def)

lemma demo_closes: "close_dir demo_disk ''d''"
  by (simp add: demo_disk_def)

lemma demo_corpus_words:
  "words_of False ''The cat'' = [(''the'', 0), (''cat'', 4)]"
  "words_of False ''cat, Dog cat'' = [(''cat'', 0), (''dog'', 5), (''cat'', 9)]"
  by code_simp+

abbreviation demo_corpus :: "(string \<times> string) list" where
  "demo_corpus \<equiv> [(''d/a'', ''The cat''), (''d/e/b'', ''cat, Dog cat'')]"

lemma demo_paths: "distinct (map (\<lambda>doc. hash_string (fst doc)) demo_corpus)"
  by (simp add: hash_evals)

lemma demo_storable: "storable_docs False demo_corpus"
  by (simp add: storable_docs_def text_words_def demo_corpus_words storable_def)

lemma demo_bound: "index_bound False demo_corpus < 2 ^ 31"
  by (simp add: index_bound_def word_weight_def demo_corpus_words)

lemma the_hash: "hash_string ''the'' \<noteq> hash_string ''cat''" "hash_string ''the'' \<noteq> hash_string ''dog''"
  by (simp_all add: hash_evals)

lemma index_then_search_witness:
  "\<exists>msgs file r1 r2.
     buildfileindex_main 1 100 demo_disk [''x.idx'' \<mapsto> demo_stream] [''build'', ''d'', ''x.idx''] fresh_mem
       = Inr (EXIT_SUCCESS, msgs, Some file) \<and>
     filesearchshell_main rank_sort [''x.idx'' \<mapsto> file] [''shell'', ''x.idx''] (input_lines [''Cat'', ''cat DOG''] ''do'')
       = ([enter_query] @ result_lines r1 @ [enter_query] @ result_lines r2 @ [enter_query], Inr EXIT_SUCCESS) \<and>
     answer_results False [(''d/a'', ''The cat''), (''d/e/b'', ''cat, Dog cat'')] [''cat'', ''dog''] r2"
proof -
  have sw: "stream_words ''Cat'' = [''Cat'']" "stream_words ''cat DOG'' = [''cat'', ''DOG'']" by code_simp+
  have lq: "line_query ''Cat'' = [''cat'']" "line_query ''cat DOG'' = [''cat'', ''dog'']"
    unfolding line_query_def sw by code_simp+
  have lines: "\<forall>l \<in> set [''Cat'', ''cat DOG'']. newline_char \<notin> set l \<and> stream_words l \<noteq> []"
    by (simp add: sw newline_char_def)
  have "inj_on hash_string {''the'', ''cat'', ''dog''}" using the_hash cat_dog by simp
  then have col: "no_collision False demo_corpus (concat (map line_query [''Cat'', ''cat DOG'']))"
    unfolding no_collision_def
    by (rule inj_on_subset) (auto simp: lq text_words_def demo_corpus_words)
  from index_then_search [where open_index = "[''x.idx'' \<mapsto> demo_stream]", OF demo_on_disk demo_closes demo_height reliable_fresh_mem _ _ demo_docs [symmetric] demo_paths
      demo_storable demo_bound demo_stream_ok sorts_rank_sort lines _ col, of "''do''" "''build''" "''shell''"]
  obtain msgs idx results where r:
    "buildfileindex_main 1 100 demo_disk [''x.idx'' \<mapsto> demo_stream] [''build'', ''d'', ''x.idx''] fresh_mem
       = Inr (EXIT_SUCCESS, msgs, Some idx)"
    "filesearchshell_main rank_sort [''x.idx'' \<mapsto> idx] [''shell'', ''x.idx''] (input_lines [''Cat'', ''cat DOG''] ''do'')
       = (concat (map (\<lambda>r. enter_query # result_lines r) results) @ [enter_query], Inr EXIT_SUCCESS)"
    "list_all2 (\<lambda>l. answer_results False demo_corpus (line_query l)) [''Cat'', ''cat DOG''] results"
    by (auto simp: newline_char_def)
  obtain r1 r2 where "results = [r1, r2]" "answer_results False demo_corpus [''cat'', ''dog''] r2"
    using r(3) lq by (auto simp: list_all2_Cons1)
  with r(1,2) show ?thesis by auto
qed

end
