(* ===== verification/IndexCheckerThms.thy ===== *)
theory IndexCheckerThms
  imports IndexCheckerProps EndToEnd
begin

text \<open>
  The checker and the writer of \<^verbatim>\<open>hw3\<close> agree on the format: on an index that has been written, the
  checker complains exactly about names, words and counts beyond its limits; what it does not complain
  about is undamaged.
\<close>

section \<open>The three kinds of elements\<close>

definition fine_name :: "string HTKeyValue \<Rightarrow> bool" where
  "fine_name kv \<longleftrightarrow> length (kv_value kv) < 1024 \<and> (\<forall>c \<in> set (kv_value kv). isascii c)"

definition fine_positions :: "u32 cells HTKeyValue \<Rightarrow> bool" where
  "fine_positions kv \<longleftrightarrow> length (kv_value kv) < 1000000 \<and> rising (map snd (kv_value kv))"

definition fine_word :: "(ptr \<rightharpoonup> WordDocSet) \<Rightarrow> ptr HTKeyValue \<Rightarrow> bool" where
  "fine_word store kv \<longleftrightarrow>
     (let wds = the (store (kv_value kv)) in
      length (word wds) < 8192 \<and> (\<forall>c \<in> set (word wds). isascii c \<and> (isalpha c \<longrightarrow> islower c)) \<and>
      (\<forall>kv \<in> set (ht_items (docIDs wds)). fine_positions kv))"

lemma unat_of_nat_index: "kv_placed nb i kv \<Longrightarrow> nb \<noteq> 0 \<Longrightarrow> i < unat nb \<Longrightarrow>
    (ucast (kv_key kv mod ucast nb) :: u32) = of_nat i"
  unfolding kv_placed_def by (rule checked_bucket)

interpretation name_checker: element_checker "\<lambda>f _. DocTableChecker_CheckElement f" enc_docname
  "\<lambda>kv. storable (kv_value kv)" fine_name
proof
  fix f table_end p kv nb i st
  assume a: "length f < 2 ^ 31" "table_end \<le> length f" "holds f p (enc_docname kv p)"
    "p + length (enc_docname kv p) \<le> table_end" "storable (kv_value kv)" "nb \<noteq> 0" "i < unat nb" "kv_placed nb i kv"
  let ?n = "length (kv_value kv)"
  have n: "?n < 2 ^ 16" "kv_value kv \<noteq> []" using a(5) by (simp_all add: storable_def)
  note h = holds_append [OF a(3) [unfolded enc_docname_def]]
  note h2 = holds_append [OF h(2)]
  have h3: "holds f (p + 10) (bytes_of (kv_value kv))" using h2(2) by (simp add: ac_simps)
  have u: "unat (of_nat p :: u32) = p" using holds_bound [OF a(3)] by (intro offset_word [OF a(1)]) simp
  have un: "unat (of_nat ?n :: u16) = ?n" using n(1) by (rule unat_of_nat_u16)
  have lt: "(of_nat ?n :: u16) < 1024 \<longleftrightarrow> ?n < 1024" by (simp add: word_less_nat_alt un)
  note st = checked_Check(4) [OF checked_Check(2) [OF checked_Inr]]
  show "checked (fine_name kv) st (DocTableChecker_CheckElement f nb (of_nat p) (of_nat i) st)"
    unfolding DocTableChecker_CheckElement_def Let_def u
    by (simp only: fread_verified_holds [OF h(1) length_be_bytes] fread_verified_holds [OF h2(1) length_be_bytes, simplified length_be_bytes]
        of_be_bytes htonll_htonll htons_htons un fread_chars_holds [OF h3 n(2)] a(6) if_False length_be_bytes)
      (rule checked_cong [OF check_filename_checked [OF st]],
       simp add: unat_of_nat_index [OF a(8,6,7)] lt fine_name_def)
qed

interpretation position_checker: element_checker "\<lambda>f _. DocIDTableChecker_CheckElement f" enc_positions
  "\<lambda>kv. True" fine_positions
proof
  fix f table_end p kv nb i st
  assume a: "length f < 2 ^ 31" "table_end \<le> length f" "holds f p (enc_positions kv p)"
    "p + length (enc_positions kv p) \<le> table_end" "nb \<noteq> 0" "i < unat nb" "kv_placed nb i kv"
  let ?n = "length (kv_value kv)"
  note h = holds_append [OF a(3) [unfolded enc_positions_def]]
  note h2 = holds_append [OF h(2) [unfolded length_be_bytes]]
  have h3: "holds f (p + 12) (concat (map (be_bytes 4) (map snd (kv_value kv))))"
    using h2(2) by (simp add: ac_simps)
  have u: "unat (of_nat p :: u32) = p" using holds_bound [OF a(3)] by (intro offset_word [OF a(1)]) simp
  have "?n \<le> length f" using holds_bound [OF a(3)] by (simp add: length_enc_positions)
  then have un: "unat (of_nat ?n :: u32) = ?n" by (rule offset_word [OF a(1)])
  have lt: "(of_nat ?n :: u32) < 1000000 \<longleftrightarrow> ?n < 1000000" by (simp add: word_less_nat_alt un)
  have eq: "ucast (of_nat i :: u32) = (ucast (ucast (kv_key kv mod ucast nb) :: u32) :: u64)"
    unfolding unat_of_nat_index [OF a(7,5,6)] ..
  note st = checked_Check(5) [OF checked_Check(3) [OF checked_Inr]]
  show "checked (fine_positions kv) st (DocIDTableChecker_CheckElement f nb (of_nat p) (of_nat i) st)"
    unfolding DocIDTableChecker_CheckElement_def Let_def u
    by (simp only: fread_verified_holds [OF h(1) length_be_bytes] fread_verified_holds [OF h2(1) length_be32]
        of_be_bytes htonll_htonll be32_def htonl_htonl un a(5) if_False)
      (rule checked_cong [OF check_positions_checked(1) [OF h3 st, unfolded length_map]],
       simp add: eq lt fine_positions_def)
qed

lemma chains_placed:
  assumes "ht_inv ht m" "\<forall>kv \<in> set (ht_items ht). Q kv"
  shows "\<forall>k < length (chains_of ht). \<forall>kv \<in> set (chains_of ht ! k). Q kv \<and> kv_placed (num_buckets ht) k kv"
proof (intro allI ballI impI conjI)
  fix k kv assume k: "k < length (chains_of ht)" "kv \<in> set (chains_of ht ! k)"
  then have "kv \<in> set (concat (chains_of ht))" by auto
  then show "Q kv" using assms(2) by (simp add: concat_chains_of)
  have "kv \<in> set (items_of (kvs ht) (buckets ht ! k))" "k < length (buckets ht)"
    using k by (simp_all add: chains_of_def)
  from placed_nth [OF ht_invD(6) [OF assms(1)] this(2,1)] show "kv_placed (num_buckets ht) k kv"
    by (simp add: kv_placed_def)
qed

definition wf_word :: "(ptr \<rightharpoonup> WordDocSet) \<Rightarrow> ptr HTKeyValue \<Rightarrow> bool" where
  "wf_word store kv \<longleftrightarrow>
     (case store (kv_value kv) of
        None \<Rightarrow> False
      | Some wds \<Rightarrow> storable (word wds) \<and> (\<exists>m. ht_inv (docIDs wds) m))"

lemma IndexTableChecker_end:
  "IndexTableChecker_CheckElement f offset len = IndexTableChecker_CheckElement f 0 (offset + len)"
  by (simp add: IndexTableChecker_CheckElement_def fun_eq_iff)

interpretation word_checker: element_checker "\<lambda>f. IndexTableChecker_CheckElement f 0" "enc_word store"
  "wf_word store" "fine_word store" for store
proof
  fix f table_end p kv nb i st
  assume a: "length f < 2 ^ 31" "table_end \<le> length f" "holds f p (enc_word store kv p)"
    "p + length (enc_word store kv p) \<le> table_end" "wf_word store kv" "nb \<noteq> 0" "i < unat nb" "kv_placed nb i kv"
  obtain wds m where w: "store (kv_value kv) = Some wds" "storable (word wds)" "ht_inv (docIDs wds) m"
    using a(5) by (auto simp: wf_word_def split: option.splits)
  let ?w = "word wds" and ?cs = "chains_of (docIDs wds)"
  let ?n = "length ?w" and ?toff = "p + 6 + length (word wds)"
  let ?tab = "enc_table enc_positions ?toff ?cs"
  have n: "?n < 2 ^ 16" "?w \<noteq> []" using w(2) by (simp_all add: storable_def)
  have e: "enc_word store kv p = be_bytes 2 (of_nat ?n :: u16) @ be32 (length ?tab) @ bytes_of ?w @ ?tab"
    using w(1) by (simp add: enc_word_def Let_def)
  note h = holds_append [OF a(3) [unfolded e]]
  note h2 = holds_append [OF h(2) [unfolded length_be_bytes]]
  note h3 = holds_append [OF h2(2) [unfolded length_be32]]
  have hw: "holds f (p + 6) (bytes_of ?w)" and ht: "holds f ?toff ?tab" using h3 by (simp_all add: ac_simps bytes_of_def)
  have tab: "?toff + length ?tab \<le> table_end" using a(4) by (simp add: e bytes_of_def)
  have u: "unat (of_nat p :: u32) = p" using holds_bound [OF a(3)] by (intro offset_word [OF a(1)]) simp
  have un: "unat (of_nat ?n :: u16) = ?n" using n(1) by (rule unat_of_nat_u16)
  have lt: "(of_nat ?n :: u16) < 8192 \<longleftrightarrow> ?n < 8192" by (simp add: word_less_nat_alt un)
  have toff: "of_nat p + 2 + 4 + ucast (of_nat ?n :: u16) = (of_nat ?toff :: u32)"
    using ucast_of_nat_u16 [OF n(1)] by simp
  have "?tab \<noteq> []" by (rule enc_table_nonempty)
  then have "?toff < table_end" using tab by (cases ?tab) auto
  then have stop: "(of_nat ?toff :: u32) < 0 + of_nat table_end"
    using offset_word [OF a(1), of ?toff] offset_word [OF a(1,2)] a(2) by (simp add: word_less_nat_alt)
  have ui: "unat (of_nat i :: u32) = i"
    using a(7) unsigned_less [of nb, where 'a = nat] by (intro unat_of_nat_u32) simp
  let ?lt = "\<lambda>s. snd (CheckLT32 (of_nat ?toff) (0 + of_nat table_end) ''[IndexTable] element end < indextable end''
      (snd (CheckLT16 (of_nat ?n) 8192 ''[IndexTable] word length'' s)))"
  let ?st = "\<lambda>g. UpdateGlobals g (decimal i) '']'' (check_word 0 ?w (?lt (UpdateGlobals ''bucket_rec['' (decimal i) '']'' st)))"
  have st: "checked (?n < 8192 \<and> (\<forall>c \<in> set ?w. isascii c \<and> (isalpha c \<longrightarrow> islower c))) st (Inr (?st g))" for g
    by (rule checked_cong [OF checked_UpdateGlobals [OF check_word_checked
          [OF checked_Check(5) [OF checked_Check(4) [OF checked_UpdateGlobals [OF checked_Inr]]]]]])
      (use stop lt in simp)
  have table: "checked ((?n < 8192 \<and> (\<forall>c \<in> set ?w. isascii c \<and> (isalpha c \<longrightarrow> islower c))) \<and>
        (\<forall>kv \<in> set (concat ?cs). fine_positions kv)) st
      (HashTableChecker_Check (DocIDTableChecker_CheckElement f) f (of_nat ?toff) (of_nat (length ?tab)) (?st g))" for g
  proof (rule position_checker.HashTableChecker_Check_checked [OF a(1) _ ht refl _ _ _ st])
    show "?toff + length ?tab \<le> length f" using tab a(2) by simp
    show "?cs \<noteq> []" using w(3) by (rule chains_of_nonempty)
    show "num_buckets (docIDs wds) = of_nat (length ?cs)" by (rule length_chains_of [OF w(3), symmetric])
    show "\<forall>k < length ?cs. \<forall>kv \<in> set (?cs ! k). True \<and> kv_placed (num_buckets (docIDs wds)) k kv"
      by (rule chains_placed [OF w(3)]) simp
  qed
  show "checked (fine_word store kv) st (IndexTableChecker_CheckElement f 0 (of_nat table_end) nb (of_nat p) (of_nat i) st)"
    unfolding IndexTableChecker_CheckElement_def Let_def u ui
    by (simp only: fread_verified_holds [OF h(1) length_be_bytes] fread_verified_holds [OF h2(1) length_be32]
        of_be_bytes be32_def htonl_htonl htons_htons un fread_chars_holds [OF hw n(2)] toff)
      (rule checked_cong [OF table], use w(1) in \<open>simp add: fine_word_def concat_chains_of\<close>)
qed

section \<open>The file\<close>

lemma fsck_checksum_ok:
  assumes "pos + left = length f" "left < 2 ^ 32" "\<not> finalized c"
  shows "fsck_checksum f pos (of_nat left) c = Inr (c\<lparr>crc_state := foldl crc_byte (crc_state c) (drop pos f)\<rparr>)"
  using assms
proof (induction left arbitrary: pos c rule: less_induct)
  case (less left)
  let ?buf = "take 512 (drop pos f)"
  let ?c = "c\<lparr>crc_state := foldl crc_byte (crc_state c) ?buf\<rparr>"
  have fold: "FoldBytes ?buf c = Inr ?c" using less.prems(3) by (rule FoldBytes_reference)
  show ?case
  proof (cases "left = 0")
    case True
    then show ?thesis using less.prems(1) by (simp add: fsck_checksum.simps)
  next
    case False
    have pos: "0 < (of_nat left :: u32)"
      using of_nat_u32_eq_0_iff [OF less.prems(2)] False by (simp add: word_neq_0_conv [symmetric])
    have lb: "length ?buf = min 512 left" using less.prems(1) by simp
    then have ne: "?buf \<noteq> []" using False by (metis length_0_conv min_def zero_neq_numeral)
    have left: "of_nat left - of_nat (length ?buf) = (of_nat (left - length ?buf) :: u32)"
      using lb by (simp add: of_nat_diff)
    have "drop (pos + length ?buf) f = drop 512 (drop pos f)"
      using lb less.prems(1) by (cases "left \<le> 512") (simp_all add: min_def add.commute)
    then have "drop pos f = ?buf @ drop (pos + length ?buf) f" by (simp only: append_take_drop_id)
    then have crc: "foldl crc_byte (crc_state c) (drop pos f)
        = foldl crc_byte (crc_state ?c) (drop (pos + length ?buf) f)"
      by (simp flip: foldl_append)
    have "fsck_checksum f (pos + length ?buf) (of_nat (left - length ?buf)) ?c
        = Inr (?c\<lparr>crc_state := foldl crc_byte (crc_state ?c) (drop (pos + length ?buf) f)\<rparr>)"
      by (rule less.IH) (use less.prems False lb in auto)
    then show ?thesis unfolding crc
      using pos ne by (subst fsck_checksum.simps) (simp only: Let_def if_True if_False fold andThen_simps left, simp)
  qed
qed

text \<open>The lines of a run without complaints, with or without the note on byte orders.\<close>

definition size_note :: string where
  "size_note = ''Note: you likely forgot an endianness conversion, ''
     @ ''since ntohl(doctable_size_) + ntohl(index_size_) == filesize - 16'' @ [newline_char]"

definition progress :: "bool \<Rightarrow> string \<Rightarrow> string list" where
  "progress nt filename =
     map (\<lambda>l. l @ [newline_char]) [''hw3fsck'ing '' @ filename, ''  checking the header...'',
       ''    checking the magic number...'', ''    checking file size against table offsets...'']
     @ (if nt then [size_note] else [])
     @ map (\<lambda>l. l @ [newline_char]) [''    recalculating the checksum...'', ''  checking the doctable...'',
       ''  checking the index table...'', ''  done'']"

definition silent :: "string \<Rightarrow> string list \<Rightarrow> bool" where
  "silent filename out \<longleftrightarrow> (\<exists>nt. out = progress nt filename)"

definition report ::
  "string \<Rightarrow> string list \<Rightarrow> string list \<Rightarrow> bool \<Rightarrow> string list \<Rightarrow> string list \<Rightarrow> string list \<Rightarrow> string list" where
  "report filename w1 w2 nt w3 w4 w5 =
     map (\<lambda>l. l @ [newline_char]) [''hw3fsck'ing '' @ filename, ''  checking the header...'',
       ''    checking the magic number...''] @ w1
     @ [''    checking file size against table offsets...'' @ [newline_char]] @ w2
     @ (if nt then [size_note] else [])
     @ [''    recalculating the checksum...'' @ [newline_char]] @ w3
     @ [''  checking the doctable...'' @ [newline_char]] @ w4
     @ [''  checking the index table...'' @ [newline_char]] @ w5 @ [''  done'' @ [newline_char]]"

lemma silent_report:
  assumes "length w2 \<noteq> 1"
  shows "silent filename (report filename w1 w2 nt w3 w4 w5)
     \<longleftrightarrow> w1 = [] \<and> w2 = [] \<and> w3 = [] \<and> w4 = [] \<and> w5 = []"
proof
  assume "silent filename (report filename w1 w2 nt w3 w4 w5)"
  then obtain nt' where e: "report filename w1 w2 nt w3 w4 w5 = progress nt' filename"
    by (auto simp: silent_def)
  let ?n = "\<lambda>b. if b then 1 else 0 :: nat"
  have "length (report filename w1 w2 nt w3 w4 w5) = length (progress nt' filename)" using e by simp
  then have len: "length w1 + length w2 + ?n nt + length w3 + length w4 + length w5 = ?n nt'"
    by (cases nt; cases nt') (simp_all add: report_def progress_def)
  show "w1 = [] \<and> w2 = [] \<and> w3 = [] \<and> w4 = [] \<and> w5 = []"
  proof (cases "nt' \<and> \<not> nt")
    case False
    then show ?thesis using len by (simp split: if_splits)
  next
    case True
    then have one: "length w1 + length w2 + length w3 + length w4 + length w5 = 1" using len by simp
    then have w2: "w2 = []" using assms by (cases w2) auto
    have "report filename w1 w2 nt w3 w4 w5 ! 4 = size_note"
      unfolding e using True by (simp add: progress_def)
    moreover have "report filename w1 w2 nt w3 w4 w5 ! 4 \<noteq> size_note"
    proof (cases w1)
      case Nil
      then show ?thesis using True w2 by (simp add: report_def size_note_def)
    next
      case (Cons x xs)
      then have "w1 = [x]" using one by simp
      then show ?thesis using True w2 by (simp add: report_def size_note_def)
    qed
    ultimately show ?thesis by simp
  qed
qed (auto simp: silent_def report_def progress_def intro!: exI [of _ nt])

lemma Check32_prints:
  "\<exists>ws. printed (snd (Check32 e a n s)) = printed s @ ws \<and> (ws = [] \<longleftrightarrow> e = a) \<and> length ws \<noteq> 1"
  by (cases "e = a") (simp_all add: Check32_def mismatch_def PrintContext_def print_on_def split: prod.splits)

lemma Check32_printsE:
  obtains ws where "printed (snd (Check32 e a n s)) = printed s @ ws" "ws = [] \<longleftrightarrow> e = a" "length ws \<noteq> 1"
  using Check32_prints that by blast

lemma printed_simps [simp]:
  "printed (line_of_text l s) = printed s @ [l @ [newline_char]]"
  "printed (UpdateGlobals a b c s) = printed s"
  by (simp_all add: line_of_text_def print_on_def UpdateGlobals_def)

text \<open>Everything before the tables.\<close>

lemma hw3fsck_main_header:
  assumes f: "fs filename = Some f" "16 \<le> length f" "length f < 2 ^ 32"
    and h: "h = IndexFileHeader_toHostFormat (IndexFileHeader_of_image (take 16 f))"
  obtains st w1 w2 w3 nt where
    "hw3fsck_main fs [prog, filename] =
       andThen (HashTableChecker_Check (DocTableChecker_CheckElement f) f 16 (doctable_size h) st) (\<lambda>st.
         andThen (HashTableChecker_Check (IndexTableChecker_CheckElement f 0 (16 + doctable_size h + index_size h)) f
             (16 + doctable_size h) (index_size h) (line_of_text ''  checking the index table...'' st)) (\<lambda>st.
           Inr (EXIT_SUCCESS, printed st @ [''  done'' @ [newline_char]])))"
    "\<And>w4 w5. printed st @ w4 @ [''  checking the index table...'' @ [newline_char]] @ w5 @ [''  done'' @ [newline_char]]
       = report filename w1 w2 nt w3 w4 w5"
    "w1 = [] \<longleftrightarrow> magic_number h = MAGIC_NUMBER" "length w2 \<noteq> 1"
    "w2 = [] \<longleftrightarrow> of_nat (length f) = 16 + doctable_size h + index_size h"
    "w3 = [] \<longleftrightarrow> crc32_reference (drop 16 f) = checksum h"
proof -
  define c1 where "c1 = (\<lambda>s. snd (Check32 MAGIC_NUMBER (magic_number h) ''magic number''
    (UpdateGlobals ''magic number'' [] [] (line_of_text ''    checking the magic number...''
      (UpdateGlobals ''header'' [] [] (line_of_text ''  checking the header...'' s))))))"
  define c2 where "c2 = (\<lambda>s. snd (Check32 (of_nat (length f) - 16) (doctable_size h + index_size h)
    ''doctable_size + index_size'' (line_of_text ''    checking file size against table offsets...'' s)))"
  define nt where "nt \<longleftrightarrow> htonl (doctable_size h) + htonl (index_size h) = of_nat (length f) - 16"
  define c3 where "c3 = (\<lambda>s. snd (Check32 (crc32_reference (drop 16 f)) (checksum h) ''checksum''
    (line_of_text ''    recalculating the checksum...'' (if nt then print_on size_note s else s))))"
  define s0 where "s0 = line_of_text (''hw3fsck'ing '' @ filename) \<lparr>globals = ([], [], []), printed = []\<rparr>"
  let ?st = "line_of_text ''  checking the doctable...'' (c3 (c2 (c1 s0)))"
  have rd: "fread_verified f k 4 g = g (take 4 (drop k f))" if "k + 4 \<le> 16" for k and g :: "u8 list \<Rightarrow> fsck res"
    using that f(2) by (simp add: fread_verified_def read_at_def)
  have hd: "htonl (of_le_bytes (take 4 (drop 0 f))) = magic_number h" "htonl (of_le_bytes (take 4 (drop 4 f))) = checksum h"
    "htonl (of_le_bytes (take 4 (drop 8 f))) = doctable_size h" "htonl (of_le_bytes (take 4 (drop 12 f))) = index_size h"
    unfolding h by (simp_all add: IndexFileHeader_toHostFormat_def IndexFileHeader_of_image_def drop_take)
  have left: "(of_nat (length f) - 16 :: u32) = of_nat (length f - 16)" using f(2) by (simp add: of_nat_diff)
  have crc: "fsck_checksum f 16 (of_nat (length f) - 16) new_CRC32
      = Inr (new_CRC32\<lparr>crc_state := foldl crc_byte (crc_state new_CRC32) (drop 16 f)\<rparr>)"
    unfolding left by (rule fsck_checksum_ok) (use f in \<open>auto simp: new_CRC32_def\<close>)
  have fin: "fst (GetFinalCRC (new_CRC32\<lparr>crc_state := foldl crc_byte (crc_state new_CRC32) (drop 16 f)\<rparr>))
      = crc32_reference (drop 16 f)"
    by (simp add: GetFinalCRC_def new_CRC32_def crc32_reference_def)
  have sn: "line_of_text (''Note: you likely forgot an endianness conversion, ''
      @ ''since ntohl(doctable_size_) + ntohl(index_size_) == filesize - 16'') s = print_on size_note s" for s
    by (simp add: line_of_text_def size_note_def)
  have assoc: "andThen (andThen r k) k' = andThen r (\<lambda>x. andThen (k x) k')"
    for r :: "fsck res" and k :: "fsck \<Rightarrow> fsck res" and k' :: "fsck \<Rightarrow> (exit_code \<times> string list) res"
    by (simp add: andThen_def split: sum.splits)
  have run: "FileIndexChecker fs filename \<lparr>globals = ([], [], []), printed = []\<rparr>
      = andThen (HashTableChecker_Check (DocTableChecker_CheckElement f) f 16 (doctable_size h) ?st) (\<lambda>st.
          andThen (HashTableChecker_Check (IndexTableChecker_CheckElement f 0 (16 + doctable_size h + index_size h)) f
             (16 + doctable_size h) (index_size h) (line_of_text ''  checking the index table...'' st)) (\<lambda>st.
            Inr (line_of_text ''  done'' st)))"
    unfolding FileIndexChecker_def Let_def f(1) option.case sn
    by (simp only: rd hd crc fin andThen_simps numeral_le_iff semiring_norm c1_def c2_def c3_def s0_def nt_def
        IndexTableChecker_end [of f "16 + doctable_size h"] cong: if_cong)
  let ?s1 = "UpdateGlobals ''magic number'' [] [] (line_of_text ''    checking the magic number...''
      (UpdateGlobals ''header'' [] [] (line_of_text ''  checking the header...'' s0)))"
  let ?s2 = "line_of_text ''    checking file size against table offsets...'' (c1 s0)"
  let ?s3 = "line_of_text ''    recalculating the checksum...'' (if nt then print_on size_note (c2 (c1 s0)) else c2 (c1 s0))"
  obtain w1 where w1: "printed (c1 s0) = printed ?s1 @ w1" "w1 = [] \<longleftrightarrow> MAGIC_NUMBER = magic_number h" "length w1 \<noteq> 1"
    unfolding c1_def by (rule Check32_printsE)
  obtain w2 where w2: "printed (c2 (c1 s0)) = printed ?s2 @ w2"
    "w2 = [] \<longleftrightarrow> of_nat (length f) - 16 = doctable_size h + index_size h" "length w2 \<noteq> 1"
    unfolding c2_def by (rule Check32_printsE)
  obtain w3 where w3: "printed (c3 (c2 (c1 s0))) = printed ?s3 @ w3"
    "w3 = [] \<longleftrightarrow> crc32_reference (drop 16 f) = checksum h" "length w3 \<noteq> 1"
    unfolding c3_def by (rule Check32_printsE)
  have s3: "printed (if nt then print_on size_note s else s) = printed s @ (if nt then [size_note] else [])" for s
    by (simp add: print_on_def)
  have p0: "printed s0 = [(''hw3fsck'ing '' @ filename) @ [newline_char]]"
    by (simp only: s0_def printed_simps fsck.simps append_Nil)
  have rep: "printed ?st @ w4 @ [''  checking the index table...'' @ [newline_char]] @ w5 @ [''  done'' @ [newline_char]]
       = report filename w1 w2 nt w3 w4 w5" for w4 w5
    by (simp only: printed_simps w3(1) s3 w2(1) w1(1) p0 report_def list.map append_assoc append_Cons append_Nil)
  have sizes: "w2 = [] \<longleftrightarrow> of_nat (length f) = 16 + doctable_size h + index_size h"
    unfolding w2(2) diff_eq_eq by (simp only: ac_simps)
  have main: "hw3fsck_main fs [prog, filename] =
       andThen (HashTableChecker_Check (DocTableChecker_CheckElement f) f 16 (doctable_size h) ?st) (\<lambda>st.
         andThen (HashTableChecker_Check (IndexTableChecker_CheckElement f 0 (16 + doctable_size h + index_size h)) f
             (16 + doctable_size h) (index_size h) (line_of_text ''  checking the index table...'' st)) (\<lambda>st.
           Inr (EXIT_SUCCESS, printed st @ [''  done'' @ [newline_char]])))"
    using run by (simp add: hw3fsck_main_def assoc)
  show thesis by (rule that [OF main rep _ w2(3) sizes w3(2)]) (use w1(2) in auto)
qed

section \<open>An index that has been written\<close>

definition within_limits :: "mem_index \<Rightarrow> doc_table \<Rightarrow> bool" where
  "within_limits mi dt \<longleftrightarrow> (\<forall>kv \<in> set (ht_items (docid_to_docname dt)). fine_name kv) \<and>
     (\<forall>kv \<in> set (ht_items (index mi)). fine_word (wdss mi) kv)"

lemma checked_printed:
  assumes "checked P st r"
  obtains st' ws where "r = Inr st'" "printed st' = printed st @ ws" "ws = [] \<longleftrightarrow> P"
  using assms that unfolding checked_def by blast

lemma hw3fsck_written:
  assumes w: "writable mi dt m" and small: "length (index_file mi dt) < 2 ^ 31"
    and f: "fs filename = Some (index_file mi dt)"
  shows "\<exists>out. hw3fsck_main fs [prog, filename] = Inr (EXIT_SUCCESS, out) \<and>
     (silent filename out \<longleftrightarrow> within_limits mi dt)"
proof -
  let ?f = "index_file mi dt" and ?h = "index_header mi dt"
  let ?d = "doctable_bytes dt" and ?w = "memindex_bytes mi (16 + length (doctable_bytes dt))"
  have len: "length ?f = 16 + length ?d + length ?w" by (rule length_index_file)
  have f32: "16 \<le> length ?f" "length ?f < 2 ^ 32" using small len by simp_all
  have head: "?h = IndexFileHeader_toHostFormat (IndexFileHeader_of_image (take 16 ?f))"
    and ok: "magic_number ?h = MAGIC_NUMBER" "of_nat (length ?f) = 16 + doctable_size ?h + index_size ?h"
      "crc32_reference (drop 16 ?f) = checksum ?h"
    using index_file_opens [OF f32(2), of True] f32
    unfolding new_FileIndexReader_small [OF f32(2)] by (auto simp: Let_def split: if_splits)
  obtain st w1 w2 w3 nt where main: "hw3fsck_main fs [prog, filename] =
       andThen (HashTableChecker_Check (DocTableChecker_CheckElement ?f) ?f 16 (doctable_size ?h) st) (\<lambda>st.
         andThen (HashTableChecker_Check (IndexTableChecker_CheckElement ?f 0 (16 + doctable_size ?h + index_size ?h)) ?f
             (16 + doctable_size ?h) (index_size ?h) (line_of_text ''  checking the index table...'' st)) (\<lambda>st.
           Inr (EXIT_SUCCESS, printed st @ [''  done'' @ [newline_char]])))"
    and rep: "\<And>w4 w5. printed st @ w4 @ [''  checking the index table...'' @ [newline_char]] @ w5 @ [''  done'' @ [newline_char]]
       = report filename w1 w2 nt w3 w4 w5"
    and ws: "w1 = []" "length w2 \<noteq> 1" "w2 = []" "w3 = []"
    by (rule hw3fsck_main_header [where fs = fs and filename = filename and prog = prog, OF f f32 head]) (use ok in auto)
  have sizes: "doctable_size ?h = of_nat (length ?d)" "index_size ?h = of_nat (length ?w)"
    by (simp_all add: index_header_def Let_def)
  have inv: "ht_inv (docid_to_docname dt) m" "ht_inv (index mi) m"
    and names: "\<forall>kv \<in> set (ht_items (docid_to_docname dt)). storable (kv_value kv)"
    and words: "\<forall>kv \<in> set (ht_items (index mi)). wf_word (wdss mi) kv"
    using w by (fastforce simp: writable_def good_name_def good_word_def wf_word_def split: option.splits)+
  let ?N = "\<forall>kv \<in> set (ht_items (docid_to_docname dt)). fine_name kv"
  let ?W = "\<forall>kv \<in> set (ht_items (index mi)). fine_word (wdss mi) kv"
  have "checked (True \<and> (\<forall>kv \<in> set (concat (chains_of (docid_to_docname dt))). fine_name kv)) st
     (HashTableChecker_Check (DocTableChecker_CheckElement ?f) ?f (of_nat 16)
        (of_nat (length (enc_table enc_docname 16 (chains_of (docid_to_docname dt))))) st)"
    by (rule name_checker.HashTableChecker_Check_checked [OF small _ index_file_tables(1) [unfolded doctable_bytes_def]
          refl chains_of_nonempty [OF inv(1)] length_chains_of [OF inv(1), symmetric] chains_placed [OF inv(1) names] checked_Inr])
      (simp add: length_index_file doctable_bytes_def)
  then obtain st4 w4 where s4: "HashTableChecker_Check (DocTableChecker_CheckElement ?f) ?f 16 (doctable_size ?h) st = Inr st4"
    "printed st4 = printed st @ w4" "w4 = [] \<longleftrightarrow> ?N"
    unfolding concat_chains_of sizes doctable_bytes_def by (elim checked_printed) simp
  let ?st4 = "line_of_text ''  checking the index table...'' st4"
  have "checked (True \<and> (\<forall>kv \<in> set (concat (chains_of (index mi))). fine_word (wdss mi) kv)) ?st4
     (HashTableChecker_Check (IndexTableChecker_CheckElement ?f 0 (of_nat (16 + length ?d + length ?w))) ?f
        (of_nat (16 + length ?d))
        (of_nat (length (enc_table (enc_word (wdss mi)) (16 + length ?d) (chains_of (index mi))))) ?st4)"
    by (rule word_checker.HashTableChecker_Check_checked [OF small _ index_file_tables(2) [unfolded memindex_bytes_def]
          _ chains_of_nonempty [OF inv(2)] length_chains_of [OF inv(2), symmetric] chains_placed [OF inv(2) words] checked_Inr])
      (simp_all add: length_index_file memindex_bytes_def)
  then obtain st5 w5 where s5: "HashTableChecker_Check (IndexTableChecker_CheckElement ?f 0 (16 + doctable_size ?h + index_size ?h)) ?f
        (16 + doctable_size ?h) (index_size ?h) ?st4 = Inr st5"
    "printed st5 = printed ?st4 @ w5" "w5 = [] \<longleftrightarrow> ?W"
    unfolding concat_chains_of sizes memindex_bytes_def of_nat_add by (elim checked_printed) simp
  have "hw3fsck_main fs [prog, filename] = Inr (EXIT_SUCCESS, report filename w1 w2 nt w3 w4 w5)"
    unfolding main s4(1) andThen_simps s5(1) rep [symmetric]
    by (simp only: s5(2) printed_simps s4(2) append_assoc)
  moreover have "silent filename (report filename w1 w2 nt w3 w4 w5) \<longleftrightarrow> within_limits mi dt"
    unfolding silent_report [OF ws(2)] within_limits_def using ws s4(3) s5(3) by blast
  ultimately show ?thesis by blast
qed

section \<open>Any file\<close>

text \<open>Whatever the file holds, the checks of the tables only add to the output.\<close>

definition adds :: "fsck \<Rightarrow> fsck res \<Rightarrow> bool" where
  "adds st r \<longleftrightarrow> (\<forall>st'. r = Inr st' \<longrightarrow> (\<exists>ws. printed st' = printed st @ ws))"

named_theorems adds_rules

lemma adds_end [adds_rules]: "adds st (Inl e)" "adds st (Inr st)"
  by (simp_all add: adds_def)

lemma adds_trans: "adds st (Inr s) \<Longrightarrow> adds s r \<Longrightarrow> adds st r"
  by (fastforce simp: adds_def)

lemma adds_andThen [adds_rules]:
  "adds st r \<Longrightarrow> (\<And>s. adds s (k s)) \<Longrightarrow> adds st (andThen r k)"
  by (cases r) (auto simp: adds_def, metis append_assoc)

lemma adds_reads [adds_rules]:
  "(\<And>bs. adds st (k bs)) \<Longrightarrow> adds st (fread_verified f pos n k)"
  "(\<And>cs. adds st (k' cs)) \<Longrightarrow> adds st (fread_chars f pos n k')"
  by (auto simp: fread_verified_def fread_chars_def Verify333_def adds_def split: option.splits)

lemma adds_checks [adds_rules]:
  "adds st (Inr s) \<Longrightarrow> adds st (Inr (UpdateGlobals a b c s))"
  "adds st (Inr s) \<Longrightarrow> adds st (Inr (snd (Check16 e16 a16 n s)))"
  "adds st (Inr s) \<Longrightarrow> adds st (Inr (snd (Check32 e32 a32 n s)))"
  "adds st (Inr s) \<Longrightarrow> adds st (Inr (snd (Check64 e64 a64 n s)))"
  "adds st (Inr s) \<Longrightarrow> adds st (Inr (snd (CheckLT16 e16 a16 n s)))"
  "adds st (Inr s) \<Longrightarrow> adds st (Inr (snd (CheckLT32 e32 a32 n s)))"
  by (auto simp: adds_def Check16_def Check32_def Check64_def CheckLT16_def CheckLT32_def
      mismatch_def not_less_def PrintContext_def print_on_def split: prod.splits)

lemma adds_check_filename: "adds st (Inr s) \<Longrightarrow> adds st (Inr (check_filename i cs s))"
proof (induction cs arbitrary: i s)
  case (Cons c cs)
  show ?case unfolding check_filename.simps by (intro Cons.IH adds_checks Cons.prems)
qed simp

lemma adds_check_word: "adds st (Inr s) \<Longrightarrow> adds st (Inr (check_word i cs s))"
proof (induction cs arbitrary: i s)
  case (Cons c cs)
  show ?case unfolding check_word.simps Let_def
    by (cases "isalpha c"; simp only: if_True if_False simp_thms; intro Cons.IH adds_checks Cons.prems)
qed simp

lemma adds_check_positions: "adds st (Inr s) \<Longrightarrow> adds st (check_positions n f pos prev s)"
proof (induction n arbitrary: pos prev s)
  case (Suc n)
  show ?case unfolding check_positions.simps Let_def
    by (cases prev; simp only: option.case; intro adds_reads Suc.IH adds_checks Suc.prems)
qed simp

lemma adds_check_chain:
  assumes el: "\<And>p s. adds s (E nb p (of_nat i) s)"
  shows "adds st (Inr s) \<Longrightarrow> adds st (check_chain E f e nb i b js s)"
proof (induction js arbitrary: st s)
  case (Cons j js)
  show ?case unfolding check_chain.simps Let_def
    by (intro adds_reads adds_andThen Cons.IH adds_trans [OF _ el] adds_checks Cons.prems adds_end)
qed simp

lemma adds_andThen_pair:
  assumes "\<And>p s. r = Inr (p, s) \<Longrightarrow> adds st (Inr s)" "\<And>p s. adds s (k (p, s))"
  shows "adds st (andThen r k)"
proof (cases r)
  case (Inr x)
  then show ?thesis using assms(1) [of "fst x" "snd x"] assms(2) [of "snd x" "fst x"] adds_trans by simp
qed (simp add: adds_end)

lemma adds_check_buckets:
  assumes el: "\<And>p i s. adds s (E nb p i s)"
  shows "adds st (Inr s) \<Longrightarrow> adds st (check_buckets E f off e nb is prev s)"
proof (induction "is" arbitrary: prev st s)
  case (Cons i "is")
  let ?st = "UpdateGlobals ''bucket_rec['' (decimal i) '']'' s"
  have st: "adds st (Inr ?st)" using Cons.prems by (rule adds_checks)
  have rest: "adds s' (andThen (check_chain E f e nb i b js (snd (CheckLT32 b (e + 1) n s')))
      (check_buckets E f off e nb is prev'))" for b js n prev' s'
    by (intro adds_andThen Cons.IH adds_check_chain el adds_checks adds_end)
  have mid: "adds st (Inr s')"
    if "(if 0 < len then
           (case prev of Some p \<Rightarrow> Inr (Some b, snd (CheckLT32 p b n ?st))
            | None \<Rightarrow> fread_verified f q 4 (\<lambda>_. fread_verified f (q + 4) 4 (\<lambda>bs.
                Inr (Some (htonl (of_le_bytes bs)), snd (Check32 x (htonl (of_le_bytes bs)) n' ?st)))))
         else Inr (prev, ?st)) = Inr (p', s')" for len b n n' q x p' s'
    using that adds_checks(3,6) [OF st]
    by (auto simp: fread_verified_def st split: if_splits option.splits)
  show ?case unfolding check_buckets.simps Let_def
    by (intro adds_reads adds_andThen_pair) (erule mid, simp only: prod.case rest)
qed simp

lemma adds_Check:
  assumes el: "\<And>nb p i s. adds s (E nb p i s)"
  shows "adds st (Inr s) \<Longrightarrow> adds st (HashTableChecker_Check E f off len s)"
  unfolding HashTableChecker_Check_def Let_def
  by (intro adds_reads adds_check_buckets el adds_checks)

lemma adds_if: "adds st x \<Longrightarrow> adds st y \<Longrightarrow> adds st (if b then x else y)"
  by simp

lemma adds_elements:
  "adds s (DocTableChecker_CheckElement f nb p i s)"
  "adds s (DocIDTableChecker_CheckElement f nb p i s)"
  "adds s (IndexTableChecker_CheckElement f off len nb p i s)"
proof -
  show "adds s (DocTableChecker_CheckElement f nb p i s)"
    unfolding DocTableChecker_CheckElement_def Let_def
    by (intro adds_if adds_reads adds_end adds_check_filename adds_checks)
  show docid: "adds s (DocIDTableChecker_CheckElement f nb p i s)" for nb p i s
    unfolding DocIDTableChecker_CheckElement_def Let_def
    by (intro adds_if adds_reads adds_end adds_check_positions adds_checks)
  show "adds s (IndexTableChecker_CheckElement f off len nb p i s)"
    unfolding IndexTableChecker_CheckElement_def Let_def
    by (intro adds_reads adds_Check docid adds_check_word adds_checks adds_end)
qed

lemma hw3fsck_silent_valid:
  assumes f: "fs filename = Some f" "length f < 2 ^ 32"
    and run: "hw3fsck_main fs [prog, filename] = Inr (code, out)" "silent filename out"
  shows "\<exists>fir. new_FileIndexReader (Some f) True = Inr fir"
proof -
  have "16 \<le> length f"
    using run(1) f(1) by (auto simp: hw3fsck_main_def FileIndexChecker_def Let_def andThen_Inr_iff
        fread_verified_def read_at_def split: option.splits if_splits)
  define h where "h = IndexFileHeader_toHostFormat (IndexFileHeader_of_image (take 16 f))"
  obtain st w1 w2 w3 nt where main: "hw3fsck_main fs [prog, filename] =
       andThen (HashTableChecker_Check (DocTableChecker_CheckElement f) f 16 (doctable_size h) st) (\<lambda>st.
         andThen (HashTableChecker_Check (IndexTableChecker_CheckElement f 0 (16 + doctable_size h + index_size h)) f
             (16 + doctable_size h) (index_size h) (line_of_text ''  checking the index table...'' st)) (\<lambda>st.
           Inr (EXIT_SUCCESS, printed st @ [''  done'' @ [newline_char]])))"
    and rep: "\<And>w4 w5. printed st @ w4 @ [''  checking the index table...'' @ [newline_char]] @ w5 @ [''  done'' @ [newline_char]]
       = report filename w1 w2 nt w3 w4 w5"
    and ws: "w1 = [] \<longleftrightarrow> magic_number h = MAGIC_NUMBER" "length w2 \<noteq> 1"
      "w2 = [] \<longleftrightarrow> of_nat (length f) = 16 + doctable_size h + index_size h"
      "w3 = [] \<longleftrightarrow> crc32_reference (drop 16 f) = checksum h"
    by (rule hw3fsck_main_header [where fs = fs and filename = filename and prog = prog,
          OF f(1) \<open>16 \<le> length f\<close> f(2) h_def]) (rule that; assumption)
  obtain st4 st5 where s: "HashTableChecker_Check (DocTableChecker_CheckElement f) f 16 (doctable_size h) st = Inr st4"
    "HashTableChecker_Check (IndexTableChecker_CheckElement f 0 (16 + doctable_size h + index_size h)) f
       (16 + doctable_size h) (index_size h) (line_of_text ''  checking the index table...'' st4) = Inr st5"
    "out = printed st5 @ [''  done'' @ [newline_char]]"
    using run(1) unfolding main andThen_Inr_iff by blast
  obtain w4 where w4: "printed st4 = printed st @ w4"
    using adds_Check [where E = "DocTableChecker_CheckElement f", OF adds_elements(1) adds_end(2)] s(1) unfolding adds_def by blast
  obtain w5 where w5: "printed st5 = printed (line_of_text ''  checking the index table...'' st4) @ w5"
    using adds_Check [where E = "IndexTableChecker_CheckElement f 0 e" for e, OF adds_elements(3) adds_end(2)] s(2) unfolding adds_def by blast
  have "out = report filename w1 w2 nt w3 w4 w5"
    unfolding s(3) rep [symmetric] by (simp only: w5 w4 printed_simps append_assoc)
  then have "w1 = [] \<and> w2 = [] \<and> w3 = []" using run(2) silent_report [OF ws(2)] by blast
  then show ?thesis
    using ws \<open>16 \<le> length f\<close> unfolding new_FileIndexReader_small [OF f(2)] Let_def h_def [symmetric] by simp
qed

section \<open>The index of a directory\<close>

lemma tolower_islower: "isalpha c \<Longrightarrow> islower (tolower c)"
  by (auto simp: isalpha_def islower_def tolower_def Let_def)

lemma tokens_lower: "x \<in> set (tokens n s) \<Longrightarrow> \<forall>c \<in> set (fst x). islower c"
proof (induction n s rule: tokens.induct)
  case (2 n c cs)
  show ?case
  proof (cases "isalpha c")
    case True
    then have "\<forall>c' \<in> set (map tolower (c # takeWhile isalpha cs)). islower c'"
      using tolower_islower by (auto dest: set_takeWhileD)
    then show ?thesis using 2 True by (cases x) auto
  qed (use 2 in simp)
qed simp

lemma tokens_rising:
  "sorted_wrt (<) (map snd (tokens n s)) \<and> (\<forall>x \<in> set (tokens n s). n \<le> snd x \<and> snd x < n + length s)"
proof (induction n s rule: tokens.induct)
  case (2 n c cs)
  have "length (takeWhile isalpha cs) + length (dropWhile isalpha cs) = length cs"
    by (metis length_append takeWhile_dropWhile_id)
  then show ?case using 2 by (cases "isalpha c") fastforce+
qed simp

lemma noted_rising:
  assumes "noted (words_of flt t) key = Some (w, ps)" "length t < 2 ^ 32"
  shows "rising ps" "length ps \<le> length (words_of flt t)"
proof -
  let ?os = "occurrences (words_of flt t) key"
  have ps: "ps = map of_nat (map snd ?os)"
    using assms(1) by (auto simp: noted_def case_prod_beta split: list.splits)
  have "sorted_wrt (<) (map snd (tokens 0 t))" using tokens_rising by blast
  then have s1: "sorted_wrt (\<lambda>x y. snd x < snd y) ?os"
    unfolding sorted_wrt_map occurrences_def words_of_def by (intro sorted_wrt_filter)
  have small: "\<forall>x \<in> set ?os. snd x < 2 ^ 32"
    using tokens_rising [of 0 t] assms(2) by (fastforce simp: occurrences_def words_of_def)
  have imp: "(of_nat (snd x) :: u32) < of_nat (snd y)" if "x \<in> set ?os" "y \<in> set ?os" "snd x < snd y" for x y
  proof -
    have "unat (of_nat (snd z) :: u32) = snd z" if "z \<in> set ?os" for z
      using small that by (intro unat_of_nat_u32) blast
    with that show ?thesis by (simp only: word_less_nat_alt)
  qed
  have "sorted_wrt (\<lambda>x y. (of_nat (snd x) :: u32) < of_nat (snd y)) ?os"
    by (rule sorted_wrt_mono_rel [OF imp s1])
  then show "rising ps" by (simp add: rising_def ps sorted_wrt_map)
  show "length ps \<le> length (words_of flt t)" by (simp add: ps occurrences_def)
qed

definition checkable_docs :: "bool \<Rightarrow> (string \<times> string) list \<Rightarrow> bool" where
  "checkable_docs flt docs \<longleftrightarrow>
     (\<forall>doc \<in> set docs. length (fst doc) < 1024 \<and> (\<forall>c \<in> set (fst doc). isascii c) \<and>
        (\<forall>w \<in> text_words flt doc. length w < 8192) \<and> length (words_of flt (snd doc)) < 1000000)"

lemma crawl_within_limits:
  assumes rep: "crawl_rep flt docs dt mi m" and len: "length docs < 2 ^ 64"
    and lim: "checkable_docs flt docs" and texts: "\<forall>doc \<in> set docs. length (snd doc) < 2 ^ 32"
  shows "within_limits mi dt"
  unfolding within_limits_def
proof (intro conjI ballI)
  have dt: "ht_inv (docid_to_docname dt) m" "ht_map (docid_to_docname dt) = name_of_id (map fst docs)"
    and mi: "mi_ok mi m" using rep by (simp_all add: crawl_rep_def dt_rep_def mi_inv_ok)
  then have own: "own_ok (index mi) (wdss mi) m" by (simp add: mi_ok_def)
  show "fine_name kv" if "kv \<in> set (ht_items (docid_to_docname dt))" for kv
  proof -
    have "ht_map (docid_to_docname dt) (kv_key kv) = Some (kv_value kv)" using that ht_map_Some_iff [OF dt(1)] by blast
    then have "unat (kv_key kv) - 1 < length (map fst docs)" "kv_value kv = map fst docs ! (unat (kv_key kv) - 1)"
      unfolding dt(2) by (auto simp: name_of_id_def split: if_splits)
    then have "kv_value kv \<in> set (map fst docs)" by (metis nth_mem)
    then show ?thesis using lim by (auto simp: fine_name_def checkable_docs_def)
  qed
  show "fine_word (wdss mi) kv" if "kv \<in> set (ht_items (index mi))" for kv
  proof -
    have at: "ht_map (index mi) (kv_key kv) = Some (kv_value kv)" using that ht_map_Some_iff [OF own_inv [OF own]] by blast
    from own_reach [OF own this] obtain wds where wds: "wdss mi (kv_value kv) = Some wds"
      "own_map (index mi) (wdss mi) (kv_key kv) = Some wds" .
    have inv: "ht_inv (docIDs wds) m" using mi wds(1) by (auto simp: mi_ok_def intro: ranI)
    obtain doc where doc: "doc \<in> set docs" "word wds \<in> text_words flt doc"
      using crawl_word(2) [OF rep wds(2)] by blast
    then obtain x where "x \<in> set (tokens 0 (snd doc))" "fst x = word wds"
      by (auto simp: text_words_def words_of_def)
    then have low: "\<forall>c \<in> set (word wds). islower c" using tokens_lower by metis
    have "fine_positions kv'" if kv': "kv' \<in> set (ht_items (docIDs wds))" for kv'
    proof -
      have p: "ht_map (docIDs wds) (kv_key kv') = Some (kv_value kv')" using kv' ht_map_Some_iff [OF inv] by blast
      let ?d = "kv_key kv'"
      have bound: "0 < unat ?d \<and> unat ?d \<le> length docs" using crawl_posting [OF rep wds(2) p len] by simp
      let ?doc = "docs ! (unat ?d - 1)"
      have "posting (mi_view mi) (kv_key kv) ?d = Some (map snd (kv_value kv'))"
        using wds(2) p by (simp add: posting_def mi_view_def mi_abs_def wds_abs_def)
      then have "posting (corpus flt docs) (kv_key kv) ?d = Some (map snd (kv_value kv'))"
        using rep by (simp add: crawl_rep_def)
      then obtain w where n: "noted (words_of flt (snd ?doc)) (kv_key kv) = Some (w, map snd (kv_value kv'))"
        using bound by (auto simp: posting_corpus [OF len])
      have mem: "?doc \<in> set docs" using bound by (intro nth_mem) auto
      note R = noted_rising [OF n texts [rule_format, OF mem]]
      have "length (words_of flt (snd ?doc)) < 1000000" using lim mem by (simp add: checkable_docs_def)
      then show ?thesis using R by (simp add: fine_positions_def)
    qed
    moreover have "length (word wds) < 8192" using lim doc by (auto simp: checkable_docs_def)
    moreover have "isascii c" if "islower c" for c using that by (simp add: islower_def isascii_def)
    ultimately show ?thesis using wds(1) low by (auto simp: fine_word_def Let_def)
  qed
qed

lemma on_disk_lengths:
  "on_disk rfuel os path t \<Longrightarrow> doc \<in> set (docs_under flt path t) \<Longrightarrow> length (snd doc) < 2 ^ 32"
proof (induction flt path t rule: docs_under.induct)
  case (2 flt path ts)
  then obtain x where "x \<in> set ts" "doc \<in> set (docs_under flt (entry_path path (fst x)) (snd x))" by auto
  moreover have "on_disk rfuel os (entry_path path (fst x)) (snd x)" using 2(2) calculation(1) by auto
  ultimately show ?case using 2(1) by blast
qed (auto simp: indexable_def readable_def split: if_splits)

section \<open>The properties\<close>

text \<open>
  C6: The checker and the writer agree on the format of index files: if \<^verbatim>\<open>WriteIndex\<close> writes an index whose
  names, words and tables fit their fields (no operation on the file fails, memory does not run out,
  the file is shorter than two gigabytes, and the four bytes behind the local variable that the writer
  overruns are unused), then \<^verbatim>\<open>hw3fsck\<close> runs to its end on what it has written, without an abort, and it
  complains exactly when an entry is beyond one of its limits: a path that is not shorter than 1024
  ASCII characters, a word that is not shorter than 8192 characters of lower-case ASCII, or positions
  that are not strictly rising or not fewer than a million. (Its note on byte orders is not counted: it
  is printed whenever the two sizes happen to add up with their bytes swapped.)
\<close>

theorem hw3fsck_limits:
  assumes "writable mi dt m" "length (index_file mi dt) < 2 ^ 31" "reliable m" "spare_frame m"
    and "sound s" "file_bytes s = []"
  shows "\<exists>len file m' out. WriteIndex mi dt (Some s) m = Inr (len, Some file, m') \<and> len \<noteq> 0 \<and>
     hw3fsck_main (fs(filename \<mapsto> file)) [prog, filename] = Inr (EXIT_SUCCESS, out) \<and>
     (silent filename out \<longleftrightarrow> within_limits mi dt)"
proof -
  obtain m' where "WriteIndex mi dt (Some s) m
      = Inr (of_nat (length (index_file mi dt)), Some (index_file mi dt), m')"
    using WriteIndex_layout [OF assms(1,3,5,6,4)] by blast
  moreover have "length (index_file mi dt) \<noteq> 0" by (simp add: length_index_file)
  then have "(of_nat (length (index_file mi dt)) :: u32) \<noteq> 0"
    using assms(2) by (subst of_nat_u32_eq_0_iff) simp_all
  moreover obtain out where
    "hw3fsck_main (fs(filename \<mapsto> index_file mi dt)) [prog, filename] = Inr (EXIT_SUCCESS, out)"
    "silent filename out \<longleftrightarrow> within_limits mi dt"
    using hw3fsck_written [where fs = "fs(filename \<mapsto> index_file mi dt)" and filename = filename,
        OF assms(1,2), of prog] by auto
  ultimately show ?thesis by blast
qed

lemma demo_within_limits: "within_limits demo_index demo_dt"
proof -
  have "\<forall>kv \<in> set (ht_items demo_names). fine_name kv"
    by (simp add: demo_names_def ht_items_def fine_name_def isascii_def kv_of_def)
  moreover have "\<forall>kv \<in> set (ht_items demo_cat). fine_positions kv" "\<forall>kv \<in> set (ht_items demo_dog). fine_positions kv"
    by (simp_all add: demo_cat_def demo_dog_def ht_items_def fine_positions_def rising_def kv_of_def)
  moreover have "\<forall>c \<in> set ''cat'' \<union> set ''dog''. isascii c \<and> islower c"
    by (simp add: isascii_def islower_def)
  ultimately show ?thesis
    by (auto simp: within_limits_def demo_dt_def demo_index_def demo_top_items fine_word_def kv_of_def)
qed

lemma hw3fsck_limits_witness:
  "\<exists>len file m' out. WriteIndex demo_index demo_dt (Some empty_stream) demo_mem50 = Inr (len, Some file, m') \<and>
     hw3fsck_main [''x.idx'' \<mapsto> file] [''hw3fsck'', ''x.idx''] = Inr (EXIT_SUCCESS, out) \<and> silent ''x.idx'' out"
proof -
  have "length (index_file demo_index demo_dt) < 2 ^ 31" by (simp add: demo_length)
  from hw3fsck_limits [where fs = Map.empty and filename = "''x.idx''" and prog = "''hw3fsck''",
      OF demo_writable this demo_mem50_reliable demo_mem50_spare empty_stream_sound] demo_within_limits
  show ?thesis by blast
qed

text \<open>
  C9: What \<^verbatim>\<open>hw3fsck\<close> does not complain about is undamaged: if it comes to its end on a file, whatever
  the file holds, without any complaint, then the reader of the search engine accepts the file: the
  magic number is right, the sizes of the tables add up to the length, and the checksum is that of
  the tables.
\<close>

theorem hw3fsck_accepts_valid:
  assumes "fs filename = Some f" "length f < 2 ^ 32"
    and "hw3fsck_main fs [prog, filename] = Inr (code, out)" "silent filename out"
  shows "\<exists>fir. new_FileIndexReader (Some f) True = Inr fir"
  by (rule hw3fsck_silent_valid [where fs = fs and filename = filename, OF assms])

lemma hw3fsck_accepts_valid_witness:
  "\<exists>fir. new_FileIndexReader (Some (index_file demo_index demo_dt)) True = Inr fir"
proof -
  have f: "demo_fs ''x.idx'' = Some (index_file demo_index demo_dt)" "length (index_file demo_index demo_dt) < 2 ^ 32"
    by (simp_all add: demo_fs_def demo_length)
  obtain out where "hw3fsck_main demo_fs [''hw3fsck'', ''x.idx''] = Inr (EXIT_SUCCESS, out)" "silent ''x.idx'' out"
    using hw3fsck_written [where fs = demo_fs and filename = "''x.idx''", OF demo_writable _ f(1)]
      demo_within_limits demo_length by auto
  from hw3fsck_accepts_valid [where fs = demo_fs, OF f this] show ?thesis .
qed

text \<open>
  C3: What \<^verbatim>\<open>buildfileindex\<close> makes of a directory passes \<^verbatim>\<open>hw3fsck\<close> without a complaint, if the paths
  are ASCII and shorter than 1024 characters, the words shorter than 8192, and no text has a million
  words: the crawler finds the words in lower case and their positions in rising order. The other
  conditions: all files and directories below the root can be read without an interruption, \<^verbatim>\<open>errno\<close>
  does not ask for another try at the start, no operation on the index file fails and memory does not
  run out; no two paths of documents have the same hash, \<open>index_bound\<close>, a bound of the size of the index,
  is below two gigabytes, and the four bytes behind the local variable that the writer overruns are
  unused.
\<close>

theorem build_then_fsck:
  assumes "on_disk rfuel os root (Directory ts)" "close_dir os root"
    and "height (Directory ts) \<le> Suc n" "reliable m" "\<not> retriable (errno m)" "spare_frame m"
    and "docs = docs_under False root (Directory ts)"
    and "distinct (map (\<lambda>doc. hash_string (fst doc)) docs)"
    and "storable_docs False docs" "index_bound False docs < 2 ^ 31" "checkable_docs False docs"
    and "open_index out = Some s" "sound s" "file_bytes s = []"
  shows "\<exists>msgs file report.
     buildfileindex_main n rfuel os open_index [prog, root, out] m = Inr (EXIT_SUCCESS, msgs, Some file) \<and>
     hw3fsck_main [out \<mapsto> file] [prog', out] = Inr (EXIT_SUCCESS, report) \<and> silent out report"
proof -
  obtain msgs dt mi m1 where b:
    "buildfileindex_main n rfuel os open_index [prog, root, out] m = Inr (EXIT_SUCCESS, msgs, Some (index_file mi dt))"
    "crawl_rep False docs dt mi m1" "index_ok [out \<mapsto> index_file mi dt] m1 out (mi, dt)"
    by (rule buildfileindex_ok [where open_index = open_index and prog = prog, OF assms(1-10,12-14)])
  have len: "length docs < 2 ^ 64" using index_bound_docs [OF assms(10)] by simp
  have "\<forall>doc \<in> set docs. length (snd doc) < 2 ^ 32"
    unfolding assms(7) using on_disk_lengths [OF assms(1)] by blast
  with b(2) len assms(11) have lim: "within_limits mi dt" by (rule crawl_within_limits)
  have "writable mi dt m1" using b(3) by (simp add: index_ok_def)
  moreover have "length (index_file mi dt) < 2 ^ 31"
    using length_index_file_crawl [OF b(2) assms(10)] assms(10) by simp
  ultimately obtain report where "hw3fsck_main [out \<mapsto> index_file mi dt] [prog', out] = Inr (EXIT_SUCCESS, report)"
    "silent out report"
    using hw3fsck_written [where fs = "[out \<mapsto> index_file mi dt]" and filename = out and prog = prog' and mi = mi and dt = dt] lim
    by auto
  with b(1) show ?thesis by blast
qed

lemma build_then_fsck_witness:
  "\<exists>msgs file report.
     buildfileindex_main 1 100 demo_disk [''x.idx'' \<mapsto> demo_stream] [''build'', ''d'', ''x.idx''] fresh_mem
       = Inr (EXIT_SUCCESS, msgs, Some file) \<and>
     hw3fsck_main [''x.idx'' \<mapsto> file] [''hw3fsck'', ''x.idx''] = Inr (EXIT_SUCCESS, report) \<and> silent ''x.idx'' report"
proof -
  have "checkable_docs False [(''d/a'', ''The cat''), (''d/e/b'', ''cat, Dog cat'')]"
    by (simp add: checkable_docs_def text_words_def demo_corpus_words isascii_def)
  from build_then_fsck [where open_index = "[''x.idx'' \<mapsto> demo_stream]", OF demo_on_disk demo_closes demo_height
      reliable_fresh_mem _ _ demo_docs [symmetric] demo_paths demo_storable demo_bound this demo_stream_ok]
  show ?thesis by simp
qed

end
