(* ===== verification/ThreadPool.thy ===== *)
theory ThreadPool
  imports Prelude
begin

text \<open>
  The pool of worker threads of \<^verbatim>\<open>hw4/ThreadPool.cc\<close> as a transition system. A thread is at one of the
  instructions of its function, and each call of the pthread library and each access to a shared
  field is one step. \<open>qlock\<close> is the owner of the mutex; a thread in \<open>Blocked\<close> waits on the condition
  variable without the mutex, and in \<open>Woken\<close> it has to get the mutex back. The calls of the
  library succeed, as \<^verbatim>\<open>Verify333\<close> around them demands; the steps follow their documentation: a
  signal wakes one of the waiting threads if there is one, and a thread may wake up without a signal.

  The constructor, \<^verbatim>\<open>Dispatch\<close> and the destructor run in the thread that owns the pool, as in
  \<^verbatim>\<open>HttpServer::Run\<close>. A task is an opaque value; running it is two steps, between which other
  threads may run. The last three fields of the state are a log and no part of the program:
  the tasks that were dispatched, those that were taken from the queue and those that have run, each
  in the order of these events.
\<close>

section \<open>Instructions and state\<close>

text \<open>The instructions of \<^verbatim>\<open>ThreadLoop\<close>.\<close>

datatype 'a worker =
  Born | Counting | Outer | AtWait | Blocked | Woken | Inner
  | Took 'a | Running 'a | Relocking | Exiting | Leaving | Dead

text \<open>
  The instructions of the owner: the constructor (\<open>\<dots>New\<close>), \<open>Ready\<close> between calls, \<^verbatim>\<open>Dispatch\<close>, and
  the destructor with its local variables \<^verbatim>\<open>num_threads\<close> and \<^verbatim>\<open>i\<close>.
\<close>

datatype 'a owner_pc =
  LockNew | Creating | Checking | SpinUnlock | SpinLock | UnlockNew
  | Ready
  | LockDispatch 'a | Verifying 'a | Pushing 'a | Signalling | UnlockDispatch
  | LockEnd | Reading | Killing u32 | JoinTest u32 u32 | Broadcasting u32 u32 | JoinUnlock u32 u32
  | Joining u32 u32 | JoinLock u32 u32 | VerifyEnd | UnlockEnd
  | Draining | DrainRun 'a | Destroyed
  | Aborted

datatype thread = Owner | Worker nat

record 'a pool =
  work_queue :: "'a list"
  killthreads :: bool
  num_running :: u32
  qlock :: "thread option"
  thread_array :: "'a worker list"
  owner :: "'a owner_pc"
  dispatched :: "'a list"
  taken :: "'a list"
  finished :: "'a list"

definition new_pool :: "'a pool" where
  "new_pool = \<lparr>work_queue = [], killthreads = False, num_running = 0, qlock = None, thread_array = [],
     owner = LockNew, dispatched = [], taken = [], finished = []\<rparr>"

section \<open>The worker threads\<close>

definition goto_worker :: "nat \<Rightarrow> 'a worker \<Rightarrow> 'a pool \<Rightarrow> 'a pool" where
  "goto_worker i pc s = s\<lparr>thread_array := (thread_array s)[i := pc]\<rparr>"

text \<open>\<^verbatim>\<open>pthread_mutex_lock\<close> and \<^verbatim>\<open>pthread_mutex_unlock\<close>; unlocking is defined for the owner only.\<close>

definition lock :: "thread \<Rightarrow> 'a pool \<Rightarrow> 'a pool option" where
  "lock t s = (if qlock s = None then Some (s\<lparr>qlock := Some t\<rparr>) else None)"

definition unlock :: "thread \<Rightarrow> 'a pool \<Rightarrow> 'a pool option" where
  "unlock t s = (if qlock s = Some t then Some (s\<lparr>qlock := None\<rparr>) else None)"

text \<open>The next step of \<^verbatim>\<open>ThreadLoop\<close>; \<open>None\<close> when the thread cannot go on.\<close>

definition ThreadLoop :: "nat \<Rightarrow> 'a pool \<Rightarrow> 'a pool option" where
  "ThreadLoop i s =
     (case thread_array s ! i of
        Born \<Rightarrow> map_option (goto_worker i Counting) (lock (Worker i) s)
      | Counting \<Rightarrow> Some (goto_worker i Outer (s\<lparr>num_running := num_running s + 1\<rparr>))
      | Outer \<Rightarrow> Some (goto_worker i (if killthreads s = False then AtWait else Exiting) s)
      | AtWait \<Rightarrow> map_option (goto_worker i Blocked) (unlock (Worker i) s)
      | Blocked \<Rightarrow> None
      | Woken \<Rightarrow> map_option (goto_worker i Inner) (lock (Worker i) s)
      | Inner \<Rightarrow>
          (case work_queue s of
             t # ts \<Rightarrow>
               if killthreads s = False
               then Some (goto_worker i (Took t) (s\<lparr>work_queue := ts, taken := taken s @ [t]\<rparr>))
               else Some (goto_worker i Outer s)
           | [] \<Rightarrow> Some (goto_worker i Outer s))
      | Took t \<Rightarrow> map_option (goto_worker i (Running t)) (unlock (Worker i) s)
      | Running t \<Rightarrow> Some (goto_worker i Relocking (s\<lparr>finished := finished s @ [t]\<rparr>))
      | Relocking \<Rightarrow> map_option (goto_worker i Inner) (lock (Worker i) s)
      | Exiting \<Rightarrow> Some (goto_worker i Leaving (s\<lparr>num_running := num_running s - 1\<rparr>))
      | Leaving \<Rightarrow> map_option (goto_worker i Dead) (unlock (Worker i) s)
      | Dead \<Rightarrow> None)"

section \<open>The owner of the pool\<close>

definition goto_owner :: "'a owner_pc \<Rightarrow> 'a pool \<Rightarrow> 'a pool" where
  "goto_owner pc s = s\<lparr>owner := pc\<rparr>"

text \<open>The constructor, for \<open>num_threads\<close> workers.\<close>

definition construct :: "u32 \<Rightarrow> 'a pool \<Rightarrow> 'a pool option" where
  "construct num_threads s =
     (case owner s of
        LockNew \<Rightarrow> map_option (goto_owner Creating) (lock Owner s)
      | Creating \<Rightarrow>
          if length (thread_array s) < unat num_threads
          then Some (s\<lparr>thread_array := thread_array s @ [Born]\<rparr>)
          else Some (goto_owner Checking s)
      | Checking \<Rightarrow>
          Some (goto_owner (if num_running s \<noteq> num_threads then SpinUnlock else UnlockNew) s)
      | SpinUnlock \<Rightarrow> map_option (goto_owner SpinLock) (unlock Owner s)
      | SpinLock \<Rightarrow> map_option (goto_owner Checking) (lock Owner s)
      | UnlockNew \<Rightarrow> map_option (goto_owner Ready) (unlock Owner s)
      | _ \<Rightarrow> None)"

text \<open>
  \<^verbatim>\<open>pthread_cond_signal\<close>: \<open>j\<close> is the thread that is woken, one of those that wait; when none waits
  nothing happens. \<^verbatim>\<open>pthread_cond_broadcast\<close> wakes all of them.
\<close>

definition signal :: "nat \<Rightarrow> 'a pool \<Rightarrow> 'a pool option" where
  "signal j s =
     (if Blocked \<in> set (thread_array s) then
        if j < length (thread_array s) \<and> thread_array s ! j = Blocked
        then Some (goto_worker j Woken s) else None
      else Some s)"

definition broadcast :: "'a pool \<Rightarrow> 'a pool" where
  "broadcast s = s\<lparr>thread_array := map (\<lambda>pc. case pc of Blocked \<Rightarrow> Woken | _ \<Rightarrow> pc) (thread_array s)\<rparr>"

text \<open>\<^verbatim>\<open>Dispatch\<close>; \<open>j\<close> is the choice of the thread that the signal wakes.\<close>

definition dispatch :: "nat \<Rightarrow> 'a pool \<Rightarrow> 'a pool option" where
  "dispatch j s =
     (case owner s of
        LockDispatch t \<Rightarrow> map_option (goto_owner (Verifying t)) (lock Owner s)
      | Verifying t \<Rightarrow> Some (goto_owner (if killthreads s = False then Pushing t else Aborted) s)
      | Pushing t \<Rightarrow>
          Some (goto_owner Signalling
            (s\<lparr>work_queue := work_queue s @ [t], dispatched := dispatched s @ [t]\<rparr>))
      | Signalling \<Rightarrow> map_option (goto_owner UnlockDispatch) (signal j s)
      | UnlockDispatch \<Rightarrow> map_option (goto_owner Ready) (unlock Owner s)
      | _ \<Rightarrow> None)"

text \<open>
  The destructor. Joining a thread waits until it is dead; the tasks that are left over are run at
  the end.
\<close>

definition destroy :: "'a pool \<Rightarrow> 'a pool option" where
  "destroy s =
     (case owner s of
        LockEnd \<Rightarrow> map_option (goto_owner Reading) (lock Owner s)
      | Reading \<Rightarrow> Some (goto_owner (Killing (num_running s)) s)
      | Killing num_threads \<Rightarrow> Some (goto_owner (JoinTest num_threads 0) (s\<lparr>killthreads := True\<rparr>))
      | JoinTest num_threads i \<Rightarrow>
          Some (goto_owner (if i < num_threads then Broadcasting num_threads i else VerifyEnd) s)
      | Broadcasting num_threads i \<Rightarrow> Some (goto_owner (JoinUnlock num_threads i) (broadcast s))
      | JoinUnlock num_threads i \<Rightarrow> map_option (goto_owner (Joining num_threads i)) (unlock Owner s)
      | Joining num_threads i \<Rightarrow>
          if unat i < length (thread_array s) \<and> thread_array s ! unat i = Dead
          then Some (goto_owner (JoinLock num_threads i) s) else None
      | JoinLock num_threads i \<Rightarrow>
          map_option (goto_owner (JoinTest num_threads (i + 1))) (lock Owner s)
      | VerifyEnd \<Rightarrow> Some (goto_owner (if num_running s = 0 then UnlockEnd else Aborted) s)
      | UnlockEnd \<Rightarrow> map_option (goto_owner Draining) (unlock Owner s)
      | Draining \<Rightarrow>
          (case work_queue s of
             t # ts \<Rightarrow> Some (goto_owner (DrainRun t) (s\<lparr>work_queue := ts, taken := taken s @ [t]\<rparr>))
           | [] \<Rightarrow> Some (goto_owner Destroyed s))
      | DrainRun t \<Rightarrow> Some (goto_owner Draining (s\<lparr>finished := finished s @ [t]\<rparr>))
      | _ \<Rightarrow> None)"

section \<open>Steps and runs\<close>

text \<open>
  What can happen next: a step of a worker, a step of the owner, a wake-up without a signal, and in
  \<open>Ready\<close> a call of \<^verbatim>\<open>Dispatch\<close> or of the destructor.
\<close>

datatype 'a event = RunWorker nat | RunOwner nat | Spurious nat | CallDispatch 'a | CallDestroy

definition next_state :: "u32 \<Rightarrow> 'a event \<Rightarrow> 'a pool \<Rightarrow> 'a pool option" where
  "next_state num_threads e s =
     (case e of
        RunWorker i \<Rightarrow> if i < length (thread_array s) then ThreadLoop i s else None
      | RunOwner j \<Rightarrow>
          (case construct num_threads s of
             Some s' \<Rightarrow> Some s'
           | None \<Rightarrow> (case dispatch j s of Some s' \<Rightarrow> Some s' | None \<Rightarrow> destroy s))
      | Spurious i \<Rightarrow>
          if i < length (thread_array s) \<and> thread_array s ! i = Blocked
          then Some (goto_worker i Woken s) else None
      | CallDispatch t \<Rightarrow> if owner s = Ready then Some (goto_owner (LockDispatch t) s) else None
      | CallDestroy \<Rightarrow> if owner s = Ready then Some (goto_owner LockEnd s) else None)"

text \<open>The states that the pool can be in.\<close>

inductive reachable :: "u32 \<Rightarrow> 'a pool \<Rightarrow> bool" for num_threads where
  start: "reachable num_threads new_pool"
| step: "reachable num_threads s \<Longrightarrow> next_state num_threads e s = Some s' \<Longrightarrow> reachable num_threads s'"

text \<open>
  The steps that the threads make on their own, without a new call and without luck.
\<close>

inductive runs :: "u32 \<Rightarrow> 'a pool \<Rightarrow> 'a pool \<Rightarrow> bool" for num_threads where
  worker: "next_state num_threads (RunWorker i) s = Some s' \<Longrightarrow> runs num_threads s s'"
| owner: "next_state num_threads (RunOwner j) s = Some s' \<Longrightarrow> runs num_threads s s'"

text \<open>A run along a given list of events, for concrete executions.\<close>

fun execute :: "u32 \<Rightarrow> 'a event list \<Rightarrow> 'a pool \<Rightarrow> 'a pool option" where
  "execute num_threads [] s = Some s"
| "execute num_threads (e # es) s =
     (case next_state num_threads e s of None \<Rightarrow> None | Some s' \<Rightarrow> execute num_threads es s')"

end
