(* ===== verification/ThreadPoolInv.thy ===== *)
theory ThreadPoolInv
  imports ThreadPool "HOL-Library.Multiset"
begin

text \<open>
  The invariant of the thread pool: who owns the mutex, which threads are counted, how far the
  constructor and the destructor have come, that a waiting task always finds a thread that is awake,
  and where every dispatched task is. Each part is preserved by every step.
\<close>

section \<open>The parts of the invariant\<close>

text \<open>The instructions at which a thread owns the mutex.\<close>

fun holds_lock :: "'a worker \<Rightarrow> bool" where
  "holds_lock Counting = True" | "holds_lock Outer = True" | "holds_lock AtWait = True"
| "holds_lock Inner = True" | "holds_lock (Took t) = True" | "holds_lock Exiting = True"
| "holds_lock Leaving = True" | "holds_lock _ = False"

fun owner_holds_lock :: "'a owner_pc \<Rightarrow> bool" where
  "owner_holds_lock LockNew = False" | "owner_holds_lock SpinLock = False" | "owner_holds_lock Ready = False"
| "owner_holds_lock (LockDispatch t) = False" | "owner_holds_lock LockEnd = False"
| "owner_holds_lock (Joining m i) = False" | "owner_holds_lock (JoinLock m i) = False"
| "owner_holds_lock Draining = False" | "owner_holds_lock (DrainRun t) = False"
| "owner_holds_lock Destroyed = False" | "owner_holds_lock _ = True"

definition lock_inv :: "'a pool \<Rightarrow> bool" where
  "lock_inv s \<longleftrightarrow>
     (\<forall>i < length (thread_array s). holds_lock (thread_array s ! i) \<longleftrightarrow> qlock s = Some (Worker i)) \<and>
     (owner_holds_lock (owner s) \<longleftrightarrow> qlock s = Some Owner) \<and>
     (\<forall>i. qlock s = Some (Worker i) \<longrightarrow> i < length (thread_array s))"

text \<open>\<^verbatim>\<open>num_threads_running_\<close> counts the threads between its increment and its decrement.\<close>

fun counted :: "'a worker \<Rightarrow> nat" where
  "counted Born = 0" | "counted Counting = 0" | "counted Leaving = 0" | "counted Dead = 0"
| "counted _ = 1"

definition count_inv :: "'a pool \<Rightarrow> bool" where
  "count_inv s \<longleftrightarrow> num_running s = of_nat (sum_list (map counted (thread_array s)))"

text \<open>How far the constructor and the destructor have come.\<close>

definition alive :: "'a pool \<Rightarrow> bool" where
  "alive s \<longleftrightarrow> \<not> killthreads s \<and> set (thread_array s) \<inter> {Exiting, Leaving, Dead} = {}"

definition settled :: "u32 \<Rightarrow> 'a pool \<Rightarrow> bool" where
  "settled n s \<longleftrightarrow> length (thread_array s) = unat n \<and> set (thread_array s) \<inter> {Born, Counting} = {}"

definition ending :: "u32 \<Rightarrow> u32 \<Rightarrow> 'a pool \<Rightarrow> bool" where
  "ending n i s \<longleftrightarrow> killthreads s \<and> settled n s \<and> AtWait \<notin> set (thread_array s) \<and>
     (\<forall>j < unat i. thread_array s ! j = Dead)"

definition awakened :: "'a pool \<Rightarrow> bool" where
  "awakened s \<longleftrightarrow> Blocked \<notin> set (thread_array s)"

definition all_dead :: "u32 \<Rightarrow> 'a pool \<Rightarrow> bool" where
  "all_dead n s \<longleftrightarrow> killthreads s \<and> length (thread_array s) = unat n \<and> set (thread_array s) \<subseteq> {Dead}"

definition phase_inv :: "u32 \<Rightarrow> 'a pool \<Rightarrow> bool" where
  "phase_inv n s =
     (case owner s of
        LockNew \<Rightarrow> thread_array s = [] \<and> alive s \<and> work_queue s = []
      | Creating \<Rightarrow> length (thread_array s) \<le> unat n \<and> alive s \<and> work_queue s = []
      | Checking \<Rightarrow> length (thread_array s) = unat n \<and> alive s \<and> work_queue s = []
      | SpinUnlock \<Rightarrow> length (thread_array s) = unat n \<and> alive s \<and> work_queue s = []
      | SpinLock \<Rightarrow> length (thread_array s) = unat n \<and> alive s \<and> work_queue s = []
      | UnlockNew \<Rightarrow> settled n s \<and> alive s \<and> work_queue s = []
      | Killing m \<Rightarrow> m = n \<and> settled n s \<and> alive s
      | JoinTest m i \<Rightarrow> m = n \<and> i \<le> n \<and> ending n i s \<and> (0 < i \<longrightarrow> awakened s)
      | Broadcasting m i \<Rightarrow> m = n \<and> i < n \<and> ending n i s
      | JoinUnlock m i \<Rightarrow> m = n \<and> i < n \<and> ending n i s \<and> awakened s
      | Joining m i \<Rightarrow> m = n \<and> i < n \<and> ending n i s \<and> awakened s
      | JoinLock m i \<Rightarrow> m = n \<and> i < n \<and> ending n (i + 1) s \<and> awakened s
      | VerifyEnd \<Rightarrow> all_dead n s
      | UnlockEnd \<Rightarrow> all_dead n s
      | Draining \<Rightarrow> all_dead n s
      | DrainRun t \<Rightarrow> all_dead n s
      | Destroyed \<Rightarrow> all_dead n s \<and> work_queue s = []
      | Aborted \<Rightarrow> False
      | _ \<Rightarrow> settled n s \<and> alive s)"

text \<open>A task in the queue is not forgotten: some thread will look at the queue again.\<close>

fun awake :: "'a worker \<Rightarrow> bool" where
  "awake Woken = True" | "awake Inner = True" | "awake (Took t) = True" | "awake (Running t) = True"
| "awake Relocking = True" | "awake _ = False"

definition wake_inv :: "u32 \<Rightarrow> 'a pool \<Rightarrow> bool" where
  "wake_inv n s \<longleftrightarrow>
     (0 < n \<and> work_queue s \<noteq> [] \<and> \<not> killthreads s \<and> owner s \<noteq> Signalling \<longrightarrow>
        (\<exists>pc \<in> set (thread_array s). awake pc))"

text \<open>Where the dispatched tasks are.\<close>

fun in_hand :: "'a worker \<Rightarrow> 'a multiset" where
  "in_hand (Took t) = {#t#}" | "in_hand (Running t) = {#t#}" | "in_hand _ = {#}"

fun owner_in_hand :: "'a owner_pc \<Rightarrow> 'a multiset" where
  "owner_in_hand (DrainRun t) = {#t#}" | "owner_in_hand _ = {#}"

definition log_inv :: "'a pool \<Rightarrow> bool" where
  "log_inv s \<longleftrightarrow> dispatched s = taken s @ work_queue s \<and>
     mset (taken s) = mset (finished s) + sum_list (map in_hand (thread_array s)) + owner_in_hand (owner s)"

definition pool_inv :: "u32 \<Rightarrow> 'a pool \<Rightarrow> bool" where
  "pool_inv n s \<longleftrightarrow> lock_inv s \<and> count_inv s \<and> phase_inv n s \<and> wake_inv n s \<and> log_inv s"

lemmas step_functions = goto_worker_def goto_owner_def lock_def unlock_def

section \<open>Sums over the threads\<close>

lemma sum_list_map_update:
  fixes f :: "'b \<Rightarrow> 'c :: comm_monoid_add"
  assumes "i < length xs"
  shows "sum_list (map f (xs[i := x])) + f (xs ! i) = sum_list (map f xs) + f x"
  using assms by (induction xs arbitrary: i) (auto simp: ac_simps split: nat.splits)

lemma counted_le: "counted pc \<le> 1"
  by (cases pc) simp_all

lemma sum_counted_le: "sum_list (map counted pcs) \<le> length pcs"
proof (induction pcs)
  case (Cons pc pcs)
  then show ?case using counted_le [of pc] by simp
qed simp

lemma sum_counted_all: "sum_list (map counted pcs) = length pcs \<longleftrightarrow> (\<forall>pc \<in> set pcs. counted pc = 1)"
proof (induction pcs)
  case (Cons pc pcs)
  then show ?case using counted_le [of pc] sum_counted_le [of pcs] by auto
qed simp

lemma sum_list_0: "(\<forall>x \<in> set xs. f x = 0) \<Longrightarrow> sum_list (map f xs) = (0 :: 'c :: comm_monoid_add)"
  by (induction xs) auto

section \<open>Steps of the workers\<close>

text \<open>What every step of a worker has in common.\<close>

lemma ThreadLoop_frame:
  assumes "ThreadLoop i s = Some s'"
  shows "owner s' = owner s \<and> killthreads s' = killthreads s \<and> dispatched s' = dispatched s \<and>
     length (thread_array s') = length (thread_array s) \<and> (work_queue s = [] \<longrightarrow> work_queue s' = [])"
  using assms
  by (cases "thread_array s ! i") (auto simp: ThreadLoop_def step_functions split: if_splits list.splits)

lemma ThreadLoop_moves:
  assumes "ThreadLoop i s = Some s'" "i < length (thread_array s)"
  shows "\<exists>pc. thread_array s' = (thread_array s)[i := pc] \<and>
     thread_array s ! i \<noteq> Dead \<and> thread_array s ! i \<noteq> Blocked \<and> pc \<noteq> Born \<and>
     (pc = Counting \<longrightarrow> thread_array s ! i = Born) \<and> (pc = Exiting \<longrightarrow> killthreads s) \<and>
     (pc = AtWait \<longrightarrow> \<not> killthreads s) \<and> (pc = Blocked \<longrightarrow> thread_array s ! i = AtWait) \<and>
     (pc \<in> {Leaving, Dead} \<longrightarrow> thread_array s ! i \<in> {Exiting, Leaving})"
  using assms
  by (cases "thread_array s ! i") (auto simp: ThreadLoop_def step_functions split: if_splits list.splits)

lemma ThreadLoop_lock_inv:
  assumes "ThreadLoop i s = Some s'" "i < length (thread_array s)" "lock_inv s"
  shows "lock_inv s'"
proof -
  have "holds_lock (thread_array s ! i) \<longleftrightarrow> qlock s = Some (Worker i)"
    using assms(2,3) by (simp add: lock_inv_def)
  with assms show ?thesis unfolding lock_inv_def
    by (cases "thread_array s ! i")
      (auto simp: ThreadLoop_def step_functions nth_list_update split: if_splits list.splits)
qed

lemma ThreadLoop_count_inv:
  assumes "ThreadLoop i s = Some s'" "i < length (thread_array s)" "count_inv s"
  shows "count_inv s'"
proof -
  have u: "sum_list (map counted ((thread_array s)[i := pc])) + counted (thread_array s ! i)
      = sum_list (map counted (thread_array s)) + counted pc" for pc
    using assms(2) by (rule sum_list_map_update)
  then have "(of_nat (sum_list (map counted ((thread_array s)[i := pc]))) :: u32) + of_nat (counted (thread_array s ! i))
      = of_nat (sum_list (map counted (thread_array s))) + of_nat (counted pc)" for pc
    unfolding of_nat_add [symmetric] by simp
  note this [of Counting] this [of Outer] this [of AtWait] this [of Exiting] this [of Blocked] this [of Inner]
    this [of "Took t" for t] this [of "Running t" for t] this [of Relocking] this [of Leaving] this [of Dead]
  with assms(1,3) show ?thesis unfolding count_inv_def
    by (cases "thread_array s ! i")
      (auto simp: ThreadLoop_def step_functions eq_diff_eq algebra_simps split: if_splits list.splits)
qed

lemma ThreadLoop_log_inv:
  assumes "ThreadLoop i s = Some s'" "i < length (thread_array s)" "log_inv s"
  shows "log_inv s'"
proof -
  have u: "sum_list (map in_hand ((thread_array s)[i := pc])) + in_hand (thread_array s ! i)
      = sum_list (map in_hand (thread_array s)) + in_hand pc" for pc
    using assms(2) by (rule sum_list_map_update)
  have same: "sum_list (map in_hand ((thread_array s)[i := pc])) = sum_list (map in_hand (thread_array s))"
    if "in_hand pc = in_hand (thread_array s ! i)" for pc using u [of pc] that by simp
  show ?thesis
  proof (cases "\<exists>t. thread_array s ! i = Running t")
    case True
    then obtain t where t: "thread_array s ! i = Running t" by blast
    then have "s' = goto_worker i Relocking (s\<lparr>finished := finished s @ [t]\<rparr>)"
      using assms(1) by (simp add: ThreadLoop_def)
    moreover have "add_mset t (sum_list (map in_hand ((thread_array s)[i := Relocking])))
        = sum_list (map in_hand (thread_array s))" using u [of Relocking] t by simp
    ultimately show ?thesis using assms(3) by (simp add: log_inv_def goto_worker_def flip: union_mset_add_mset_right)
  next
    case False
    have "sum_list (map in_hand ((thread_array s)[i := Took t])) = add_mset t (sum_list (map in_hand (thread_array s)))"
      if "thread_array s ! i = Inner" for t using u [of "Took t"] that by simp
    then show ?thesis using assms(1,3) False unfolding log_inv_def
      by (cases "thread_array s ! i")
        (auto simp: ThreadLoop_def step_functions same split: if_splits list.splits)
  qed
qed

lemma ThreadLoop_wake_inv:
  assumes "ThreadLoop i s = Some s'" "i < length (thread_array s)" "wake_inv n s"
  shows "wake_inv n s'"
proof (cases "\<exists>pc. thread_array s' = (thread_array s)[i := pc] \<and> awake pc")
  case True
  then show ?thesis using assms(2) unfolding wake_inv_def by (metis set_update_memI)
next
  case False
  then have "work_queue s' = work_queue s \<and> (\<not> awake (thread_array s ! i) \<or> work_queue s = [] \<or> killthreads s)"
    using assms(1) by (cases "thread_array s ! i")
      (auto simp: ThreadLoop_def step_functions split: if_splits list.splits)
  moreover obtain pc where "thread_array s' = (thread_array s)[i := pc]"
    using ThreadLoop_moves [OF assms(1,2)] by auto
  moreover have "\<exists>p \<in> set (xs[i := pc]). awake p" if "p \<in> set xs" "awake p" "\<not> awake (xs ! i)" for xs p
  proof -
    from that(1) obtain j where j: "j < length xs" "xs ! j = p" by (auto simp: in_set_conv_nth)
    have "i \<noteq> j" using that(2,3) j by auto
    then have "xs[i := pc] ! j = p" "j < length (xs[i := pc])" using j by simp_all
    then show ?thesis using that(2) nth_mem by metis
  qed
  ultimately show ?thesis using assms(3) ThreadLoop_frame [OF assms(1)] unfolding wake_inv_def by metis
qed

lemma phase_inv_cong:
  assumes "owner s' = owner s" "length (thread_array s') = length (thread_array s)"
    and "work_queue s = [] \<Longrightarrow> work_queue s' = []" "alive s \<Longrightarrow> alive s'" "settled n s \<Longrightarrow> settled n s'"
    and "\<And>k. ending n k s \<Longrightarrow> ending n k s'" "\<And>k. ending n k s \<Longrightarrow> awakened s \<Longrightarrow> awakened s'"
    and "all_dead n s \<Longrightarrow> all_dead n s'" "phase_inv n s"
  shows "phase_inv n s'"
  using assms(9) unfolding phase_inv_def assms(1)
  by (cases "owner s") (use assms(2-8) in \<open>simp_all, blast+\<close>)

lemma phase_inv_update:
  assumes i: "i < length (thread_array s)" and move: "owner s' = owner s" "thread_array s' = (thread_array s)[i := pc]"
    "killthreads s' = killthreads s" "work_queue s = [] \<longrightarrow> work_queue s' = []"
    and pc: "thread_array s ! i \<noteq> Dead" "pc \<noteq> Born" "pc = Counting \<longrightarrow> thread_array s ! i = Born"
    "pc = Exiting \<longrightarrow> killthreads s" "pc = AtWait \<longrightarrow> \<not> killthreads s"
    "pc = Blocked \<longrightarrow> thread_array s ! i = AtWait"
    "pc \<in> {Leaving, Dead} \<longrightarrow> thread_array s ! i \<in> {Exiting, Leaving}"
    and inv: "phase_inv n s"
  shows "phase_inv n s'"
proof -
  have sub: "set (thread_array s') \<subseteq> insert pc (set (thread_array s))"
    unfolding move(2) by (rule set_update_subset_insert)
  have mem: "thread_array s ! i \<in> set (thread_array s)" using i by simp
  have len: "length (thread_array s') = length (thread_array s)" using move(2) by simp
  have alive: "alive s \<Longrightarrow> alive s'" using sub mem pc(4,7) move(3) unfolding alive_def by auto
  have settled: "settled n s \<Longrightarrow> settled n s'" using sub mem pc(2,3) len unfolding settled_def by auto
  have ending: "ending n k s'" if e: "ending n k s" for k
    unfolding ending_def
  proof (intro conjI allI impI)
    show "killthreads s'" "settled n s'" using e move(3) settled by (simp_all add: ending_def)
    show "AtWait \<notin> set (thread_array s')" using e sub pc(5) unfolding ending_def by blast
    fix j assume "j < unat k"
    then have "thread_array s ! j = Dead" using e by (simp add: ending_def)
    with pc(1) show "thread_array s' ! j = Dead" unfolding move(2) by (cases "i = j") auto
  qed
  have awakened: "ending n k s \<Longrightarrow> awakened s \<Longrightarrow> awakened s'" for k
    using sub mem pc(6) unfolding awakened_def ending_def by auto
  have dead: "all_dead n s \<Longrightarrow> all_dead n s'" using mem pc(1) by (auto simp: all_dead_def)
  have queue: "work_queue s = [] \<Longrightarrow> work_queue s' = []" using move(4) by simp
  show ?thesis
    by (rule phase_inv_cong [OF move(1) len queue alive settled ending awakened dead inv])
qed

lemma ThreadLoop_phase_inv:
  assumes "ThreadLoop i s = Some s'" "i < length (thread_array s)" "phase_inv n s"
  shows "phase_inv n s'"
proof -
  from ThreadLoop_moves [OF assms(1,2)] obtain pc where "thread_array s' = (thread_array s)[i := pc]"
    "thread_array s ! i \<noteq> Dead" "pc \<noteq> Born" "pc = Counting \<longrightarrow> thread_array s ! i = Born"
    "pc = Exiting \<longrightarrow> killthreads s" "pc = AtWait \<longrightarrow> \<not> killthreads s"
    "pc = Blocked \<longrightarrow> thread_array s ! i = AtWait" "pc \<in> {Leaving, Dead} \<longrightarrow> thread_array s ! i \<in> {Exiting, Leaving}"
    by blast
  with ThreadLoop_frame [OF assms(1)] assms(2,3) show ?thesis
    by - (rule phase_inv_update [of i s s' pc], simp_all)
qed

section \<open>Waking up\<close>

text \<open>A wake-up of one thread or of all of them.\<close>

fun wake_all :: "'a worker \<Rightarrow> 'a worker" where
  "wake_all Blocked = Woken" | "wake_all pc = pc"

lemma broadcast_wake: "broadcast s = s\<lparr>thread_array := map wake_all (thread_array s)\<rparr>"
proof -
  have "(case pc of Blocked \<Rightarrow> Woken | _ \<Rightarrow> pc) = wake_all pc" for pc :: "'a worker" by (cases pc) simp_all
  then show ?thesis by (simp add: broadcast_def)
qed

lemma wake_all_facts [simp]:
  "holds_lock (wake_all pc) = holds_lock pc" "counted (wake_all pc) = counted pc"
  "in_hand (wake_all pc) = in_hand pc" "wake_all pc \<noteq> Blocked"
  by (cases pc; simp)+

lemma wake_all_eq:
  "x = wake_all pc \<longleftrightarrow> (if x = Woken then pc = Woken \<or> pc = Blocked else x = pc \<and> x \<noteq> Blocked)"
proof (cases "pc = Blocked")
  case True
  then show ?thesis by auto
next
  case False
  then have "wake_all pc = pc" by (cases pc) simp_all
  then show ?thesis using False by auto
qed

lemma woken_one:
  assumes "i < length (thread_array s)" "thread_array s ! i = Blocked"
  shows "lock_inv s \<Longrightarrow> lock_inv (goto_worker i Woken s)"
    and "count_inv s \<Longrightarrow> count_inv (goto_worker i Woken s)"
    and "phase_inv n s \<Longrightarrow> phase_inv n (goto_worker i Woken s)"
    and "0 < n \<Longrightarrow> wake_inv n (goto_worker i Woken s)"
    and "log_inv s \<Longrightarrow> log_inv (goto_worker i Woken s)"
proof -
  show "lock_inv s \<Longrightarrow> lock_inv (goto_worker i Woken s)"
    using assms unfolding lock_inv_def goto_worker_def by (auto simp: nth_list_update)
  have "sum_list (map counted ((thread_array s)[i := Woken])) = sum_list (map counted (thread_array s))"
    using sum_list_map_update [of i "thread_array s" counted Woken] assms by simp
  then show "count_inv s \<Longrightarrow> count_inv (goto_worker i Woken s)" by (simp add: count_inv_def goto_worker_def)
  show "phase_inv n s \<Longrightarrow> phase_inv n (goto_worker i Woken s)"
    by (rule phase_inv_update [of i s _ Woken]) (use assms in \<open>simp_all add: goto_worker_def\<close>)
  have "Woken \<in> set ((thread_array s)[i := Woken])" using assms(1) by (rule set_update_memI)
  then show "0 < n \<Longrightarrow> wake_inv n (goto_worker i Woken s)"
    unfolding wake_inv_def goto_worker_def by (auto intro!: bexI [of _ Woken])
  have "sum_list (map in_hand ((thread_array s)[i := Woken])) = sum_list (map in_hand (thread_array s))"
    using sum_list_map_update [of i "thread_array s" in_hand Woken] assms by simp
  then show "log_inv s \<Longrightarrow> log_inv (goto_worker i Woken s)" by (simp add: log_inv_def goto_worker_def)
qed

section \<open>Steps of the owner\<close>

lemmas owner_functions = next_state_def construct_def dispatch_def destroy_def

text \<open>The signal is the only step that depends on a choice.\<close>

lemma RunOwner_signal:
  assumes "next_state n (RunOwner j) s = Some s'" "owner s = Signalling"
  obtains "Blocked \<notin> set (thread_array s)" "s' = goto_owner UnlockDispatch s"
  | i where "i < length (thread_array s)" "thread_array s ! i = Blocked"
      "s' = goto_owner UnlockDispatch (goto_worker i Woken s)"
  using assms by (auto simp: owner_functions signal_def split: if_splits)

lemma RunOwner_lock_inv:
  assumes "next_state n (RunOwner j) s = Some s'" "lock_inv s"
  shows "lock_inv s'"
proof (cases "owner s = Signalling")
  case True
  then have "lock_inv t \<Longrightarrow> owner t = Signalling \<Longrightarrow> lock_inv (goto_owner UnlockDispatch t)" for t :: "'a pool"
    by (auto simp: lock_inv_def goto_owner_def)
  moreover have "owner (goto_worker i Woken s) = Signalling" for i using True by (simp add: goto_worker_def)
  ultimately show ?thesis using RunOwner_signal [OF assms(1) True] assms(2) woken_one(1) True by metis
next
  case False
  then show ?thesis using assms unfolding lock_inv_def
    by (cases "owner s")
      (auto simp: owner_functions step_functions broadcast_wake nth_append less_Suc_eq split: if_splits list.splits)
qed

lemma RunOwner_count_inv:
  assumes "next_state n (RunOwner j) s = Some s'" "count_inv s"
  shows "count_inv s'"
proof (cases "owner s = Signalling")
  case True
  have "count_inv (goto_owner UnlockDispatch t) = count_inv t" for t :: "'a pool"
    by (simp add: count_inv_def goto_owner_def)
  with RunOwner_signal [OF assms(1) True] assms(2) woken_one(2) show ?thesis by metis
next
  case False
  then show ?thesis using assms unfolding count_inv_def
    by (cases "owner s")
      (auto simp: owner_functions step_functions broadcast_wake o_def split: if_splits list.splits)
qed

lemma RunOwner_log_inv:
  assumes "next_state n (RunOwner j) s = Some s'" "log_inv s"
  shows "log_inv s'"
proof (cases "owner s = Signalling")
  case True
  then have "log_inv t \<Longrightarrow> owner t = Signalling \<Longrightarrow> log_inv (goto_owner UnlockDispatch t)" for t :: "'a pool"
    by (auto simp: log_inv_def goto_owner_def)
  moreover have "owner (goto_worker i Woken s) = Signalling" for i using True by (simp add: goto_worker_def)
  ultimately show ?thesis using RunOwner_signal [OF assms(1) True] assms(2) woken_one(5) True by metis
next
  case False
  then show ?thesis using assms unfolding log_inv_def
    by (cases "owner s")
      (auto simp: owner_functions step_functions broadcast_wake o_def split: if_splits list.splits)
qed

lemma unat_inc: "i < n \<Longrightarrow> unat (i + 1 :: u32) = Suc (unat i)"
proof -
  assume "i < n"
  moreover have "unat n < 2 ^ LENGTH(32)" by (rule unsigned_less)
  ultimately have "unat i + 1 < 2 ^ 32" by (simp add: word_less_nat_alt)
  then show ?thesis by (simp add: unat_word_ariths)
qed

lemma counted_0: "counted pc = 0 \<longleftrightarrow> pc \<in> {Born, Counting, Leaving, Dead}"
  by (cases pc) simp_all

lemma worker_cases:
  "pc = Blocked \<or> awake pc \<or> holds_lock pc \<or> pc \<in> {Born, Dead}"
  by (cases pc) simp_all

lemma settled_counted:
  assumes "settled n s" "alive s" "count_inv s"
  shows "num_running s = n"
proof -
  have "counted pc = 1" if "pc \<in> set (thread_array s)" for pc
  proof -
    have "pc \<notin> {Born, Counting, Leaving, Dead}" using that assms(1,2) by (auto simp: settled_def alive_def)
    then have "counted pc \<noteq> 0" unfolding counted_0 .
    then show ?thesis using counted_le [of pc] by simp
  qed
  then have "sum_list (map counted (thread_array s)) = unat n"
    using sum_counted_all [of "thread_array s"] assms(1) by (simp add: settled_def)
  then show ?thesis using assms(3) by (simp add: count_inv_def)
qed

lemma counted_settled:
  assumes "num_running s = n" "length (thread_array s) = unat n" "count_inv s"
  shows "settled n s"
proof -
  let ?k = "sum_list (map counted (thread_array s))"
  have "?k \<le> unat n" using sum_counted_le [of "thread_array s"] assms(2) by simp
  moreover have "of_nat ?k = n" using assms(1,3) by (simp add: count_inv_def)
  ultimately have "?k = unat n" by (metis le_unat_uoi)
  then have "\<forall>pc \<in> set (thread_array s). counted pc = 1"
    using sum_counted_all [of "thread_array s"] assms(2) by simp
  then show ?thesis using assms(2) by (force simp: settled_def)
qed

lemma owner_excludes:
  "lock_inv s \<Longrightarrow> owner_holds_lock (owner s) \<Longrightarrow> pc \<in> set (thread_array s) \<Longrightarrow> \<not> holds_lock pc"
  by (auto simp: lock_inv_def in_set_conv_nth)

lemma phase_goto:
  "alive (goto_owner pc s) = alive s" "settled n (goto_owner pc s) = settled n s"
  "ending n i (goto_owner pc s) = ending n i s" "awakened (goto_owner pc s) = awakened s"
  "all_dead n (goto_owner pc s) = all_dead n s" "owner (goto_owner pc s) = pc"
  "work_queue (goto_owner pc s) = work_queue s" "thread_array (goto_owner pc s) = thread_array s"
  "killthreads (goto_owner pc s) = killthreads s"
  by (simp_all add: alive_def settled_def ending_def awakened_def all_dead_def goto_owner_def)

lemma phase_fields [simp]:
  "alive (s\<lparr>qlock := l\<rparr>) = alive s" "settled n (s\<lparr>qlock := l\<rparr>) = settled n s"
  "ending n i (s\<lparr>qlock := l\<rparr>) = ending n i s" "awakened (s\<lparr>qlock := l\<rparr>) = awakened s"
  "all_dead n (s\<lparr>qlock := l\<rparr>) = all_dead n s"
  "all_dead n (s\<lparr>work_queue := q, taken := ts\<rparr>) = all_dead n s"
  "all_dead n (s\<lparr>finished := ts\<rparr>) = all_dead n s"
  "alive (s\<lparr>work_queue := q, dispatched := ts\<rparr>) = alive s"
  "settled n (s\<lparr>work_queue := q, dispatched := ts\<rparr>) = settled n s"
  by (simp_all add: alive_def settled_def ending_def awakened_def all_dead_def)

lemma broadcast_phase:
  "ending n i s \<Longrightarrow> i < n \<Longrightarrow> ending n i (broadcast s) \<and> awakened (broadcast s)"
  by (auto simp: broadcast_wake ending_def settled_def awakened_def word_less_nat_alt wake_all_eq split: if_splits)

lemma RunOwner_phase_inv:
  assumes "next_state n (RunOwner j) s = Some s'" "lock_inv s" "count_inv s" "phase_inv n s"
  shows "phase_inv n s'"
proof (cases "owner s")
  case Signalling
  have g: "phase_inv n (goto_owner UnlockDispatch t)" if "phase_inv n t" "owner t = Signalling" for t
    using that by (simp add: phase_inv_def phase_goto)
  show ?thesis using RunOwner_signal [OF assms(1) Signalling]
  proof cases
    case 1
    then show ?thesis using g assms(4) Signalling by simp
  next
    case (2 i)
    have "owner (goto_worker i Woken s) = Signalling" using Signalling by (simp add: goto_worker_def)
    then show ?thesis using g woken_one(3) [OF 2(1,2) assms(4)] 2(3) by simp
  qed
next
  case Creating
  then show ?thesis using assms(1,4)
    by (auto simp: owner_functions phase_inv_def phase_goto alive_def split: if_splits)
next
  case Checking
  then show ?thesis using assms(1,4) counted_settled [OF _ _ assms(3), of n]
    by (auto simp: owner_functions phase_inv_def phase_goto split: if_splits)
next
  case Reading
  then show ?thesis using assms(1,4) settled_counted [OF _ _ assms(3), of n]
    by (auto simp: owner_functions phase_inv_def phase_goto)
next
  case (Killing m)
  have "AtWait \<notin> set (thread_array s)" using owner_excludes [OF assms(2)] Killing by fastforce
  then show ?thesis using assms(1,4) Killing
    by (auto simp: owner_functions phase_inv_def phase_goto ending_def settled_def)
next
  case (JoinTest m i)
  have "all_dead n s" if "ending n n s"
    using that by (auto simp: ending_def all_dead_def settled_def in_set_conv_nth)
  then show ?thesis using assms(1,4) JoinTest
    by (auto simp: owner_functions phase_inv_def phase_goto not_less split: if_splits)
next
  case (Broadcasting m i)
  then show ?thesis using assms(1,4) broadcast_phase [of n i s]
    by (auto simp: owner_functions phase_inv_def phase_goto)
next
  case (Joining m i)
  then have i: "i < n" using assms(4) by (simp add: phase_inv_def)
  have "ending n (i + 1) s" if "ending n i s" "thread_array s ! unat i = Dead"
    using that unat_inc [OF i] by (auto simp: ending_def less_Suc_eq)
  then show ?thesis using assms(1,4) Joining
    by (auto simp: owner_functions phase_inv_def phase_goto split: if_splits)
next
  case (JoinLock m i)
  then show ?thesis using assms(1,4) inc_le [of i n]
    by (auto simp: owner_functions phase_inv_def phase_goto lock_def split: if_splits)
next
  case VerifyEnd
  have zero: "sum_list (map counted (thread_array s)) = 0" if "all_dead n s"
    by (rule sum_list_0) (use that in \<open>auto simp: all_dead_def\<close>)
  have "num_running s = 0" if "all_dead n s" using assms(3) unfolding count_inv_def zero [OF that] by simp
  then show ?thesis using assms(1,4) VerifyEnd
    by (auto simp: owner_functions phase_inv_def phase_goto)
qed (use assms(1,4) in \<open>auto simp: owner_functions phase_inv_def phase_goto alive_def lock_def unlock_def split: if_splits list.splits\<close>)

lemma RunOwner_wake_inv:
  assumes "next_state n (RunOwner j) s = Some s'" "lock_inv s" "phase_inv n s" "wake_inv n s"
  shows "wake_inv n s'"
proof (cases "owner s")
  case Signalling
  have g: "wake_inv n (goto_owner UnlockDispatch t)" if "wake_inv n t" "owner t = UnlockDispatch" for t
    using that by (simp add: wake_inv_def phase_goto)
  show ?thesis using RunOwner_signal [OF assms(1) Signalling]
  proof cases
    case 1
    have "awake pc" if "pc \<in> set (thread_array s)" for pc
    proof -
      have "pc \<noteq> Blocked" "pc \<notin> {Born, Dead}" using that 1(1) assms(3) Signalling
        by (auto simp: phase_inv_def settled_def alive_def)
      moreover have "\<not> holds_lock pc" using owner_excludes [OF assms(2) _ that] Signalling by simp
      ultimately show ?thesis using worker_cases [of pc] by blast
    qed
    moreover have "thread_array s \<noteq> []" if "0 < n"
      using that assms(3) Signalling by (auto simp: phase_inv_def settled_def word_less_nat_alt)
    ultimately show ?thesis unfolding 1(2) wake_inv_def phase_goto by (metis last_in_set)
  next
    case (2 i)
    have "Woken \<in> set ((thread_array s)[i := Woken])" using 2(1) by (rule set_update_memI)
    then show ?thesis unfolding 2(3) wake_inv_def phase_goto by (auto simp: goto_worker_def intro!: bexI [of _ Woken])
  qed
next
  case (Broadcasting m i)
  then have "killthreads s'" using assms(1,3)
    by (auto simp: owner_functions phase_inv_def phase_goto ending_def broadcast_def goto_owner_def)
  then show ?thesis by (simp add: wake_inv_def)
next
  case Creating
  then show ?thesis using assms(1,3)
    by (auto simp: owner_functions phase_inv_def phase_goto wake_inv_def split: if_splits)
qed (use assms(1,3,4) in \<open>auto simp: owner_functions phase_inv_def phase_goto wake_inv_def lock_def unlock_def all_dead_def split: if_splits list.splits\<close>)

section \<open>The invariant holds\<close>

lemma pool_inv_start: "pool_inv n new_pool"
  by (simp add: pool_inv_def new_pool_def lock_inv_def count_inv_def phase_inv_def wake_inv_def log_inv_def alive_def)

lemma call_inv:
  assumes "pool_inv n s" "owner s = Ready" "pc = LockEnd \<or> pc = LockDispatch t"
  shows "pool_inv n (goto_owner pc s)"
  unfolding pool_inv_def
proof (intro conjI)
  show "lock_inv (goto_owner pc s)" "count_inv (goto_owner pc s)" "log_inv (goto_owner pc s)"
    using assms by (auto simp: pool_inv_def lock_inv_def count_inv_def log_inv_def goto_owner_def)
  show "phase_inv n (goto_owner pc s)" "wake_inv n (goto_owner pc s)"
    using assms by (auto simp: pool_inv_def phase_inv_def wake_inv_def phase_goto)
qed

lemma pool_inv_step:
  assumes "next_state n e s = Some s'" "pool_inv n s"
  shows "pool_inv n s'"
proof (cases e)
  case (RunWorker i)
  then have "i < length (thread_array s)" "ThreadLoop i s = Some s'"
    using assms(1) by (auto simp: next_state_def split: if_splits)
  then show ?thesis using assms(2) unfolding pool_inv_def
    by (auto intro: ThreadLoop_lock_inv ThreadLoop_count_inv ThreadLoop_phase_inv ThreadLoop_wake_inv ThreadLoop_log_inv)
next
  case (RunOwner j)
  then show ?thesis using assms RunOwner_lock_inv RunOwner_count_inv RunOwner_phase_inv RunOwner_wake_inv
      RunOwner_log_inv unfolding pool_inv_def by metis
next
  case (Spurious i)
  then have i: "i < length (thread_array s)" "thread_array s ! i = Blocked" "s' = goto_worker i Woken s"
    using assms(1) by (auto simp: next_state_def split: if_splits)
  have "wake_inv n s'" using woken_one(4) [OF i(1,2)] i(3) by (auto simp: wake_inv_def)
  then show ?thesis using assms(2) woken_one [OF i(1,2)] i(3) by (simp add: pool_inv_def)
next
  case (CallDispatch t)
  then show ?thesis using assms call_inv [of n s "LockDispatch t" t] by (auto simp: next_state_def split: if_splits)
next
  case CallDestroy
  then show ?thesis using assms call_inv [of n s LockEnd] by (auto simp: next_state_def split: if_splits)
qed

lemma reachable_inv: "reachable n s \<Longrightarrow> pool_inv n s"
  by (induction rule: reachable.induct) (auto intro: pool_inv_start pool_inv_step)

end
