(* ===== verification/ThreadPoolThms.thy ===== *)
theory ThreadPoolThms
  imports ThreadPoolInv
begin

text \<open>
  The properties of the thread pool: the shared fields are accessed by one thread at a time and no
  assertion fails, every task is run exactly once, and the threads never come to rest before the
  work is done.
\<close>

section \<open>A concrete execution\<close>

lemma execute_reachable:
  "reachable n s \<Longrightarrow> execute n es s = Some s' \<Longrightarrow> reachable n s'"
  by (induction es arbitrary: s) (auto split: option.splits intro: reachable.step)

text \<open>One worker is born, waits, and is woken for the first of two tasks.\<close>

definition demo_events :: "string event list" where
  "demo_events =
     replicate 5 (RunOwner 0) @ replicate 4 (RunWorker 0) @ replicate 3 (RunOwner 0) @
     CallDispatch ''a'' # replicate 5 (RunOwner 0) @ CallDispatch ''b'' # replicate 5 (RunOwner 0) @
     replicate 2 (RunWorker 0)"

definition demo_pool :: "string pool" where
  "demo_pool = \<lparr>work_queue = [''b''], killthreads = False, num_running = 1, qlock = Some (Worker 0),
     thread_array = [Took ''a''], owner = Ready, dispatched = [''a'', ''b''], taken = [''a''], finished = []\<rparr>"

lemma demo_pool_reachable: "reachable 1 demo_pool"
proof -
  have "execute 1 demo_events new_pool = Some demo_pool"
    by (simp add: demo_events_def demo_pool_def new_pool_def numeral_eq_Suc next_state_def construct_def dispatch_def
        destroy_def ThreadLoop_def signal_def goto_worker_def goto_owner_def lock_def unlock_def)
  with reachable.start show ?thesis by (rule execute_reachable)
qed

section \<open>Mutual exclusion\<close>

text \<open>The instructions that read or write \<^verbatim>\<open>work_queue_\<close>, \<^verbatim>\<open>killthreads_\<close> or \<^verbatim>\<open>num_threads_running_\<close>.\<close>

definition touches :: "'a worker \<Rightarrow> bool" where
  "touches pc \<longleftrightarrow> pc \<in> {Counting, Outer, Inner, Exiting}"

definition owner_touches :: "'a owner_pc \<Rightarrow> bool" where
  "owner_touches pc \<longleftrightarrow> (case pc of Checking \<Rightarrow> True | Verifying t \<Rightarrow> True | Pushing t \<Rightarrow> True | Reading \<Rightarrow> True
     | Killing m \<Rightarrow> True | VerifyEnd \<Rightarrow> True | Draining \<Rightarrow> True | _ \<Rightarrow> False)"

lemma touches_holds: "touches pc \<Longrightarrow> holds_lock pc"
  by (auto simp: touches_def)

lemma owner_touches_holds: "owner_touches pc \<Longrightarrow> pc = Draining \<or> owner_holds_lock pc"
  by (cases pc) (simp_all add: owner_touches_def)

text \<open>
  C38: The pool has no data race and none of its assertions fails: in every state that the pool can
  reach with any number of workers, any calls and any scheduling (wake-ups without a signal included),
  at most one thread is about to access the queue, the kill flag or the count of the running threads,
  and the \<^verbatim>\<open>Verify333\<close> checks in \<^verbatim>\<open>Dispatch\<close> and in the destructor have not failed.
\<close>

theorem ThreadPool_no_race:
  assumes "reachable n s"
  shows "owner s \<noteq> Aborted \<and>
     (\<forall>i < length (thread_array s). \<forall>j < length (thread_array s).
        touches (thread_array s ! i) \<and> touches (thread_array s ! j) \<longrightarrow> i = j) \<and>
     (owner_touches (owner s) \<longrightarrow> (\<forall>pc \<in> set (thread_array s). \<not> touches pc))"
proof (intro conjI allI impI ballI)
  have inv: "lock_inv s" "phase_inv n s" using reachable_inv [OF assms] by (simp_all add: pool_inv_def)
  show "owner s \<noteq> Aborted" using inv(2) by (auto simp: phase_inv_def)
  show "i = j" if "i < length (thread_array s)" "j < length (thread_array s)"
    "touches (thread_array s ! i) \<and> touches (thread_array s ! j)" for i j
  proof -
    have "qlock s = Some (Worker i)" "qlock s = Some (Worker j)"
      using that inv(1) touches_holds [of "thread_array s ! i"] touches_holds [of "thread_array s ! j"]
      unfolding lock_inv_def by blast+
    then show ?thesis by simp
  qed
  fix pc assume o: "owner_touches (owner s)" and pc: "pc \<in> set (thread_array s)"
  show "\<not> touches pc"
  proof (cases "owner s = Draining")
    case True
    then show ?thesis using inv(2) pc by (auto simp: phase_inv_def all_dead_def touches_def)
  next
    case False
    then show ?thesis using owner_excludes [OF inv(1) _ pc] owner_touches_holds [OF o] touches_holds by blast
  qed
qed

lemma ThreadPool_no_race_witness:
  "\<exists>s. next_state 1 (RunWorker 0) demo_pool = Some s \<and> owner s \<noteq> Aborted \<and> length (thread_array s) = 1"
proof -
  obtain s where s: "next_state 1 (RunWorker 0) demo_pool = Some s" "length (thread_array s) = 1"
    by (simp add: next_state_def ThreadLoop_def demo_pool_def goto_worker_def unlock_def)
  from reachable.step [OF demo_pool_reachable s(1)] have "owner s \<noteq> Aborted"
    using ThreadPool_no_race [of 1 s] by simp
  with s show ?thesis by blast
qed

section \<open>Every task is run once\<close>

text \<open>
  C13: Tasks are neither lost nor duplicated, and they are taken up in the order of their dispatch: what was
  dispatched is what was taken from the queue followed by what is still in it, and the tasks that were
  taken are those that have run and the ones in the hands of a thread. When the destructor is done,
  exactly the dispatched tasks have run.
\<close>

theorem ThreadPool_each_task_once:
  assumes "reachable n s"
  shows "dispatched s = taken s @ work_queue s \<and>
     mset (dispatched s) = mset (finished s) + sum_list (map in_hand (thread_array s))
       + owner_in_hand (owner s) + mset (work_queue s) \<and>
     (owner s = Destroyed \<longrightarrow> mset (finished s) = mset (dispatched s))"
proof -
  have inv: "log_inv s" "phase_inv n s" using reachable_inv [OF assms] by (simp_all add: pool_inv_def)
  have "sum_list (map in_hand (thread_array s)) = {#}" "work_queue s = []" if "owner s = Destroyed"
  proof -
    have d: "set (thread_array s) \<subseteq> {Dead}" "work_queue s = []"
      using that inv(2) by (auto simp: phase_inv_def all_dead_def)
    then show "work_queue s = []" by simp
    show "sum_list (map in_hand (thread_array s)) = {#}" by (rule sum_list_0) (use d(1) in auto)
  qed
  then show ?thesis using inv(1) by (auto simp: log_inv_def)
qed

lemma ThreadPool_each_task_once_witness:
  "dispatched demo_pool = taken demo_pool @ work_queue demo_pool \<and>
   mset (dispatched demo_pool) = {#''a''#} + mset (work_queue demo_pool)"
  using ThreadPool_each_task_once [OF demo_pool_reachable] by (simp add: demo_pool_def)

section \<open>The work is done\<close>

text \<open>The constructor is not part of what follows: it spins until all workers have been scheduled.\<close>

definition constructing :: "'a owner_pc \<Rightarrow> bool" where
  "constructing pc \<longleftrightarrow> pc \<in> {LockNew, Creating, Checking, SpinUnlock, SpinLock, UnlockNew}"

text \<open>A bound on the number of steps that are left.\<close>

fun worker_steps :: "'a worker \<Rightarrow> nat" where
  "worker_steps Blocked = 0" | "worker_steps Dead = 0" | "worker_steps Leaving = 1" | "worker_steps Exiting = 2"
| "worker_steps AtWait = 3" | "worker_steps Outer = 4" | "worker_steps Inner = 5" | "worker_steps Counting = 5"
| "worker_steps Relocking = 6" | "worker_steps Woken = 6" | "worker_steps Born = 6"
| "worker_steps (Running t) = 7" | "worker_steps (Took t) = 8"

definition join_steps :: "nat \<Rightarrow> nat \<Rightarrow> nat" where
  "join_steps n r = r * (6 * n + 10)"

fun owner_steps :: "nat \<Rightarrow> 'a owner_pc \<Rightarrow> nat" where
  "owner_steps n UnlockDispatch = 1" | "owner_steps n Signalling = 8" | "owner_steps n (Pushing t) = 13"
| "owner_steps n (Verifying t) = 14" | "owner_steps n (LockDispatch t) = 15"
| "owner_steps n LockEnd = join_steps n n + 8" | "owner_steps n Reading = join_steps n n + 7"
| "owner_steps n (Killing m) = join_steps n n + 6"
| "owner_steps n (JoinTest m i) = join_steps n (n - unat i) + 5"
| "owner_steps n (Broadcasting m i) = join_steps n (n - unat i) + 4"
| "owner_steps n (JoinUnlock m i) = join_steps n (n - Suc (unat i)) + 9"
| "owner_steps n (Joining m i) = join_steps n (n - Suc (unat i)) + 8"
| "owner_steps n (JoinLock m i) = join_steps n (n - Suc (unat i)) + 7"
| "owner_steps n VerifyEnd = 4" | "owner_steps n UnlockEnd = 3" | "owner_steps n Draining = 2"
| "owner_steps n (DrainRun t) = 4" | "owner_steps n pc = 0"

definition steps_left :: "u32 \<Rightarrow> 'a pool \<Rightarrow> nat" where
  "steps_left n s = sum_list (map worker_steps (thread_array s)) + 4 * length (work_queue s)
     + owner_steps (unat n) (owner s)"

lemma RunWorker_decreases:
  assumes "ThreadLoop i s = Some s'" "i < length (thread_array s)"
  shows "steps_left n s' < steps_left n s"
proof -
  have u: "sum_list (map worker_steps ((thread_array s)[i := pc])) + worker_steps (thread_array s ! i)
      = sum_list (map worker_steps (thread_array s)) + worker_steps pc" for pc
    using assms(2) by (rule sum_list_map_update)
  have down: "sum_list (map worker_steps ((thread_array s)[i := pc])) < sum_list (map worker_steps (thread_array s))"
    if "worker_steps pc < worker_steps (thread_array s ! i)" for pc using u [of pc] that by simp
  have take: "sum_list (map worker_steps ((thread_array s)[i := Took t])) = sum_list (map worker_steps (thread_array s)) + 3"
    if "thread_array s ! i = Inner" for t using u [of "Took t"] that by simp
  from assms(1) show ?thesis unfolding steps_left_def
    by (cases "thread_array s ! i") (auto simp: ThreadLoop_def step_functions down take split: if_splits list.splits)
qed

lemma woken_steps:
  assumes "i < length (thread_array s)" "thread_array s ! i = Blocked"
  shows "sum_list (map worker_steps (thread_array (goto_worker i Woken s))) = sum_list (map worker_steps (thread_array s)) + 6"
  using sum_list_map_update [OF assms(1), of worker_steps Woken] assms(2) by (simp add: goto_worker_def)

lemma broadcast_steps:
  "sum_list (map worker_steps (map wake_all pcs)) \<le> sum_list (map worker_steps pcs) + 6 * length pcs"
proof (induction pcs)
  case (Cons pc pcs)
  have "worker_steps (wake_all pc) \<le> worker_steps pc + 6" by (cases pc) simp_all
  with Cons show ?case by simp
qed simp

lemma RunOwner_decreases:
  assumes "next_state n (RunOwner j) s = Some s'" "phase_inv n s" "\<not> constructing (owner s)"
  shows "steps_left n s' < steps_left n s \<and> \<not> constructing (owner s')"
proof (cases "owner s")
  case Signalling
  show ?thesis using RunOwner_signal [OF assms(1) Signalling]
  proof cases
    case 1
    then show ?thesis using Signalling by (simp add: steps_left_def phase_goto constructing_def)
  next
    case (2 i)
    then show ?thesis using Signalling woken_steps [OF 2(1,2)]
      by (simp add: steps_left_def phase_goto constructing_def goto_worker_def)
  qed
next
  case (JoinTest m i)
  then show ?thesis using assms(1,2)
    by (auto simp: owner_functions phase_inv_def phase_goto steps_left_def constructing_def split: if_splits)
next
  case (Broadcasting m i)
  then have i: "i < n" "length (thread_array s) = unat n" "s' = goto_owner (JoinUnlock m i) (broadcast s)"
    using assms(1,2) by (auto simp: owner_functions phase_inv_def ending_def settled_def)
  have "unat n - unat i = Suc (unat n - Suc (unat i))" using i(1) by (simp add: word_less_nat_alt)
  then have "join_steps (unat n) (unat n - unat i) = join_steps (unat n) (unat n - Suc (unat i)) + 6 * unat n + 10"
    by (simp add: join_steps_def)
  then show ?thesis using Broadcasting broadcast_steps [of "thread_array s"] i(2)
    by (simp add: i(3) steps_left_def phase_goto constructing_def broadcast_wake)
next
  case (JoinLock m i)
  then have "unat (i + 1) = Suc (unat i)" using assms(2) by (intro unat_inc [of _ n]) (simp add: phase_inv_def)
  then show ?thesis using assms(1,2) JoinLock
    by (auto simp: owner_functions phase_inv_def phase_goto steps_left_def constructing_def lock_def split: if_splits)
qed (use assms in \<open>auto simp: owner_functions phase_inv_def phase_goto steps_left_def constructing_def
    lock_def unlock_def split: if_splits list.splits\<close>)

lemma runs_decreases:
  assumes "runs n s s'" "pool_inv n s" "\<not> constructing (owner s)"
  shows "steps_left n s' < steps_left n s \<and> pool_inv n s' \<and> \<not> constructing (owner s')"
  using assms(1)
proof cases
  case (worker i)
  then have "i < length (thread_array s)" "ThreadLoop i s = Some s'" by (auto simp: next_state_def split: if_splits)
  then show ?thesis using RunWorker_decreases ThreadLoop_frame pool_inv_step [OF worker assms(2)] assms(3) by metis
next
  case (owner j)
  then show ?thesis using RunOwner_decreases [OF owner _ assms(3)] pool_inv_step [OF owner assms(2)] assms(2)
    by (simp add: pool_inv_def)
qed

text \<open>When no thread can make a step.\<close>

lemma worker_enabled:
  assumes "i < length (thread_array s)" "holds_lock (thread_array s ! i)" "qlock s = Some (Worker i)"
  shows "\<exists>s'. runs n s s'"
proof -
  have "ThreadLoop i s \<noteq> None"
    using assms(2,3) by (cases "thread_array s ! i") (auto simp: ThreadLoop_def unlock_def split: list.splits)
  then obtain s' where "next_state n (RunWorker i) s = Some s'" using assms(1) by (auto simp: next_state_def)
  then show ?thesis by (blast intro: runs.worker)
qed

lemma worker_enabled_unlocked:
  assumes "i < length (thread_array s)" "qlock s = None" "thread_array s ! i \<noteq> Blocked" "thread_array s ! i \<noteq> Dead"
    "\<not> holds_lock (thread_array s ! i)"
  shows "\<exists>s'. runs n s s'"
proof -
  have "ThreadLoop i s \<noteq> None"
    using assms(2-5) by (cases "thread_array s ! i") (auto simp: ThreadLoop_def lock_def)
  then obtain s' where "next_state n (RunWorker i) s = Some s'" using assms(1) by (auto simp: next_state_def)
  then show ?thesis by (blast intro: runs.worker)
qed

lemma owner_enabled:
  assumes "owner_holds_lock (owner s)" "qlock s = Some Owner" "owner s \<noteq> Aborted"
  shows "\<exists>s'. runs n s s'"
proof -
  have "\<exists>j. next_state n (RunOwner j) s \<noteq> None"
  proof (cases "owner s = Signalling")
    case True
    have "\<exists>j t. signal j s = Some t"
    proof (cases "Blocked \<in> set (thread_array s)")
      case True
      then obtain j where "j < length (thread_array s)" "thread_array s ! j = Blocked" by (auto simp: in_set_conv_nth)
      with True show ?thesis by (auto simp: signal_def)
    qed (simp add: signal_def)
    then obtain j t where "signal j s = Some t" by blast
    then have "next_state n (RunOwner j) s \<noteq> None" using True by (simp add: owner_functions)
    then show ?thesis by blast
  next
    case False
    then show ?thesis using assms by (cases "owner s") (simp_all add: owner_functions unlock_def)
  qed
  then show ?thesis by (blast intro: runs.owner)
qed

lemma at_rest:
  assumes "pool_inv n s" "\<not> constructing (owner s)" "\<not> (\<exists>s'. runs n s s')"
  shows "(owner s = Ready \<or> owner s = Destroyed) \<and> set (thread_array s) \<subseteq> {Blocked, Dead}"
proof -
  have inv: "lock_inv s" "phase_inv n s" using assms(1) by (simp_all add: pool_inv_def)
  have "owner s \<noteq> Aborted" using inv(2) by (auto simp: phase_inv_def)
  then have q: "qlock s = None"
    using worker_enabled [of _ s n] owner_enabled [of s n] assms(3) inv(1) unfolding lock_inv_def
    by (metis not_None_eq thread.exhaust)
  have nolock: "\<not> owner_holds_lock (owner s)" using inv(1) q by (simp add: lock_inv_def)
  have pcs: "thread_array s ! i \<in> {Blocked, Dead}" if "i < length (thread_array s)" for i
    using worker_enabled_unlocked [OF that q] assms(3) inv(1) that q by (auto simp: lock_inv_def)
  have off: "next_state n (RunOwner 0) s = None" using assms(3) by (meson not_None_eq runs.owner)
  have "owner s = Ready \<or> owner s = Destroyed"
  proof (cases "owner s")
    case (Joining m i)
    then have "unat i < length (thread_array s)" "Blocked \<notin> set (thread_array s)"
      using inv(2) by (auto simp: phase_inv_def ending_def settled_def awakened_def word_less_nat_alt)
    moreover from this have "thread_array s ! unat i = Dead" using pcs by (metis insert_iff nth_mem singletonD)
    ultimately show ?thesis using off Joining by (simp add: owner_functions)
  qed (use off q nolock assms(2) in \<open>auto simp: owner_functions lock_def constructing_def split: list.splits\<close>)
  moreover have "set (thread_array s) \<subseteq> {Blocked, Dead}" using pcs by (force simp: in_set_conv_nth)
  ultimately show ?thesis by blast
qed

lemma at_rest_done:
  assumes "pool_inv n s" "\<not> constructing (owner s)" "\<not> (\<exists>s'. runs n s s')" "0 < n \<or> owner s = Destroyed"
  shows "mset (finished s) = mset (dispatched s)"
proof -
  have inv: "phase_inv n s" "wake_inv n s" "log_inv s" using assms(1) by (simp_all add: pool_inv_def)
  note r = at_rest [OF assms(1-3)]
  have "sum_list (map in_hand (thread_array s)) = {#}" by (rule sum_list_0) (use r in auto)
  moreover have "work_queue s = []"
  proof (cases "owner s = Destroyed")
    case True
    then show ?thesis using inv(1) by (simp add: phase_inv_def)
  next
    case False
    then have "\<not> killthreads s" "owner s \<noteq> Signalling" "0 < n" using r inv(1) assms(4) by (auto simp: phase_inv_def alive_def)
    moreover have "\<not> awake pc" if "pc \<in> set (thread_array s)" for pc
    proof -
      from that r have "pc = Blocked \<or> pc = Dead" by blast
      then show ?thesis by auto
    qed
    ultimately show ?thesis using inv(2) unfolding wake_inv_def by blast
  qed
  ultimately show ?thesis using inv(3) r by (auto simp: log_inv_def)
qed

lemma no_endless_decrease: "\<not> (\<forall>k. g (Suc k) < (g k :: nat))"
proof
  assume d: "\<forall>k. g (Suc k) < g k"
  have "g k + k \<le> g 0" for k
  proof (induction k)
    case (Suc k)
    then show ?case using d [rule_format, of k] by simp
  qed simp
  from this [of "Suc (g 0)"] show False by simp
qed

text \<open>
  C11: No wake-up is lost and shutting down ends: once the pool is constructed, the threads cannot run
  for ever on their own, and they come to rest only between two calls or when the destructor is
  done; and then, in a pool with a worker, every dispatched task has run. Calls of \<^verbatim>\<open>Dispatch\<close> and of
  the destructor return therefore, whatever the scheduling is and without relying on wake-ups that
  were not signalled. (The tasks themselves are taken to return.)
\<close>

theorem ThreadPool_progress:
  assumes "reachable n s" "\<not> constructing (owner s)"
  shows "\<not> (\<exists>f. f 0 = s \<and> (\<forall>k. runs n (f k) (f (Suc k)))) \<and>
     (\<forall>s'. (runs n)\<^sup>*\<^sup>* s s' \<and> \<not> (\<exists>t. runs n s' t) \<longrightarrow>
        (owner s' = Ready \<or> owner s' = Destroyed) \<and>
        (0 < n \<or> owner s' = Destroyed \<longrightarrow> mset (finished s') = mset (dispatched s')))"
proof (intro conjI allI impI notI)
  have start: "pool_inv n s" "\<not> constructing (owner s)" using reachable_inv [OF assms(1)] assms(2) by simp_all
  {
    assume "\<exists>f. f 0 = s \<and> (\<forall>k. runs n (f k) (f (Suc k)))"
    then obtain f where f: "f 0 = s" "\<And>k. runs n (f k) (f (Suc k))" by blast
    have "pool_inv n (f k) \<and> \<not> constructing (owner (f k))" for k
      by (induction k) (use f start runs_decreases in \<open>simp, blast\<close>)
    then have "\<forall>k. steps_left n (f (Suc k)) < steps_left n (f k)" using runs_decreases f(2) by blast
    then show False using no_endless_decrease [of "\<lambda>k. steps_left n (f k)"] by blast
  }
  fix s' assume r: "(runs n)\<^sup>*\<^sup>* s s' \<and> \<not> (\<exists>t. runs n s' t)"
  then have "(runs n)\<^sup>*\<^sup>* s s'" by simp
  then have "pool_inv n s' \<and> \<not> constructing (owner s')"
    by (induction rule: rtranclp_induct) (use start runs_decreases in blast)+
  then show "owner s' = Ready \<or> owner s' = Destroyed"
    "0 < n \<or> owner s' = Destroyed \<Longrightarrow> mset (finished s') = mset (dispatched s')"
    using at_rest at_rest_done r by blast+
qed

text \<open>The worker of the concrete execution runs both tasks and waits again.\<close>

definition demo_rest :: "string pool" where
  "demo_rest = \<lparr>work_queue = [], killthreads = False, num_running = 1, qlock = None, thread_array = [Blocked],
     owner = Ready, dispatched = [''a'', ''b''], taken = [''a'', ''b''], finished = [''a'', ''b'']\<rparr>"

lemma execute_runs:
  "execute n (replicate k (RunWorker i)) s = Some s' \<Longrightarrow> (runs n)\<^sup>*\<^sup>* s s'"
  by (induction k arbitrary: s) (auto split: option.splits intro: converse_rtranclp_into_rtranclp runs.worker)

lemma demo_rest_runs: "(runs 1)\<^sup>*\<^sup>* demo_pool demo_rest"
proof (rule execute_runs)
  show "execute 1 (replicate 10 (RunWorker 0)) demo_pool = Some demo_rest"
    by (simp add: demo_pool_def demo_rest_def numeral_eq_Suc next_state_def ThreadLoop_def goto_worker_def
        lock_def unlock_def)
qed

lemma demo_rest_stuck: "\<not> (\<exists>t. runs 1 demo_rest t)"
  by (auto simp: runs.simps next_state_def construct_def dispatch_def destroy_def ThreadLoop_def demo_rest_def
      split: if_splits)

lemma ThreadPool_progress_witness:
  "(runs 1)\<^sup>*\<^sup>* demo_pool demo_rest \<and> mset (finished demo_rest) = mset (dispatched demo_pool)"
proof -
  have "\<not> constructing (owner demo_pool)" by (simp add: demo_pool_def constructing_def)
  from ThreadPool_progress [OF demo_pool_reachable this] demo_rest_runs demo_rest_stuck
  have "mset (finished demo_rest) = mset (dispatched demo_rest)" by simp
  then show ?thesis using demo_rest_runs by (simp add: demo_rest_def demo_pool_def)
qed

end
