(* ===== verification/HttpUtils.thy ===== *)
theory HttpUtils
  imports FileParser
begin

text \<open>
  The string and socket helpers of the web server: \<^verbatim>\<open>hw4/HttpUtils.cc\<close>. The Boost functions are not
  part of the repository and are parameters: \<open>replace_all\<close> and \<open>split\<close>, with their documented
  behaviour as the predicates \<open>replaces_chars\<close> and \<open>splits\<close>. So are \<^verbatim>\<open>realpath\<close> and the calls of
  \<^verbatim>\<open>read\<close> and \<^verbatim>\<open>write\<close> on a socket.
\<close>

section \<open>What the program relies on in Boost\<close>

type_synonym replace_fn = "string \<Rightarrow> string \<Rightarrow> string \<Rightarrow> string"

text \<open>\<^verbatim>\<open>replace_all(input, search, format)\<close>, for a search string of one character.\<close>

definition replaces_chars :: "replace_fn \<Rightarrow> bool" where
  "replaces_chars replace_all \<longleftrightarrow>
     (\<forall>s c r. replace_all s [c] r = concat (map (\<lambda>x. if x = c then r else [x]) s))"

type_synonym split_fn = "(char \<Rightarrow> bool) \<Rightarrow> bool \<Rightarrow> string \<Rightarrow> string list"

text \<open>
  \<^verbatim>\<open>split(tokens, s, is_any_of(seps), compress)\<close>: the input is the tokens with a separator between
  any two of them, or with a run of separators when they are compressed; no token has a separator in it.
\<close>

fun interleave :: "string list \<Rightarrow> string list \<Rightarrow> string" where
  "interleave (t # ts) (g # gs) = t @ g @ interleave ts gs"
| "interleave ts gs = concat ts"

definition splits :: "split_fn \<Rightarrow> bool" where
  "splits split \<longleftrightarrow>
     (\<forall>P compress s. \<exists>gs. length (split P compress s) = Suc (length gs) \<and>
        s = interleave (split P compress s) gs \<and>
        (\<forall>t \<in> set (split P compress s). \<forall>c \<in> set t. \<not> P c) \<and>
        (\<forall>g \<in> set gs. g \<noteq> [] \<and> (\<forall>c \<in> set g. P c) \<and> (\<not> compress \<longrightarrow> length g = 1)) \<and>
        (compress \<longrightarrow> (\<forall>t \<in> set (butlast (tl (split P compress s))). t \<noteq> [])))"

section \<open>Paths and strings\<close>

text \<open>\<^verbatim>\<open>strncmp\<close> compares the first characters of the two resolved paths.\<close>

definition IsPathSafe :: "(string \<Rightarrow> string option) \<Rightarrow> string \<Rightarrow> string \<Rightarrow> bool" where
  "IsPathSafe realpath rootdir testfile =
     (case realpath rootdir of
        None \<Rightarrow> False
      | Some rootpathbuffer \<Rightarrow>
          (case realpath testfile of
             None \<Rightarrow> False
           | Some testfilebuffer \<Rightarrow>
               if length testfilebuffer \<le> length rootpathbuffer then False
               else take (length rootpathbuffer) rootpathbuffer = take (length rootpathbuffer) testfilebuffer))"

definition EscapeHTML :: "replace_fn \<Rightarrow> string \<Rightarrow> string" where
  "EscapeHTML replace_all from =
     (let ret = from;
          ret = replace_all ret ''&'' ''&amp;'';
          ret = replace_all ret [CHR 0x22] ''&quot;'';
          ret = replace_all ret [CHR 0x27] ''&apos;'';
          ret = replace_all ret ''<'' ''&lt;'';
          ret = replace_all ret ''>'' ''&gt;''
      in ret)"

definition toupper :: "char \<Rightarrow> char" where
  "toupper c = (let n = (of_char c :: nat) in if 97 \<le> n \<and> n \<le> 122 then char_of (n - 32) else c)"

definition code_of :: "char \<Rightarrow> nat" where
  "code_of c = of_char c"

definition is_hex :: "char \<Rightarrow> bool" where
  "is_hex c \<longleftrightarrow> (48 \<le> code_of c \<and> code_of c \<le> 57) \<or> (65 \<le> code_of c \<and> code_of c \<le> 70)"

text \<open>The value of an upper-case hexadecimal digit, as the code computes it.\<close>

definition hex_value :: "char \<Rightarrow> nat" where
  "hex_value c = (if 65 \<le> code_of c then 10 + (code_of c - 65) else code_of c - 48)"

text \<open>The loop over the positions; an escape sequence moves on by three characters.\<close>

function URIDecode_loop :: "string \<Rightarrow> nat \<Rightarrow> string" where
  "URIDecode_loop from pos =
     (if pos < length from then
        let c1 = from ! pos;
            c2 = (if pos + 1 < length from then toupper (from ! (pos + 1)) else CHR '' '');
            c3 = (if pos + 2 < length from then toupper (from ! (pos + 2)) else CHR '' '') in
        if c1 = CHR ''+'' then CHR '' '' # URIDecode_loop from (pos + 1)
        else if c1 \<noteq> CHR ''%'' then c1 # URIDecode_loop from (pos + 1)
        else if \<not> is_hex c2 then c1 # URIDecode_loop from (pos + 1)
        else if \<not> is_hex c3 then c1 # URIDecode_loop from (pos + 1)
        else
          let code = (of_nat (16 * hex_value c2) :: u8) + of_nat (hex_value c3) in
          if \<not> (32 \<le> code \<and> code \<le> 127) then c1 # URIDecode_loop from (pos + 1)
          else char_of (unat code) # URIDecode_loop from (pos + 3)
      else [])"
  by pat_completeness auto
termination
  by (relation "measure (\<lambda>(from, pos). length from - pos)") auto

declare URIDecode_loop.simps [simp del]

definition URIDecode :: "string \<Rightarrow> string" where
  "URIDecode from = URIDecode_loop from 0"

section \<open>URLs\<close>

record URLParser =
  parser_url :: string
  parser_path :: string
  parser_args :: "string \<rightharpoonup> string"

definition new_URLParser :: URLParser where
  "new_URLParser = \<lparr>parser_url = [], parser_path = [], parser_args = Map.empty\<rparr>"

text \<open>One \<^verbatim>\<open>field=value\<close> chunk; a chunk without exactly one \<^verbatim>\<open>=\<close> is skipped.\<close>

definition add_arg :: "split_fn \<Rightarrow> string \<Rightarrow> (string \<rightharpoonup> string) \<Rightarrow> (string \<rightharpoonup> string)" where
  "add_arg split val args =
     (let fv = split (\<lambda>c. c = CHR ''='') False val in
      if length fv = 2 then args(URIDecode (fv ! 0) \<mapsto> URIDecode (fv ! 1)) else args)"

definition URLParser_Parse :: "split_fn \<Rightarrow> string \<Rightarrow> URLParser \<Rightarrow> URLParser" where
  "URLParser_Parse split url p =
     (let p = p\<lparr>parser_url := url\<rparr>; ps = split (\<lambda>c. c = CHR ''?'') False url in
      if length ps < 1 then p
      else let p = p\<lparr>parser_path := URIDecode (ps ! 0)\<rparr> in
        if length ps < 2 then p
        else let vals = split (\<lambda>c. c = CHR ''&'') False (ps ! 1) in
          p\<lparr>parser_args := fold (add_arg split) vals (parser_args p)\<rparr>)"

definition get_path :: "URLParser \<Rightarrow> string" where
  "get_path p = parser_path p"

definition get_args :: "URLParser \<Rightarrow> (string \<rightharpoonup> string)" where
  "get_args p = parser_args p"

definition GetRandPort :: "u32 \<Rightarrow> u32 \<Rightarrow> u16" where
  "GetRandPort pid rnd = 10000 + ucast pid mod 25000 + ucast rnd mod 5000"

section \<open>Sockets\<close>

text \<open>
  A connected socket: what the next calls of \<^verbatim>\<open>read\<close> deliver (\<open>ReadError True\<close> is \<^verbatim>\<open>EINTR\<close> or
  \<^verbatim>\<open>EAGAIN\<close>; after the last one the end of the stream), how many bytes the next calls of \<^verbatim>\<open>write\<close>
  take, or how they fail (when there are no more entries, every call takes all), and the bytes
  that have been sent.
\<close>

datatype write_outcome = WriteError bool | WriteBytes nat

record socket =
  incoming :: "read_outcome list"
  accepting :: "write_outcome list"
  sent :: string

text \<open>\<^verbatim>\<open>WrappedRead\<close> repeats an interrupted call; \<open>None\<close> is the result -1.\<close>

fun wrapped_read :: "nat \<Rightarrow> read_outcome list \<Rightarrow> string option \<times> read_outcome list" where
  "wrapped_read readlen [] = (Some [], [])"
| "wrapped_read readlen (ReadError again # rs) =
     (if again then wrapped_read readlen rs else (None, rs))"
| "wrapped_read readlen (ReadBytes bs # rs) =
     (Some (take readlen bs), if length bs \<le> readlen then rs else ReadBytes (drop readlen bs) # rs)"

definition WrappedRead :: "nat \<Rightarrow> socket \<Rightarrow> string option \<times> socket" where
  "WrappedRead readlen s =
     (case wrapped_read readlen (incoming s) of (res, rs) \<Rightarrow> (res, s\<lparr>incoming := rs\<rparr>))"

text \<open>\<^verbatim>\<open>WrappedWrite\<close>: the result is the number of bytes written.\<close>

fun wrapped_write :: "write_outcome list \<Rightarrow> string \<Rightarrow> nat \<Rightarrow> nat \<times> write_outcome list \<times> string" where
  "wrapped_write [] buf written_so_far =
     (length buf, [], drop written_so_far buf)"
| "wrapped_write (w # ws) buf written_so_far =
     (if written_so_far < length buf then
        (case w of
           WriteError again \<Rightarrow> if again then wrapped_write ws buf written_so_far else (written_so_far, ws, [])
         | WriteBytes n \<Rightarrow>
             let res = min n (length buf - written_so_far) in
             if res = 0 then (written_so_far, ws, [])
             else (case wrapped_write ws buf (written_so_far + res) of
               (r, ws', out) \<Rightarrow> (r, ws', take res (drop written_so_far buf) @ out)))
      else (written_so_far, w # ws, []))"

definition WrappedWrite :: "string \<Rightarrow> socket \<Rightarrow> nat \<times> socket" where
  "WrappedWrite buf s =
     (case wrapped_write (accepting s) buf 0 of
        (res, ws, out) \<Rightarrow> (res, s\<lparr>accepting := ws, sent := sent s @ out\<rparr>))"

text \<open>
  \<^verbatim>\<open>ConnectToServer\<close>: the addresses are what \<^verbatim>\<open>getaddrinfo\<close> finds for the host (\<open>None\<close> when it
  fails); each comes with the descriptor that \<^verbatim>\<open>socket\<close> gives for it, if any, and whether \<^verbatim>\<open>connect\<close>
  succeeds. The results are the connected descriptor and all descriptors that stay open.
\<close>

primrec connect_loop :: "(nat option \<times> bool) list \<Rightarrow> nat option \<times> nat list" where
  "connect_loop [] = (None, [])"
| "connect_loop (r # rs) =
     (case r of
        (None, _) \<Rightarrow> connect_loop rs
      | (Some clientsock, connects) \<Rightarrow>
          if connects then (Some clientsock, [clientsock])
          else (case connect_loop rs of (fd, fds) \<Rightarrow> (fd, clientsock # fds)))"

definition ConnectToServer :: "(nat option \<times> bool) list option \<Rightarrow> nat option \<times> nat list" where
  "ConnectToServer results = (case results of None \<Rightarrow> (None, []) | Some rs \<Rightarrow> connect_loop rs)"

end
