(* ===== verification/HttpConnection.thy ===== *)
theory HttpConnection
  imports HttpUtils QueryProcessor SearchShell
begin

text \<open>
  Requests, responses and the connection to one client: \<^verbatim>\<open>hw4/HttpRequest.h\<close>, \<^verbatim>\<open>HttpResponse.h\<close> and
  \<^verbatim>\<open>HttpConnection.cc\<close>. A \<^verbatim>\<open>std::map\<close> is the list of its pairs in the order of the keys. An index
  past the end of a vector is a \<open>MemFault\<close>. The Boost functions are the fields of the record
  \<open>boost\<close>, and \<open>boost_ok\<close> is what the code relies on.
\<close>

section \<open>Library functions\<close>

record boost =
  boost_replace_all :: replace_fn
  boost_split :: split_fn
  boost_trim :: "string \<Rightarrow> string"
  boost_to_lower :: "string \<Rightarrow> string"

text \<open>\<^verbatim>\<open>trim\<close> removes white space at both ends.\<close>

definition strip :: "string \<Rightarrow> string" where
  "strip s = rev (dropWhile isspace (rev (dropWhile isspace s)))"

definition boost_ok :: "boost \<Rightarrow> bool" where
  "boost_ok B \<longleftrightarrow> replaces_chars (boost_replace_all B) \<and> splits (boost_split B) \<and>
     (\<forall>s. boost_trim B s = strip s) \<and> (\<forall>s. boost_to_lower B s = map tolower s)"

text \<open>The order of \<^verbatim>\<open>std::string\<close>, and assignment to a key of a \<^verbatim>\<open>std::map\<close>.\<close>

fun string_less :: "string \<Rightarrow> string \<Rightarrow> bool" where
  "string_less [] t = (t \<noteq> [])"
| "string_less (c # s) [] = False"
| "string_less (c # s) (d # t) = (code_of c < code_of d \<or> c = d \<and> string_less s t)"

type_synonym std_map = "(string \<times> string) list"

fun map_put :: "string \<Rightarrow> string \<Rightarrow> std_map \<Rightarrow> std_map" where
  "map_put k v [] = [(k, v)]"
| "map_put k v ((k', v') # m) =
     (if k = k' then (k, v) # m
      else if string_less k k' then (k, v) # (k', v') # m
      else (k', v') # map_put k v m)"

text \<open>\<^verbatim>\<open>operator[]\<close> as a value: a key that is missing is entered with the empty string.\<close>

definition map_index :: "string \<Rightarrow> std_map \<Rightarrow> string \<times> std_map" where
  "map_index k m = (case map_of m k of Some v \<Rightarrow> (v, m) | None \<Rightarrow> ([], map_put k [] m))"

text \<open>\<^verbatim>\<open>std::string::find\<close>.\<close>

fun find_str :: "string \<Rightarrow> string \<Rightarrow> nat option" where
  "find_str pat [] = (if pat = [] then Some 0 else None)"
| "find_str pat (c # cs) =
     (if take (length pat) (c # cs) = pat then Some 0 else map_option Suc (find_str pat cs))"

section \<open>Requests and responses\<close>

record HttpRequest =
  request_URI :: string
  request_headers :: std_map

definition new_HttpRequest :: HttpRequest where
  "new_HttpRequest = \<lparr>request_URI = [], request_headers = []\<rparr>"

text \<open>The constructor leaves \<^verbatim>\<open>response_code\<close> open; it is set before it is used.\<close>

record HttpResponse =
  protocol :: string
  response_code :: u16
  message :: string
  response_headers :: std_map
  body :: string

definition new_HttpResponse :: HttpResponse where
  "new_HttpResponse = \<lparr>protocol = [], response_code = 0, message = [], response_headers = [], body = []\<rparr>"

definition CR :: char where
  "CR = CHR 0x0D"

definition LF :: char where
  "LF = CHR 0x0A"

definition header_line :: "string \<times> string \<Rightarrow> string" where
  "header_line it = fst it @ '': '' @ snd it @ [CR, LF]"

definition GenerateResponseString :: "HttpResponse \<Rightarrow> string" where
  "GenerateResponseString r =
     protocol r @ '' '' @ decimal (unat (response_code r)) @ '' '' @ message r @ [CR, LF]
     @ concat (map header_line (response_headers r))
     @ ''Content-length: '' @ decimal (length (body r)) @ [CR, LF] @ [CR, LF] @ body r"

section \<open>Connections\<close>

record HttpConnection =
  conn_fd :: socket
  buffer :: string

definition new_HttpConnection :: "socket \<Rightarrow> HttpConnection" where
  "new_HttpConnection fd = \<lparr>conn_fd = fd, buffer = []\<rparr>"

definition end_of_header :: string where
  "end_of_header = [CR, LF, CR, LF]"

definition BUFSIZE4 :: nat where
  "BUFSIZE4 = 1024"

text \<open>One line of the header; \<open>tokens[1]\<close> is used without a check.\<close>

definition add_header :: "boost \<Rightarrow> string \<Rightarrow> std_map \<Rightarrow> std_map res" where
  "add_header B line headers =
     (if length line = 0 then Inr headers
      else let tokens = map (boost_trim B) (boost_split B (\<lambda>c. c = CHR '':'') False line) in
        if length tokens < 2 then Inl MemFault
        else Inr (map_put (boost_to_lower B (tokens ! 0)) (tokens ! 1) headers))"

primrec add_headers :: "boost \<Rightarrow> string list \<Rightarrow> std_map \<Rightarrow> std_map res" where
  "add_headers B [] headers = Inr headers"
| "add_headers B (line # lines) headers = andThen (add_header B line headers) (add_headers B lines)"

definition ParseRequest :: "boost \<Rightarrow> string \<Rightarrow> nat \<Rightarrow> HttpRequest res" where
  "ParseRequest B buf header_end =
     (let str = take header_end buf;
          lines = boost_split B (\<lambda>c. c = CR \<or> c = LF) True str in
      if length lines < 1 then Inl MemFault
      else let tokens = boost_split B (\<lambda>c. c = CHR '' '') False (lines ! 0) in
        if length tokens < 2 then Inl MemFault
        else andThen (add_headers B (tl lines) []) (\<lambda>headers.
          Inr \<lparr>request_URI = tokens ! 1, request_headers = headers\<rparr>))"

text \<open>
  The read loop of \<^verbatim>\<open>GetNextRequest\<close>: it ends when the buffer has the end of a header, when there is
  nothing more to read, or with a failure.
\<close>

lemma wrapped_read_shorter:
  "wrapped_read n rs = (Some bs, rs') \<Longrightarrow> bs \<noteq> [] \<Longrightarrow> 0 < n \<Longrightarrow>
     (\<Sum>r \<leftarrow> rs'. case r of ReadBytes b \<Rightarrow> Suc (length b) | ReadError a \<Rightarrow> 1)
       < (\<Sum>r \<leftarrow> rs. case r of ReadBytes b \<Rightarrow> Suc (length b) | ReadError a \<Rightarrow> 1)"
  by (induction n rs rule: wrapped_read.induct) (auto split: if_splits)

function read_header :: "string \<Rightarrow> read_outcome list \<Rightarrow> bool \<times> string \<times> read_outcome list" where
  "read_header buf rs =
     (if find_str end_of_header buf = None then
        (case wrapped_read BUFSIZE4 rs of
           (None, rs) \<Rightarrow> (False, buf, rs)
         | (Some bs, rs) \<Rightarrow> if bs = [] then (True, buf, rs) else read_header (buf @ bs) rs)
      else (True, buf, rs))"
  by pat_completeness auto
termination read_header
proof (relation "measure (\<lambda>(buf, rs). \<Sum>r \<leftarrow> rs. case r of ReadBytes b \<Rightarrow> Suc (length b) | ReadError a \<Rightarrow> 1)",
    goal_cases)
  case (2 buf rs x rs' bs)
  then have "wrapped_read BUFSIZE4 rs = (Some bs, rs')" by simp
  from wrapped_read_shorter [OF this] 2 show ?case by (simp add: BUFSIZE4_def)
qed simp

declare read_header.simps [simp del]

text \<open>
  The result of \<^verbatim>\<open>GetNextRequest\<close>, the request, which stays as it was when no header is found, and the
  connection with what follows the header in its buffer.
\<close>

definition GetNextRequest ::
  "boost \<Rightarrow> HttpRequest \<Rightarrow> HttpConnection \<Rightarrow> (bool \<times> HttpRequest \<times> HttpConnection) res" where
  "GetNextRequest B request c =
     (case read_header (buffer c) (incoming (conn_fd c)) of
        (ok, buf, rs) \<Rightarrow>
          let c = c\<lparr>conn_fd := (conn_fd c)\<lparr>incoming := rs\<rparr>, buffer := buf\<rparr> in
          if \<not> ok then Inr (False, request, c)
          else case find_str end_of_header buf of
              None \<Rightarrow> Inr (True, request, c)
            | Some pos \<Rightarrow>
                andThen (ParseRequest B buf (pos + 4)) (\<lambda>request.
                  Inr (True, request, c\<lparr>buffer := drop (pos + 4) buf\<rparr>)))"

definition WriteResponse :: "HttpResponse \<Rightarrow> HttpConnection \<Rightarrow> bool \<times> HttpConnection" where
  "WriteResponse response c =
     (let str = GenerateResponseString response in
      case WrappedWrite str (conn_fd c) of
        (res, fd) \<Rightarrow> (res = length str, c\<lparr>conn_fd := fd\<rparr>))"

end
