(* ===== verification/HttpServer.thy ===== *)
theory HttpServer
  imports HttpConnection ThreadPool
begin

text \<open>
  The web server: \<^verbatim>\<open>hw4/FileReader.cc\<close> and \<^verbatim>\<open>hw4/HttpServer.cc\<close>. The environment of the server is the
  record \<open>server_env\<close>: Boost, \<^verbatim>\<open>std::sort\<close>, \<^verbatim>\<open>realpath\<close>, the files as \<^verbatim>\<open>ReadFile\<close> of \<^verbatim>\<open>hw2\<close> sees them (with the
  number of calls of \<^verbatim>\<open>read\<close> that are allowed), and the index files. What the server prints to the
  console is left out.
\<close>

section \<open>The environment and the standard library\<close>

record server_env =
  env_boost :: boost
  env_sort :: "QueryResult list \<Rightarrow> QueryResult list"
  env_realpath :: "string \<Rightarrow> string option"
  env_files :: "string \<Rightarrow> file_os"
  env_rfuel :: nat
  env_index :: "string \<Rightarrow> u8 list option"

text \<open>\<^verbatim>\<open>std::string::substr\<close> throws when the position is past the end; \<open>None\<close> is \<^verbatim>\<open>npos\<close>.\<close>

definition std_substr :: "nat option \<Rightarrow> nat \<Rightarrow> string \<Rightarrow> string res" where
  "std_substr pos n s =
     (case pos of
        None \<Rightarrow> Inl UncaughtException
      | Some p \<Rightarrow> if length s < p then Inl UncaughtException else Inr (take n (drop p s)))"

primrec rfind_char :: "char \<Rightarrow> string \<Rightarrow> nat option" where
  "rfind_char c [] = None"
| "rfind_char c (d # s) =
     (case rfind_char c s of Some i \<Rightarrow> Some (Suc i) | None \<Rightarrow> if d = c then Some 0 else None)"

section \<open>Static files\<close>

record FileReader =
  reader_basedir :: string
  reader_fname :: string

definition FileReader_ReadFile :: "server_env \<Rightarrow> FileReader \<Rightarrow> mem \<Rightarrow> (string option \<times> mem) res" where
  "FileReader_ReadFile env reader m =
     (let fullfile = reader_basedir reader @ ''/'' @ reader_fname reader in
      andThen (ReadFile (env_rfuel env) (env_files env fullfile) m) (\<lambda>(r, m).
        case r of
          None \<Rightarrow> Inr (None, m)
        | Some (content, len) \<Rightarrow> Inr (Some (take (unat len) content), m)))"

definition suffixMap :: std_map where
  "suffixMap =
    [(''ac3'', ''audio/ac3''), (''amr'', ''audio/AMR''), (''awb'', ''audio/AMR-WB''),
     (''acn'', ''audio/asc''), (''atx'', ''audio/ATRAC-X''), (''at3'', ''audio/ATRAC3''),
     (''aa3'', ''audio/ATRAC3''), (''omg'', ''audio/ATRAC3''), (''au'', ''audio/basic''),
     (''snd'', ''audio/basic''), (''dls'', ''audio/dls''), (''evc'', ''audio/EVRC''),
     (''evb'', ''audio/EVRCB''), (''enw'', ''audio/EVRCNW''), (''evw'', ''audio/EVRCWB''),
     (''lbc'', ''audio/iLBC''), (''l16'', ''audio/L16''), (''m4a'', ''audio/mp4''),
     (''mp3'', ''audio/mpeg''), (''mpga'', ''audio/mpeg''), (''mp1'', ''audio/mpeg''),
     (''mp2'', ''audio/mpeg''), (''oga'', ''audio/ogg''), (''ogg'', ''audio/ogg''),
     (''opus'', ''audio/ogg''), (''spx'', ''audio/ogg''), (''sid'', ''audio/prs.sid''),
     (''psid'', ''audio/prs.sid''), (''qcp'', ''audio/qcelp''), (''smv'', ''audio/SMV''),
     (''dts'', ''audio/vnd.dts''), (''rip'', ''audio/vnd.rip''), (''otf'', ''font/otf''),
     (''ttf'', ''font/ttf''), (''woff'', ''font/woff''), (''woff2'', ''font/woff2''),
     (''bmp'', ''image/bmp''), (''dib'', ''image/bmp''), (''cgm'', ''image/cgm''), (''emf'', ''image/emf''),
     (''fits'', ''image/fits''), (''fit'', ''image/fits''), (''fts'', ''image/fits''),
     (''gif'', ''image/gif''), (''ief'', ''image/ief''), (''jls'', ''image/jls''), (''jp2'', ''image/jp2''),
     (''jpg2'', ''image/jp2''), (''jpg'', ''image/jpeg''), (''jpeg'', ''image/jpeg''),
     (''jpe'', ''image/jpeg''), (''jfif'', ''image/jpeg''), (''jpm'', ''image/jpm''),
     (''jpgm'', ''image/jpm''), (''jpx'', ''image/jpx''), (''jpf'', ''image/jpx''), (''ktx'', ''image/ktx''),
     (''png'', ''image/png''), (''pti'', ''image/prs.pti''), (''svg'', ''image/svg+xml''),
     (''svgz'', ''image/svg+xml''), (''t38'', ''image/t38''), (''tiff'', ''image/tiff''),
     (''tif'', ''image/tiff''), (''tfx'', ''image/tiff-fx''), (''dwg'', ''image/vnd.dwg''),
     (''dxf'', ''image/vnd.dxf''), (''fpx'', ''image/vnd.fpx''), (''fst'', ''image/vnd.fst''),
     (''wmf'', ''image/wmf''), (''igs'', ''model/iges''), (''iges'', ''model/iges''),
     (''msh'', ''model/mesh''), (''mesh'', ''model/mesh''), (''silo'', ''model/mesh''),
     (''dwf'', ''model/vnd.dwf''), (''gdl'', ''model/vnd.gdl''), (''gsm'', ''model/vnd.gdl''),
     (''win'', ''model/vnd.gdl''), (''dor'', ''model/vnd.gdl''), (''lmp'', ''model/vnd.gdl''),
     (''rsm'', ''model/vnd.gdl''), (''msm'', ''model/vnd.gdl''), (''ism'', ''model/vnd.gdl''),
     (''gtw'', ''model/vnd.gtw''), (''mts'', ''model/vnd.mts''), (''vtu'', ''model/vnd.vtu''),
     (''wrl'', ''model/vrml''), (''vrml'', ''model/vrml''), (''x3db'', ''model/x3d+xml''),
     (''ics'', ''text/calendar''), (''ifb'', ''text/calendar''), (''css'', ''text/css''),
     (''csv'', ''text/csv''), (''soa'', ''text/dns''), (''zone'', ''text/dns''), (''html'', ''text/html''),
     (''htm'', ''text/html''), (''cnd'', ''text/jcr-cnd''), (''markdown'', ''text/markdown''),
     (''md'', ''text/markdown''), (''miz'', ''text/mizar''), (''n3'', ''text/n3''),
     (''txt'', ''text/plain''), (''asc'', ''text/plain''), (''text'', ''text/plain''),
     (''pm'', ''text/plain''), (''el'', ''text/plain''), (''c'', ''text/plain''), (''h'', ''text/plain''),
     (''cc'', ''text/plain''), (''hh'', ''text/plain''), (''cxx'', ''text/plain''),
     (''hxx'', ''text/plain''), (''f90'', ''text/plain''), (''conf'', ''text/plain''),
     (''log'', ''text/plain''), (''rtx'', ''text/richtext''), (''sgml'', ''text/sgml''),
     (''sgm'', ''text/sgml''), (''t'', ''text/troff''), (''tr'', ''text/troff''), (''roff'', ''text/troff''),
     (''ttl'', ''text/turtle''), (''uris'', ''text/uri-list''), (''uri'', ''text/uri-list''),
     (''vcf'', ''text/vcard''), (''vcard'', ''text/vcard''), (''a'', ''text/vnd.a''),
     (''abc'', ''text/vnd.abc''), (''fly'', ''text/vnd.fly''), (''xml'', ''text/xml''),
     (''xsd'', ''text/xml''), (''rng'', ''text/xml''), (''3gp'', ''video/3gpp''), (''3gpp'', ''video/3gpp''),
     (''3g2'', ''video/3gpp2''), (''3gpp2'', ''video/3gpp2''), (''mj2'', ''video/mj2''),
     (''mjp2'', ''video/mj2''), (''mp4'', ''video/mp4''), (''mpg4'', ''video/mp4''),
     (''m4v'', ''video/mp4''), (''mpeg'', ''video/mpeg''), (''mpg'', ''video/mpeg''),
     (''mpe'', ''video/mpeg''), (''m1v'', ''video/mpeg''), (''m2v'', ''video/mpeg''),
     (''ogv'', ''video/ogg''), (''fvt'', ''video/vnd.fvt''), (''mid'', ''audio/midi''),
     (''midi'', ''audio/midi''), (''kar'', ''audio/midi''), (''aif'', ''audio/x-aiff''),
     (''aiff'', ''audio/x-aiff''), (''aifc'', ''audio/x-aiff''), (''flac'', ''audio/x-flac''),
     (''mod'', ''audio/x-mod''), (''ult'', ''audio/x-mod''), (''uni'', ''audio/x-mod''),
     (''m15'', ''audio/x-mod''), (''mtm'', ''audio/x-mod''), (''669'', ''audio/x-mod''),
     (''med'', ''audio/x-mod''), (''s3m'', ''audio/x-s3m''), (''stm'', ''audio/x-stm''),
     (''wav'', ''audio/x-wav''), (''webp'', ''image/webp''), (''rgb'', ''image/x-rgb''),
     (''tga'', ''image/x-targa''), (''pod'', ''text/x-pod''), (''etx'', ''text/x-setext''),
     (''webm'', ''video/webm''), (''flv'', ''video/x-flv''), (''wm'', ''video/x-ms-wm'')]"

definition getContentType :: "string \<Rightarrow> string" where
  "getContentType suffix = (case map_of suffixMap suffix of None \<Rightarrow> [] | Some t \<Rightarrow> t)"

abbreviation dquote :: string where
  "dquote \<equiv> [CHR 0x22]"

definition ProcessFileRequest :: "server_env \<Rightarrow> string \<Rightarrow> string \<Rightarrow> mem \<Rightarrow> (HttpResponse \<times> mem) res" where
  "ProcessFileRequest env uri basedir m =
     (let ret = new_HttpResponse;
          parser = URLParser_Parse (boost_split (env_boost env)) uri new_URLParser;
          fname = get_path parser in
      andThen (std_substr (Some 8) (length fname) fname) (\<lambda>fname.
        if \<not> IsPathSafe (env_realpath env) basedir (basedir @ ''/'' @ fname) then
          Inr (ret\<lparr>protocol := ''HTTP/1.1'', response_code := 403, message := ''Forbidden'',
                 body := ''<html><body>You don'' @ [CHR 0x27] @ ''t have permission to access '' @ dquote
                   @ EscapeHTML (boost_replace_all (env_boost env)) fname @ dquote @ ''</body></html>''\<rparr>, m)
        else
          andThen (FileReader_ReadFile env \<lparr>reader_basedir = basedir, reader_fname = fname\<rparr> m) (\<lambda>(str, m).
            case str of
              Some str \<Rightarrow>
                let ret = ret\<lparr>body := str, protocol := ''HTTP/1.1'', message := ''OK'', response_code := 200\<rparr> in
                andThen (std_substr (rfind_char (CHR ''.'') fname) (length fname - 1) fname) (\<lambda>suffix.
                  Inr (ret\<lparr>response_headers :=
                         map_put ''content-type'' (getContentType suffix) (response_headers ret)\<rparr>, m))
            | None \<Rightarrow>
                Inr (ret\<lparr>protocol := ''HTTP/1.1'', response_code := 404, message := ''Not Found'',
                       body := ''<html><body>Couldn'' @ [CHR 0x27] @ ''t find file '' @ dquote
                         @ EscapeHTML (boost_replace_all (env_boost env)) fname @ dquote @ ''</body></html>''\<rparr>, m))))"

section \<open>Queries\<close>

text \<open>One result; \<^verbatim>\<open>snprintf\<close> cuts it to the size of its buffer.\<close>

definition getItemHtml :: "QueryResult \<Rightarrow> string" where
  "getItemHtml result =
     (let name = c_string (document_name result) 0;
          link = (if take 4 (document_name result) = ''http'' then name else ''/static/'' @ name) in
      take 1023 (''<li> <a href='' @ dquote @ link @ dquote @ ''>'' @ name @ ''</a> [''
        @ format_d (sint (result_rank result)) @ '']<br></li>'' @ [LF]))"

definition logoHtml :: string where
  "logoHtml = concat
    [''<html><head><title>333gle</title></head>'', [LF], ''<body>'', [LF], ''<center style='', dquote,
     ''font-size:500%;'', dquote, ''>'', [LF], ''<span style='', dquote,
     ''position:relative;bottom:-0.33em;color:orange;'', dquote, ''>3</span><span style='', dquote,
     ''color:red;'', dquote, ''>3</span><span style='', dquote, ''color:gold;'', dquote,
     ''>3</span><span style='', dquote, ''color:blue;'', dquote, ''>g</span><span style='', dquote,
     ''color:green;'', dquote, ''>l</span><span style='', dquote, ''color:red;'', dquote, ''>e</span>'',
     [LF], ''</center>'', [LF], ''<p>'', [LF], ''<div style='', dquote, ''height:20px;'', dquote,
     ''></div>'', [LF], ''<center>'', [LF], ''<form action='', dquote, ''/query'', dquote, '' method='',
     dquote, ''get'', dquote, ''>'', [LF], ''<input type='', dquote, ''text'', dquote, '' size=30 name='',
     dquote, ''terms'', dquote, '' />'', [LF], ''<input type='', dquote, ''submit'', dquote, '' value='',
     dquote, ''Search'', dquote, '' />'', [LF], ''</form>'', [LF], ''</center><p>'', [LF]]"

definition ProcessQueryRequest :: "server_env \<Rightarrow> string \<Rightarrow> string list \<Rightarrow> HttpResponse res" where
  "ProcessQueryRequest env uri indices =
     (let ret = new_HttpResponse\<lparr>body := logoHtml\<rparr>;
          B = env_boost env;
          parser = URLParser_Parse (boost_split B) uri new_URLParser;
          terms = (case get_args parser ''terms'' of None \<Rightarrow> [] | Some v \<Rightarrow> v);
          query = boost_to_lower B (boost_trim B (EscapeHTML (boost_replace_all B) terms));
          tokens = boost_split B (\<lambda>c. c = CHR '' '') True query in
      andThen (new_QueryProcessor (env_index env) indices True) (\<lambda>processor.
        andThen (QP_ProcessQuery (env_sort env) processor tokens) (\<lambda>results.
          let ret = (if query \<noteq> [] then ret\<lparr>body := body ret @ ''<p><br>''
                        @ (if length results = 0 then ''No'' else decimal (length results))
                        @ (if length results = 1 then '' result'' else '' results'')
                        @ '' found for<b> '' @ query @ ''</b> </p>  <p></p>'' @ [LF] @ ''<ul>''\<rparr> else ret);
              ret = ret\<lparr>body := body ret @ concat (map getItemHtml results)\<rparr>;
              ret = ret\<lparr>body := body ret @ ''</ul></body>'' @ [LF] @ ''</html>'' @ [LF]\<rparr>
          in Inr (ret\<lparr>protocol := ''HTTP/1.1'', message := ''OK'', response_code := 200\<rparr>))))"

definition ProcessRequest :: "server_env \<Rightarrow> HttpRequest \<Rightarrow> string \<Rightarrow> string list \<Rightarrow> mem \<Rightarrow> (HttpResponse \<times> mem) res" where
  "ProcessRequest env req basedir indices m =
     (if take 8 (request_URI req) = ''/static/'' then ProcessFileRequest env (request_URI req) basedir m
      else andThen (ProcessQueryRequest env (request_URI req) indices) (\<lambda>ret. Inr (ret, m)))"

section \<open>The thread of one client\<close>

text \<open>The descriptor of the client stands for what the client sends and how it takes the replies.\<close>

record HttpServerTask =
  client_fd :: socket
  cport :: u16
  caddr :: string
  cdns :: string
  saddr :: string
  sdns :: string
  task_basedir :: string
  task_indices :: "string list"

text \<open>
  \<open>close\<close> of the descriptor: every later write fails. A round of the loop gives \<^verbatim>\<open>done\<close> and the number
  of the calls of \<open>close\<close>; the loop runs until \<^verbatim>\<open>done\<close>, with fuel for the number of rounds.
\<close>

definition close_fd :: "HttpConnection \<Rightarrow> HttpConnection" where
  "close_fd c = c\<lparr>conn_fd := (conn_fd c)\<lparr>accepting := WriteError False # accepting (conn_fd c)\<rparr>\<rparr>"

definition close_if :: "bool \<Rightarrow> bool \<times> nat \<times> HttpConnection \<Rightarrow> bool \<times> nat \<times> HttpConnection" where
  "close_if b s = (case s of (finish, closes, c) \<Rightarrow> if b then (True, Suc closes, close_fd c) else s)"

definition ThrFn_round ::
  "server_env \<Rightarrow> HttpServerTask \<Rightarrow> HttpConnection \<Rightarrow> mem \<Rightarrow> ((bool \<times> nat \<times> HttpConnection) \<times> mem) res" where
  "ThrFn_round env hst connection m =
     andThen (GetNextRequest (env_boost env) new_HttpRequest connection) (\<lambda>(ok, request, connection).
       let s = close_if (\<not> ok) (False, 0, connection);
           value = fst (map_index ''Connection'' (request_headers request));
           request = request\<lparr>request_headers := snd (map_index ''Connection'' (request_headers request))\<rparr>;
           s = close_if (value = ''close'') s in
       andThen (ProcessRequest env request (task_basedir hst) (task_indices hst) m) (\<lambda>(response, m).
         case s of (finish, closes, connection) \<Rightarrow>
           (case WriteResponse response connection of (written, connection) \<Rightarrow>
              Inr (close_if (\<not> written) (finish, closes, connection), m))))"

primrec ThrFn_loop ::
  "nat \<Rightarrow> server_env \<Rightarrow> HttpServerTask \<Rightarrow> HttpConnection \<Rightarrow> nat \<Rightarrow> mem \<Rightarrow> (nat \<times> HttpConnection \<times> mem) res" where
  "ThrFn_loop 0 env hst connection closes m = Inl OutOfFuel"
| "ThrFn_loop (Suc n) env hst connection closes m =
     andThen (ThrFn_round env hst connection m) (\<lambda>((finish, k, connection), m).
       if finish then Inr (closes + k, connection, m)
       else ThrFn_loop n env hst connection (closes + k) m)"

text \<open>At the end the destructor of the connection closes the descriptor.\<close>

definition HttpServer_ThrFn :: "nat \<Rightarrow> server_env \<Rightarrow> HttpServerTask \<Rightarrow> mem \<Rightarrow> (nat \<times> socket \<times> mem) res" where
  "HttpServer_ThrFn n env hst m =
     andThen (ThrFn_loop n env hst (new_HttpConnection (client_fd hst)) 0 m) (\<lambda>(closes, connection, m).
       Inr (Suc closes, conn_fd (close_fd connection), m))"

end
