(* ===== verification/HttpUtilsThms.thy ===== *)
theory HttpUtilsThms
  imports HttpUtils
begin

text \<open>The properties of the string and socket helpers of the web server.\<close>

section \<open>The contract of split determines it\<close>

function split_at :: "split_fn" where
  "split_at P compress [] = [[]]"
| "split_at P compress (c # cs) =
     (if P c then [] # split_at P compress (if compress then dropWhile P cs else cs)
      else case split_at P compress cs of t # ts \<Rightarrow> (c # t) # ts | [] \<Rightarrow> [[c]])"
  by pat_completeness auto
termination
  by (relation "measure (\<lambda>(P, compress, s). length s)") (auto simp: less_Suc_eq_le length_dropWhile_le)

lemma split_at_nonempty: "split_at P compress s \<noteq> []"
  by (cases s) (auto split: list.splits)

lemma split_at_append:
  "\<forall>c \<in> set t. \<not> P c \<Longrightarrow>
     split_at P compress (t @ s) = (t @ hd (split_at P compress s)) # tl (split_at P compress s)"
  by (induction t) (simp_all add: split_at_nonempty)

lemma split_at_plain: "\<forall>c \<in> set t. \<not> P c \<Longrightarrow> split_at P compress t = [t]"
  using split_at_append [of t P compress "[]"] by simp

lemma split_at_interleave:
  assumes "length ts = Suc (length gs)" "\<forall>t \<in> set ts. \<forall>c \<in> set t. \<not> P c"
    and "\<forall>g \<in> set gs. g \<noteq> [] \<and> (\<forall>c \<in> set g. P c) \<and> (\<not> compress \<longrightarrow> length g = 1)"
    and "compress \<longrightarrow> (\<forall>t \<in> set (butlast (tl ts)). t \<noteq> [])"
  shows "split_at P compress (interleave ts gs) = ts"
  using assms
proof (induction gs arbitrary: ts)
  case Nil
  then obtain t where "ts = [t]" by (auto simp: length_Suc_conv)
  with Nil show ?case by (simp add: split_at_plain)
next
  case (Cons g gs)
  then obtain t ts' where ts: "ts = t # ts'" "length ts' = Suc (length gs)" by (auto simp: length_Suc_conv)
  let ?S = "interleave ts' gs"
  from Cons.prems(3) obtain p ps where g: "g = p # ps" "P p" "\<forall>c \<in> set ps. P c" "\<not> compress \<longrightarrow> ps = []"
    by (cases g) auto
  have inner: "compress \<longrightarrow> (\<forall>t \<in> set (butlast (tl ts')). t \<noteq> [])"
    using Cons.prems(4) ts by (cases ts') (auto split: if_splits)
  have ih: "split_at P compress ?S = ts'"
    using Cons.prems(2,3) ts inner by (intro Cons.IH) auto
  have "dropWhile P (ps @ ?S) = ?S" if compress
  proof -
    have "dropWhile P ?S = ?S"
    proof (cases gs)
      case Nil
      with ts obtain t' where "ts' = [t']" by (auto simp: length_Suc_conv)
      with Nil Cons.prems(2) ts(1) show ?thesis by (cases t') auto
    next
      case (Cons g' gs')
      with ts(2) obtain t' u us where "ts' = t' # u # us" by (auto simp: length_Suc_conv)
      with Cons.prems(2,4) ts(1) \<open>compress\<close> Cons show ?thesis by (cases t') auto
    qed
    then show ?thesis using g(3) by simp
  qed
  then have "split_at P compress (g @ ?S) = [] # ts'" using g ih by auto
  then show ?case using Cons.prems(2) ts(1) by (simp add: split_at_append)
qed

lemma splits_split_at:
  assumes "splits split"
  shows "split P compress s = split_at P compress s"
proof -
  obtain gs where "length (split P compress s) = Suc (length gs)" "s = interleave (split P compress s) gs"
    "\<forall>t \<in> set (split P compress s). \<forall>c \<in> set t. \<not> P c"
    "\<forall>g \<in> set gs. g \<noteq> [] \<and> (\<forall>c \<in> set g. P c) \<and> (\<not> compress \<longrightarrow> length g = 1)"
    "compress \<longrightarrow> (\<forall>t \<in> set (butlast (tl (split P compress s))). t \<noteq> [])"
    using assms unfolding splits_def by metis
  from split_at_interleave [OF this(1,3,4,5)] this(2) show ?thesis by simp
qed

lemma split_at_contract:
  "\<exists>gs. length (split_at P compress s) = Suc (length gs) \<and>
     s = interleave (split_at P compress s) gs \<and>
     (\<forall>t \<in> set (split_at P compress s). \<forall>c \<in> set t. \<not> P c) \<and>
     (\<forall>g \<in> set gs. g \<noteq> [] \<and> (\<forall>c \<in> set g. P c) \<and> (\<not> compress \<longrightarrow> length g = 1)) \<and>
     (compress \<longrightarrow> (\<forall>t \<in> set (butlast (tl (split_at P compress s))). t \<noteq> []))"
proof (induction P compress s rule: split_at.induct)
  case (1 P compress)
  then show ?case by (intro exI [of _ "[]"]) simp
next
  case (2 P compress c cs)
  show ?case
  proof (cases "P c")
    case True
    let ?rest = "if compress then dropWhile P cs else cs"
    let ?T = "split_at P compress ?rest"
    let ?g = "c # (if compress then takeWhile P cs else [])"
    from "2.IH"(1) [OF True] obtain gs where gs: "length ?T = Suc (length gs)" "?rest = interleave ?T gs"
      "\<forall>t \<in> set ?T. \<forall>c \<in> set t. \<not> P c"
      "\<forall>g \<in> set gs. g \<noteq> [] \<and> (\<forall>c \<in> set g. P c) \<and> (\<not> compress \<longrightarrow> length g = 1)"
      "compress \<longrightarrow> (\<forall>t \<in> set (butlast (tl ?T)). t \<noteq> [])" by blast
    have "c # cs = [] @ ?g @ ?rest" by simp
    then have "c # cs = interleave ([] # ?T) (?g # gs)" unfolding interleave.simps gs(2) [symmetric] .
    moreover have "\<forall>t \<in> set (butlast ?T). t \<noteq> []" if compress
    proof (cases "dropWhile P cs")
      case Nil
      then show ?thesis using that by (simp del: dropWhile_eq_Nil_conv)
    next
      case (Cons x xs)
      then have "\<not> P x" using hd_dropWhile [of P cs] by simp
      then have "hd ?T \<noteq> []" using Cons that by (simp add: split_at_nonempty split: list.splits)
      then show ?thesis using gs(5) that by (cases ?T) auto
    qed
    ultimately show ?thesis using True gs(1,3,4)
      by (intro exI [of _ "?g # gs"]) (auto dest: set_takeWhileD)
  next
    case False
    let ?T = "split_at P compress cs"
    obtain t ts where T: "?T = t # ts" using split_at_nonempty [of P compress cs] by (cases ?T) auto
    from "2.IH"(2) [OF False] obtain gs where gs: "length ?T = Suc (length gs)" "cs = interleave ?T gs"
      "\<forall>t \<in> set ?T. \<forall>c \<in> set t. \<not> P c"
      "\<forall>g \<in> set gs. g \<noteq> [] \<and> (\<forall>c \<in> set g. P c) \<and> (\<not> compress \<longrightarrow> length g = 1)"
      "compress \<longrightarrow> (\<forall>t \<in> set (butlast (tl ?T)). t \<noteq> [])" by blast
    have "c # cs = interleave ((c # t) # ts) gs" using gs(2) unfolding T by (cases gs) simp_all
    moreover have sp: "split_at P compress (c # cs) = (c # t) # ts" using False T by simp
    ultimately show ?thesis using False gs(1,3,4,5) unfolding T sp by (intro exI [of _ gs]) simp
  qed
qed

lemma splits_exists: "splits split_at"
  unfolding splits_def using split_at_contract by blast

section \<open>Escaping\<close>

definition escape_char :: "char \<Rightarrow> string" where
  "escape_char c =
     (if c = CHR ''&'' then ''&amp;'' else if c = CHR 0x22 then ''&quot;'' else if c = CHR 0x27 then ''&apos;''
      else if c = CHR ''<'' then ''&lt;'' else if c = CHR ''>'' then ''&gt;'' else [c])"

definition entities :: "(string \<times> char) list" where
  "entities = [(''amp;'', CHR ''&''), (''quot;'', CHR 0x22), (''apos;'', CHR 0x27), (''lt;'', CHR ''<''), (''gt;'', CHR ''>'')]"

text \<open>What a browser makes of the text: the five entities are characters again.\<close>

function unescapeHTML :: "string \<Rightarrow> string" where
  "unescapeHTML [] = []"
| "unescapeHTML (c # cs) =
     (if c = CHR ''&'' then
        (case find (\<lambda>e. take (length (fst e)) cs = fst e) entities of
           None \<Rightarrow> c # unescapeHTML cs
         | Some e \<Rightarrow> snd e # unescapeHTML (drop (length (fst e)) cs))
      else c # unescapeHTML cs)"
  by pat_completeness auto
termination
  by (relation "measure length") auto

lemma EscapeHTML_chars:
  assumes "replaces_chars ra"
  shows "EscapeHTML ra s = concat (map escape_char s)"
proof -
  let ?R = "\<lambda>c r. concat \<circ> map (\<lambda>x :: char. if x = c then r else [x])"
  have "EscapeHTML ra s = (?R (CHR ''>'') ''&gt;'' \<circ> ?R (CHR ''<'') ''&lt;'' \<circ> ?R (CHR 0x27) ''&apos;''
      \<circ> ?R (CHR 0x22) ''&quot;'' \<circ> ?R (CHR ''&'') ''&amp;'') s"
    using assms by (simp add: EscapeHTML_def replaces_chars_def Let_def)
  also have "\<dots> = concat (map escape_char s)"
    by (induction s) (auto simp: escape_char_def)
  finally show ?thesis .
qed

lemma unescape_escape_char: "unescapeHTML (escape_char c @ s) = c # unescapeHTML s"
  by (auto simp: escape_char_def entities_def)

lemma escape_char_safe: "set (escape_char c) \<inter> {CHR ''<'', CHR ''>'', CHR 0x22, CHR 0x27} = {}"
  by (auto simp: escape_char_def)

text \<open>
  C33: Escaping for HTML loses nothing and leaves no character with a meaning: the escaped text has no
  angle brackets and no quotes, every ampersand in it begins one of the five entities, and replacing
  the entities gives the text back.
\<close>

theorem EscapeHTML_correct:
  assumes "replaces_chars replace_all"
  shows "set (EscapeHTML replace_all s) \<inter> {CHR ''<'', CHR ''>'', CHR 0x22, CHR 0x27} = {} \<and>
     (\<exists>parts. EscapeHTML replace_all s = concat parts \<and> length parts = length s \<and>
        (\<forall>p \<in> set parts. p \<in> {''&amp;'', ''&quot;'', ''&apos;'', ''&lt;'', ''&gt;''} \<or>
           (length p = 1 \<and> p \<noteq> ''&''))) \<and>
     unescapeHTML (EscapeHTML replace_all s) = s"
proof (intro conjI)
  show "set (EscapeHTML replace_all s) \<inter> {CHR ''<'', CHR ''>'', CHR 0x22, CHR 0x27} = {}"
    unfolding EscapeHTML_chars [OF assms] using escape_char_safe by fastforce
  show "\<exists>parts. EscapeHTML replace_all s = concat parts \<and> length parts = length s \<and>
        (\<forall>p \<in> set parts. p \<in> {''&amp;'', ''&quot;'', ''&apos;'', ''&lt;'', ''&gt;''} \<or> (length p = 1 \<and> p \<noteq> ''&''))"
    unfolding EscapeHTML_chars [OF assms]
    by (rule exI [of _ "map escape_char s"]) (auto simp: escape_char_def)
  show "unescapeHTML (EscapeHTML replace_all s) = s"
    unfolding EscapeHTML_chars [OF assms] by (induction s) (simp_all add: unescape_escape_char)
qed

definition replace_char :: "replace_fn" where
  "replace_char s p r = concat (map (\<lambda>x. if [x] = p then r else [x]) s)"

lemma replace_char_ok: "replaces_chars replace_char"
  by (simp add: replaces_chars_def replace_char_def)

lemma EscapeHTML_correct_witness:
  "unescapeHTML (EscapeHTML replace_char ''<a & b>'') = ''<a & b>'' \<and>
   EscapeHTML replace_char ''<a & b>'' = ''&lt;a &amp; b&gt;''"
  using EscapeHTML_correct [OF replace_char_ok, of "''<a & b>''"]
  by (simp add: EscapeHTML_def replace_char_def Let_def)

section \<open>Percent encoding\<close>

definition hex_digit :: "nat \<Rightarrow> char" where
  "hex_digit n = char_of (if n < 10 then 48 + n else 55 + n)"

definition percent :: "char \<Rightarrow> string" where
  "percent c = [CHR ''%'', hex_digit (code_of c div 16), hex_digit (code_of c mod 16)]"

text \<open>Encoding: the characters that are not kept become escape sequences.\<close>

definition URIEncode :: "(char \<Rightarrow> bool) \<Rightarrow> string \<Rightarrow> string" where
  "URIEncode keep s = concat (map (\<lambda>c. if keep c then [c] else percent c) s)"

definition decodable :: "char \<Rightarrow> bool" where
  "decodable c \<longleftrightarrow> 32 \<le> code_of c \<and> code_of c \<le> 127"

lemma URIDecode_loop_shift: "URIDecode_loop (pre @ s) (length pre + pos) = URIDecode_loop s pos"
proof (induction s pos rule: URIDecode_loop.induct)
  case (1 s pos)
  show ?case
    unfolding URIDecode_loop.simps [of "pre @ s" "length pre + pos"] URIDecode_loop.simps [of s pos]
    using "1.IH" by (simp add: nth_append Let_def add.assoc)
qed

lemma URIDecode_loop_drop: "pos \<le> length s \<Longrightarrow> URIDecode_loop s pos = URIDecode (drop pos s)"
  using URIDecode_loop_shift [of "take pos s" "drop pos s" 0] by (simp add: URIDecode_def min_absorb2)

lemma URIDecode_Nil [simp]: "URIDecode [] = []"
  by (simp add: URIDecode_def URIDecode_loop.simps)

text \<open>The decoder as a function on lists.\<close>

lemma URIDecode_Cons:
  "URIDecode (c # cs) =
     (if c = CHR ''+'' then CHR '' '' # URIDecode cs
      else if c = CHR ''%'' \<and> 2 \<le> length cs \<and> is_hex (toupper (cs ! 0)) \<and> is_hex (toupper (cs ! 1)) \<and>
        32 \<le> 16 * hex_value (toupper (cs ! 0)) + hex_value (toupper (cs ! 1)) \<and>
        16 * hex_value (toupper (cs ! 0)) + hex_value (toupper (cs ! 1)) \<le> 127
      then char_of (16 * hex_value (toupper (cs ! 0)) + hex_value (toupper (cs ! 1))) # URIDecode (drop 2 cs)
      else c # URIDecode cs)"
proof -
  have sp: "\<not> is_hex (CHR '' '')" by (simp add: is_hex_def code_of_def)
  have hv: "hex_value d < 16" if "is_hex d" for d using that by (auto simp: is_hex_def hex_value_def)
  have code: "unat ((of_nat (16 * hex_value a) :: u8) + of_nat (hex_value b)) = 16 * hex_value a + hex_value b"
    if "is_hex a" "is_hex b" for a b
  proof -
    have "16 * hex_value a + hex_value b < 2 ^ 8" using hv [OF that(1)] hv [OF that(2)] by simp
    then show ?thesis by (simp only: of_nat_add [symmetric] unat_of_nat) (simp add: take_bit_nat_eq_self)
  qed
  have step: "URIDecode_loop (c # cs) 1 = URIDecode cs" using URIDecode_loop_drop [of 1 "c # cs"] by simp
  let ?a = "if 1 \<le> length cs then toupper (cs ! 0) else CHR '' ''"
  let ?b = "if 2 \<le> length cs then toupper (cs ! 1) else CHR '' ''"
  let ?code = "\<lambda>a b. (of_nat (16 * hex_value a) :: u8) + of_nat (hex_value b)"
  have index: "(0 < length (c # cs)) = True" "(c # cs) ! 0 = c" "(0 + 1 < length (c # cs)) = (1 \<le> length cs)"
    "(0 + 2 < length (c # cs)) = (2 \<le> length cs)" "(c # cs) ! (0 + 1) = cs ! 0" "(c # cs) ! (0 + 2) = cs ! 1"
    "(1 < length (c # cs)) = (1 \<le> length cs)" "(2 < length (c # cs)) = (2 \<le> length cs)"
    "(c # cs) ! 1 = cs ! 0" "(c # cs) ! 2 = cs ! 1"
    "(0 :: nat) + 1 = 1" "(0 :: nat) + 2 = 2" "(0 :: nat) + 3 = 3" by (auto simp: Suc_le_eq numeral_2_eq_2)
  have l: "URIDecode (c # cs) =
      (if c = CHR ''+'' then CHR '' '' # URIDecode cs
       else if c \<noteq> CHR ''%'' then c # URIDecode cs
       else if \<not> is_hex a then c # URIDecode cs
       else if \<not> is_hex b then c # URIDecode cs
       else if \<not> (32 \<le> ?code a b \<and> ?code a b \<le> 127) then c # URIDecode cs
       else char_of (unat (?code a b)) # URIDecode_loop (c # cs) 3)" if "a = ?a" "b = ?b" for a b
    unfolding URIDecode_def [of "c # cs"] URIDecode_loop.simps [of "c # cs" 0] Let_def index if_True
      that [symmetric] step [symmetric] ..
  show ?thesis
  proof (cases "2 \<le> length cs \<and> is_hex (toupper (cs ! 0)) \<and> is_hex (toupper (cs ! 1))")
    case True
    let ?u = "toupper (cs ! 0)" and ?v = "toupper (cs ! 1)"
    have "URIDecode_loop (x # cs) 3 = URIDecode (drop 2 cs)" for x
      using True URIDecode_loop_drop [of 3 "x # cs"] by simp
    moreover have "unat (?code ?u ?v) = 16 * hex_value ?u + hex_value ?v" using True by (intro code) simp_all
    moreover have "?u = ?a" "?v = ?b" using True by auto
    ultimately show ?thesis using True unfolding l [OF \<open>?u = ?a\<close> \<open>?v = ?b\<close>] word_le_nat_alt by simp
  next
    case False
    define a b where ab: "a = ?a" "b = ?b"
    have "\<not> is_hex a \<or> \<not> is_hex b" using False sp unfolding ab by auto
    then have "URIDecode (c # cs) = (if c = CHR ''+'' then CHR '' '' # URIDecode cs else c # URIDecode cs)"
      unfolding l [OF ab] by auto
    moreover have n: "\<not> (c = CHR ''%'' \<and> 2 \<le> length cs \<and> is_hex (toupper (cs ! 0)) \<and> is_hex (toupper (cs ! 1)) \<and>
        32 \<le> 16 * hex_value (toupper (cs ! 0)) + hex_value (toupper (cs ! 1)) \<and>
        16 * hex_value (toupper (cs ! 0)) + hex_value (toupper (cs ! 1)) \<le> 127)"
      using False by blast
    ultimately show ?thesis unfolding if_not_P [OF n] by blast
  qed
qed

lemma hex_digit_value:
  assumes "n < 16"
  shows "is_hex (toupper (hex_digit n)) \<and> hex_value (toupper (hex_digit n)) = n"
  using assms by (auto simp: hex_digit_def toupper_def is_hex_def hex_value_def code_of_def Let_def)

lemma URIDecode_percent:
  assumes "decodable c"
  shows "URIDecode (percent c @ s) = c # URIDecode s"
proof -
  let ?n = "code_of c"
  have n: "32 \<le> ?n" "?n \<le> 127" using assms by (simp_all add: decodable_def)
  then have "?n div 16 < 16" "?n mod 16 < 16" by simp_all
  note d = hex_digit_value [OF this(1)] hex_digit_value [OF this(2)]
  have "16 * (?n div 16) + ?n mod 16 = ?n" by simp
  then show ?thesis using d n by (simp add: percent_def URIDecode_Cons code_of_def)
qed

lemma URIDecode_URIEncode:
  assumes "\<forall>c. keep c \<longrightarrow> c \<noteq> CHR ''%'' \<and> c \<noteq> CHR ''+''" "\<forall>c \<in> set s. keep c \<or> decodable c"
  shows "URIDecode (URIEncode keep s) = s"
  using assms(2)
proof (induction s)
  case (Cons c s)
  then show ?case
  proof (cases "keep c")
    case True
    then have "c \<noteq> CHR ''%''" "c \<noteq> CHR ''+''" using assms(1) by auto
    then show ?thesis using True Cons by (simp add: URIEncode_def URIDecode_Cons)
  next
    case False
    then show ?thesis using Cons URIDecode_percent [of c] by (simp add: URIEncode_def)
  qed
qed (simp add: URIEncode_def)

text \<open>
  What a form sends (\<^verbatim>\<open>application/x-www-form-urlencoded\<close>): letters, digits and four marks as they are,
  \<^verbatim>\<open>+\<close> for a blank, and an escape sequence for every other byte.
\<close>

definition form_char :: "char \<Rightarrow> bool" where
  "form_char c \<longleftrightarrow> isalpha c \<or> (48 \<le> code_of c \<and> code_of c \<le> 57) \<or>
     c \<in> {CHR ''*'', CHR ''-'', CHR ''.'', CHR ''_''}"

definition FormEncode :: "string \<Rightarrow> string" where
  "FormEncode s =
     concat (map (\<lambda>c. if c = CHR '' '' then ''+'' else if form_char c then [c] else percent c) s)"

text \<open>What arrives: the bytes outside of ASCII and the control characters stay escape sequences.\<close>

definition received :: "string \<Rightarrow> string" where
  "received s = concat (map (\<lambda>c. if decodable c then [c] else percent c) s)"

lemma received_ascii: "\<forall>c \<in> set s. decodable c \<Longrightarrow> received s = s"
  by (induction s) (simp_all add: received_def)

lemma form_char_plain:
  assumes "form_char c"
  shows "decodable c \<and> c \<notin> {CHR ''%'', CHR ''+'', CHR ''?'', CHR ''&'', CHR ''=''}"
proof -
  have n: "48 \<le> code_of c \<and> code_of c \<le> 57 \<or> 65 \<le> code_of c \<and> code_of c \<le> 90 \<or>
      97 \<le> code_of c \<and> code_of c \<le> 122 \<or> code_of c \<in> {42, 45, 46, 95}"
    using assms by (auto simp: form_char_def isalpha_def code_of_def Let_def)
  moreover have "code_of (CHR ''%'') = 37" "code_of (CHR ''+'') = 43" "code_of (CHR ''?'') = 63"
    "code_of (CHR ''&'') = 38" "code_of (CHR ''='') = 61" by (simp_all add: code_of_def)
  ultimately show ?thesis by (auto simp: decodable_def)
qed

lemma code_of_255: "code_of c < 256"
  using of_char_eq_iff by (simp add: code_of_def)

lemma hex_digit_code: "n < 16 \<Longrightarrow> code_of (hex_digit n) = (if n < 10 then 48 + n else 55 + n)"
  by (simp add: hex_digit_def code_of_def)

lemma hex_digit_plain:
  assumes "n < 16"
  shows "hex_digit n \<notin> {CHR ''?'', CHR ''&'', CHR ''='', CHR ''%'', CHR ''+''}"
proof -
  have "code_of (hex_digit n) \<notin> {63, 38, 61, 37, 43}"
    using assms by (auto simp: hex_digit_code)
  then show ?thesis by (auto simp: code_of_def)
qed

lemma URIDecode_other: "c \<noteq> CHR ''%'' \<Longrightarrow> c \<noteq> CHR ''+'' \<Longrightarrow> URIDecode (c # s) = c # URIDecode s"
  by (simp add: URIDecode_Cons)

lemma percent_digits: "code_of c div 16 < 16" "code_of c mod 16 < 16"
  using code_of_255 [of c] by simp_all

lemma URIDecode_percent_kept:
  assumes "\<not> decodable c"
  shows "URIDecode (percent c @ s) = percent c @ URIDecode s"
proof -
  let ?n = "code_of c"
  let ?a = "hex_digit (?n div 16)" and ?b = "hex_digit (?n mod 16)"
  note d = hex_digit_value [OF percent_digits(1) [of c]] hex_digit_value [OF percent_digits(2) [of c]]
  have "16 * (?n div 16) + ?n mod 16 = ?n" by simp
  then have "URIDecode (percent c @ s) = CHR ''%'' # URIDecode (?a # ?b # s)"
    using d assms by (auto simp: percent_def URIDecode_Cons [of "CHR ''%''"] decodable_def)
  moreover have "URIDecode (?a # ?b # s) = ?a # ?b # URIDecode s"
    using hex_digit_plain [OF percent_digits(1) [of c]] hex_digit_plain [OF percent_digits(2) [of c]]
    by (simp add: URIDecode_other)
  ultimately show ?thesis by (simp add: percent_def)
qed

lemma URIDecode_FormEncode: "URIDecode (FormEncode s) = received s"
proof (induction s)
  case (Cons c s)
  consider "c = CHR '' ''" | "c \<noteq> CHR '' ''" "form_char c" | "c \<noteq> CHR '' ''" "\<not> form_char c" by blast
  then show ?case
  proof cases
    case 1
    then show ?thesis
      using Cons by (simp add: FormEncode_def received_def URIDecode_Cons decodable_def code_of_def)
  next
    case 2
    then show ?thesis
      using Cons form_char_plain [OF 2(2)] by (simp add: FormEncode_def received_def URIDecode_other)
  next
    case 3
    then show ?thesis
      using Cons URIDecode_percent [of c] URIDecode_percent_kept [of c]
      by (simp add: FormEncode_def received_def)
  qed
qed (simp add: FormEncode_def received_def)

lemma FormEncode_plain:
  assumes "x \<in> {CHR ''?'', CHR ''&'', CHR ''=''}"
  shows "x \<notin> set (FormEncode s)"
proof
  assume "x \<in> set (FormEncode s)"
  then obtain c where "x \<in> set (if c = CHR '' '' then ''+'' else if form_char c then [c] else percent c)"
    unfolding FormEncode_def set_concat set_map by blast
  moreover have "x \<notin> set (percent c)"
    using assms hex_digit_plain [OF percent_digits(1) [of c]] hex_digit_plain [OF percent_digits(2) [of c]]
    by (auto simp: percent_def)
  ultimately show False using assms form_char_plain [of c] by (auto split: if_splits)
qed

lemma URIDecode_set: "x \<in> set (URIDecode s) \<Longrightarrow> x \<in> set s \<or> decodable x"
proof (induction "length s" arbitrary: s rule: less_induct)
  case less
  show ?case
  proof (cases s)
    case (Cons c cs)
    have ih: "x \<in> set cs \<or> decodable x" if "x \<in> set (URIDecode cs)" using less.hyps [OF _ that] Cons by simp
    have ih2: "x \<in> set cs \<or> decodable x" if "x \<in> set (URIDecode (drop 2 cs))"
    proof -
      have "x \<in> set (drop 2 cs) \<or> decodable x" using less.hyps [OF _ that] Cons by simp
      then show ?thesis using in_set_dropD by fast
    qed
    show ?thesis using less.prems ih ih2 unfolding Cons URIDecode_Cons
      by (auto simp: decodable_def code_of_def split: if_splits)
  qed (use less in simp)
qed

text \<open>
  \<^verbatim>\<open>URIDecode\<close> undoes percent encoding, whichever characters were encoded, as long as \<^verbatim>\<open>%\<close> and \<^verbatim>\<open>+\<close>
  are among them and all of them are printable; and it never makes a character out of an escape
  sequence that is not printable, so no control character enters a path or an argument this way.
\<close>

theorem URIDecode_correct:
  assumes "\<forall>c. keep c \<longrightarrow> c \<noteq> CHR ''%'' \<and> c \<noteq> CHR ''+''" "\<forall>c \<in> set s. keep c \<or> decodable c"
  shows "URIDecode (URIEncode keep s) = s \<and>
     (\<forall>t. \<forall>x \<in> set (URIDecode t). x \<in> set t \<or> (32 \<le> (of_char x :: nat) \<and> of_char x \<le> (127 :: nat)))"
  using URIDecode_URIEncode [OF assms] URIDecode_set by (auto simp: decodable_def code_of_def)

definition plain_char :: "char \<Rightarrow> bool" where
  "plain_char c \<longleftrightarrow> isalpha c"

lemma URIDecode_correct_witness:
  "URIEncode plain_char ''a+b %'' = ''a%2Bb%20%25'' \<and> URIDecode ''a%2Bb%20%25'' = ''a+b %'' \<and>
   CHR 0x0A \<notin> set (URIDecode ''x%0ay'')"
proof -
  have e: "URIEncode plain_char ''a+b %'' = ''a%2Bb%20%25''" by code_simp
  have k: "\<forall>c. plain_char c \<longrightarrow> c \<noteq> CHR ''%'' \<and> c \<noteq> CHR ''+''" by (auto simp: plain_char_def isalpha_def)
  have s: "\<forall>c \<in> set ''a+b %''. plain_char c \<or> decodable c" by (simp add: decodable_def code_of_def)
  note C = URIDecode_correct [OF k s]
  have "CHR 0x0A \<notin> set (URIDecode ''x%0ay'')" using C by (fastforce dest: conjunct2)
  with C e show ?thesis by simp
qed

section \<open>Parsing URLs\<close>

text \<open>Tokens put together with one separator between them.\<close>

definition join_with :: "char \<Rightarrow> string list \<Rightarrow> string" where
  "join_with c ts = interleave ts (replicate (length ts - 1) [c])"

lemma split_join:
  assumes "splits split" "ts \<noteq> []" "\<forall>t \<in> set ts. c \<notin> set t"
  shows "split (\<lambda>x. x = c) False (join_with c ts) = ts"
proof -
  have "length ts = Suc (length (replicate (length ts - 1) [c]))" using assms(2) by (cases ts) auto
  then show ?thesis unfolding splits_split_at [OF assms(1)] join_with_def
    by (rule split_at_interleave) (use assms(3) in auto)
qed

lemma join_two: "join_with c [a, b] = a @ [c] @ b"
  by (simp add: join_with_def)

lemma set_interleave: "set (interleave ts gs) \<subseteq> \<Union> (set ` set ts) \<union> \<Union> (set ` set gs)"
  by (induction ts gs rule: interleave.induct) auto

definition field_value :: "string \<times> string \<Rightarrow> string" where
  "field_value kv = join_with (CHR ''='') [FormEncode (fst kv), FormEncode (snd kv)]"

text \<open>The URL that a browser makes of a path and the fields of a form.\<close>

definition url_of :: "(char \<Rightarrow> bool) \<Rightarrow> string \<Rightarrow> (string \<times> string) list \<Rightarrow> string" where
  "url_of keep path args =
     join_with (CHR ''?'') [URIEncode keep path, join_with (CHR ''&'') (map field_value args)]"

text \<open>The characters that structure a URL are not kept.\<close>

definition encodes_reserved :: "(char \<Rightarrow> bool) \<Rightarrow> bool" where
  "encodes_reserved keep \<longleftrightarrow>
     (\<forall>c. keep c \<longrightarrow> c \<notin> {CHR ''%'', CHR ''+'', CHR ''?'', CHR ''&'', CHR ''=''})"

definition encodable :: "(char \<Rightarrow> bool) \<Rightarrow> string \<Rightarrow> bool" where
  "encodable keep s \<longleftrightarrow> (\<forall>c \<in> set s. keep c \<or> decodable c)"

lemma URIEncode_plain:
  assumes "encodes_reserved keep" "encodable keep s" "x \<in> {CHR ''?'', CHR ''&'', CHR ''=''}"
  shows "x \<notin> set (URIEncode keep s)"
proof
  assume "x \<in> set (URIEncode keep s)"
  then obtain c where c: "c \<in> set s" "x \<in> set (if keep c then [c] else percent c)" by (auto simp: URIEncode_def)
  show False
  proof (cases "keep c")
    case True
    with c assms(1,3) show False by (auto simp: encodes_reserved_def)
  next
    case False
    with c(1) assms(2) have "code_of c \<le> 127" by (auto simp: encodable_def decodable_def)
    then have "code_of c div 16 < 16" "code_of c mod 16 < 16" by simp_all
    note h = hex_digit_plain [OF this(1)] hex_digit_plain [OF this(2)]
    have "x = CHR ''%'' \<or> x = hex_digit (code_of c div 16) \<or> x = hex_digit (code_of c mod 16)"
      using c(2) False by (simp add: percent_def)
    with h assms(3) show False by (elim disjE) auto
  qed
qed

lemma URLParser_roundtrip:
  assumes split: "splits split" and keep: "encodes_reserved keep" and path: "encodable keep path"
  shows "URLParser_Parse split (url_of keep path args) p
    = \<lparr>parser_url = url_of keep path args, parser_path = path,
       parser_args = fold (\<lambda>kv m. m(received (fst kv) \<mapsto> received (snd kv))) args (parser_args p)\<rparr>"
proof -
  have keep': "\<forall>c. keep c \<longrightarrow> c \<noteq> CHR ''%'' \<and> c \<noteq> CHR ''+''" using keep by (auto simp: encodes_reserved_def)
  have dec: "URIDecode (URIEncode keep path) = path"
    using URIDecode_URIEncode [OF keep'] path by (simp add: encodable_def)
  let ?fs = "map field_value args"
  have field: "CHR ''?'' \<notin> set (field_value kv) \<and> CHR ''&'' \<notin> set (field_value kv)" for kv
    using FormEncode_plain by (auto simp: field_value_def join_two)
  have "CHR ''?'' \<notin> set (join_with (CHR ''&'') ?fs)"
    using field set_interleave [of ?fs] by (fastforce simp: join_with_def)
  moreover have "CHR ''?'' \<notin> set (URIEncode keep path)" using URIEncode_plain [OF keep path] by simp
  ultimately have parts: "split (\<lambda>c. c = CHR ''?'') False (url_of keep path args)
      = [URIEncode keep path, join_with (CHR ''&'') ?fs]"
    unfolding url_of_def by (intro split_join [OF split]) auto
  have one: "add_arg split (field_value kv) m = m(received (fst kv) \<mapsto> received (snd kv))" for kv m
  proof -
    have "split (\<lambda>c. c = CHR ''='') False (field_value kv) = [FormEncode (fst kv), FormEncode (snd kv)]"
      unfolding field_value_def using FormEncode_plain by (intro split_join [OF split]) auto
    then show ?thesis by (simp add: add_arg_def URIDecode_FormEncode)
  qed
  have "fold (add_arg split) (split (\<lambda>c. c = CHR ''&'') False (join_with (CHR ''&'') ?fs)) m
      = fold (\<lambda>kv m. m(received (fst kv) \<mapsto> received (snd kv))) args m" for m
  proof (cases args)
    case Nil
    have "split P False [] = [[]]" for P unfolding splits_split_at [OF split] by simp
    then show ?thesis using Nil by (simp add: join_with_def add_arg_def Let_def)
  next
    case (Cons kv kvs)
    then have "split (\<lambda>c. c = CHR ''&'') False (join_with (CHR ''&'') ?fs) = ?fs"
      using field by (intro split_join [OF split]) auto
    moreover have "fold (add_arg split) ?fs m = fold (\<lambda>kv m. m(received (fst kv) \<mapsto> received (snd kv))) args m"
      unfolding fold_map by (rule fold_cong) (simp_all add: one fun_eq_iff)
    ultimately show ?thesis by simp
  qed
  then show ?thesis using dec by (simp add: URLParser_Parse_def parts Let_def)
qed

text \<open>
  C34: \<^verbatim>\<open>URLParser::Parse\<close> takes apart what a form puts together: from the URL of a path and a list of
  fields, encoded as a browser does it (a blank as \<^verbatim>\<open>+\<close>), it gives the path and the fields, the last value
  for a field that occurs twice, in addition to the arguments of earlier calls. Fields and values arrive
  exactly as they were if all their bytes are between 32 and 127; any other byte, such as those of a
  letter outside of ASCII, stays the escape sequence that the browser has made of it.
\<close>

theorem URLParser_correct:
  assumes "splits split" "encodes_reserved keep" "encodable keep path"
  shows "get_path (URLParser_Parse split (url_of keep path args) p) = path \<and>
     get_args (URLParser_Parse split (url_of keep path args) p)
       = get_args p ++ map_of (rev (map (\<lambda>kv. (received (fst kv), received (snd kv))) args)) \<and>
     ((\<forall>kv \<in> set args. \<forall>c \<in> set (fst kv) \<union> set (snd kv). 32 \<le> (of_char c :: nat) \<and> of_char c \<le> (127 :: nat)) \<longrightarrow>
        get_args (URLParser_Parse split (url_of keep path args) p) = get_args p ++ map_of (rev args))"
proof -
  have "fold (\<lambda>kv m. m(f kv \<mapsto> g kv)) xs m = m ++ map_of (rev (map (\<lambda>kv. (f kv, g kv)) xs))"
    for f g :: "string \<times> string \<Rightarrow> string" and xs and m :: "string \<rightharpoonup> string"
    by (induction xs arbitrary: m) (auto simp: fun_eq_iff map_add_def split: option.splits)
  then have *: "get_args (URLParser_Parse split (url_of keep path args) p)
      = get_args p ++ map_of (rev (map (\<lambda>kv. (received (fst kv), received (snd kv))) args))"
    unfolding URLParser_roundtrip [OF assms] by (simp add: get_args_def)
  have "map (\<lambda>kv. (received (fst kv), received (snd kv))) args = args"
    if "\<forall>kv \<in> set args. \<forall>c \<in> set (fst kv) \<union> set (snd kv). 32 \<le> (of_char c :: nat) \<and> of_char c \<le> (127 :: nat)"
    using that by (intro map_idI) (auto simp: received_ascii decodable_def code_of_def)
  then show ?thesis unfolding * unfolding URLParser_roundtrip [OF assms] by (simp add: get_path_def)
qed

lemma URLParser_correct_witness:
  "url_of plain_char ''query'' [(''terms'', ''a b%''), (''n'', ''1''), (''n'', ''2'')] = ''query?terms=a+b%25&n=1&n=2'' \<and>
   get_args (URLParser_Parse split_at ''query?terms=a+b%25&n=1&n=2'' new_URLParser) ''n'' = Some ''2'' \<and>
   get_args (URLParser_Parse split_at ''query?terms=a+b%25&n=1&n=2'' new_URLParser) ''terms'' = Some ''a b%''"
proof -
  let ?args = "[(''terms'', ''a b%''), (''n'', ''1''), (''n'', ''2'')]"
  have "percent CHR ''%'' = ''%25''" by code_simp
  then have u: "url_of plain_char ''query'' ?args = ''query?terms=a+b%25&n=1&n=2''"
    by (simp add: url_of_def join_with_def field_value_def URIEncode_def FormEncode_def form_char_def
        plain_char_def isalpha_def code_of_def)
  have "encodes_reserved plain_char" by (auto simp: encodes_reserved_def plain_char_def isalpha_def)
  moreover have "encodable plain_char ''query''" by (simp add: encodable_def decodable_def code_of_def)
  ultimately have "get_args (URLParser_Parse split_at (url_of plain_char ''query'' ?args) new_URLParser)
      = get_args new_URLParser ++ map_of (rev ?args)"
    by (rule URLParser_correct [OF splits_exists, where keep = plain_char and path = "''query''" and p = new_URLParser and args = ?args,
          THEN conjunct2, THEN conjunct2, THEN mp]) simp
  with u show ?thesis by (simp add: get_args_def new_URLParser_def)
qed

section \<open>Sockets\<close>

lemma wrapped_write_spec:
  "k \<le> length buf \<Longrightarrow> wrapped_write ws buf k = (r, ws', out) \<Longrightarrow>
     k \<le> r \<and> r \<le> length buf \<and> out = take (r - k) (drop k buf) \<and>
     ((\<forall>w \<in> set ws. w \<noteq> WriteError False \<and> w \<noteq> WriteBytes 0) \<longrightarrow> r = length buf)"
proof (induction ws buf k arbitrary: r ws' out rule: wrapped_write.induct)
  case (1 buf k)
  then show ?case by auto
next
  case (2 w ws buf k)
  show ?case
  proof (cases "k < length buf")
    case lt: True
    show ?thesis
    proof (cases w)
      case (WriteError again)
      show ?thesis
      proof (cases again)
        case True
        with "2.IH"(1) [OF lt WriteError True, of r ws' out] "2.prems" lt WriteError show ?thesis by simp
      next
        case False
        with "2.prems" lt WriteError show ?thesis by auto
      qed
    next
      case (WriteBytes n)
      let ?res = "min n (length buf - k)"
      show ?thesis
      proof (cases "?res = 0")
        case True
        with "2.prems" lt WriteBytes show ?thesis by auto
      next
        case False
        obtain r1 ws1 out1 where w: "wrapped_write ws buf (k + ?res) = (r1, ws1, out1)" by (metis prod_cases3)
        have "k + ?res \<le> length buf" using lt by simp
        from "2.IH"(2) [OF lt WriteBytes refl False this w] have ih:
          "k + ?res \<le> r1" "r1 \<le> length buf" "out1 = take (r1 - (k + ?res)) (drop (k + ?res) buf)"
          "(\<forall>w \<in> set ws. w \<noteq> WriteError False \<and> w \<noteq> WriteBytes 0) \<longrightarrow> r1 = length buf" by blast+
        have "r = r1" "out = take ?res (drop k buf) @ out1"
          using "2.prems"(2) lt WriteBytes False w by (simp_all add: Let_def)
        moreover have "take ?res (drop k buf) @ out1 = take (r1 - k) (drop k buf)"
          using ih(1) take_add [of ?res "r1 - (k + ?res)" "drop k buf"] by (simp add: ih(3) add.commute)
        ultimately show ?thesis using ih by auto
      qed
    qed
  next
    case False
    with "2.prems" show ?thesis by auto
  qed
qed

text \<open>
  \<^verbatim>\<open>WrappedWrite\<close> sends a prefix of the buffer, each byte once and in order, and returns its length,
  however the system cuts the writes into pieces and interrupts them; it sends everything unless a write
  fails for good or takes nothing.
\<close>

theorem WrappedWrite_correct:
  "case WrappedWrite buf s of (res, s') \<Rightarrow>
     res \<le> length buf \<and> sent s' = sent s @ take res buf \<and> incoming s' = incoming s \<and>
     ((\<forall>w \<in> set (accepting s). w \<noteq> WriteError False \<and> w \<noteq> WriteBytes 0) \<longrightarrow> res = length buf)"
  using wrapped_write_spec [of 0 buf "accepting s"]
  by (auto simp: WrappedWrite_def split: prod.splits)

lemma WrappedWrite_correct_witness:
  "case WrappedWrite ''hello'' \<lparr>incoming = [], accepting = [WriteBytes 2, WriteError True, WriteBytes 9], sent = ''>''\<rparr> of
     (res, s') \<Rightarrow> res = 5 \<and> sent s' = ''>hello''"
  using WrappedWrite_correct [of "''hello''" "\<lparr>incoming = [], accepting = [WriteBytes 2, WriteError True, WriteBytes 9], sent = ''>''\<rparr>"]
  by (auto split: prod.splits)

text \<open>
  The descriptors of failed attempts stay open; \<^verbatim>\<open>IsPathSafe\<close> compares prefixes of characters,
  not of path components.
\<close>

lemma ConnectToServer_leaks:
  "ConnectToServer (Some (map (\<lambda>fd. (Some fd, False)) failed @ (Some fd, True) # rest)) = (Some fd, failed @ [fd])"
  by (induction failed) (simp_all add: ConnectToServer_def)

text \<open>
  C35: \<^verbatim>\<open>IsPathSafe\<close> accepts exactly the files whose resolved path properly extends the resolved root as a
  string. Everything below the root is accepted, but so is everything in a sibling directory whose name
  begins with the name of the root.
\<close>

theorem IsPathSafe_prefix:
  assumes "realpath rootdir = Some root"
  shows "(IsPathSafe realpath rootdir testfile \<longleftrightarrow> (\<exists>rest. rest \<noteq> [] \<and> realpath testfile = Some (root @ rest))) \<and>
     (realpath testfile = Some (root @ ''/'' @ name) \<longrightarrow> IsPathSafe realpath rootdir testfile) \<and>
     (realpath testfile = Some (root @ ''-private/'' @ name) \<longrightarrow> IsPathSafe realpath rootdir testfile)"
proof -
  have *: "IsPathSafe realpath rootdir testfile \<longleftrightarrow> (\<exists>rest. rest \<noteq> [] \<and> realpath testfile = Some (root @ rest))"
  proof (cases "realpath testfile")
    case (Some t)
    have "(length root < length t \<and> root = take (length root) t) \<longleftrightarrow> (\<exists>rest. rest \<noteq> [] \<and> t = root @ rest)"
    proof
      assume "length root < length t \<and> root = take (length root) t"
      then show "\<exists>rest. rest \<noteq> [] \<and> t = root @ rest"
        by (intro exI [of _ "drop (length root) t"]) (metis append_take_drop_id drop_eq_Nil linorder_not_le)
    qed auto
    moreover have "IsPathSafe realpath rootdir testfile \<longleftrightarrow> length root < length t \<and> root = take (length root) t"
      using Some assms by (simp add: IsPathSafe_def not_le)
    ultimately show ?thesis using Some by simp
  qed (simp add: IsPathSafe_def assms)
  then show ?thesis by auto
qed

lemma IsPathSafe_prefix_witness:
  "IsPathSafe (\<lambda>p. if p = ''www'' then Some ''/srv/www'' else Some ''/srv/www-private/key'') ''www'' ''www/../www-private/key''"
  using IsPathSafe_prefix [of "\<lambda>p. if p = ''www'' then Some ''/srv/www'' else Some ''/srv/www-private/key''"
      "''www''" "''/srv/www''" "''www/../www-private/key''" "''key''"] by simp

end
