(* ===== verification/HttpConnectionThms.thy ===== *)
theory HttpConnectionThms
  imports HttpConnection HttpUtilsThms "HOL-Library.Sublist"
begin

text \<open>
  The properties of a connection: pipelined requests are read one by one however the network cuts
  them, responses can be taken apart by the client, and what malformed requests do.
\<close>

section \<open>The end of the header\<close>

definition one_line :: "string \<Rightarrow> bool" where
  "one_line s \<longleftrightarrow> CR \<notin> set s \<and> LF \<notin> set s"

lemma find_str_append: "find_str pat s = Some p \<Longrightarrow> find_str pat (s @ t) = Some p"
proof (induction s arbitrary: p)
  case Nil
  then show ?case by (cases t) (auto split: if_splits)
next
  case (Cons c s)
  show ?case
  proof (cases "take (length pat) (c # s) = pat")
    case True
    then have "length pat \<le> length (c # s)" by (metis length_take min.cobounded1)
    then have "take (length pat) (c # s @ t) = pat" using True by (cases pat) auto
    then show ?thesis using Cons.prems True by simp
  next
    case False
    then obtain q where q: "find_str pat s = Some q" "p = Suc q" using Cons.prems by auto
    have "take (length pat) (c # s @ t) \<noteq> pat"
    proof
      assume a: "take (length pat) (c # s @ t) = pat"
      have "length pat \<le> Suc (length s)"
        using q(1) False
      proof -
        have "length pat \<le> length s" using q(1)
        proof (induction s arbitrary: q)
          case (Cons d s)
          show ?case
          proof (cases "take (length pat) (d # s) = pat")
            case True
            then show ?thesis by (metis length_take min.cobounded1)
          next
            case False
            then obtain r where "find_str pat s = Some r" using Cons.prems by auto
            with Cons.IH [OF this] show ?thesis by simp
          qed
        qed (simp split: if_splits)
        then show ?thesis by simp
      qed
      then have "take (length pat) (c # s @ t) = take (length pat) (c # s)" by (cases pat) auto
      with a False show False by simp
    qed
    then show ?thesis using Cons.IH [OF q(1)] q(2) by simp
  qed
qed

lemma find_str_bound: "find_str pat s = Some p \<Longrightarrow> p + length pat \<le> length s"
proof (induction s arbitrary: p)
  case (Cons c s)
  show ?case
  proof (cases "take (length pat) (c # s) = pat")
    case True
    then have "length pat \<le> length (c # s)" by (metis length_take min.cobounded1)
    then show ?thesis using True Cons.prems by simp
  qed (use Cons in auto)
qed (simp split: if_splits)

declare find_str.simps [simp del]

lemma CR_LF [simp]: "CR \<noteq> LF" "LF \<noteq> CR"
  by (simp_all add: CR_def LF_def)

lemma find_end_line:
  "CR \<notin> set t \<Longrightarrow> find_str end_of_header (t @ s) = map_option ((+) (length t)) (find_str end_of_header s)"
proof (induction t)
  case (Cons c t)
  then show ?case
    by (cases "find_str end_of_header s") (auto simp: end_of_header_def find_str.simps)
qed (simp add: option.map_ident_strong)

lemma find_end_next:
  "c \<noteq> CR \<Longrightarrow> find_str end_of_header (CR # LF # c # s) = map_option ((+) 2) (find_str end_of_header (c # s))"
  by (cases "find_str end_of_header (c # s)")
    (auto simp: end_of_header_def find_str.simps(2) [of _ CR] find_str.simps(2) [of _ LF])

lemma find_end_here: "find_str end_of_header (CR # LF # CR # LF # s) = Some 0"
  by (simp add: end_of_header_def find_str.simps)

lemma find_end_lines:
  assumes "\<forall>l \<in> set ls. l \<noteq> [] \<and> one_line l"
  shows "find_str end_of_header (CR # LF # concat (map (\<lambda>l. l @ [CR, LF]) ls) @ CR # LF # s)
    = Some (length (concat (map (\<lambda>l. l @ [CR, LF]) ls)))"
  using assms
proof (induction ls)
  case Nil
  then show ?case by (simp add: find_end_here)
next
  case (Cons l ls)
  let ?t = "concat (map (\<lambda>l. l @ [CR, LF]) ls) @ CR # LF # s"
  from Cons.prems obtain c l' where l: "l = c # l'" by (cases l) auto
  have "find_str end_of_header (CR # LF # l @ CR # LF # ?t) = map_option ((+) 2) (find_str end_of_header (l @ CR # LF # ?t))"
    using Cons.prems l find_end_next [of c "l' @ CR # LF # ?t"] by (auto simp: one_line_def)
  also have "\<dots> = map_option ((+) 2) (map_option ((+) (length l)) (find_str end_of_header (CR # LF # ?t)))"
    using Cons.prems find_end_line by (simp add: one_line_def)
  finally show ?case using Cons by simp
qed

section \<open>Reading from the network\<close>

text \<open>The bytes that are still to come, when the network does not fail.\<close>

definition bytes_to_come :: "read_outcome list \<Rightarrow> string" where
  "bytes_to_come rs = concat (map (\<lambda>r. case r of ReadBytes bs \<Rightarrow> bs | ReadError again \<Rightarrow> []) rs)"

definition network_ok :: "read_outcome list \<Rightarrow> bool" where
  "network_ok rs \<longleftrightarrow> ReadError False \<notin> set rs \<and> ReadBytes [] \<notin> set rs"

lemma wrapped_read_stream:
  "network_ok rs \<Longrightarrow> 0 < n \<Longrightarrow> \<exists>bs rs'. wrapped_read n rs = (Some bs, rs') \<and> network_ok rs' \<and>
     bytes_to_come rs = bs @ bytes_to_come rs' \<and> (bs = [] \<longrightarrow> bytes_to_come rs = [])"
  by (induction n rs rule: wrapped_read.induct) (auto simp: network_ok_def bytes_to_come_def)

lemma read_header_stream:
  "network_ok rs \<Longrightarrow> find_str end_of_header (buf @ bytes_to_come rs) = Some pos \<Longrightarrow>
   \<exists>buf' rs'. read_header buf rs = (True, buf', rs') \<and> network_ok rs' \<and>
     buf' @ bytes_to_come rs' = buf @ bytes_to_come rs \<and> find_str end_of_header buf' = Some pos"
proof (induction buf rs rule: read_header.induct)
  case (1 buf rs)
  show ?case
  proof (cases "find_str end_of_header buf")
    case None
    obtain bs rs' where w: "wrapped_read BUFSIZE4 rs = (Some bs, rs')" "network_ok rs'"
      "bytes_to_come rs = bs @ bytes_to_come rs'" "bs = [] \<longrightarrow> bytes_to_come rs = []"
      using wrapped_read_stream [OF "1.prems"(1), of BUFSIZE4] by (auto simp: BUFSIZE4_def)
    have "bs \<noteq> []" using w(4) None "1.prems"(2) by auto
    moreover have "find_str end_of_header ((buf @ bs) @ bytes_to_come rs') = Some pos" using "1.prems"(2) w(3) by simp
    ultimately show ?thesis using "1.IH" [OF None w(1) [symmetric] refl _ w(2)] None w(1,3)
      by (simp add: read_header.simps [of buf rs])
  next
    case (Some p)
    then have "p = pos" using find_str_append [OF Some, of "bytes_to_come rs"] "1.prems"(2) by simp
    then show ?thesis using Some "1.prems"(1) by (simp add: read_header.simps [of buf rs])
  qed
qed

text \<open>A header of lines, and how it arrives: in the buffer when the read loop ends.\<close>

definition header_block :: "string list \<Rightarrow> string" where
  "header_block ls = concat (map (\<lambda>l. l @ [CR, LF]) ls) @ [CR, LF]"

lemma header_block_end:
  assumes "ls \<noteq> []" "\<forall>l \<in> set ls. l \<noteq> [] \<and> one_line l"
  shows "find_str end_of_header (header_block ls @ rest) = Some (length (header_block ls) - 4)"
proof -
  obtain l ls' where l: "ls = l # ls'" using assms(1) by (cases ls) auto
  let ?t = "concat (map (\<lambda>l. l @ [CR, LF]) ls')"
  have ok: "one_line l" "\<forall>l \<in> set ls'. l \<noteq> [] \<and> one_line l" using assms(2) l by auto
  have whole: "header_block ls @ rest = l @ CR # LF # ?t @ CR # LF # rest" using l by (simp add: header_block_def)
  have "find_str end_of_header (header_block ls @ rest) = Some (length l + length ?t)"
    unfolding whole using find_end_line [of l] find_end_lines [OF ok(2)] ok(1) by (simp add: one_line_def)
  moreover have "length (header_block ls) - 4 = length l + length ?t" using l by (simp add: header_block_def)
  ultimately show ?thesis by simp
qed

lemma header_block_arrives:
  assumes "network_ok rs" "ls \<noteq> []" "\<forall>l \<in> set ls. l \<noteq> [] \<and> one_line l"
    and "buf @ bytes_to_come rs = header_block ls @ rest"
  obtains more rs' where "read_header buf rs = (True, header_block ls @ more, rs')" "network_ok rs'"
    "more @ bytes_to_come rs' = rest"
    "find_str end_of_header (header_block ls @ more) = Some (length (header_block ls) - 4)"
proof -
  let ?n = "length (header_block ls)"
  have four: "?n - 4 + 4 = ?n" using assms(2) by (cases ls) (simp_all add: header_block_def)
  have "find_str end_of_header (buf @ bytes_to_come rs) = Some (?n - 4)"
    unfolding assms(4) by (rule header_block_end [OF assms(2,3)])
  from read_header_stream [OF assms(1) this] obtain buf' rs' where
    rd: "read_header buf rs = (True, buf', rs')" "network_ok rs'"
      "buf' @ bytes_to_come rs' = header_block ls @ rest" "find_str end_of_header buf' = Some (?n - 4)"
    unfolding assms(4) by blast
  have "?n \<le> length buf'" using find_str_bound [OF rd(4)] four by (simp add: end_of_header_def)
  then have "take ?n buf' = header_block ls" using arg_cong [OF rd(3), of "take ?n"] by simp
  then obtain more where buf: "buf' = header_block ls @ more" by (metis append_take_drop_id)
  moreover have "more @ bytes_to_come rs' = rest" using rd(3) buf by simp
  ultimately show thesis using that rd(1,2,4) by simp
qed

section \<open>Well-formed requests\<close>

text \<open>A request as a client sends it: method, URI, and the headers.\<close>

type_synonym request = "string \<times> string \<times> (string \<times> string) list"

definition header_text :: "string \<times> string \<Rightarrow> string" where
  "header_text kv = fst kv @ '': '' @ snd kv"

definition request_lines :: "request \<Rightarrow> string list" where
  "request_lines r = (case r of (m, uri, hs) \<Rightarrow> (m @ '' '' @ uri @ '' HTTP/1.1'') # map header_text hs)"

definition request_text :: "request \<Rightarrow> string" where
  "request_text r = header_block (request_lines r)"

definition request_ok :: "request \<Rightarrow> bool" where
  "request_ok r \<longleftrightarrow>
     (case r of (m, uri, hs) \<Rightarrow> one_line m \<and> one_line uri \<and> CHR '' '' \<notin> set m \<and> CHR '' '' \<notin> set uri \<and>
        (\<forall>kv \<in> set hs. one_line (fst kv) \<and> one_line (snd kv) \<and> CHR '':'' \<notin> set (fst kv)))"

text \<open>What the server makes of it; a value ends at the first colon in it.\<close>

definition header_value :: "string \<Rightarrow> string" where
  "header_value v = strip (CHR '' '' # takeWhile (\<lambda>c. c \<noteq> CHR '':'') v)"

definition request_of :: "request \<Rightarrow> HttpRequest" where
  "request_of r = (case r of (m, uri, hs) \<Rightarrow>
     \<lparr>request_URI = uri,
      request_headers = fold (\<lambda>kv. map_put (map tolower (strip (fst kv))) (header_value (snd kv))) hs []\<rparr>)"

lemma split_at_char:
  "c \<notin> set t \<Longrightarrow> split_at (\<lambda>x. x = c) False (t @ c # s) = t # split_at (\<lambda>x. x = c) False s"
  using split_at_append [of t "\<lambda>x. x = c" False "c # s"] by auto

lemma hd_split_at: "hd (split_at P False s) = takeWhile (\<lambda>c. \<not> P c) s"
proof (induction s)
  case (Cons c s)
  then show ?case using split_at_nonempty [of P False s] by (auto split: list.splits)
qed simp

lemma add_header_ok:
  assumes "boost_ok B" "CHR '':'' \<notin> set (fst kv)"
  shows "add_header B (header_text kv) hs = Inr (map_put (map tolower (strip (fst kv))) (header_value (snd kv)) hs)"
proof -
  have s: "boost_split B (\<lambda>c. c = CHR '':'') False (header_text kv)
      = fst kv # split_at (\<lambda>c. c = CHR '':'') False (CHR '' '' # snd kv)"
    using assms(1) split_at_char [OF assms(2)] by (simp add: boost_ok_def splits_split_at header_text_def)
  obtain t ts where t: "split_at (\<lambda>c. c = CHR '':'') False (CHR '' '' # snd kv) = t # ts"
    using split_at_nonempty by (metis list.exhaust)
  then have "t = CHR '' '' # takeWhile (\<lambda>c. c \<noteq> CHR '':'') (snd kv)"
    using hd_split_at [of "\<lambda>c. c = CHR '':''" "CHR '' '' # snd kv"] by simp
  moreover have "length (header_text kv) \<noteq> 0" by (simp add: header_text_def)
  ultimately show ?thesis using assms(1) s t by (simp add: add_header_def boost_ok_def header_value_def)
qed

lemma add_headers_ok:
  assumes "boost_ok B" "\<forall>kv \<in> set pairs. CHR '':'' \<notin> set (fst kv)"
  shows "add_headers B (map header_text pairs @ [[]]) hs
    = Inr (fold (\<lambda>kv. map_put (map tolower (strip (fst kv))) (header_value (snd kv))) pairs hs)"
  using assms(2)
proof (induction pairs arbitrary: hs)
  case Nil
  then show ?case by (simp add: add_header_def)
next
  case (Cons kv pairs)
  then show ?case using add_header_ok [OF assms(1)] by simp
qed

lemma interleave_lines:
  "ls \<noteq> [] \<Longrightarrow> interleave (ls @ [[]]) (replicate (length ls - 1) [CR, LF] @ [[CR, LF, CR, LF]])
     = concat (map (\<lambda>l. l @ [CR, LF]) ls) @ [CR, LF]"
proof (induction ls)
  case (Cons l ls)
  then show ?case by (cases ls) simp_all
qed simp

lemma split_lines:
  assumes "boost_ok B" "ls \<noteq> []" "\<forall>l \<in> set ls. l \<noteq> [] \<and> one_line l"
  shows "boost_split B (\<lambda>c. c = CR \<or> c = LF) True (concat (map (\<lambda>l. l @ [CR, LF]) ls) @ [CR, LF]) = ls @ [[]]"
proof -
  have "splits (boost_split B)" using assms(1) by (simp add: boost_ok_def)
  from splits_split_at [OF this] show ?thesis
    unfolding interleave_lines [OF assms(2), symmetric]
    by (simp, intro split_at_interleave)
      (use assms(2,3) in \<open>auto simp: one_line_def butlast_append tl_append split: list.splits dest: in_set_butlastD list.set_sel(2)\<close>)
qed

lemma request_lines_ok:
  assumes "request_ok r"
  shows "request_lines r \<noteq> [] \<and> (\<forall>l \<in> set (request_lines r). l \<noteq> [] \<and> one_line l)"
  using assms by (auto simp: request_lines_def request_ok_def one_line_def header_text_def CR_def LF_def split: prod.splits)

lemma ParseRequest_ok:
  assumes "boost_ok B" "request_ok r"
  shows "ParseRequest B (request_text r @ rest) (length (request_text r)) = Inr (request_of r)"
proof -
  obtain m uri hs where r: "r = (m, uri, hs)" by (cases r) auto
  let ?first = "m @ '' '' @ uri @ '' HTTP/1.1''"
  have "boost_split B (\<lambda>c. c = CR \<or> c = LF) True (request_text r) = request_lines r @ [[]]"
    unfolding request_text_def header_block_def using request_lines_ok [OF assms(2)] by (intro split_lines [OF assms(1)]) auto
  then have ls: "boost_split B (\<lambda>c. c = CR \<or> c = LF) True (request_text r) = ?first # map header_text hs @ [[]]"
    by (simp add: request_lines_def r)
  have "CHR '' '' \<notin> set m" "CHR '' '' \<notin> set uri" using assms(2) by (simp_all add: request_ok_def r)
  then have "split_at (\<lambda>c. c = CHR '' '') False ?first = [m, uri, ''HTTP/1.1'']"
    using split_at_char [of "CHR '' ''" m] split_at_char [of "CHR '' ''" uri] by simp
  then have first: "boost_split B (\<lambda>c. c = CHR '' '') False ?first = [m, uri, ''HTTP/1.1'']"
    using assms(1) by (simp add: boost_ok_def splits_split_at)
  have "\<forall>kv \<in> set hs. CHR '':'' \<notin> set (fst kv)" using assms(2) by (simp add: request_ok_def r)
  from add_headers_ok [OF assms(1) this] ls first show ?thesis by (simp add: ParseRequest_def request_of_def r)
qed

lemma GetNextRequest_next:
  assumes "boost_ok B" "network_ok (incoming (conn_fd c))" "request_ok r"
    and "buffer c @ bytes_to_come (incoming (conn_fd c)) = request_text r @ rest"
  shows "\<exists>c'. GetNextRequest B request c = Inr (True, request_of r, c') \<and>
     buffer c' @ bytes_to_come (incoming (conn_fd c')) = rest \<and> network_ok (incoming (conn_fd c')) \<and>
     accepting (conn_fd c') = accepting (conn_fd c)"
proof -
  have ls: "request_lines r \<noteq> []" "\<forall>l \<in> set (request_lines r). l \<noteq> [] \<and> one_line l"
    using request_lines_ok [OF assms(3)] by blast+
  have four: "length (request_text r) - 4 + 4 = length (request_text r)"
    using ls(1) by (cases "request_lines r") (simp_all add: request_text_def header_block_def)
  obtain more rs where rd: "read_header (buffer c) (incoming (conn_fd c)) = (True, request_text r @ more, rs)"
      "network_ok rs" "more @ bytes_to_come rs = rest"
      "find_str end_of_header (request_text r @ more) = Some (length (request_text r) - 4)"
    using header_block_arrives [OF assms(2) ls] assms(4) unfolding request_text_def by blast
  show ?thesis using rd four ParseRequest_ok [OF assms(1,3), of more] by (simp add: GetNextRequest_def)
qed

text \<open>
  C14: Requests that arrive back to back are read one at a time, however the network cuts the stream into
  pieces and interrupts the reads: \<^verbatim>\<open>GetNextRequest\<close> gives exactly the next request, with its URI
  and its headers (names in lower case, the last value of a name), and keeps everything behind its
  header for the next call. A header value is cut at its first colon.
\<close>

theorem GetNextRequest_pipelined:
  assumes "boost_ok B" "network_ok (incoming (conn_fd c))" "request_ok r"
    and "buffer c @ bytes_to_come (incoming (conn_fd c)) = request_text r @ rest"
  shows "\<exists>c'. GetNextRequest B request c = Inr (True, request_of r, c') \<and>
     buffer c' @ bytes_to_come (incoming (conn_fd c')) = rest \<and> network_ok (incoming (conn_fd c'))"
  using GetNextRequest_next [OF assms, of request] by blast

definition demo_boost :: boost where
  "demo_boost = \<lparr>boost_replace_all = replace_char, boost_split = split_at, boost_trim = strip,
     boost_to_lower = map tolower\<rparr>"

lemma demo_boost_ok: "boost_ok demo_boost"
  by (simp add: boost_ok_def demo_boost_def replace_char_ok splits_exists)

definition demo_request :: request where
  "demo_request = (''GET'', ''/a'', [(''Host'', ''h:80'')])"

lemma demo_request_ok: "request_ok demo_request"
  by (simp add: request_ok_def demo_request_def one_line_def CR_def LF_def)

text \<open>The request in three pieces, with an interrupted read and the start of the next request.\<close>

definition demo_connection :: HttpConnection where
  "demo_connection = \<lparr>conn_fd = \<lparr>incoming = [ReadBytes (take 9 (request_text demo_request)), ReadError True,
       ReadBytes (drop 9 (request_text demo_request) @ ''GE'')], accepting = [], sent = []\<rparr>, buffer = []\<rparr>"

lemma demo_connection_stream:
  "buffer demo_connection @ bytes_to_come (incoming (conn_fd demo_connection)) = request_text demo_request @ ''GE''"
  "network_ok (incoming (conn_fd demo_connection))"
proof -
  show "buffer demo_connection @ bytes_to_come (incoming (conn_fd demo_connection)) = request_text demo_request @ ''GE''"
    by (simp add: demo_connection_def bytes_to_come_def)
  have "length (request_text demo_request) > 9"
    by (simp add: request_text_def header_block_def request_lines_def demo_request_def)
  then show "network_ok (incoming (conn_fd demo_connection))"
    by (auto simp: demo_connection_def network_ok_def)
qed

lemma GetNextRequest_pipelined_witness:
  "\<exists>c'. GetNextRequest demo_boost new_HttpRequest demo_connection
      = Inr (True, \<lparr>request_URI = ''/a'', request_headers = [(''host'', ''h'')]\<rparr>, c') \<and>
     buffer c' @ bytes_to_come (incoming (conn_fd c')) = ''GE''"
proof -
  have low: "map tolower ''Host'' = ''host''" by code_simp
  have "request_of demo_request = \<lparr>request_URI = ''/a'', request_headers = [(''host'', ''h'')]\<rparr>"
    using low by (simp add: request_of_def demo_request_def header_value_def strip_def isspace_def del: list.map)
  with GetNextRequest_pipelined [OF demo_boost_ok demo_connection_stream(2) demo_request_ok demo_connection_stream(1),
      of new_HttpRequest] show ?thesis by auto
qed

section \<open>Malformed requests\<close>

lemma length_split_at: "length (split_at (\<lambda>x. x = c) False s) < 2 \<longleftrightarrow> c \<notin> set s"
proof (induction s)
  case (Cons d s)
  obtain t ts where t: "split_at (\<lambda>x. x = c) False s = t # ts"
    using split_at_nonempty by (metis list.exhaust)
  show ?case using Cons t by auto
qed simp

text \<open>A header that \<^verbatim>\<open>ParseRequest\<close> cannot take: no blank in the first line, or no colon in another.\<close>

definition malformed :: "string list \<Rightarrow> bool" where
  "malformed ls \<longleftrightarrow> CHR '' '' \<notin> set (hd ls) \<or> (\<exists>l \<in> set (tl ls). CHR '':'' \<notin> set l)"

lemma add_headers_fault:
  assumes "boost_ok B" "\<forall>l \<in> set ls. l \<noteq> []"
  shows "(\<exists>l \<in> set ls. CHR '':'' \<notin> set l) \<Longrightarrow> add_headers B (ls @ [[]]) hs = Inl MemFault"
    "\<not> (\<exists>l \<in> set ls. CHR '':'' \<notin> set l) \<Longrightarrow> \<exists>hs'. add_headers B (ls @ [[]]) hs = Inr hs'"
proof -
  have one: "add_header B l hs = Inl MemFault" if "l \<noteq> []" "CHR '':'' \<notin> set l" for l hs
    using that assms(1) length_split_at [of "CHR '':''" l]
    by (simp add: add_header_def boost_ok_def splits_split_at)
  have ok: "\<exists>hs'. add_header B l hs = Inr hs'" if "CHR '':'' \<in> set l" for l hs
    using that assms(1) length_split_at [of "CHR '':''" l]
    by (auto simp: add_header_def boost_ok_def splits_split_at Let_def)
  show "(\<exists>l \<in> set ls. CHR '':'' \<notin> set l) \<Longrightarrow> add_headers B (ls @ [[]]) hs = Inl MemFault"
    using assms(2)
  proof (induction ls arbitrary: hs)
    case (Cons l ls)
    show ?case
    proof (cases "CHR '':'' \<in> set l")
      case True
      then obtain hs' where "add_header B l hs = Inr hs'" using ok by blast
      with Cons True show ?thesis by simp
    next
      case False
      with Cons.prems(2) one show ?thesis by simp
    qed
  qed simp
  show "\<not> (\<exists>l \<in> set ls. CHR '':'' \<notin> set l) \<Longrightarrow> \<exists>hs'. add_headers B (ls @ [[]]) hs = Inr hs'"
  proof (induction ls arbitrary: hs)
    case Nil
    then show ?case by (simp add: add_header_def)
  next
    case (Cons l ls)
    then have "CHR '':'' \<in> set l" by simp
    then obtain hs' where "add_header B l hs = Inr hs'" using ok by blast
    with Cons show ?case by simp
  qed
qed

lemma ParseRequest_fault:
  assumes "boost_ok B" "ls \<noteq> []" "\<forall>l \<in> set ls. l \<noteq> [] \<and> one_line l"
  shows "malformed ls \<Longrightarrow> ParseRequest B (header_block ls @ rest) (length (header_block ls)) = Inl MemFault"
    "\<not> malformed ls \<Longrightarrow>
       \<exists>req. ParseRequest B (header_block ls @ rest) (length (header_block ls)) = Inr req"
proof -
  obtain first others where ls: "ls = first # others" using assms(2) by (cases ls) auto
  have "boost_split B (\<lambda>c. c = CR \<or> c = LF) True (header_block ls) = ls @ [[]]"
    unfolding header_block_def by (rule split_lines [OF assms])
  then have lines: "boost_split B (\<lambda>c. c = CR \<or> c = LF) True (header_block ls) = first # others @ [[]]"
    unfolding ls by simp
  have blank: "length (boost_split B (\<lambda>c. c = CHR '' '') False first) < 2 \<longleftrightarrow> CHR '' '' \<notin> set first"
    using assms(1) length_split_at by (simp add: boost_ok_def splits_split_at)
  have ne: "\<forall>l \<in> set others. l \<noteq> []" using assms(3) ls by simp
  have P: "ParseRequest B (header_block ls @ rest) (length (header_block ls)) =
      (if length (boost_split B (\<lambda>c. c = CHR '' '') False first) < 2 then Inl MemFault
       else andThen (add_headers B (others @ [[]]) []) (\<lambda>headers.
         Inr \<lparr>request_URI = boost_split B (\<lambda>c. c = CHR '' '') False first ! 1, request_headers = headers\<rparr>))"
    by (simp add: ParseRequest_def Let_def lines)
  show "malformed ls \<Longrightarrow> ParseRequest B (header_block ls @ rest) (length (header_block ls)) = Inl MemFault"
    unfolding P blank using add_headers_fault(1) [OF assms(1) ne, of "[]"] by (auto simp: malformed_def ls)
  show "\<not> malformed ls \<Longrightarrow>
      \<exists>req. ParseRequest B (header_block ls @ rest) (length (header_block ls)) = Inr req"
    unfolding P blank using add_headers_fault(2) [OF assms(1) ne, of "[]"] by (auto simp: malformed_def ls)
qed

text \<open>
  C40: A request from the network can make the server read past the end of a vector. For a header of any
  number of non-empty lines, however it arrives, \<^verbatim>\<open>GetNextRequest\<close> has no defined result exactly when
  the first line has no blank or some other line has no colon, and otherwise it delivers a request.
\<close>

theorem GetNextRequest_malformed:
  assumes "boost_ok B" "network_ok (incoming (conn_fd c))"
    and "ls \<noteq> []" "\<forall>l \<in> set ls. l \<noteq> [] \<and> one_line l"
    and "buffer c @ bytes_to_come (incoming (conn_fd c)) = header_block ls @ rest"
  shows "if CHR '' '' \<notin> set (hd ls) \<or> (\<exists>l \<in> set (tl ls). CHR '':'' \<notin> set l)
     then GetNextRequest B request c = Inl MemFault
     else \<exists>req c'. GetNextRequest B request c = Inr (True, req, c')"
proof -
  have four: "length (header_block ls) - 4 + 4 = length (header_block ls)"
    using assms(3) by (cases ls) (simp_all add: header_block_def)
  obtain more rs where "read_header (buffer c) (incoming (conn_fd c)) = (True, header_block ls @ more, rs)"
      "find_str end_of_header (header_block ls @ more) = Some (length (header_block ls) - 4)"
    using header_block_arrives [OF assms(2-5)] by blast
  then have G: "\<exists>c'. GetNextRequest B request c =
      andThen (ParseRequest B (header_block ls @ more) (length (header_block ls))) (\<lambda>request.
        Inr (True, request, c'))"
    using four by (simp add: GetNextRequest_def Let_def) blast
  show ?thesis
  proof (cases "malformed ls")
    case True
    then have "GetNextRequest B request c = Inl MemFault"
      using G ParseRequest_fault(1) [OF assms(1,3,4) True] by auto
    with True show ?thesis by (simp add: malformed_def)
  next
    case False
    obtain req where "ParseRequest B (header_block ls @ more) (length (header_block ls)) = Inr req"
      using ParseRequest_fault(2) [OF assms(1,3,4) False] by blast
    then have "\<exists>req c'. GetNextRequest B request c = Inr (True, req, c')" using G by auto
    with False show ?thesis by (simp add: malformed_def)
  qed
qed

text \<open>A header of one word, of which the last two characters are still to come.\<close>

lemma GetNextRequest_malformed_witness:
  "GetNextRequest demo_boost new_HttpRequest
     \<lparr>conn_fd = \<lparr>incoming = [ReadError True, ReadBytes [CR, LF]], accepting = [], sent = []\<rparr>,
      buffer = ''GET'' @ [CR, LF]\<rparr> = Inl MemFault"
  using GetNextRequest_malformed [OF demo_boost_ok, where ls = "[''GET'']" and rest = "[]" and
      c = "\<lparr>conn_fd = \<lparr>incoming = [ReadError True, ReadBytes [CR, LF]], accepting = [], sent = []\<rparr>,
            buffer = ''GET'' @ [CR, LF]\<rparr>" and request = new_HttpRequest]
  by (simp add: network_ok_def bytes_to_come_def header_block_def one_line_def CR_def LF_def)

section \<open>Responses\<close>

definition response_ok :: "HttpResponse \<Rightarrow> bool" where
  "response_ok r \<longleftrightarrow> one_line (protocol r) \<and> one_line (message r) \<and>
     (\<forall>kv \<in> set (response_headers r). one_line (fst kv) \<and> one_line (snd kv))"

lemma one_line_decimal: "one_line (decimal n)"
proof (induction n rule: decimal.induct)
  case (1 n)
  have digit: "char_of (48 + k) \<noteq> CR \<and> char_of (48 + k) \<noteq> LF" if "k < 10" for k :: nat
  proof -
    have c: "(of_char (char_of (48 + k) :: char) :: nat) = 48 + k" using that by simp
    have "(of_char d :: nat) = 48 + k" if "char_of (48 + k) = d" for d using c unfolding that .
    from this [of CR] this [of LF] show ?thesis by (auto simp: CR_def LF_def)
  qed
  have "CR \<noteq> char_of (48 + k)" "LF \<noteq> char_of (48 + k)" if "k < 10" for k :: nat using digit [OF that] by auto
  then show ?case using 1 by (simp add: one_line_def decimal.simps [of n])
qed

definition response_head :: "HttpResponse \<Rightarrow> string" where
  "response_head r = protocol r @ '' '' @ decimal (unat (response_code r)) @ '' '' @ message r
     @ concat (map (\<lambda>l. CR # LF # l)
         (map header_text (response_headers r) @ [''Content-length: '' @ decimal (length (body r))]))"

lemma shift_line_ends:
  "concat (map (\<lambda>l. CR # LF # l) ls) @ [CR, LF] = [CR, LF] @ concat (map (\<lambda>l. l @ [CR, LF]) ls)"
  by (induction ls) simp_all

lemma GenerateResponseString_head:
  "GenerateResponseString r = response_head r @ end_of_header @ body r"
proof -
  let ?ls = "map header_text (response_headers r) @ [''Content-length: '' @ decimal (length (body r))]"
  have "header_line = (\<lambda>l. l @ [CR, LF]) \<circ> header_text"
    by (simp add: fun_eq_iff header_line_def header_text_def)
  then have "GenerateResponseString r = protocol r @ '' '' @ decimal (unat (response_code r)) @ '' '' @ message r
      @ ([CR, LF] @ concat (map (\<lambda>l. l @ [CR, LF]) ?ls)) @ [CR, LF] @ body r"
    by (simp add: GenerateResponseString_def)
  then show ?thesis unfolding shift_line_ends [symmetric] 
    by (simp only: response_head_def end_of_header_def append_assoc append.simps)
qed

lemma response_head_end:
  assumes "response_ok r"
  shows "find_str end_of_header (GenerateResponseString r) = Some (length (response_head r))"
proof -
  let ?ls = "map header_text (response_headers r) @ [''Content-length: '' @ decimal (length (body r))]"
  let ?first = "protocol r @ '' '' @ decimal (unat (response_code r)) @ '' '' @ message r"
  have dec: "CR \<notin> set (decimal n)" "LF \<notin> set (decimal n)" for n using one_line_decimal [of n] by (simp_all add: one_line_def)
  have ls: "\<forall>l \<in> set ?ls. l \<noteq> [] \<and> one_line l"
    using assms dec by (auto simp: response_ok_def one_line_def header_text_def) (auto simp: CR_def LF_def)
  have first: "CR \<notin> set ?first" using assms dec by (auto simp: response_ok_def one_line_def) (auto simp: CR_def)
  have "response_head r @ end_of_header @ body r
      = ?first @ (concat (map (\<lambda>l. CR # LF # l) ?ls) @ [CR, LF]) @ CR # LF # body r"
    by (simp add: response_head_def end_of_header_def)
  then have text': "GenerateResponseString r = ?first @ CR # LF # concat (map (\<lambda>l. l @ [CR, LF]) ?ls) @ CR # LF # body r"
    unfolding shift_line_ends GenerateResponseString_head by simp
  have "length (concat (map (\<lambda>l. CR # LF # l) ?ls)) = length (concat (map (\<lambda>l. l @ [CR, LF]) ?ls))"
    by (simp add: length_concat o_def)
  then have "length (response_head r) = length ?first + length (concat (map (\<lambda>l. l @ [CR, LF]) ?ls))"
    by (simp add: response_head_def)
  then show ?thesis unfolding text' find_end_line [OF first] find_end_lines [OF ls] by simp
qed

text \<open>
  C39: \<^verbatim>\<open>WriteResponse\<close> succeeds exactly when the whole response is sent, and otherwise has sent a part
  of it from its beginning. A client can take the response apart: its first empty line ends the header, the
  rest is the body, and the last line of the header gives the length of the body.
\<close>

theorem WriteResponse_correct:
  assumes "response_ok r"
  shows "(\<exists>ok c' out. WriteResponse r c = (ok, c') \<and> sent (conn_fd c') = sent (conn_fd c) @ out \<and> buffer c' = buffer c \<and>
       prefix out (GenerateResponseString r) \<and> (ok \<longleftrightarrow> out = GenerateResponseString r)) \<and>
     (\<exists>head. GenerateResponseString r = head @ end_of_header @ body r \<and>
       find_str end_of_header (GenerateResponseString r) = Some (length head) \<and>
       suffix ([CR, LF] @ ''Content-length: '' @ decimal (length (body r))) head)"
proof (intro conjI)
  obtain n ws out where w: "wrapped_write (accepting (conn_fd c)) (GenerateResponseString r) 0 = (n, ws, out)"
    using prod_cases3 by blast
  from wrapped_write_spec [OF _ this] have s: "n \<le> length (GenerateResponseString r)" "out = take n (GenerateResponseString r)"
    by simp_all
  have "n = length (GenerateResponseString r) \<longleftrightarrow> out = GenerateResponseString r"
    unfolding s(2) using s(1) by (metis length_take min_def order_antisym take_all_iff)
  moreover have "prefix out (GenerateResponseString r)" unfolding s(2) by (rule take_is_prefix)
  ultimately show "\<exists>ok c' out. WriteResponse r c = (ok, c') \<and> sent (conn_fd c') = sent (conn_fd c) @ out \<and>
      buffer c' = buffer c \<and> prefix out (GenerateResponseString r) \<and> (ok \<longleftrightarrow> out = GenerateResponseString r)"
    using w by (simp add: WriteResponse_def WrappedWrite_def Let_def) 
  have "suffix ([CR, LF] @ ''Content-length: '' @ decimal (length (body r))) (response_head r)"
    by (auto simp: response_head_def suffix_def)
  then show "\<exists>head. GenerateResponseString r = head @ end_of_header @ body r \<and>
      find_str end_of_header (GenerateResponseString r) = Some (length head) \<and>
      suffix ([CR, LF] @ ''Content-length: '' @ decimal (length (body r))) head"
    using GenerateResponseString_head response_head_end [OF assms] by blast
qed

lemma WriteResponse_correct_witness:
  "\<exists>ok c' out. WriteResponse (new_HttpResponse\<lparr>message := ''OK'', body := ''hi''\<rparr>) demo_connection = (ok, c') \<and>
     sent (conn_fd c') = out \<and> (ok \<longleftrightarrow> out = GenerateResponseString (new_HttpResponse\<lparr>message := ''OK'', body := ''hi''\<rparr>))"
proof -
  have "response_ok (new_HttpResponse\<lparr>message := ''OK'', body := ''hi''\<rparr>)"
    by (simp add: response_ok_def new_HttpResponse_def one_line_def CR_def LF_def)
  from WriteResponse_correct [OF this, of demo_connection] show ?thesis by (auto simp: demo_connection_def)
qed

end
