(* ===== verification/HttpServerThms.thy ===== *)
theory HttpServerThms
  imports HttpServer HttpConnectionThms IndexThms
begin

text \<open>
  The properties of the web server: what a request for a file and a query are answered with, and how the
  thread of a client ends.
\<close>

section \<open>Static files\<close>

lemma suffixMap_plain: "list_all (\<lambda>kv. take 1 (fst kv) \<noteq> ''.'') suffixMap"
  unfolding suffixMap_def by simp

lemma getContentType_dot: "getContentType (CHR ''.'' # s) = []"
proof -
  have "CHR ''.'' # s \<notin> fst ` set suffixMap"
    using suffixMap_plain by (force simp: list_all_iff)
  then have "map_of suffixMap (CHR ''.'' # s) = None" by (simp add: map_of_eq_None_iff)
  then show ?thesis by (simp add: getContentType_def)
qed

lemma rfind_char_Some: "c \<in> set s \<longleftrightarrow> (\<exists>i. rfind_char c s = Some i)"
  by (induction s) (auto split: option.splits)

lemma rfind_char_nth: "rfind_char c s = Some i \<Longrightarrow> i < length s \<and> s ! i = c"
  by (induction s arbitrary: i) (auto split: option.splits if_splits)

lemma rfind_char_None: "c \<notin> set s \<Longrightarrow> rfind_char c s = None"
  using rfind_char_Some [of c s] by (cases "rfind_char c s") auto

text \<open>The suffix begins with the dot, so that no entry of the table matches, or is empty.\<close>

lemma file_suffix_type:
  assumes "CHR ''.'' \<in> set fname"
  shows "\<exists>suffix. std_substr (rfind_char (CHR ''.'') fname) (length fname - 1) fname = Inr suffix \<and>
     getContentType suffix = []"
proof -
  obtain i where i: "rfind_char (CHR ''.'') fname = Some i" using assms rfind_char_Some by blast
  have n: "i < length fname" "fname ! i = CHR ''.''" using rfind_char_nth [OF i] by simp_all
  obtain s where s: "drop i fname = CHR ''.'' # s" using n by (metis Cons_nth_drop_Suc)
  have "getContentType [] = []" by (simp add: getContentType_def suffixMap_def)
  then have "getContentType (take (length fname - 1) (drop i fname)) = []"
    unfolding s by (cases "length fname - 1") (simp_all add: getContentType_dot)
  then show ?thesis using i n by (simp add: std_substr_def)
qed

lemma encoded_path:
  assumes "boost_ok B" "encodes_reserved keep" "encodable keep path"
  shows "get_path (URLParser_Parse (boost_split B) (URIEncode keep path) p) = path"
proof -
  have sp: "splits (boost_split B)" using assms(1) by (simp add: boost_ok_def)
  have "CHR ''?'' \<notin> set (URIEncode keep path)" using URIEncode_plain [OF assms(2,3)] by simp
  then have "boost_split B (\<lambda>c. c = CHR ''?'') False (URIEncode keep path) = [URIEncode keep path]"
    unfolding splits_split_at [OF sp] by (intro split_at_plain) auto
  moreover have "URIDecode (URIEncode keep path) = path"
    using assms(2,3) by (intro URIDecode_URIEncode) (auto simp: encodes_reserved_def encodable_def)
  ultimately show ?thesis by (simp add: URLParser_Parse_def get_path_def Let_def)
qed

definition page_for :: "string \<Rightarrow> string \<Rightarrow> string" where
  "page_for msg fname = ''<html><body>'' @ msg @ dquote @ concat (map escape_char fname) @ dquote @ ''</body></html>''"

definition forbidden :: "string \<Rightarrow> HttpResponse" where
  "forbidden fname = \<lparr>protocol = ''HTTP/1.1'', response_code = 403, message = ''Forbidden'', response_headers = [],
     body = page_for (''You don'' @ [CHR 0x27] @ ''t have permission to access '') fname\<rparr>"

definition not_found :: "string \<Rightarrow> HttpResponse" where
  "not_found fname = \<lparr>protocol = ''HTTP/1.1'', response_code = 404, message = ''Not Found'', response_headers = [],
     body = page_for (''Couldn'' @ [CHR 0x27] @ ''t find file '') fname\<rparr>"

definition file_page :: "string \<Rightarrow> HttpResponse" where
  "file_page f = \<lparr>protocol = ''HTTP/1.1'', response_code = 200, message = ''OK'',
     response_headers = [(''content-type'', '''')], body = f\<rparr>"

text \<open>
  The resolved path of the file continues the resolved path of the directory: the file is in the
  directory, or in a sibling of it whose name begins with its name.
\<close>

definition continues :: "(string \<Rightarrow> string option) \<Rightarrow> string \<Rightarrow> string \<Rightarrow> bool" where
  "continues realpath basedir file \<longleftrightarrow>
     (\<exists>root rest. realpath basedir = Some root \<and> realpath file = Some (root @ rest) \<and> rest \<noteq> [])"

lemma IsPathSafe_continues: "IsPathSafe realpath basedir file \<longleftrightarrow> continues realpath basedir file"
proof (cases "realpath basedir")
  case (Some root)
  show ?thesis
  proof (cases "realpath file")
    case t: (Some t)
    have "length root < length t \<and> root = take (length root) t \<longleftrightarrow> (\<exists>rest. t = root @ rest \<and> rest \<noteq> [])"
    proof
      assume "length root < length t \<and> root = take (length root) t"
      then show "\<exists>rest. t = root @ rest \<and> rest \<noteq> []"
        by (intro exI [of _ "drop (length root) t"]) (metis append_take_drop_id drop_eq_Nil linorder_not_le)
    qed auto
    moreover have "IsPathSafe realpath basedir file \<longleftrightarrow> length root < length t \<and> root = take (length root) t"
      using Some t by (auto simp: IsPathSafe_def not_le)
    moreover have "continues realpath basedir file \<longleftrightarrow> (\<exists>rest. t = root @ rest \<and> rest \<noteq> [])"
      using Some t by (simp add: continues_def)
    ultimately show ?thesis by blast
  qed (simp add: IsPathSafe_def continues_def Some)
qed (simp add: IsPathSafe_def continues_def)

text \<open>
  C36: A request for a static file, on every path: a file whose resolved path does not continue the
  resolved path of the directory (or one of them cannot be resolved) is refused, so nothing above the
  directory or beside it is served, but for its siblings whose names begin with its own; a file that
  cannot be read is not found (the name is escaped in both pages), and otherwise the answer is exactly
  the content of the file, binary data included, under an empty content type: the suffix is taken with
  its dot, which no entry of the table has. A file whose name has no dot ends the program with an
  exception that nobody catches. Memory does not run out.
\<close>

theorem ProcessRequest_static_file:
  assumes "boost_ok (env_boost env)" "encodes_reserved keep" "encodable keep (''/static/'' @ fname)"
    and "\<forall>c \<in> set ''/static/''. keep c" "request_URI req = URIEncode keep (''/static/'' @ fname)"
    and "file = basedir @ ''/'' @ fname"
  shows "(\<not> continues (env_realpath env) basedir file \<longrightarrow>
        ProcessRequest env req basedir indices m = Inr (forbidden fname, m)) \<and>
     (continues (env_realpath env) basedir file \<and>
        ReadFile (env_rfuel env) (env_files env file) m = Inr (None, m') \<longrightarrow>
        ProcessRequest env req basedir indices m = Inr (not_found fname, m')) \<and>
     (continues (env_realpath env) basedir file \<and> has_file (env_files env file) f K \<and>
        length f < 2 ^ 32 \<and> reliable m \<and> length f + card K < env_rfuel env \<longrightarrow>
        (if CHR ''.'' \<in> set fname
         then \<exists>e. ProcessRequest env req basedir indices m
                = Inr (file_page f, m\<lparr>clock := Suc (clock m), errno := e\<rparr>)
         else ProcessRequest env req basedir indices m = Inl UncaughtException))"
proof -
  have "URIEncode keep ''/static/'' = ''/static/''" using assms(4) by (simp add: URIEncode_def)
  then have uri: "request_URI req = ''/static/'' @ URIEncode keep fname"
    unfolding assms(5) by (simp add: URIEncode_def)
  have run: "ProcessRequest env req basedir indices m = ProcessFileRequest env (request_URI req) basedir m"
    unfolding ProcessRequest_def uri by simp
  have path: "get_path (URLParser_Parse (boost_split (env_boost env)) (request_URI req) new_URLParser) = ''/static/'' @ fname"
    unfolding assms(5) by (rule encoded_path [OF assms(1-3)])
  have esc: "EscapeHTML (boost_replace_all (env_boost env)) s = concat (map escape_char s)" for s
    using assms(1) by (intro EscapeHTML_chars) (simp add: boost_ok_def)
  have name: "std_substr (Some 8) (length (''/static/'' @ fname)) (''/static/'' @ fname) = Inr fname"
    by (simp add: std_substr_def)
  note PF = ProcessFileRequest_def [of env "request_URI req" basedir m, unfolded path Let_def]
  note safe = IsPathSafe_continues [of "env_realpath env" basedir "file", symmetric]
  show ?thesis unfolding run safe
  proof (intro conjI impI)
    assume "\<not> IsPathSafe (env_realpath env) basedir file"
    then show "ProcessFileRequest env (request_URI req) basedir m = Inr (forbidden fname, m)"
      unfolding PF name using assms(6) by (simp add: forbidden_def page_for_def new_HttpResponse_def esc)
  next
    assume "IsPathSafe (env_realpath env) basedir file \<and> ReadFile (env_rfuel env) (env_files env file) m = Inr (None, m')"
    then show "ProcessFileRequest env (request_URI req) basedir m = Inr (not_found fname, m')"
      unfolding PF name using assms(6)
      by (simp add: FileReader_ReadFile_def not_found_def page_for_def new_HttpResponse_def esc)
  next
    assume h: "IsPathSafe (env_realpath env) basedir file \<and> has_file (env_files env file) f K \<and>
      length f < 2 ^ 32 \<and> reliable m \<and> length f + card K < env_rfuel env"
    obtain e where "ReadFile (env_rfuel env) (env_files env file) m
        = Inr (Some (f @ [NUL], of_nat (length f)), m\<lparr>clock := Suc (clock m), errno := e\<rparr>)"
      using h by (elim conjE) (rule ReadFile_file)
    then have rd: "FileReader_ReadFile env \<lparr>reader_basedir = basedir, reader_fname = fname\<rparr> m
        = Inr (Some f, m\<lparr>clock := Suc (clock m), errno := e\<rparr>)"
      using h assms(6) by (simp add: FileReader_ReadFile_def unat_of_nat_u32)
    have ok: "IsPathSafe (env_realpath env) basedir (basedir @ ''/'' @ fname)" using h assms(6) by simp
    show "if CHR ''.'' \<in> set fname
        then \<exists>e. ProcessFileRequest env (request_URI req) basedir m
               = Inr (file_page f, m\<lparr>clock := Suc (clock m), errno := e\<rparr>)
        else ProcessFileRequest env (request_URI req) basedir m = Inl UncaughtException"
    proof (cases "CHR ''.'' \<in> set fname")
      case True
      then show ?thesis unfolding PF name using file_suffix_type [OF True] ok rd
        by (auto simp: file_page_def new_HttpResponse_def)
    next
      case False
      then show ?thesis unfolding PF name using ok rd rfind_char_None [OF False] by (simp add: std_substr_def)
    qed
  qed
qed

section \<open>Queries\<close>



text \<open>The words that the server looks up and shows for what the user typed.\<close>

definition query_of :: "string \<Rightarrow> string" where
  "query_of t = map tolower (strip (concat (map escape_char t)))"


definition found_html :: "string \<Rightarrow> nat \<Rightarrow> string" where
  "found_html query k =
     (if query = [] then [] else ''<p><br>'' @ (if k = 0 then ''No'' else decimal k)
        @ (if k = 1 then '' result'' else '' results'') @ '' found for<b> '' @ query @ ''</b> </p>  <p></p>'' @ [LF] @ ''<ul>'')"

definition query_page :: "string \<Rightarrow> QueryResult list \<Rightarrow> HttpResponse" where
  "query_page query results =
     \<lparr>protocol = ''HTTP/1.1'', response_code = 200, message = ''OK'', response_headers = [],
      body = logoHtml @ found_html query (length results) @ concat (map getItemHtml results)
        @ ''</ul></body>'' @ [LF] @ ''</html>'' @ [LF]\<rparr>"

lemma ProcessQueryRequest_ok:
  assumes "boost_ok (env_boost env)" "sorts (env_sort env)"
    and "list_all2 (index_ok (env_index env) m) indices xs" "indices \<noteq> []" "length indices < 2 ^ 32"
    and "(case get_args (URLParser_Parse (boost_split (env_boost env)) uri new_URLParser) ''terms'' of
            None \<Rightarrow> [] | Some v \<Rightarrow> v) = t"
  shows "\<exists>results. ProcessQueryRequest env uri indices = Inr (query_page (query_of t) results) \<and>
     all_answers xs (split_at (\<lambda>c. c = CHR '' '') True (query_of t)) results"
proof -
  let ?B = "env_boost env" and ?tokens = "split_at (\<lambda>c. c = CHR '' '') True (query_of t)"
  have q: "boost_to_lower ?B (boost_trim ?B (EscapeHTML (boost_replace_all ?B) t)) = query_of t"
    using assms(1) EscapeHTML_chars [of "boost_replace_all ?B" t] by (simp add: boost_ok_def query_of_def)
  have sp: "boost_split ?B (\<lambda>c. c = CHR '' '') True (query_of t) = ?tokens"
    using assms(1) by (simp add: boost_ok_def splits_split_at)
  obtain qp results where r: "new_QueryProcessor (env_index env) indices True = Inr qp"
    "QP_ProcessQuery (env_sort env) qp ?tokens = Inr results" "all_answers xs ?tokens results"
    using new_QueryProcessor_ok [OF assms(3-5), of True] QP_ProcessQuery_ok [OF _ split_at_nonempty assms(2)] by metis
  then show ?thesis
    by (intro exI [of _ results])
      (simp add: ProcessQueryRequest_def Let_def assms(6) q sp query_page_def found_html_def new_HttpResponse_def)
qed


section \<open>The thread of a client\<close>

definition closed_once :: "bool \<times> nat \<times> HttpConnection \<Rightarrow> bool" where
  "closed_once s \<longleftrightarrow> (fst s \<longleftrightarrow> 0 < fst (snd s))"

lemma closed_once_if: "closed_once s \<Longrightarrow> closed_once (close_if b s)"
  by (auto simp: closed_once_def close_if_def case_prod_beta)

lemma ThrFn_round_closes:
  assumes "ThrFn_round env hst c m = Inr ((finish, k, c'), m')"
  shows "finish \<longleftrightarrow> 0 < k"
proof -
  obtain s written c2 where s: "closed_once s" "(finish, k, c') = close_if (\<not> written) (fst s, fst (snd s), c2)"
    using assms closed_once_if [of "(False, 0, _)"] closed_once_if
    by (simp add: ThrFn_round_def andThen_Inr_iff Let_def case_prod_beta) (metis closed_once_def fst_conv less_numeral_extra(3) snd_conv)
  then have "closed_once (finish, k, c')" unfolding s(2) by (intro closed_once_if) (simp add: closed_once_def)
  then show ?thesis by (simp add: closed_once_def)
qed

lemma ThrFn_loop_closes:
  "ThrFn_loop n env hst c closes m = Inr (closes', c', m') \<Longrightarrow> closes < closes'"
proof (induction n arbitrary: c closes m)
  case (Suc n)
  from Suc.prems obtain finish k c1 m1 where r: "ThrFn_round env hst c m = Inr ((finish, k, c1), m1)"
    "(if finish then Inr (closes + k, c1, m1) else ThrFn_loop n env hst c1 (closes + k) m1) = Inr (closes', c', m')"
    by (auto simp: andThen_Inr_iff)
  show ?case
  proof (cases finish)
    case True
    then show ?thesis using r(2) ThrFn_round_closes [OF r(1)] by simp
  next
    case False
    then show ?thesis using r(2) Suc.IH [of c1 "closes + k" m1] by simp
  qed
qed simp

lemma HttpServer_ThrFn_closes_twice:
  "HttpServer_ThrFn n env hst m = Inr (closes, s, m') \<Longrightarrow> 2 \<le> closes"
  by (auto simp: HttpServer_ThrFn_def andThen_Inr_iff dest: ThrFn_loop_closes)

text \<open>When the client has sent everything, \<^verbatim>\<open>GetNextRequest\<close> reports success with an untouched request.\<close>

lemma GetNextRequest_end:
  assumes "network_ok (incoming (conn_fd c))" "buffer c = []" "bytes_to_come (incoming (conn_fd c)) = []"
  shows "\<exists>c'. GetNextRequest B request c = Inr (True, request, c') \<and> buffer c' = [] \<and>
     network_ok (incoming (conn_fd c')) \<and> bytes_to_come (incoming (conn_fd c')) = [] \<and>
     accepting (conn_fd c') = accepting (conn_fd c)"
proof -
  obtain rs where w: "wrapped_read BUFSIZE4 (incoming (conn_fd c)) = (Some [], rs)" "network_ok rs" "bytes_to_come rs = []"
    using wrapped_read_stream [OF assms(1), of BUFSIZE4] assms(3) by (auto simp: BUFSIZE4_def)
  have none: "find_str end_of_header [] = None" by (simp add: find_str.simps end_of_header_def)
  then have "read_header [] (incoming (conn_fd c)) = (True, [], rs)"
    using w(1) by (simp add: read_header.simps [of "[]"])
  then show ?thesis using w(2,3) assms(2) none by (simp add: GetNextRequest_def)
qed

text \<open>Header names are in lower case, so the server never finds the one it looks for.\<close>

definition lower_names :: "std_map \<Rightarrow> bool" where
  "lower_names hs \<longleftrightarrow> (\<forall>kv \<in> set hs. \<forall>c \<in> set (fst kv). \<not> (65 \<le> code_of c \<and> code_of c \<le> 90))"

lemma tolower_lower: "\<not> (65 \<le> code_of (tolower c) \<and> code_of (tolower c) \<le> 90)"
  by (auto simp: tolower_def code_of_def Let_def)

lemma lower_names_put: "lower_names hs \<Longrightarrow> lower_names (map_put (map tolower k) v hs)"
proof (induction hs)
  case Nil
  then show ?case using tolower_lower by (auto simp: lower_names_def)
next
  case (Cons kv hs)
  then show ?case using tolower_lower by (cases kv) (auto simp: lower_names_def)
qed

lemma lower_names_request: "lower_names (request_headers (request_of r))"
proof -
  have "lower_names (fold (\<lambda>kv. map_put (map tolower (strip (fst kv))) (header_value (snd kv))) xs hs)"
    if "lower_names hs" for xs hs
    using that by (induction xs arbitrary: hs) (simp_all add: lower_names_put)
  from this [of "[]"] show ?thesis by (simp add: request_of_def lower_names_def split: prod.splits)
qed

lemma no_Connection_header:
  assumes "lower_names hs"
  shows "fst (map_index ''Connection'' hs) = []"
proof -
  have "map_of hs ''Connection'' = None"
  proof (rule ccontr)
    assume "map_of hs ''Connection'' \<noteq> None"
    then obtain v where "(''Connection'', v) \<in> set hs" by (auto dest: map_of_SomeD)
    with assms show False by (force simp: lower_names_def code_of_def)
  qed
  then show ?thesis by (simp add: map_index_def)
qed

lemma WriteResponse_open:
  assumes "accepting (conn_fd c) = []"
  shows "\<exists>c'. WriteResponse r c = (True, c') \<and> buffer c' = buffer c \<and>
     incoming (conn_fd c') = incoming (conn_fd c) \<and> accepting (conn_fd c') = []"
  using assms by (simp add: WriteResponse_def WrappedWrite_def)

text \<open>The requests that are still to come, and that each can be answered.\<close>

definition client_waits :: "request list \<Rightarrow> HttpConnection \<Rightarrow> bool" where
  "client_waits rs c \<longleftrightarrow> network_ok (incoming (conn_fd c)) \<and> accepting (conn_fd c) = [] \<and>
     buffer c @ bytes_to_come (incoming (conn_fd c)) = concat (map request_text rs) \<and> (\<forall>r \<in> set rs. request_ok r)"

definition answered :: "server_env \<Rightarrow> HttpServerTask \<Rightarrow> string \<Rightarrow> bool" where
  "answered env hst uri \<longleftrightarrow> (\<forall>hs m. \<exists>x. ProcessRequest env \<lparr>request_URI = uri, request_headers = hs\<rparr>
     (task_basedir hst) (task_indices hst) m = Inr x)"

lemma ThrFn_round_goes_on:
  assumes "boost_ok (env_boost env)" "client_waits rs c" "answered env hst []"
    and "\<forall>r \<in> set rs. answered env hst (fst (snd r))"
  shows "\<exists>c' m'. ThrFn_round env hst c m = Inr ((False, 0, c'), m') \<and> client_waits (tl rs) c'"
proof -
  obtain request c1 where g: "GetNextRequest (env_boost env) new_HttpRequest c = Inr (True, request, c1)"
    "client_waits (tl rs) c1" "answered env hst (request_URI request)" "lower_names (request_headers request)"
  proof (cases rs)
    case Nil
    then obtain c1 where "GetNextRequest (env_boost env) new_HttpRequest c = Inr (True, new_HttpRequest, c1)"
      "client_waits [] c1"
      using GetNextRequest_end [of c "env_boost env" new_HttpRequest] assms(2) by (auto simp: client_waits_def)
    then show thesis using that assms(3) Nil by (simp add: new_HttpRequest_def lower_names_def)
  next
    case (Cons r rs')
    have "buffer c @ bytes_to_come (incoming (conn_fd c)) = request_text r @ concat (map request_text rs')"
      using assms(2) Cons by (simp add: client_waits_def)
    from GetNextRequest_next [OF assms(1) _ _ this] obtain c1
      where "GetNextRequest (env_boost env) new_HttpRequest c = Inr (True, request_of r, c1)" "client_waits rs' c1"
      using assms(2) Cons by (auto simp: client_waits_def)
    moreover have "request_URI (request_of r) = fst (snd r)" by (simp add: request_of_def split: prod.splits)
    ultimately show thesis using that assms(4) Cons lower_names_request [of r] by simp
  qed
  let ?hs = "snd (map_index ''Connection'' (request_headers request))"
  have "request\<lparr>request_headers := ?hs\<rparr> = \<lparr>request_URI = request_URI request, request_headers = ?hs\<rparr>"
    by (cases request) simp
  with g(3) obtain response m' where p: "ProcessRequest env (request\<lparr>request_headers := ?hs\<rparr>)
      (task_basedir hst) (task_indices hst) m = Inr (response, m')" unfolding answered_def by (metis prod.collapse)
  have "accepting (conn_fd c1) = []" using g(2) by (simp add: client_waits_def)
  from WriteResponse_open [OF this, of response] obtain c2 where w: "WriteResponse response c1 = (True, c2)"
    "buffer c2 = buffer c1" "incoming (conn_fd c2) = incoming (conn_fd c1)" "accepting (conn_fd c2) = []" by blast
  have "ThrFn_round env hst c m = Inr ((False, 0, c2), m')"
    using g(1) p w(1) no_Connection_header [OF g(4)] by (simp add: ThrFn_round_def Let_def close_if_def)
  moreover have "client_waits (tl rs) c2" using g(2) w by (simp add: client_waits_def)
  ultimately show ?thesis by blast
qed

text \<open>
  C37: The thread of a client that has sent its requests and waits for the answers never ends, even when
  every request asks to close the connection: the header \<^verbatim>\<open>Connection\<close> is looked up under a name that
  the parser has put into lower case, and at the end of the input the same page is sent again and again
  as the answer to an empty request. No number of rounds of the loop is enough.
\<close>

theorem HttpServer_ThrFn_never_ends:
  assumes "boost_ok (env_boost env)" "network_ok (incoming (client_fd hst))" "accepting (client_fd hst) = []"
    and "bytes_to_come (incoming (client_fd hst)) = concat (map request_text rs)" "\<forall>r \<in> set rs. request_ok r"
    and "answered env hst []" "\<forall>r \<in> set rs. answered env hst (fst (snd r))"
  shows "HttpServer_ThrFn n env hst m = Inl OutOfFuel"
proof -
  have "ThrFn_loop n env hst c k m = Inl OutOfFuel"
    if "client_waits rs c" "\<forall>r \<in> set rs. answered env hst (fst (snd r))" for c k rs m
    using that
  proof (induction n arbitrary: c k rs m)
    case (Suc n)
    obtain c' m' where "ThrFn_round env hst c m = Inr ((False, 0, c'), m')" "client_waits (tl rs) c'"
      using ThrFn_round_goes_on [OF assms(1) Suc.prems(1) assms(6) Suc.prems(2)] by blast
    moreover have "\<forall>r \<in> set (tl rs). answered env hst (fst (snd r))" using Suc.prems(2) by (cases rs) auto
    ultimately show ?case using Suc.IH by simp
  qed simp
  moreover have "client_waits rs (new_HttpConnection (client_fd hst))"
    using assms(2-5) by (simp add: client_waits_def new_HttpConnection_def)
  ultimately show ?thesis using assms(7) by (simp add: HttpServer_ThrFn_def)
qed

section \<open>Concrete requests\<close>

text \<open>A path through the parent directory resolves to a file above the directory.\<close>

definition demo_realpath :: "string \<Rightarrow> string option" where
  "demo_realpath p = Some (if p = ''www/../k.txt'' then ''/srv/k.txt'' else ''/srv/'' @ p)"

definition demo_env :: server_env where
  "demo_env = \<lparr>env_boost = demo_boost, env_sort = rank_sort, env_realpath = demo_realpath,
     env_files = (\<lambda>p. demo_os), env_rfuel = 20, env_index = demo_fs\<rparr>"

lemma demo_env_ok: "boost_ok (env_boost demo_env)" "sorts (env_sort demo_env)"
  "list_all2 (index_ok (env_index demo_env) demo_mem50) [''x.idx''] [(demo_index, demo_dt)]"
  using demo_boost_ok sorts_rank_sort demo_index_ok by (simp_all add: demo_env_def)

definition path_char :: "char \<Rightarrow> bool" where
  "path_char c \<longleftrightarrow> isalpha c \<or> c = CHR ''/''"

lemma path_char_reserved: "encodes_reserved path_char"
  by (auto simp: encodes_reserved_def path_char_def isalpha_def)

lemma ProcessRequest_static_file_witness:
  "(\<exists>e. ProcessRequest demo_env \<lparr>request_URI = ''/static/a%2Etxt'', request_headers = []\<rparr> ''www'' [] fresh_mem
     = Inr (file_page ''The fox; the Ox'', fresh_mem\<lparr>clock := 1, errno := e\<rparr>)) \<and>
   ProcessRequest demo_env \<lparr>request_URI = ''/static/readme'', request_headers = []\<rparr> ''www'' [] fresh_mem
     = Inl UncaughtException \<and>
   ProcessRequest demo_env \<lparr>request_URI = ''/static/%2E%2E/k%2Etxt'', request_headers = []\<rparr> ''www'' [] fresh_mem
     = Inr (forbidden ''../k.txt'', fresh_mem)"
proof -
  have dot: "percent CHR ''.'' = ''%2E''" by code_simp
  have uri: "''/static/a%2Etxt'' = URIEncode path_char (''/static/'' @ ''a.txt'')"
    "''/static/readme'' = URIEncode path_char (''/static/'' @ ''readme'')"
    "''/static/%2E%2E/k%2Etxt'' = URIEncode path_char (''/static/'' @ ''../k.txt'')"
    using dot by (simp_all add: URIEncode_def path_char_def isalpha_def)
  have keep: "\<forall>c \<in> set ''/static/''. path_char c" by (simp add: path_char_def isalpha_def)
  have enc: "encodable path_char (''/static/'' @ ''a.txt'')" "encodable path_char (''/static/'' @ ''readme'')"
    "encodable path_char (''/static/'' @ ''../k.txt'')"
    by (simp_all add: encodable_def decodable_def code_of_def)
  have safe: "continues (env_realpath demo_env) ''www'' (''www'' @ ''/'' @ ''a.txt'')"
    "continues (env_realpath demo_env) ''www'' (''www'' @ ''/'' @ ''readme'')"
    "\<not> continues (env_realpath demo_env) ''www'' (''www'' @ ''/'' @ ''../k.txt'')"
    by (simp_all add: continues_def demo_env_def demo_realpath_def)
  have on_disk: "has_file (env_files demo_env (''www'' @ ''/'' @ f)) demo_text {0} \<and> length demo_text < 2 ^ 32 \<and>
      reliable fresh_mem \<and> length demo_text + card {0 :: nat} < env_rfuel demo_env" for f
    using demo_file demo_text_length by (simp add: demo_env_def)
  have page: "file_page ''The fox; the Ox'' = file_page demo_text" by (simp add: demo_text_def)
  note S = ProcessRequest_static_file [OF demo_env_ok(1) path_char_reserved _ keep _ refl,
      where basedir = "''www''" and indices = "[]" and m = fresh_mem and f = demo_text and K = "{0}"]
  have "\<exists>e. ProcessRequest demo_env \<lparr>request_URI = URIEncode path_char (''/static/'' @ ''a.txt''), request_headers = []\<rparr>
      ''www'' [] fresh_mem = Inr (file_page demo_text, fresh_mem\<lparr>clock := Suc (clock fresh_mem), errno := e\<rparr>)"
    using S [OF enc(1)] safe on_disk by simp
  moreover have "ProcessRequest demo_env \<lparr>request_URI = URIEncode path_char (''/static/'' @ ''readme''), request_headers = []\<rparr>
      ''www'' [] fresh_mem = Inl UncaughtException"
    using S [OF enc(2)] safe on_disk by simp
  moreover have "ProcessRequest demo_env \<lparr>request_URI = URIEncode path_char (''/static/'' @ ''../k.txt''), request_headers = []\<rparr>
      ''www'' [] fresh_mem = Inr (forbidden ''../k.txt'', fresh_mem)"
    using S [OF enc(3)] safe by simp
  ultimately show ?thesis unfolding uri page by simp
qed


text \<open>A client asks once for the main page, wants the connection to be closed, and waits.\<close>

definition closing_request :: request where
  "closing_request = (''GET'', ''/'', [(''Connection'', ''close'')])"

definition waiting_client :: HttpServerTask where
  "waiting_client = \<lparr>client_fd = \<lparr>incoming = [ReadBytes (request_text closing_request)], accepting = [], sent = []\<rparr>,
     cport = 40000, caddr = ''::1'', cdns = ''client'', saddr = ''::1'', sdns = ''server'', task_basedir = ''www'', task_indices = [''x.idx'']\<rparr>"

lemma main_page_answered: "uri \<in> {[], ''/''} \<Longrightarrow> answered demo_env waiting_client uri"
proof -
  assume u: "uri \<in> {[], ''/''}"
  have "(case get_args (URLParser_Parse (boost_split (env_boost demo_env)) uri new_URLParser) ''terms'' of
      None \<Rightarrow> [] | Some v \<Rightarrow> v) = []"
    using u by (auto simp: demo_env_def demo_boost_def URLParser_Parse_def get_args_def new_URLParser_def Let_def)
  from ProcessQueryRequest_ok [OF demo_env_ok _ _ this] u show ?thesis
    by (fastforce simp: answered_def ProcessRequest_def waiting_client_def)
qed

lemma HttpServer_ThrFn_never_ends_witness:
  "HttpServer_ThrFn 1000 demo_env waiting_client fresh_mem = Inl OutOfFuel"
proof (rule HttpServer_ThrFn_never_ends [OF demo_env_ok(1), of _ "[closing_request]"])
  show "network_ok (incoming (client_fd waiting_client))"
    by (auto simp: network_ok_def waiting_client_def request_text_def header_block_def)
  show "\<forall>r \<in> set [closing_request]. request_ok r"
    by (simp add: request_ok_def closing_request_def one_line_def CR_def LF_def)
  show "\<forall>r \<in> set [closing_request]. answered demo_env waiting_client (fst (snd r))"
    using main_page_answered by (simp add: closing_request_def)
qed (simp_all add: waiting_client_def bytes_to_come_def main_page_answered [unfolded waiting_client_def])

end
