(* ===== verification/ServerSocket.thy ===== *)
theory ServerSocket
  imports HttpUtils SearchShell FileLayout
begin

text \<open>
  The listening socket of the web server: \<^verbatim>\<open>hw4/ServerSocket.cc\<close>. The operating system is a parameter
  \<open>net\<close>, whose replies may depend on everything that has been called before: the state of the model
  is the trace of the system calls with their results. The domain name service and the conversions of
  addresses to text are functions of \<open>net\<close> that do not appear in the trace.
\<close>

section \<open>System calls\<close>

record sockaddr =
  sa_family :: int
  sa_port :: u16
  sa_host :: "u8 list"

text \<open>The list that \<^verbatim>\<open>ai_next\<close> makes is a list; \<^verbatim>\<open>ai_addr\<close> is \<open>None\<close> for a null pointer.\<close>

record addrinfo =
  ai_flags :: int
  ai_family :: int
  ai_socktype :: int
  ai_protocol :: int
  ai_addr :: "sockaddr option"

definition AF_INET :: int where "AF_INET = 2"
definition AF_INET6 :: int where "AF_INET6 = 10"
definition SOCK_STREAM :: int where "SOCK_STREAM = 1"
definition IPPROTO_TCP :: int where "IPPROTO_TCP = 6"
definition AI_PASSIVE :: int where "AI_PASSIVE = 1"
definition AI_V4MAPPED :: int where "AI_V4MAPPED = 8"

datatype syscall =
    Getaddrinfo string addrinfo
  | Freeaddrinfo
  | Socket int int int
  | SetReuseAddr int
  | Bind int "sockaddr option"
  | Listen int
  | Accept_call int
  | Close int

type_synonym trace = "(syscall \<times> int) list"

text \<open>
  \<open>net_addresses\<close>: the list that \<^verbatim>\<open>getaddrinfo\<close> stores; \<open>net_errno\<close>: the value of \<^verbatim>\<open>errno\<close> after the
  last call; \<open>net_peer\<close>: the address that \<^verbatim>\<open>accept\<close> stores; \<open>net_stream\<close>: what the client that has just
  been accepted sends, and how it takes the replies.
\<close>

record net =
  net_reply :: "trace \<Rightarrow> syscall \<Rightarrow> int"
  net_errno :: "trace \<Rightarrow> int"
  net_addresses :: "trace \<Rightarrow> addrinfo list"
  net_peer :: "trace \<Rightarrow> sockaddr"
  net_stream :: "trace \<Rightarrow> socket"
  getsockname :: "int \<Rightarrow> sockaddr"
  inet_ntop :: "int \<Rightarrow> sockaddr \<Rightarrow> string"
  getnameinfo :: "trace \<Rightarrow> sockaddr \<Rightarrow> string option"

definition syscall :: "net \<Rightarrow> syscall \<Rightarrow> trace \<Rightarrow> int \<times> trace" where
  "syscall net c t = (let r = net_reply net t c in (r, t @ [(c, r)]))"

text \<open>The descriptors that are open after a trace; at first they are the standard ones.\<close>

definition fd_step :: "syscall \<times> int \<Rightarrow> int set \<Rightarrow> int set" where
  "fd_step e fds =
     (case e of
        (Socket _ _ _, r) \<Rightarrow> if r = - 1 then fds else insert r fds
      | (Accept_call _, r) \<Rightarrow> if r < 0 then fds else insert r fds
      | (Close fd, _) \<Rightarrow> fds - {fd}
      | _ \<Rightarrow> fds)"

definition open_fds :: "trace \<Rightarrow> int set" where
  "open_fds t = fold fd_step t {0, 1, 2}"

text \<open>What POSIX promises: a new descriptor is not negative and not one of the open ones.\<close>

definition new_fd :: "net \<Rightarrow> trace \<Rightarrow> syscall \<Rightarrow> bool" where
  "new_fd net t c \<longleftrightarrow> net_reply net t c = - 1 \<or> 0 \<le> net_reply net t c \<and> net_reply net t c \<notin> open_fds t"

definition posix_net :: "net \<Rightarrow> bool" where
  "posix_net net \<longleftrightarrow> (\<forall>t f s p. new_fd net t (Socket f s p)) \<and> (\<forall>t fd. new_fd net t (Accept_call fd))"

section \<open>The class \<^verbatim>\<open>ServerSocket\<close>\<close>

text \<open>The constructor leaves \<^verbatim>\<open>sock_family_\<close> without a value.\<close>

record ServerSocket =
  sock_port :: u16
  listen_sock_fd :: int
  sock_family :: "int option"

definition new_ServerSocket :: "u16 \<Rightarrow> ServerSocket" where
  "new_ServerSocket port = \<lparr>sock_port = port, listen_sock_fd = - 1, sock_family = None\<rparr>"

definition delete_ServerSocket :: "net \<Rightarrow> ServerSocket \<Rightarrow> trace \<Rightarrow> trace" where
  "delete_ServerSocket net ss t =
     (if listen_sock_fd ss \<noteq> - 1 then snd (syscall net (Close (listen_sock_fd ss)) t) else t)"

text \<open>The loop over the addresses.\<close>

primrec bind_loop :: "net \<Rightarrow> addrinfo list \<Rightarrow> ServerSocket \<Rightarrow> trace \<Rightarrow> int \<times> ServerSocket \<times> trace" where
  "bind_loop net [] ss t = (- 1, ss, t)"
| "bind_loop net (rp # rps) ss t =
     (let (listen_fd, t) = syscall net (Socket (ai_family rp) (ai_socktype rp) (ai_protocol rp)) t in
      if listen_fd = - 1 then bind_loop net rps ss t
      else
        let (_, t) = syscall net (SetReuseAddr listen_fd) t;
            (res, t) = syscall net (Bind listen_fd (ai_addr rp)) t in
        if res = 0 then (listen_fd, ss\<lparr>sock_family := Some (ai_family rp)\<rparr>, t)
        else
          let (_, t) = syscall net (Close listen_fd) t in
          bind_loop net rps ss t)"

text \<open>
  The second component of the result is \<^verbatim>\<open>*listen_fd\<close>, \<open>None\<close> when nothing has been stored. When
  \<^verbatim>\<open>getaddrinfo\<close> fails the code says \<^verbatim>\<open>return -1\<close>, which is \<^verbatim>\<open>true\<close> for a function that returns a
  \<^verbatim>\<open>bool\<close>.
\<close>

definition listen_hints :: "int \<Rightarrow> addrinfo" where
  "listen_hints family =
     \<lparr>ai_flags = AI_PASSIVE OR AI_V4MAPPED, ai_family = family, ai_socktype = SOCK_STREAM,
      ai_protocol = IPPROTO_TCP, ai_addr = None\<rparr>"

definition BindAndListen ::
  "net \<Rightarrow> int \<Rightarrow> ServerSocket \<Rightarrow> trace \<Rightarrow> bool \<times> int option \<times> ServerSocket \<times> trace" where
  "BindAndListen net family ss t =
     (let (res, t) = syscall net (Getaddrinfo (decimal (unat (sock_port ss))) (listen_hints family)) t in
      if res \<noteq> 0 then ((- 1 :: int) \<noteq> 0, None, ss, t)
      else
        let (listen_fd, ss, t) = bind_loop net (net_addresses net t) ss t in
        if listen_fd \<le> 0 then (False, Some listen_fd, ss, t)
        else
          let (res, t) = syscall net (Listen listen_fd) t in
          if res \<noteq> 0 then
            let (_, t) = syscall net (Close listen_fd) t;
                (_, t) = syscall net Freeaddrinfo t in
            (False, Some listen_fd, ss, t)
          else
            let (_, t) = syscall net Freeaddrinfo t in
            (True, Some listen_fd, ss\<lparr>listen_sock_fd := listen_fd\<rparr>, t))"

text \<open>The output parameters of \<^verbatim>\<open>Accept\<close> besides the descriptor.\<close>

record net_info =
  client_addr :: string
  client_port :: u16
  client_dnsname :: string
  server_addr :: string
  server_dnsname :: string

text \<open>
  The address of the own end is read with \<^verbatim>\<open>getsockname\<close>; a name of the own end that cannot be found
  is empty, one of the client ends the function with \<^verbatim>\<open>false\<close>. (The text that is written into
  \<^verbatim>\<open>hostname\<close> before that is not used.)
\<close>

definition server_hostname :: "net \<Rightarrow> trace \<Rightarrow> sockaddr \<Rightarrow> string" where
  "server_hostname net t srvr = (case getnameinfo net t srvr of None \<Rightarrow> [] | Some hostname \<Rightarrow> hostname)"

definition GetNetInfo :: "net \<Rightarrow> trace \<Rightarrow> int \<Rightarrow> sockaddr \<Rightarrow> net_info \<Rightarrow> bool \<times> net_info" where
  "GetNetInfo net t fd addr info =
     (if sa_family addr \<noteq> AF_INET \<and> sa_family addr \<noteq> AF_INET6 then (False, info)
      else
        let family = sa_family addr;
            info = info\<lparr>client_addr := inet_ntop net family addr, client_port := htons (sa_port addr)\<rparr>;
            srvr = getsockname net fd;
            info = info\<lparr>server_addr := inet_ntop net family srvr, server_dnsname := server_hostname net t srvr\<rparr> in
        case getnameinfo net t addr of
          None \<Rightarrow> (False, info)
        | Some hostname \<Rightarrow> (True, info\<lparr>client_dnsname := hostname\<rparr>))"

text \<open>
  The loop around \<^verbatim>\<open>accept\<close>, for \<open>k\<close> calls; \<open>None\<close> means that it is still running. Its condition assigns
  \<^verbatim>\<open>EAGAIN\<close> to \<^verbatim>\<open>errno\<close> where it should compare.
\<close>

definition accept_again :: "int \<Rightarrow> bool" where
  "accept_again err \<longleftrightarrow> err = EINTR \<or> (let err = EAGAIN in err \<noteq> 0 \<or> err = EAGAIN)"

primrec accept_calls :: "nat \<Rightarrow> net \<Rightarrow> int \<Rightarrow> trace \<Rightarrow> int option \<times> trace" where
  "accept_calls 0 net fd t = (None, t)"
| "accept_calls (Suc k) net fd t =
     (let (accepted_fd, t) = syscall net (Accept_call fd) t in
      if accepted_fd < 0 \<and> accept_again (net_errno net t) then accept_calls k net fd t
      else (Some accepted_fd, t))"

definition Accept :: "nat \<Rightarrow> net \<Rightarrow> ServerSocket \<Rightarrow> net_info \<Rightarrow> trace \<Rightarrow> (bool \<times> int \<times> net_info) option \<times> trace" where
  "Accept k net ss info t =
     (case accept_calls k net (listen_sock_fd ss) t of
        (None, t) \<Rightarrow> (None, t)
      | (Some accepted_fd, t) \<Rightarrow>
          if accepted_fd < 0 then (Some (False, accepted_fd, info), t)
          else
            (case GetNetInfo net t accepted_fd (net_peer net t) info of
               (found, info) \<Rightarrow> (Some (found, accepted_fd, info), t)))"

end
