(* ===== verification/HttpMain.thy ===== *)
theory HttpMain
  imports HttpServer ServerSocket QueryProcessor
begin

text \<open>
  The accept loop of the web server (\<^verbatim>\<open>HttpServer::Run\<close> in \<^verbatim>\<open>hw4/HttpServer.cc\<close>) and its main program
  (\<^verbatim>\<open>hw4/http333d.cc\<close>). The loops may run for ever: \<open>n\<close> bounds the rounds of the accept loop and \<open>k\<close> the
  calls of \<^verbatim>\<open>accept\<close> in a round, and \<open>None\<close> is the status of a server that is still running when they are
  used up. The calls on the thread pool are the events that \<open>ThreadPool\<close> takes. Messages on the
  standard error are left out.
\<close>

section \<open>The server\<close>

record HttpServer =
  server_socket :: ServerSocket
  staticfile_dirpath :: string
  server_indices :: "string list"

definition new_HttpServer :: "u16 \<Rightarrow> string \<Rightarrow> string list \<Rightarrow> HttpServer" where
  "new_HttpServer port dirpath idx =
     \<lparr>server_socket = new_ServerSocket port, staticfile_dirpath = dirpath, server_indices = idx\<rparr>"

definition kNumThreads :: u32 where
  "kNumThreads = 100"

text \<open>The task of a client that has just been accepted; its strings are empty and its port 0 before \<^verbatim>\<open>Accept\<close>.\<close>

definition empty_info :: net_info where
  "empty_info = \<lparr>client_addr = [], client_port = 0, client_dnsname = [], server_addr = [], server_dnsname = []\<rparr>"

definition new_task :: "net \<Rightarrow> HttpServer \<Rightarrow> trace \<Rightarrow> net_info \<Rightarrow> HttpServerTask" where
  "new_task net hs t info =
     \<lparr>client_fd = net_stream net t, cport = client_port info, caddr = client_addr info,
      cdns = client_dnsname info, saddr = server_addr info, sdns = server_dnsname info,
      task_basedir = staticfile_dirpath hs, task_indices = server_indices hs\<rparr>"

text \<open>The loop of \<^verbatim>\<open>Run\<close>, at whose end the thread pool is destroyed; \<open>True\<close> says that it has ended.\<close>

primrec server_loop ::
  "nat \<Rightarrow> nat \<Rightarrow> net \<Rightarrow> HttpServer \<Rightarrow> trace \<Rightarrow> bool \<times> HttpServerTask event list \<times> trace" where
  "server_loop 0 k net hs t = (False, [], t)"
| "server_loop (Suc n) k net hs t =
     (case Accept k net (server_socket hs) empty_info t of
        (None, t) \<Rightarrow> (False, [], t)
      | (Some (accepted, client, info), t) \<Rightarrow>
          if \<not> accepted then (True, [CallDestroy], t)
          else
            (case server_loop n k net hs t of
               (ended, events, t') \<Rightarrow> (ended, CallDispatch (new_task net hs t info) # events, t')))"

text \<open>The status is what \<^verbatim>\<open>Run\<close> returns, the third component what is printed.\<close>

definition HttpServer_Run ::
  "nat \<Rightarrow> nat \<Rightarrow> net \<Rightarrow> HttpServer \<Rightarrow> trace
     \<Rightarrow> bool option \<times> HttpServerTask event list \<times> string list \<times> HttpServer \<times> trace" where
  "HttpServer_Run n k net hs t =
     (case BindAndListen net AF_INET6 (server_socket hs) t of
        (listening, listen_fd, sock, t) \<Rightarrow>
          (let hs = hs\<lparr>server_socket := sock\<rparr> in
           if \<not> listening then
             (Some False, [], [''  creating and binding the listening socket...''], hs, t)
           else
             (case server_loop n k net hs t of
                (ended, events, t) \<Rightarrow>
                  (if ended then Some True else None, events,
                   [''  creating and binding the listening socket...'', ''  accepting connections...'', []], hs, t))))"

section \<open>The main program\<close>

text \<open>
  \<^verbatim>\<open>sscanf(s, "%hu", &port)\<close>: blanks, a sign and digits are read as by \<^verbatim>\<open>strtoul\<close>, whose result is at
  most \<^verbatim>\<open>ULONG_MAX\<close> and of which the lower 16 bits are stored. (The C standard leaves a number that
  does not fit undefined; this is what the C library of Linux does.)
\<close>

definition isdigit :: "char \<Rightarrow> bool" where
  "isdigit c \<longleftrightarrow> 48 \<le> code_of c \<and> code_of c \<le> 57"

definition digits_value :: "string \<Rightarrow> nat" where
  "digits_value s = foldl (\<lambda>v c. 10 * v + (code_of c - 48)) 0 s"

definition sscanf_hu :: "string \<Rightarrow> u16 option" where
  "sscanf_hu s =
     (let s = dropWhile isspace s;
          negative = (s \<noteq> [] \<and> hd s = CHR ''-'');
          s = (if s \<noteq> [] \<and> hd s \<in> {CHR ''-'', CHR ''+''} then tl s else s);
          digits = takeWhile isdigit s;
          v = digits_value digits in
      if digits = [] then None
      else Some (ucast (if 2 ^ 64 \<le> v then - 1 else if negative then - of_nat v else of_nat v :: u64)))"

text \<open>
  The files that the arguments name: \<^verbatim>\<open>st_mode\<close> of \<^verbatim>\<open>stat\<close>, and whether an \<^verbatim>\<open>ifstream\<close> is good. In
  \<^verbatim>\<open>!filestat.st_mode & S_IFDIR\<close> the negation applies to the mode.
\<close>

record arg_files =
  stat_mode :: "string \<Rightarrow> u32 option"
  ifstream_good :: "string \<Rightarrow> bool"

definition S_IFDIR :: int where
  "S_IFDIR = 16384"

definition c_not :: "u32 \<Rightarrow> int" where
  "c_not x = (if x = 0 then 1 else 0)"

text \<open>\<open>None\<close>: the program ends in \<^verbatim>\<open>Usage\<close>.\<close>

definition GetPortAndPath :: "arg_files \<Rightarrow> string list \<Rightarrow> (u16 \<times> string \<times> string list) option" where
  "GetPortAndPath fs argv =
     (if length argv < 4 then None
      else
        case sscanf_hu (argv ! 1) of
          None \<Rightarrow> None
        | Some port \<Rightarrow>
            if port < 1024 then None
            else
              (case stat_mode fs (argv ! 2) of
                 None \<Rightarrow> None
               | Some st_mode \<Rightarrow>
                   if c_not st_mode AND S_IFDIR \<noteq> 0 then None
                   else
                     let idx = filter (ifstream_good fs) (drop 3 argv) in
                     if idx = [] then None else Some (port, argv ! 2, idx)))"

definition welcome_lines :: "string list" where
  "welcome_lines =
     [''Welcome to http333d, the UW cse333 web server!'', ''  Copyright 2012 Steven Gribble'',
      ''  http://www.cs.washington.edu/homes/gribble'', [], ''initializing:'',
      ''  parsing port number and static files directory...'']"

text \<open>The lines that are printed, without their ends. At the return the server's socket is destroyed.\<close>

definition http333d_main ::
  "nat \<Rightarrow> nat \<Rightarrow> arg_files \<Rightarrow> net \<Rightarrow> string list
     \<Rightarrow> exit_code option \<times> HttpServerTask event list \<times> string list \<times> trace" where
  "http333d_main n k fs net argv =
     (case GetPortAndPath fs argv of
        None \<Rightarrow> (Some EXIT_FAILURE, [], welcome_lines, [])
      | Some (portnum, staticdir, idx) \<Rightarrow>
          (let out = welcome_lines @ [''    port: '' @ decimal (unat portnum), ''    path: '' @ staticdir] in
           case HttpServer_Run n k net (new_HttpServer portnum staticdir idx) [] of
             (None, events, out', hs, t) \<Rightarrow> (None, events, out @ out', t)
           | (Some _, events, out', hs, t) \<Rightarrow>
               (Some EXIT_SUCCESS, events, out @ out' @ [''server completed!  Exiting.''],
                delete_ServerSocket net (server_socket hs) t)))"

end
