(* ===== verification/ServerSocketThms.thy ===== *)
theory ServerSocketThms
  imports HttpMain
begin

text \<open>
  Properties of the listening socket: which descriptors are open after \<^verbatim>\<open>BindAndListen\<close>, and what
  \<^verbatim>\<open>Accept\<close> gives. A trace of system calls only grows, and the open descriptors are computed from it.
\<close>

section \<open>Traces\<close>

lemma open_fds_snoc: "open_fds (t @ [e]) = fd_step e (open_fds t)"
  by (simp add: open_fds_def)

lemma fd_step_simps [simp]:
  "fd_step (Getaddrinfo s h, r) fds = fds" "fd_step (Freeaddrinfo, r) fds = fds"
  "fd_step (SetReuseAddr fd, r) fds = fds" "fd_step (Bind fd a, r) fds = fds" "fd_step (Listen fd, r) fds = fds"
  "fd_step (Close fd, r) fds = fds - {fd}"
  "fd_step (Socket x y z, r) fds = (if r = - 1 then fds else insert r fds)"
  "fd_step (Accept_call fd, r) fds = (if r < 0 then fds else insert r fds)"
  by (simp_all add: fd_step_def)

lemma syscall_eq: "syscall net c t = (net_reply net t c, t @ [(c, net_reply net t c)])"
  by (simp add: syscall_def Let_def)

lemma new_socket:
  assumes "posix_net net"
  shows "net_reply net t (Socket f s p) = - 1 \<or>
     0 \<le> net_reply net t (Socket f s p) \<and> net_reply net t (Socket f s p) \<notin> open_fds t"
  using assms by (auto simp: posix_net_def new_fd_def)

section \<open>Binding\<close>

text \<open>An address for which no socket could be made, or to which it could not be bound.\<close>

definition refused :: "trace \<Rightarrow> addrinfo \<Rightarrow> bool" where
  "refused calls rp \<longleftrightarrow>
     (Socket (ai_family rp) (ai_socktype rp) (ai_protocol rp), - 1) \<in> set calls \<or>
     (\<exists>fd r. (Bind fd (ai_addr rp), r) \<in> set calls \<and> r \<noteq> 0)"

definition bound_to :: "trace \<Rightarrow> addrinfo list \<Rightarrow> int \<Rightarrow> ServerSocket \<Rightarrow> bool" where
  "bound_to calls rps fd ss \<longleftrightarrow>
     (\<exists>rp \<in> set rps. (Bind fd (ai_addr rp), 0) \<in> set calls \<and> sock_family ss = Some (ai_family rp))"

lemma refused_mono: "refused calls rp \<Longrightarrow> set calls \<subseteq> set calls' \<Longrightarrow> refused calls' rp"
  by (fastforce simp: refused_def)

lemma bound_to_mono:
  "bound_to calls rps fd ss \<Longrightarrow> set calls \<subseteq> set calls' \<Longrightarrow> set rps \<subseteq> set rps' \<Longrightarrow> bound_to calls' rps' fd ss"
  by (fastforce simp: bound_to_def)

definition bind_result :: "addrinfo list \<Rightarrow> ServerSocket \<Rightarrow> trace \<Rightarrow> int \<times> ServerSocket \<times> trace \<Rightarrow> trace \<Rightarrow> bool" where
  "bind_result rps ss t res calls \<longleftrightarrow>
     (case res of (fd, ss', t') \<Rightarrow>
        t' = t @ calls \<and> listen_sock_fd ss' = listen_sock_fd ss \<and> Freeaddrinfo \<notin> fst ` set calls \<and>
        (if fd = - 1 then open_fds t' = open_fds t \<and> ss' = ss \<and> (\<forall>rp \<in> set rps. refused calls rp)
         else 0 \<le> fd \<and> fd \<notin> open_fds t \<and> open_fds t' = insert fd (open_fds t) \<and> bound_to calls rps fd ss'))"

lemma bind_result_step:
  assumes "bind_result rps ss (t @ cs) res calls" "open_fds (t @ cs) = open_fds t"
    and "refused cs rp" "Freeaddrinfo \<notin> fst ` set cs"
  shows "bind_result (rp # rps) ss t res (cs @ calls)"
proof -
  obtain fd ss' t' where res: "res = (fd, ss', t')" by (cases res)
  have "refused (cs @ calls) rp" using refused_mono [OF assms(3)] by auto
  moreover have "refused (cs @ calls) rp'" if "refused calls rp'" for rp' using refused_mono [OF that] by auto
  moreover have "bound_to (cs @ calls) (rp # rps) fd ss'" if "bound_to calls rps fd ss'"
    by (rule bound_to_mono [OF that]) auto
  ultimately show ?thesis using assms(1,2,4) by (auto simp: bind_result_def res split: if_splits)
qed

lemma bind_loop_result:
  assumes px: "posix_net net"
  shows "\<exists>calls. bind_result rps ss t (bind_loop net rps ss t) calls"
proof (induction rps arbitrary: t)
  case Nil
  show ?case by (rule exI [of _ "[]"]) (simp add: bind_result_def)
next
  case (Cons rp rps)
  let ?sock = "Socket (ai_family rp) (ai_socktype rp) (ai_protocol rp)"
  define fd where "fd = net_reply net t ?sock"
  define t1 where "t1 = t @ [(?sock, fd)]"
  define t2 where "t2 = t1 @ [(SetReuseAddr fd, net_reply net t1 (SetReuseAddr fd))]"
  define r where "r = net_reply net t2 (Bind fd (ai_addr rp))"
  define t3 where "t3 = t2 @ [(Bind fd (ai_addr rp), r)]"
  define t4 where "t4 = t3 @ [(Close fd, net_reply net t3 (Close fd))]"
  note ts = t4_def t3_def t2_def t1_def
  have loop: "bind_loop net (rp # rps) ss t =
      (if fd = - 1 then bind_loop net rps ss t1
       else if r = 0 then (fd, ss\<lparr>sock_family := Some (ai_family rp)\<rparr>, t3)
       else bind_loop net rps ss t4)"
    by (simp add: syscall_eq Let_def r_def ts fd_def)
  consider "fd = - 1" | "fd \<noteq> - 1" "r = 0" | "fd \<noteq> - 1" "r \<noteq> 0" by blast
  then show ?case
  proof cases
    case 1
    obtain calls where "bind_result rps ss t1 (bind_loop net rps ss t1) calls" using Cons.IH by blast
    then have "bind_result (rp # rps) ss t (bind_loop net rps ss t1) ([(?sock, fd)] @ calls)"
      unfolding t1_def by (rule bind_result_step) (use 1 in \<open>auto simp: open_fds_snoc refused_def\<close>)
    then show ?thesis unfolding loop using 1 by auto
  next
    case 2
    have "0 \<le> fd \<and> fd \<notin> open_fds t" using new_socket [OF px, of t] 2(1) unfolding fd_def by blast
    then show ?thesis unfolding loop using 2
      by (intro exI [of _ "[(?sock, fd), (SetReuseAddr fd, net_reply net t1 (SetReuseAddr fd)), (Bind fd (ai_addr rp), r)]"])
         (simp add: bind_result_def ts open_fds_def fd_step_def bound_to_def)
  next
    case 3
    let ?cs = "[(?sock, fd), (SetReuseAddr fd, net_reply net t1 (SetReuseAddr fd)), (Bind fd (ai_addr rp), r),
      (Close fd, net_reply net t3 (Close fd))]"
    have t4: "t4 = t @ ?cs" by (simp add: ts)
    have new: "fd \<notin> open_fds t" using new_socket [OF px, of t] 3(1) unfolding fd_def by blast
    obtain calls where "bind_result rps ss t4 (bind_loop net rps ss t4) calls" using Cons.IH by blast
    then have "bind_result (rp # rps) ss t (bind_loop net rps ss t4) (?cs @ calls)"
      unfolding t4
    proof (rule bind_result_step)
      show "open_fds (t @ ?cs) = open_fds t" using new 3(1) by (simp add: open_fds_def fd_step_def)
      show "refused ?cs rp" using 3(2) by (auto simp: refused_def)
    qed auto
    then show ?thesis unfolding loop using 3 by auto
  qed
qed

lemma BindAndListen_unfold:
  "BindAndListen net family ss t =
     (let c = Getaddrinfo (decimal (unat (sock_port ss))) (listen_hints family);
          t1 = t @ [(c, net_reply net t c)] in
      if net_reply net t c \<noteq> 0 then (True, None, ss, t1)
      else
        (case bind_loop net (net_addresses net t1) ss t1 of (fd, ss', t2) \<Rightarrow>
          if fd \<le> 0 then (False, Some fd, ss', t2)
          else
            let l = net_reply net t2 (Listen fd); t3 = t2 @ [(Listen fd, l)] in
            if l \<noteq> 0 then
              let t4 = t3 @ [(Close fd, net_reply net t3 (Close fd))] in
              (False, Some fd, ss', t4 @ [(Freeaddrinfo, net_reply net t4 Freeaddrinfo)])
            else (True, Some fd, ss'\<lparr>listen_sock_fd := fd\<rparr>, t3 @ [(Freeaddrinfo, net_reply net t3 Freeaddrinfo)])))"
  by (simp add: BindAndListen_def syscall_eq Let_def split: prod.splits)

text \<open>
  C17: \<^verbatim>\<open>BindAndListen\<close> leaks no descriptor, whatever the system replies. Once \<^verbatim>\<open>getaddrinfo\<close> has given its
  list and the standard input is open, it returns \<^verbatim>\<open>true\<close> with exactly one more descriptor open than
  before, which is bound to an address of the list and has been made to listen; or it returns
  \<^verbatim>\<open>false\<close> with the same descriptors open as before, because every address was refused or \<^verbatim>\<open>listen\<close>
  failed. (In the first of these cases the list of the addresses is not freed.)
\<close>

theorem BindAndListen_correct:
  assumes "posix_net net" "0 \<in> open_fds t"
    and "c = Getaddrinfo (decimal (unat (sock_port ss))) (listen_hints family)" "net_reply net t c = 0"
    and "rps = net_addresses net (t @ [(c, 0)])"
  shows "\<exists>ok out ss' calls. BindAndListen net family ss t = (ok, out, ss', t @ (c, 0) # calls) \<and>
     (if ok then
        \<exists>fd. out = Some fd \<and> listen_sock_fd ss' = fd \<and> fd \<notin> open_fds t \<and>
          open_fds (t @ (c, 0) # calls) = insert fd (open_fds t) \<and>
          bound_to calls rps fd ss' \<and> (Listen fd, 0) \<in> set calls
      else
        listen_sock_fd ss' = listen_sock_fd ss \<and> open_fds (t @ (c, 0) # calls) = open_fds t \<and>
          ((\<forall>rp \<in> set rps. refused calls rp) \<and> Freeaddrinfo \<notin> fst ` set calls \<or>
           (\<exists>fd r. (Listen fd, r) \<in> set calls \<and> r \<noteq> 0)))"
proof -
  let ?t1 = "t @ [(c, 0)]"
  have fds: "open_fds ?t1 = open_fds t" by (simp add: open_fds_snoc assms(3))
  obtain fd ss' t2 where loop: "bind_loop net rps ss ?t1 = (fd, ss', t2)" by (cases "bind_loop net rps ss ?t1")
  obtain bs where b: "bind_result rps ss ?t1 (fd, ss', t2) bs"
    using bind_loop_result [OF assms(1), of rps ss ?t1] loop by auto
  define l where "l = net_reply net t2 (Listen fd)"
  have run: "BindAndListen net family ss t =
      (if fd \<le> 0 then (False, Some fd, ss', t2)
       else if l \<noteq> 0 then (let t3 = t2 @ [(Listen fd, l)]; t4 = t3 @ [(Close fd, net_reply net t3 (Close fd))] in
         (False, Some fd, ss', t4 @ [(Freeaddrinfo, net_reply net t4 Freeaddrinfo)]))
       else (let t3 = t2 @ [(Listen fd, l)] in
         (True, Some fd, ss'\<lparr>listen_sock_fd := fd\<rparr>, t3 @ [(Freeaddrinfo, net_reply net t3 Freeaddrinfo)])))"
    using loop assms(4) unfolding BindAndListen_unfold assms(3) [symmetric]
    by (simp add: assms(5) l_def Let_def)
  consider "fd = - 1" | "0 < fd" "l \<noteq> 0" | "0 < fd" "l = 0"
    using b assms(2) fds by (fastforce simp: bind_result_def split: if_splits)
  then show ?thesis
  proof cases
    case 1
    then show ?thesis unfolding run using b fds
      by (intro exI [of _ False] exI [of _ "Some fd"] exI [of _ ss'] exI [of _ bs]) (auto simp: bind_result_def)
  next
    case 2
    have new: "fd \<notin> open_fds t" and t2: "t2 = t @ (c, 0) # bs" "open_fds t2 = insert fd (open_fds t)"
      "listen_sock_fd ss' = listen_sock_fd ss"
      using b fds 2 by (auto simp: bind_result_def split: if_splits)
    define x where "x = net_reply net (t2 @ [(Listen fd, l)]) (Close fd)"
    define y where "y = net_reply net ((t2 @ [(Listen fd, l)]) @ [(Close fd, x)]) Freeaddrinfo"
    let ?cs = "[(Listen fd, l), (Close fd, x), (Freeaddrinfo, y)]"
    have r: "BindAndListen net family ss t = (False, Some fd, ss', t @ (c, 0) # (bs @ ?cs))"
      unfolding run using 2 t2(1) by (simp add: Let_def x_def y_def)
    have o: "open_fds (t @ (c, 0) # (bs @ ?cs)) = open_fds t"
      using t2(2) new unfolding t2(1) by (simp add: open_fds_def fd_step_def)
    have f: "\<exists>fd r. (Listen fd, r) \<in> set (bs @ ?cs) \<and> r \<noteq> 0" using 2(2) by auto
    show ?thesis
      by (rule exI [of _ False], rule exI [of _ "Some fd"], rule exI [of _ ss'], rule exI [of _ "bs @ ?cs"])
         (simp only: r o t2(3) f if_False simp_thms)
  next
    case 3
    have new: "fd \<notin> open_fds t" and t2: "t2 = t @ (c, 0) # bs" "open_fds t2 = insert fd (open_fds t)"
      and bd: "bound_to bs rps fd ss'"
      using b fds 3 by (auto simp: bind_result_def split: if_splits)
    define y where "y = net_reply net (t2 @ [(Listen fd, l)]) Freeaddrinfo"
    let ?cs = "[(Listen fd, l), (Freeaddrinfo, y)]"
    let ?ss = "ss'\<lparr>listen_sock_fd := fd\<rparr>"
    have r: "BindAndListen net family ss t = (True, Some fd, ?ss, t @ (c, 0) # (bs @ ?cs))"
      unfolding run using 3 t2(1) by (simp add: Let_def y_def)
    have o: "open_fds (t @ (c, 0) # (bs @ ?cs)) = insert fd (open_fds t)"
      using t2(2) unfolding t2(1) by (simp add: open_fds_def fd_step_def)
    have f: "bound_to (bs @ ?cs) rps fd ?ss" "(Listen fd, 0) \<in> set (bs @ ?cs)"
      using bd 3(2) by (auto simp: bound_to_def)
    show ?thesis
      by (rule exI [of _ True], rule exI [of _ "Some fd"], rule exI [of _ ?ss], rule exI [of _ "bs @ ?cs"],
          rule conjI [OF r], unfold if_True, rule exI [of _ fd], intro conjI o new f) simp_all
  qed
qed

section \<open>Accepting\<close>

text \<open>
  Whether the names of the client that was accepted with the last call can be looked up, and the task
  that is made of it. A failed \<^verbatim>\<open>accept\<close> makes no task.
\<close>

text \<open>
  The client accepted by the last call of a trace has an address of one of the two families, and its
  name is found.
\<close>

definition resolves :: "net \<Rightarrow> trace \<Rightarrow> bool" where
  "resolves net t \<longleftrightarrow>
     sa_family (net_peer net t) \<in> {AF_INET, AF_INET6} \<and> getnameinfo net t (net_peer net t) \<noteq> None"

text \<open>The task it should get: the address, port and name of the client, the address and name of the own end.\<close>

definition client_task :: "net \<Rightarrow> HttpServer \<Rightarrow> trace \<Rightarrow> HttpServerTask" where
  "client_task net hs t =
     (let peer = net_peer net t; own = getsockname net (snd (last t)) in
      \<lparr>client_fd = net_stream net t, cport = htons (sa_port peer),
       caddr = inet_ntop net (sa_family peer) peer, cdns = the (getnameinfo net t peer),
       saddr = inet_ntop net (sa_family peer) own,
       sdns = (case getnameinfo net t own of None \<Rightarrow> [] | Some n \<Rightarrow> n),
       task_basedir = staticfile_dirpath hs, task_indices = server_indices hs\<rparr>)"

lemma GetNetInfo_resolves:
  "fst (GetNetInfo net t (snd (last t)) (net_peer net t) info) \<longleftrightarrow> resolves net t"
  by (simp add: GetNetInfo_def resolves_def Let_def split: option.splits)

lemma new_task_client:
  assumes "resolves net t"
  shows "new_task net hs t (snd (GetNetInfo net t (snd (last t)) (net_peer net t) info)) = client_task net hs t"
  using assms
  by (auto simp: GetNetInfo_def resolves_def new_task_def client_task_def server_hostname_def Let_def)

primrec client_tasks :: "net \<Rightarrow> HttpServer \<Rightarrow> trace \<Rightarrow> trace \<Rightarrow> HttpServerTask list" where
  "client_tasks net hs t [] = []"
| "client_tasks net hs t (c # cs) =
     (if snd c < 0 then [] else [client_task net hs (t @ [c])]) @ client_tasks net hs (t @ [c]) cs"

primrec all_resolve :: "net \<Rightarrow> trace \<Rightarrow> trace \<Rightarrow> bool" where
  "all_resolve net t [] = True"
| "all_resolve net t (c # cs) \<longleftrightarrow> (snd c < 0 \<or> resolves net (t @ [c])) \<and> all_resolve net (t @ [c]) cs"

lemma client_tasks_append:
  "client_tasks net hs t (cs @ ds) = client_tasks net hs t cs @ client_tasks net hs (t @ cs) ds"
  by (induction cs arbitrary: t) auto

lemma all_resolve_append: "all_resolve net t (cs @ ds) \<longleftrightarrow> all_resolve net t cs \<and> all_resolve net (t @ cs) ds"
  by (induction cs arbitrary: t) auto

lemma client_tasks_failed: "\<forall>c \<in> set cs. snd c < 0 \<Longrightarrow> client_tasks net hs t cs = [] \<and> all_resolve net t cs"
  by (induction cs arbitrary: t) auto

lemma accept_again: "accept_again err"
  by (simp add: accept_again_def EAGAIN_def)

definition accepts_on :: "int \<Rightarrow> trace \<Rightarrow> bool" where
  "accepts_on fd cs \<longleftrightarrow> (\<forall>c \<in> set cs. fst c = Accept_call fd)"

definition failed_on :: "int \<Rightarrow> trace \<Rightarrow> bool" where
  "failed_on fd cs \<longleftrightarrow> accepts_on fd cs \<and> (\<forall>c \<in> set cs. snd c < 0)"

lemma accepts_on_simps [simp]:
  "accepts_on fd []" "accepts_on fd (c # cs) \<longleftrightarrow> fst c = Accept_call fd \<and> accepts_on fd cs"
  "accepts_on fd (cs @ ds) \<longleftrightarrow> accepts_on fd cs \<and> accepts_on fd ds"
  by (auto simp: accepts_on_def)

text \<open>The loop goes on after every failure, so a result is a descriptor.\<close>

lemma accept_calls_cases:
  "(\<exists>cs. accept_calls k net fd t = (None, t @ cs) \<and> failed_on fd cs \<and> length cs = k) \<or>
   (\<exists>cs r. accept_calls k net fd t = (Some r, t @ cs @ [(Accept_call fd, r)]) \<and> failed_on fd cs \<and> 0 \<le> r)"
proof (induction k arbitrary: t)
  case 0
  show ?case by (simp add: failed_on_def)
next
  case (Suc k)
  define r where "r = net_reply net t (Accept_call fd)"
  let ?t = "t @ [(Accept_call fd, r)]"
  have eq: "accept_calls (Suc k) net fd t = (if r < 0 then accept_calls k net fd ?t else (Some r, ?t))"
    by (simp add: syscall_eq r_def accept_again)
  show ?case
  proof (cases "r < 0")
    case False
    then show ?thesis unfolding eq
      by (intro disjI2 exI [of _ "[]"] exI [of _ r]) (simp add: failed_on_def)
  next
    case True
    have *: "failed_on fd ((Accept_call fd, r) # cs) \<longleftrightarrow> failed_on fd cs" for cs
      using True by (simp add: failed_on_def)
    from Suc.IH [of ?t] show ?thesis
    proof (elim disjE exE conjE)
      fix cs assume "accept_calls k net fd ?t = (None, ?t @ cs)" "failed_on fd cs" "length cs = k"
      then show ?thesis unfolding eq using True *
        by (intro disjI1 exI [of _ "(Accept_call fd, r) # cs"]) simp
    next
      fix cs r' assume "accept_calls k net fd ?t = (Some r', ?t @ cs @ [(Accept_call fd, r')])" "failed_on fd cs" "0 \<le> r'"
      then show ?thesis unfolding eq using True *
        by (intro disjI2 exI [of _ "(Accept_call fd, r) # cs"] exI [of _ r']) simp
    qed
  qed
qed

lemma Accept_cases:
  obtains (running) cs where "Accept k net ss empty_info t = (None, t @ cs)"
      "failed_on (listen_sock_fd ss) cs" "length cs = k"
  | (client) cs r info where "0 \<le> r" "failed_on (listen_sock_fd ss) cs"
      "Accept k net ss empty_info t =
         (Some (resolves net (t @ cs @ [(Accept_call (listen_sock_fd ss), r)]), r, info),
          t @ cs @ [(Accept_call (listen_sock_fd ss), r)])"
      "resolves net (t @ cs @ [(Accept_call (listen_sock_fd ss), r)]) \<Longrightarrow>
         new_task net hs (t @ cs @ [(Accept_call (listen_sock_fd ss), r)]) info
         = client_task net hs (t @ cs @ [(Accept_call (listen_sock_fd ss), r)])"
proof -
  let ?fd = "listen_sock_fd ss"
  from accept_calls_cases [of k net ?fd t] show ?thesis
  proof (elim disjE exE conjE)
    fix cs assume "accept_calls k net ?fd t = (None, t @ cs)" "failed_on ?fd cs" "length cs = k"
    then show ?thesis by (intro running) (simp_all add: Accept_def)
  next
    fix cs r assume a: "accept_calls k net ?fd t = (Some r, t @ cs @ [(Accept_call ?fd, r)])" "failed_on ?fd cs" "0 \<le> r"
    let ?t = "t @ cs @ [(Accept_call ?fd, r)]"
    have "snd (last ?t) = r" by simp
    note R = GetNetInfo_resolves [of net ?t empty_info, unfolded this]
      and T = new_task_client [of net ?t hs empty_info, unfolded this]
    show ?thesis
      by (rule client [OF a(3,2), of "snd (GetNetInfo net ?t r (net_peer net ?t) empty_info)"])
         (use a R T in \<open>simp_all add: Accept_def case_prod_beta\<close>)
  qed
qed

text \<open>What the loop of the server has done, in terms of the calls that it has made.\<close>

definition served :: "net \<Rightarrow> HttpServer \<Rightarrow> trace \<Rightarrow> trace \<Rightarrow> bool \<Rightarrow> HttpServerTask event list \<Rightarrow> bool" where
  "served net hs t calls ended events \<longleftrightarrow>
     accepts_on (listen_sock_fd (server_socket hs)) calls \<and>
     (if ended then
        \<exists>cs c. calls = cs @ [c] \<and> 0 \<le> snd c \<and> \<not> resolves net (t @ calls) \<and> all_resolve net t cs \<and>
          events = map CallDispatch (client_tasks net hs t cs) @ [CallDestroy]
      else all_resolve net t calls \<and> events = map CallDispatch (client_tasks net hs t calls))"

lemma served_after_failures:
  assumes "failed_on (listen_sock_fd (server_socket hs)) cs" "served net hs (t @ cs) calls ended events"
  shows "served net hs t (cs @ calls) ended events"
proof -
  from assms(1) have cs: "client_tasks net hs t cs = []" "all_resolve net t cs"
      "accepts_on (listen_sock_fd (server_socket hs)) cs"
    using client_tasks_failed [of cs net hs t] by (auto simp: failed_on_def)
  show ?thesis
  proof (cases ended)
    case False
    then show ?thesis using assms(2) cs by (simp add: served_def client_tasks_append all_resolve_append)
  next
    case True
    then obtain ds c where "calls = ds @ [c]" "0 \<le> snd c" "\<not> resolves net ((t @ cs) @ calls)" "all_resolve net (t @ cs) ds"
        "events = map CallDispatch (client_tasks net hs (t @ cs) ds) @ [CallDestroy]"
        "accepts_on (listen_sock_fd (server_socket hs)) calls"
      using assms(2) by (auto simp: served_def)
    then show ?thesis using True cs unfolding served_def
      by (auto simp: client_tasks_append all_resolve_append intro!: exI [of _ "cs @ ds"])
  qed
qed

lemma server_loop_serves:
  "\<exists>calls ended events. server_loop n k net hs t = (ended, events, t @ calls) \<and>
     served net hs t calls ended events \<and> (\<not> ended \<longrightarrow> min n k \<le> length calls)"
proof (induction n arbitrary: t)
  case 0
  show ?case by (intro exI [of _ "[]"] exI [of _ False]) (simp add: served_def)
next
  case (Suc n)
  let ?fd = "listen_sock_fd (server_socket hs)"
  show ?case
  proof (cases rule: Accept_cases [where k = k and net = net and ss = "server_socket hs" and t = t and hs = hs])
    case (running cs)
    then show ?thesis using client_tasks_failed [of cs net hs t]
      by (intro exI [of _ cs] exI [of _ False] exI [of _ "[]"]) (simp add: served_def failed_on_def)
  next
    case (client cs r info)
    let ?c = "(Accept_call ?fd, r)"
    let ?t = "t @ cs @ [?c]"
    show ?thesis
    proof (cases "resolves net ?t")
      case False
      have "served net hs (t @ cs) [?c] True [CallDestroy]"
        using False client(1) by (simp add: served_def)
      from served_after_failures [OF client(2) this] show ?thesis
        using client False by (intro exI [of _ "cs @ [?c]"] exI [of _ True] exI [of _ "[CallDestroy]"]) simp
    next
      case True
      obtain calls ended events where ih: "server_loop n k net hs ?t = (ended, events, ?t @ calls)"
          "served net hs ?t calls ended events" "\<not> ended \<longrightarrow> min n k \<le> length calls"
        using Suc.IH [of ?t] by auto
      let ?events = "CallDispatch (client_task net hs ?t) # events"
      have "served net hs (t @ cs) (?c # calls) ended ?events"
      proof (cases ended)
        case False
        then show ?thesis using ih(2) True client(1) by (simp add: served_def)
      next
        case fin: True
        then obtain ds c where d: "calls = ds @ [c]" "0 \<le> snd c" "\<not> resolves net (?t @ calls)" "all_resolve net ?t ds"
            "events = map CallDispatch (client_tasks net hs ?t ds) @ [CallDestroy]" "accepts_on ?fd calls"
          using ih(2) by (auto simp: served_def)
        then show ?thesis using fin True client(1) unfolding served_def
          by (auto intro!: exI [of _ "?c # ds"])
      qed
      from served_after_failures [OF client(2) this]
      have s: "served net hs t (cs @ ?c # calls) ended ?events" by simp
      have "\<not> ended \<longrightarrow> min (Suc n) k \<le> length (cs @ ?c # calls)" using ih(3) by auto
      with s show ?thesis using client True ih(1)
        by (intro exI [of _ "cs @ ?c # calls"] exI [of _ ended] exI [of _ ?events]) simp
    qed
  qed
qed

end
