(* ===== verification/HttpMainThms.thy ===== *)
theory HttpMainThms
  imports ServerSocketThms
begin

text \<open>
  Properties of the accept loop and of the main program of the web server, and a concrete system that
  the hypotheses of the properties hold for.
\<close>

section \<open>A concrete system\<close>

text \<open>Descriptors are numbered upwards; one address can be bound; the names of all clients are found.\<close>

definition fresh_fd :: "trace \<Rightarrow> int" where
  "fresh_fd t = 1 + foldr (\<lambda>e. max (snd e)) t 2"

definition demo_reply :: "trace \<Rightarrow> syscall \<Rightarrow> int" where
  "demo_reply t c = (case c of Socket _ _ _ \<Rightarrow> fresh_fd t | Accept_call _ \<Rightarrow> fresh_fd t | _ \<Rightarrow> 0)"

definition demo_sockaddr :: sockaddr where
  "demo_sockaddr = \<lparr>sa_family = AF_INET6, sa_port = 8080, sa_host = [0, 1]\<rparr>"

definition demo_net :: net where
  "demo_net = \<lparr>net_reply = demo_reply, net_errno = (\<lambda>_. 0),
     net_addresses = (\<lambda>_. [\<lparr>ai_flags = 0, ai_family = AF_INET6, ai_socktype = SOCK_STREAM,
       ai_protocol = IPPROTO_TCP, ai_addr = Some demo_sockaddr\<rparr>]),
     net_peer = (\<lambda>_. demo_sockaddr), net_stream = (\<lambda>_. \<lparr>incoming = [], accepting = [], sent = []\<rparr>),
     getsockname = (\<lambda>_. demo_sockaddr), inet_ntop = (\<lambda>_ _. ''::1''), getnameinfo = (\<lambda>_ _. Some ''client'')\<rparr>"

lemma open_fds_below: "x \<in> open_fds t \<Longrightarrow> x < fresh_fd t"
proof -
  have ge: "2 \<le> foldr (\<lambda>e. max (snd e)) t 2" "e \<in> set t \<Longrightarrow> snd e \<le> foldr (\<lambda>e. max (snd e)) t 2" for e :: "syscall \<times> int"
    by (induction t) auto
  have "x \<in> fold fd_step s fds \<Longrightarrow> x \<in> fds \<or> x \<in> snd ` set s" for s fds
  proof (induction s arbitrary: fds)
    case (Cons e s)
    have "fd_step e fds \<subseteq> insert (snd e) fds" by (auto simp: fd_step_def split: prod.splits syscall.splits if_splits)
    then show ?case using Cons by fastforce
  qed simp
  moreover assume "x \<in> open_fds t"
  ultimately have "x \<in> {0, 1, 2} \<union> snd ` set t" unfolding open_fds_def by blast
  then show ?thesis using ge by (fastforce simp: fresh_fd_def)
qed

lemma fresh_fd_pos: "0 < fresh_fd t"
  using open_fds_below [of 0 "[]"] by (induction t) (auto simp: fresh_fd_def open_fds_def)

lemma demo_posix: "posix_net demo_net"
proof -
  have "fresh_fd t \<notin> open_fds t" "0 \<le> fresh_fd t" for t
    using open_fds_below [of "fresh_fd t" t] fresh_fd_pos [of t] by auto
  then show ?thesis by (simp add: posix_net_def new_fd_def demo_net_def demo_reply_def)
qed

lemma BindAndListen_correct_witness:
  "\<exists>ok out ss' calls. BindAndListen demo_net AF_INET6 (new_ServerSocket 8080) []
       = (ok, out, ss', (Getaddrinfo ''8080'' (listen_hints AF_INET6), 0) # calls)"
proof -
  have d: "decimal 8080 = ''8080''" by (simp add: decimal.simps [of 8080] decimal.simps [of 808] decimal.simps [of 80] decimal.simps [of 8] char_of_def bit_0)
  let ?c = "Getaddrinfo ''8080'' (listen_hints AF_INET6)"
  have c: "?c = Getaddrinfo (decimal (unat (sock_port (new_ServerSocket 8080)))) (listen_hints AF_INET6)"
    by (simp add: d new_ServerSocket_def)
  have z: "net_reply demo_net [] ?c = 0" "0 \<in> open_fds []"
    by (simp_all add: demo_net_def demo_reply_def open_fds_def)
  from BindAndListen_correct [OF demo_posix z(2) c z(1) refl]
  show ?thesis by (elim exE conjE) (intro exI, simp only: append_Nil)
qed

section \<open>The accept loop\<close>

lemma client_tasks_socket: "client_tasks net (hs\<lparr>server_socket := s\<rparr>) t cs = client_tasks net hs t cs"
  by (induction cs arbitrary: t) (simp_all add: client_task_def Let_def)

definition run_status :: "bool \<Rightarrow> bool option" where
  "run_status ended = (if ended then Some True else None)"

lemma HttpServer_Run_loop:
  assumes "BindAndListen net AF_INET6 (server_socket hs) t = (True, out, sock, t0)"
  shows "\<exists>ended events calls msgs.
     HttpServer_Run n k net hs t = (run_status ended, events, msgs, hs\<lparr>server_socket := sock\<rparr>, t0 @ calls) \<and>
     served net (hs\<lparr>server_socket := sock\<rparr>) t0 calls ended events \<and> (\<not> ended \<longrightarrow> min n k \<le> length calls)"
proof -
  obtain calls ended events where l: "server_loop n k net (hs\<lparr>server_socket := sock\<rparr>) t0 = (ended, events, t0 @ calls)"
      "served net (hs\<lparr>server_socket := sock\<rparr>) t0 calls ended events" "\<not> ended \<longrightarrow> min n k \<le> length calls"
    using server_loop_serves by blast
  then show ?thesis using assms
    by (intro exI [of _ ended] exI [of _ events] exI [of _ calls]) (simp add: HttpServer_Run_def run_status_def Let_def)
qed

text \<open>
  C12: Once it listens, the server hands every client that is accepted to the thread pool, in the order
  of their arrival, with the address, port and name of the client and the address and name of its own
  end (an empty one if there is none); calls of \<^verbatim>\<open>accept\<close> that fail are repeated and change nothing. After
  any number of rounds it is still running, having made the calls that the bounds allow, unless the
  address of an accepted client is of an unknown family or its name could not be looked up: the first
  such client is not served, and the server ends. No other failure ends it.
\<close>

theorem HttpServer_Run_serves:
  assumes "BindAndListen net AF_INET6 (server_socket hs) t = (True, out, sock, t0)"
  shows "\<exists>status events msgs calls.
     HttpServer_Run n k net hs t = (status, events, msgs, hs\<lparr>server_socket := sock\<rparr>, t0 @ calls) \<and>
     accepts_on (listen_sock_fd sock) calls \<and>
     (case status of
        None \<Rightarrow>
          min n k \<le> length calls \<and> all_resolve net t0 calls \<and>
          events = map CallDispatch (client_tasks net hs t0 calls)
      | Some success \<Rightarrow>
          success \<and> (\<exists>cs c. calls = cs @ [c] \<and> 0 \<le> snd c \<and> \<not> resolves net (t0 @ calls) \<and>
            all_resolve net t0 cs \<and> events = map CallDispatch (client_tasks net hs t0 cs) @ [CallDestroy]))"
proof -
  obtain ended events calls msgs where
      r: "HttpServer_Run n k net hs t = (run_status ended, events, msgs, hs\<lparr>server_socket := sock\<rparr>, t0 @ calls)"
    and s: "served net (hs\<lparr>server_socket := sock\<rparr>) t0 calls ended events" "\<not> ended \<longrightarrow> min n k \<le> length calls"
    using HttpServer_Run_loop [OF assms] by blast
  show ?thesis
  proof (intro exI conjI)
    show "HttpServer_Run n k net hs t = (run_status ended, events, msgs, hs\<lparr>server_socket := sock\<rparr>, t0 @ calls)"
      by (rule r)
    show "accepts_on (listen_sock_fd sock) calls" using s(1) by (simp add: served_def)
    show "case run_status ended of
        None \<Rightarrow>
          min n k \<le> length calls \<and> all_resolve net t0 calls \<and>
          events = map CallDispatch (client_tasks net hs t0 calls)
      | Some success \<Rightarrow>
          success \<and> (\<exists>cs c. calls = cs @ [c] \<and> 0 \<le> snd c \<and> \<not> resolves net (t0 @ calls) \<and>
            all_resolve net t0 cs \<and> events = map CallDispatch (client_tasks net hs t0 cs) @ [CallDestroy])"
      using s by (cases ended) (auto simp: served_def run_status_def client_tasks_socket)
  qed
qed

definition demo_server :: HttpServer where
  "demo_server = new_HttpServer 8080 ''www'' [''x.idx'']"

lemma demo_listens:
  "\<exists>sock t0. BindAndListen demo_net AF_INET6 (server_socket demo_server) [] = (True, Some 3, sock, t0)"
  by (simp add: BindAndListen_def syscall_eq Let_def demo_net_def demo_reply_def fresh_fd_def demo_server_def
      new_HttpServer_def)

lemma HttpServer_Run_serves_witness:
  "\<exists>sock t0 status events msgs calls.
     BindAndListen demo_net AF_INET6 (server_socket demo_server) [] = (True, Some 3, sock, t0) \<and>
     HttpServer_Run 5 5 demo_net demo_server []
       = (status, events, msgs, demo_server\<lparr>server_socket := sock\<rparr>, t0 @ calls) \<and>
     accepts_on (listen_sock_fd sock) calls \<and> status = None \<and> 5 \<le> length calls \<and>
     events = map CallDispatch (client_tasks demo_net demo_server t0 calls)"
proof -
  obtain sock t0 where b: "BindAndListen demo_net AF_INET6 (server_socket demo_server) [] = (True, Some 3, sock, t0)"
    using demo_listens by blast
  have "resolves demo_net t" for t by (simp add: resolves_def demo_net_def demo_sockaddr_def)
  with HttpServer_Run_serves [OF b, of 5 5] b show ?thesis by (fastforce split: option.splits)
qed

text \<open>A failing \<^verbatim>\<open>accept\<close> is repeated for ever.\<close>

lemma accept_calls_fails:
  assumes "\<And>t. net_reply net t (Accept_call fd) < 0"
  shows "\<exists>cs. accept_calls k net fd t = (None, t @ cs) \<and> failed_on fd cs \<and> length cs = k"
proof (induction k arbitrary: t)
  case 0
  show ?case by (simp add: failed_on_def)
next
  case (Suc k)
  let ?c = "(Accept_call fd, net_reply net t (Accept_call fd))"
  obtain cs where "accept_calls k net fd (t @ [?c]) = (None, (t @ [?c]) @ cs)" "failed_on fd cs" "length cs = k"
    using Suc.IH by blast
  then show ?case using assms [of t]
    by (intro exI [of _ "?c # cs"]) (simp add: syscall_eq accept_again failed_on_def)
qed

lemma server_loop_deaf:
  assumes "\<And>t. net_reply net t (Accept_call (listen_sock_fd (server_socket hs))) < 0"
  shows "\<exists>cs. server_loop n k net hs t = (False, [], t @ cs) \<and>
     failed_on (listen_sock_fd (server_socket hs)) cs \<and> min n k \<le> length cs"
proof (cases n)
  case 0
  then show ?thesis by (simp add: failed_on_def)
next
  case (Suc n')
  obtain cs where "accept_calls k net (listen_sock_fd (server_socket hs)) t = (None, t @ cs)"
      "failed_on (listen_sock_fd (server_socket hs)) cs" "length cs = k"
    using accept_calls_fails [OF assms] by blast
  then show ?thesis using Suc by (intro exI [of _ cs]) (simp add: Accept_def)
qed

section \<open>The arguments\<close>

lemma decimal_digits: "decimal p \<noteq> [] \<and> (\<forall>c \<in> set (decimal p). isdigit c) \<and> digits_value (decimal p) = p"
proof (induction p rule: decimal.induct)
  case (1 n)
  have code: "code_of (char_of (48 + d)) = 48 + d" if "d < 10" for d :: nat
    using that by (simp add: code_of_def)
  show ?case
  proof (cases "n < 10")
    case True
    then show ?thesis by (simp add: decimal.simps [of n] isdigit_def digits_value_def code)
  next
    case False
    then have "decimal n = decimal (n div 10) @ [char_of (48 + n mod 10)]" by (simp add: decimal.simps [of n])
    then show ?thesis using 1 False code [of "n mod 10"] by (auto simp: isdigit_def digits_value_def)
  qed
qed

lemma sscanf_hu_decimal:
  assumes "p < 2 ^ 64"
  shows "sscanf_hu (decimal p) = Some (of_nat p)"
proof -
  obtain c s where d: "decimal p = c # s" using decimal_digits [of p] by (cases "decimal p") auto
  have dg: "isdigit x" if "x \<in> set (c # s)" for x using decimal_digits [of p] that unfolding d by blast
  have c: "\<not> isspace c" "c \<noteq> CHR ''-''" "c \<noteq> CHR ''+''"
    using dg [of c] by (auto simp: isdigit_def isspace_def code_of_def)
  have "takeWhile isdigit (c # s) = c # s" using dg by (intro takeWhile_eq_all_conv [THEN iffD2]) blast
  moreover have "digits_value (c # s) = p" using decimal_digits [of p] unfolding d by blast
  moreover have "(ucast (of_nat p :: u64) :: u16) = of_nat p" by (transfer, simp)
  ultimately show ?thesis using c assms unfolding d sscanf_hu_def by (simp add: Let_def)
qed

lemma GetPortAndPath_decimal:
  assumes "p < 2 ^ 64" "stat_mode fs dir = Some mode" "filter (ifstream_good fs) idx \<noteq> []"
  shows "GetPortAndPath fs (prog # decimal p # dir # idx) =
     (if p mod 65536 < 1024 then None else Some (of_nat p, dir, filter (ifstream_good fs) idx))"
proof -
  have len: "idx \<noteq> []" using assms(3) by auto
  have less: "(of_nat p :: u16) < 1024 \<longleftrightarrow> p mod 65536 < 1024"
    by (simp add: word_less_nat_alt unsigned_of_nat take_bit_eq_mod)
  have dir: "c_not mode AND S_IFDIR = 0" by (simp add: c_not_def S_IFDIR_def)
  show ?thesis using len assms(2,3) dir
    by (cases idx) (simp_all add: GetPortAndPath_def sscanf_hu_decimal [OF assms(1)] less Let_def)
qed

section \<open>The main program\<close>

definition serves_from :: "string \<Rightarrow> string list \<Rightarrow> HttpServerTask event list \<Rightarrow> bool" where
  "serves_from dir idx events \<longleftrightarrow>
     (\<forall>hst. CallDispatch hst \<in> set events \<longrightarrow> task_basedir hst = dir \<and> task_indices hst = idx)"

lemma server_loop_serves_from:
  "serves_from (staticfile_dirpath hs) (server_indices hs) (fst (snd (server_loop n k net hs t)))"
proof (induction n arbitrary: t)
  case (Suc n)
  obtain r t' where a: "Accept k net (server_socket hs) empty_info t = (r, t')" by fastforce
  obtain b es t'' where l: "server_loop n k net hs t' = (b, es, t'')" by (cases "server_loop n k net hs t'")
  have "serves_from (staticfile_dirpath hs) (server_indices hs) es" using Suc.IH [of t'] l by simp
  then show ?case using l by (cases r) (auto simp: a serves_from_def new_task_def split: prod.splits)
qed (simp add: serves_from_def)

lemma BindAndListen_first_call:
  obtains ok out s calls where "BindAndListen net family ss t =
     (ok, out, s, t @ (Getaddrinfo (decimal (unat (sock_port ss))) (listen_hints family),
       net_reply net t (Getaddrinfo (decimal (unat (sock_port ss))) (listen_hints family))) # calls)"
proof -
  have grow: "\<exists>cs. snd (snd (bind_loop net rps ss t)) = t @ cs" for rps t
  proof (induction rps arbitrary: t)
    case (Cons rp rps)
    have "\<exists>cs. snd (snd (bind_loop net rps ss (t @ xs))) = t @ cs" for xs
      using Cons.IH [of "t @ xs"] by auto
    then show ?case by (simp add: syscall_eq Let_def)
  qed simp
  let ?c = "Getaddrinfo (decimal (unat (sock_port ss))) (listen_hints family)"
  let ?t1 = "t @ [(?c, net_reply net t ?c)]"
  obtain fd s t2 where l: "bind_loop net (net_addresses net ?t1) ss ?t1 = (fd, s, t2)"
    by (cases "bind_loop net (net_addresses net ?t1) ss ?t1")
  obtain cs where "t2 = ?t1 @ cs" using grow [of "net_addresses net ?t1" ?t1] l by auto
  then have "\<exists>ok out s calls. BindAndListen net family ss t = (ok, out, s, t @ (?c, net_reply net t ?c) # calls)"
    unfolding BindAndListen_unfold Let_def using l by (cases "net_reply net t ?c = 0") auto
  then show ?thesis using that by blast
qed

lemma HttpServer_Run_first_call:
  "\<exists>status events msgs hs' calls. HttpServer_Run n k net hs [] =
     (status, events, msgs, hs', (Getaddrinfo (decimal (unat (sock_port (server_socket hs)))) (listen_hints AF_INET6),
        net_reply net [] (Getaddrinfo (decimal (unat (sock_port (server_socket hs)))) (listen_hints AF_INET6))) # calls) \<and>
     serves_from (staticfile_dirpath hs) (server_indices hs) events"
proof -
  let ?c = "Getaddrinfo (decimal (unat (sock_port (server_socket hs)))) (listen_hints AF_INET6)"
  obtain ok out s calls where b: "BindAndListen net AF_INET6 (server_socket hs) [] = (ok, out, s, (?c, net_reply net [] ?c) # calls)"
    by (rule BindAndListen_first_call [where net = net and family = AF_INET6 and ss = "server_socket hs" and t = "[]",
          unfolded append_Nil])
  let ?hs = "hs\<lparr>server_socket := s\<rparr>"
  obtain calls' ended events where l: "server_loop n k net ?hs ((?c, net_reply net [] ?c) # calls)
       = (ended, events, ((?c, net_reply net [] ?c) # calls) @ calls')"
    using server_loop_serves by blast
  have "serves_from (staticfile_dirpath hs) (server_indices hs) events"
    using server_loop_serves_from [of ?hs n k net "(?c, net_reply net [] ?c) # calls"] l by simp
  moreover have "serves_from dir idx []" for dir idx by (simp add: serves_from_def)
  ultimately show ?thesis using b l by (cases ok) (simp_all add: HttpServer_Run_def Let_def)
qed

text \<open>
  C18: The arguments of \<^verbatim>\<open>http333d\<close> are used as they are given, with two exceptions. A decimal port number
  is taken modulo 65536; if the result is below 1024 the program prints its usage and ends without a
  system call, otherwise it announces this port and directory and asks the system first of all for the
  addresses of this port. The index files that cannot be read are left out silently, and every client is
  served from the given directory and the remaining ones. Whether the directory is one is not found
  out: any mode that \<^verbatim>\<open>stat\<close> gives is accepted.
\<close>

theorem http333d_arguments:
  assumes "p < 2 ^ 64" "stat_mode fs dir = Some mode" "good = filter (ifstream_good fs) idx" "good \<noteq> []"
  shows "if p mod 65536 < 1024 then
       http333d_main n k fs net (prog # decimal p # dir # idx) = (Some EXIT_FAILURE, [], welcome_lines, [])
     else
       \<exists>status events msgs r calls. http333d_main n k fs net (prog # decimal p # dir # idx) =
         (status, events,
          welcome_lines @ [''    port: '' @ decimal (p mod 65536), ''    path: '' @ dir] @ msgs,
          (Getaddrinfo (decimal (p mod 65536)) (listen_hints AF_INET6), r) # calls) \<and>
         serves_from dir good events"
proof (cases "p mod 65536 < 1024")
  case True
  then show ?thesis using assms by (simp add: http333d_main_def GetPortAndPath_decimal)
next
  case False
  have u: "unat (of_nat p :: u16) = p mod 65536" by (simp add: unsigned_of_nat take_bit_eq_mod)
  let ?hs = "new_HttpServer (of_nat p) dir good"
  have hs: "sock_port (server_socket ?hs) = of_nat p" "staticfile_dirpath ?hs = dir" "server_indices ?hs = good"
    by (simp_all add: new_HttpServer_def new_ServerSocket_def)
  obtain status events msgs hs' calls r where run: "HttpServer_Run n k net ?hs [] =
       (status, events, msgs, hs', (Getaddrinfo (decimal (p mod 65536)) (listen_hints AF_INET6), r) # calls)"
      "serves_from dir good events"
    using HttpServer_Run_first_call [of n k net ?hs] unfolding hs u by blast
  have "GetPortAndPath fs (prog # decimal p # dir # idx) = Some (of_nat p, dir, good)"
    using GetPortAndPath_decimal [OF assms(1,2), of idx prog] assms(3,4) False by simp
  then show ?thesis using False run
    by (cases status) (simp_all add: http333d_main_def u delete_ServerSocket_def syscall_eq Let_def)
qed

text \<open>The files of a call, of which one index cannot be read; the port number does not fit into 16 bits.\<close>

definition demo_files :: arg_files where
  "demo_files = \<lparr>stat_mode = (\<lambda>_. Some 0x41ED), ifstream_good = (\<lambda>s. s = ''x.idx'')\<rparr>"

lemma http333d_arguments_witness:
  "\<exists>status events msgs r calls.
     http333d_main 5 5 demo_files demo_net [''http333d'', decimal 66616, ''www'', ''none.idx'', ''x.idx''] =
       (status, events, welcome_lines @ [''    port: '' @ decimal 1080, ''    path: www''] @ msgs,
        (Getaddrinfo (decimal 1080) (listen_hints AF_INET6), r) # calls) \<and>
     serves_from ''www'' [''x.idx''] events"
proof -
  have f: "(66616 :: nat) < 2 ^ 64" "stat_mode demo_files ''www'' = Some 0x41ED"
    "[''x.idx''] = filter (ifstream_good demo_files) [''none.idx'', ''x.idx'']" "[''x.idx''] \<noteq> []"
    by (simp_all add: demo_files_def)
  have q: "(66616 :: nat) mod 65536 = 1080" "\<not> (1080 :: nat) < 1024" by simp_all
  from http333d_arguments [OF f, where n = 5 and k = 5 and net = demo_net and prog = "''http333d''"]
  show ?thesis unfolding q(1) if_not_P [OF q(2)] append_Cons append_Nil .
qed

text \<open>
  C19: A server that cannot look up its own port does not notice it and never ends: when \<^verbatim>\<open>getaddrinfo\<close>
  fails, \<^verbatim>\<open>BindAndListen\<close> reports success without a socket, and the main program calls \<^verbatim>\<open>accept\<close> on
  descriptor -1 again and again. After any number of calls it is still running, has served nobody and
  has done nothing else.
\<close>

theorem http333d_deaf:
  assumes "GetPortAndPath fs argv = Some (port, dir, idx)"
    and "net_reply net [] (Getaddrinfo (decimal (unat port)) (listen_hints AF_INET6)) \<noteq> 0"
    and "\<And>t. net_reply net t (Accept_call (- 1)) < 0"
  shows "\<exists>msgs c calls. http333d_main n k fs net argv = (None, [], msgs, c # calls) \<and>
     failed_on (- 1) calls \<and> min n k \<le> length calls"
proof -
  let ?hs = "new_HttpServer port dir idx"
  let ?c = "Getaddrinfo (decimal (unat port)) (listen_hints AF_INET6)"
  have fd: "listen_sock_fd (server_socket ?hs) = - 1" "sock_port (server_socket ?hs) = port"
    by (simp_all add: new_HttpServer_def new_ServerSocket_def)
  have b: "BindAndListen net AF_INET6 (server_socket ?hs) [] = (True, None, server_socket ?hs, [(?c, net_reply net [] ?c)])"
    using assms(2) by (simp add: BindAndListen_unfold Let_def fd(2))
  obtain calls where "server_loop n k net ?hs [(?c, net_reply net [] ?c)] = (False, [], [(?c, net_reply net [] ?c)] @ calls)"
      "failed_on (- 1) calls" "min n k \<le> length calls"
    using server_loop_deaf [of net ?hs n k "[(?c, net_reply net [] ?c)]"] assms(3) unfolding fd(1) by blast
  then show ?thesis using assms(1) b by (simp add: http333d_main_def HttpServer_Run_def Let_def)
qed

definition deaf_net :: net where
  "deaf_net = demo_net\<lparr>net_reply := \<lambda>t c. case c of Getaddrinfo _ _ \<Rightarrow> - 2 | _ \<Rightarrow> - 1\<rparr>"

lemma http333d_deaf_witness:
  "\<exists>msgs c calls. http333d_main 9 9 demo_files deaf_net [''http333d'', decimal 8080, ''www'', ''x.idx''] = (None, [], msgs, c # calls) \<and>
     failed_on (- 1) calls \<and> 9 \<le> length calls"
proof -
  have a: "GetPortAndPath demo_files [''http333d'', decimal 8080, ''www'', ''x.idx''] = Some (of_nat 8080, ''www'', [''x.idx''])"
    using GetPortAndPath_decimal [where p = 8080 and fs = demo_files and dir = "''www''" and idx = "[''x.idx'']"] by (simp add: demo_files_def)
  show ?thesis
    using http333d_deaf [OF a, where net = deaf_net and n = 9 and k = 9] by (simp add: deaf_net_def)
qed

end
