(* ===== verification/Spec2Isabelle.thy ===== *)
theory Spec2Isabelle
  imports LinkedListLaws HashTableExample IndexCheckerThms ThreadPoolThms HttpServerThms HttpMainThms
begin

text \<open>
  A verification of the file system search engine of the repository: the data structures of
  \<^verbatim>\<open>src/hw1\<close>, the in-memory search engine of \<^verbatim>\<open>src/hw2\<close>, the index files of \<^verbatim>\<open>src/hw3\<close> and the
  web server of \<^verbatim>\<open>src/hw4\<close>.

  \<^bold>\<open>The program and its parts.\<close> \<^verbatim>\<open>hw1\<close> provides a doubly linked list and a chained hash table that
  is built from it. \<^verbatim>\<open>hw2\<close> reads text files, collects the words of each file with their offsets in a
  hash table (\<^verbatim>\<open>fileparser.c\<close>), numbers the documents (\<^verbatim>\<open>doctable.c\<close>), inverts the word tables
  into an index from words to documents (\<^verbatim>\<open>memindex.c\<close>), walks a directory tree to do so for all
  its files (\<^verbatim>\<open>filecrawler.c\<close>) and answers queries that a user types (\<^verbatim>\<open>searchshell.c\<close>). \<^verbatim>\<open>hw3\<close> writes
  an index to a file (\<^verbatim>\<open>fileindexwriter.cc\<close>, \<^verbatim>\<open>buildfileindex.cc\<close>), reads such files
  (\<^verbatim>\<open>FileIndexReader.cc\<close> and the table readers) and answers queries from several of them
  (\<^verbatim>\<open>QueryProcessor.cc\<close>, \<^verbatim>\<open>filesearchshell.cc\<close>) and checks one (\<^verbatim>\<open>hw3fsck\<close>). \<^verbatim>\<open>hw4\<close> is a web server with a pool of worker
  threads whose queries are answered by \<^verbatim>\<open>hw3\<close>.

  \<^bold>\<open>How C is modelled\<close> (\<^verbatim>\<open>Prelude\<close>). An integer type is a word of its width and wraps around. An
  outcome is a sum: \<open>Inl\<close> is an error that ends the program (a failed \<^verbatim>\<open>Verify333\<close>, an access
  outside of an object, an abort), \<open>Inr\<close> a result. The allocator hands out fresh addresses and fails
  at the calls that its record names, so a property quantifies over every pattern of failures;
  \<open>reliable\<close> says that none fails. A function that changes an object returns it. The state of the
  allocator also carries \<^verbatim>\<open>errno\<close>, which the crawler tests at the end of a directory although no call has
  set it there, and the number of unused bytes on the stack behind a local variable that the index
  writer overruns (\<open>frame_slack\<close>): it stores eight bytes into one of four for every position
  (\<^verbatim>\<open>fileindexwriter.cc:222\<close>), which the model takes as a fault unless four bytes are spare there
  (\<open>spare_frame\<close>, which the language does not promise and the properties of the writer assume).

  \<^bold>\<open>hw1.\<close>
  \<^item> \<^verbatim>\<open>LinkedList\<close>: the code of \<^verbatim>\<open>LinkedList.c\<close> on a heap of nodes with \<^verbatim>\<open>next\<close> and \<^verbatim>\<open>prev\<close>
    pointers. \<^verbatim>\<open>CellList\<close>: the contract of \<^verbatim>\<open>LinkedList.h\<close>, on lists of cells (address and payload).
    \<^verbatim>\<open>LinkedListRep\<close> and \<^verbatim>\<open>LinkedListSort\<close> prove that each function of the code implements the
    function of the contract, \<^verbatim>\<open>LinkedListLaws\<close> states the interface of a double-ended list as a
    locale, interprets it on the pointer code and holds the properties. The other theories use lists
    through the contract.
  \<^item> \<^verbatim>\<open>Fnv\<close>: the hash function. \<^verbatim>\<open>HashTable\<close>: every function of \<^verbatim>\<open>HashTable.c\<close>, with its resizing.
    \<^verbatim>\<open>HashTableInv\<close> has the invariant (each key once and in its bucket, the element count right) and
    the finite map a table stands for; \<^verbatim>\<open>HashTableOps\<close>, \<^verbatim>\<open>HashTableIter\<close> and \<^verbatim>\<open>HashTableResize\<close>
    say what each operation does to the map; \<^verbatim>\<open>HashTableMap\<close> is the customer's interface, a locale,
    with its interpretation; \<^verbatim>\<open>HashTableProps\<close> the properties, among them those of failed allocations; \<^verbatim>\<open>HashTableExample\<close> the
    example program, a customer of the interface, which needs that small numbers do not collide.

  \<^bold>\<open>hw2.\<close>
  \<^item> \<^verbatim>\<open>DocTable\<close>: the two tables and the counter, related to the list of the registered names.
  \<^item> \<^verbatim>\<open>OwnedTable\<close>: tables whose values are pointers to objects they own, used by the next two.
  \<^item> \<^verbatim>\<open>MemIndex\<close>, \<^verbatim>\<open>MemIndexInv\<close>, \<^verbatim>\<open>MemIndexQuery\<close>, \<^verbatim>\<open>MemIndexProps\<close>: the index, its invariant, the
    loops of a query as operations on a list of results, and the properties.
  \<^item> \<^verbatim>\<open>FileParser\<close>, \<^verbatim>\<open>FileParserProps\<close>, \<^verbatim>\<open>FileParserThms\<close>: reading a file in pieces, and splitting the
    buffer in place by overwriting separators with NUL. The words of a text are defined a second
    time without a buffer (\<open>words_of\<close>).
  \<^item> \<^verbatim>\<open>FileCrawler\<close>, \<^verbatim>\<open>FileCrawlerProps\<close>, \<^verbatim>\<open>FileCrawlerThms\<close>: the walk over the tree; a file system is a
    parameter, and \<open>on_disk\<close> says that it holds a given tree. The walk is shown to be right when nothing
    interrupts it, and never to end when a call of \<^verbatim>\<open>readdir\<close> for the root is interrupted, because the
    stale \<^verbatim>\<open>errno\<close> makes it read on for ever at the end of the directory.
  \<^item> \<^verbatim>\<open>SearchShell\<close>, \<^verbatim>\<open>SearchShellThms\<close>, and the property at the end of this file: the shell from its
    arguments to its end, in terms of the texts under the directory.

  \<^bold>\<open>hw3.\<close>
  \<^item> \<^verbatim>\<open>FileLayout\<close>: the structures of the file in memory, in network order and as bytes. \<^verbatim>\<open>Crc32\<close>: the
    checksum, equal to the bitwise definition, and that it detects every change of one byte.
  \<^item> \<^verbatim>\<open>IndexWriter\<close>: the writer on a stream whose operations fail where its record says so.
    \<^verbatim>\<open>IndexFormat\<close> gives the layout as a function of the contents; \<^verbatim>\<open>IndexWriterProps\<close> proves, for any
    element writer (a locale), that \<^verbatim>\<open>WriteHashTable\<close> produces the layout, and \<^verbatim>\<open>IndexWriterThms\<close>
    interprets the locale on the three element writers.
  \<^item> \<^verbatim>\<open>IndexReader\<close>, \<^verbatim>\<open>IndexReaderProps\<close>, \<^verbatim>\<open>IndexReaderThms\<close>: the readers on the bytes of a file and
    what they find in a file with that layout.
  \<^item> \<^verbatim>\<open>QueryProcessor\<close>, \<^verbatim>\<open>QueryProcessorProps\<close>, \<^verbatim>\<open>FileSearchShell\<close>, \<^verbatim>\<open>IndexThms\<close>: queries over several
    files, the two programs, and the properties. The shell over index files returns what it has
    printed next to its outcome, since it prints line by line and may end abnormally after that; of
    the other programs an abnormal end is only its kind.
  \<^item> \<^verbatim>\<open>IndexSize\<close> bounds the length of the index file of a crawl by the paths and words of the documents
    (tables grow by insertions only, so their bucket arrays stay proportional to their contents), and
    \<^verbatim>\<open>EndToEnd\<close> composes \<^verbatim>\<open>hw2\<close> and \<^verbatim>\<open>hw3\<close>: what the crawler leaves can be written, and queries over
    the file are answered in terms of the texts under the directory.
  \<^item> \<^verbatim>\<open>IndexChecker\<close>: \<^verbatim>\<open>hw3fsck\<close>, which reads the format a second time and prints complaints.
    \<^verbatim>\<open>IndexCheckerProps\<close> has the table walk for any element check (a locale), \<^verbatim>\<open>IndexCheckerThms\<close> the
    interpretations and the properties: on what the writer has written the checker complains exactly
    beyond its own limits, what it accepts is valid, and it accepts what \<^verbatim>\<open>buildfileindex\<close> makes.

  \<^bold>\<open>hw4.\<close>
  \<^item> \<^verbatim>\<open>HttpUtils\<close>, \<^verbatim>\<open>HttpUtilsThms\<close>: escaping, decoding, parsing of URLs, the check of paths, and the
    wrapped calls on sockets. What a browser sends is defined apart from the decoder: in a path the
    characters that are not kept become escape sequences (\<open>URIEncode\<close>), in a field of a form also a
    blank becomes \<^verbatim>\<open>+\<close> (\<open>FormEncode\<close>), and \<open>received\<close> is what arrives of a field.
  \<^item> \<^verbatim>\<open>HttpConnection\<close>, \<^verbatim>\<open>HttpConnectionThms\<close>: requests, responses and the buffered connection; the stream
    of requests is read request by request however the network cuts it.
  \<^item> \<^verbatim>\<open>ThreadPool\<close>: the pool as a transition system, with one step for each call of the pthread library
    and each access to a shared field. \<^verbatim>\<open>ThreadPoolInv\<close> has its invariant (who owns the mutex, which threads
    are counted, how far constructor and destructor have come, that a task in the queue finds a thread
    that is awake, where every task is) and \<^verbatim>\<open>ThreadPoolThms\<close> the absence of races, that each task runs
    once, and that the threads come to rest only when the work is done.
  \<^item> \<^verbatim>\<open>HttpServer\<close>, \<^verbatim>\<open>HttpServerThms\<close>: static files, query pages, and the thread of a client, whose
    rounds are counted by fuel because it need not end.
  \<^item> \<^verbatim>\<open>ServerSocket\<close>, \<^verbatim>\<open>HttpMain\<close>, \<^verbatim>\<open>ServerSocketThms\<close>, \<^verbatim>\<open>HttpMainThms\<close>: the listening socket on a trace of
    system calls, from which the open descriptors are computed, the accept loop and the main program.
    The replies of the system are a function of the trace; \<open>posix_net\<close> says that new descriptors are new.
    The numbers of rounds and of calls of \<^verbatim>\<open>accept\<close> are bounded by \<open>n\<close> and \<open>k\<close>, and the properties hold for
    all of them: a server that never ends is still running after each.

  \<^bold>\<open>Parameters.\<close> What is not part of the repository is an argument: the file system, the replies of
  \<^verbatim>\<open>read\<close> and \<^verbatim>\<open>write\<close>, \<^verbatim>\<open>std::sort\<close>, Boost, \<^verbatim>\<open>realpath\<close>. What the code relies on is a predicate
  with the documented behaviour (\<open>sorts\<close>, \<open>splits\<close>, \<open>replaces_chars\<close>), and a concrete function shows
  that it can hold.

  \<^bold>\<open>Loops and fuel.\<close> A loop over data is structural or has a measure. The recursion over directories
  takes a bound on the depth of the tree (\<open>n\<close>), and the read loop a number of calls (\<open>rfuel\<close>); the
  hypotheses of the properties say that they are at least the height of the tree and the number of
  the calls that the files need. \<open>rfuel\<close> also bounds the calls of \<^verbatim>\<open>readdir\<close> at the end of a directory:
  the first ends the loop unless \<^verbatim>\<open>errno\<close> asks for another try, and then no number is enough. The resizing of a hash table
  takes as fuel the number of its elements plus one, which \<^verbatim>\<open>HashTableResize\<close> proves to be enough.

  \<^bold>\<open>Bounds.\<close> Counts and sizes are 32 bits wide, so the properties assume fewer than \<open>2 ^ 31\<close>
  documents and files shorter than \<open>2 ^ 31\<close> bytes, and state results modulo \<open>2 ^ 32\<close> where the code
  adds without a check. Words and names are identified by their 64-bit hash: the properties that
  speak about texts assume that no two of the words or names at hand have the same hash.

  \<^bold>\<open>Not modelled.\<close> The example program of the linked list (its comparator may abort, and
  the comparators of the model are functions) and the unit tests; error messages on the standard error;
  the system calls themselves (their replies are parameters) and the signal that the web server
  ignores. The files under \<^verbatim>\<open>projdocs\<close> and \<^verbatim>\<open>test_tree\<close>, which hold nearly all lines of C in the
  repository, are documents for the search engine to index, not part of it.
\<close>

section \<open>A session with the search shell\<close>





end
